(* ===== verification/Prelude.thy ===== *)
theory Prelude
  imports Main "HOL-Library.AList" "HOL-Library.Char_ord" "HOL-Library.List_Lexorder"
begin

section \<open>Shared vocabulary of the development\<close>

text \<open>
  This theory holds what every component model shares.

  \<^item> \<open>outcome\<close>: the result of running a Rust function. \<open>Ok\<close> and \<open>Err\<close> are the two
    constructors of \<open>Result\<close>, \<open>Panic\<close> is a failed \<open>assert!\<close>, \<open>unwrap\<close>, \<open>expect\<close> or
    indexing operation, \<open>OutOfFuel\<close> is a recursion that was cut off by the model's depth bound
    (each function with a bound has a lemma that its callers pass enough). \<open>obind\<close> is the
    \<open>?\<close> operator, \<open>ofold\<close> a \<open>for\<close> loop whose body may return early, and \<open>owp\<close> the
    total-correctness predicate that the component lemmas are stated with. \<open>oall\<close> is a
    conjunction of fallible tests that stops at the first false one.
  \<^item> \<open>uadd w checks\<close>: addition of unsigned machine integers of \<open>w\<close> bits, which panics on
    overflow in a build with overflow checks and wraps around in the others.
  \<^item> \<open>om_*\<close>: \<open>BTreeMap\<close> and \<open>im_rc::OrdMap\<close> as key-sorted association lists;
    \<open>hm_*\<close>: \<open>HashMap\<close> as an association list with distinct keys, whose order stands for
    the unspecified iteration order. Both interpret the interface \<open>finite_map\<close>.
  \<^item> the parts of \<open>str\<close> that the sources use (\<open>strip_prefix\<close>, \<open>strip_suffix\<close>,
    \<open>split_once\<close>, \<open>split\<close>, \<open>contains\<close>).
  \<^item> reachability over a successor function, the specification of the graph algorithms.
\<close>

named_theorems owp_intros \<open>introduction rules for total correctness of outcomes\<close>
named_theorems map_laws \<open>lookup laws of the map models\<close>

subsection \<open>Outcomes of fallible code\<close>

datatype ('e, 'a) outcome = Ok 'a | Err 'e | Panic | OutOfFuel

fun obind :: "('e, 'a) outcome \<Rightarrow> ('a \<Rightarrow> ('e, 'b) outcome) \<Rightarrow> ('e, 'b) outcome" where
  "obind (Ok a) f = f a"
| "obind (Err e) f = Err e"
| "obind Panic f = Panic"
| "obind OutOfFuel f = OutOfFuel"

fun ofold :: "('x \<Rightarrow> 's \<Rightarrow> ('e, 's) outcome) \<Rightarrow> 'x list \<Rightarrow> 's \<Rightarrow> ('e, 's) outcome" where
  "ofold f [] s = Ok s"
| "ofold f (x # xs) s = obind (f x s) (ofold f xs)"

text \<open>
  \<open>owp p r Q E\<close>: the run ended with an \<open>Ok\<close> value that satisfies \<open>Q\<close> or an error that
  satisfies \<open>E\<close>; it panicked only if \<open>p\<close> allows it, and it was not cut off.
\<close>

fun owp :: "bool \<Rightarrow> ('e, 'a) outcome \<Rightarrow> ('a \<Rightarrow> bool) \<Rightarrow> ('e \<Rightarrow> bool) \<Rightarrow> bool" where
  "owp p (Ok a) Q E = Q a"
| "owp p (Err e) Q E = E e"
| "owp p Panic Q E = p"
| "owp p OutOfFuel Q E = False"

lemma owp_mono:
  assumes "owp p r Q E" and "\<And>a. r = Ok a \<Longrightarrow> Q a \<Longrightarrow> Q' a" and "\<And>e. r = Err e \<Longrightarrow> E e \<Longrightarrow> E' e"
  shows "owp p r Q' E'"
  using assms by (cases r) auto

lemma owp_panic_mono: "owp p r Q E \<Longrightarrow> (p \<Longrightarrow> p') \<Longrightarrow> owp p' r Q E"
  by (cases r) simp_all

lemma owp_bind [owp_intros]:
  "owp p r (\<lambda>a. owp p (f a) Q E) E \<Longrightarrow> owp p (obind r f) Q E"
  by (cases r) auto

lemma owp_Ok_iff: "owp False r Q (\<lambda>_. False) \<longleftrightarrow> (\<exists>a. r = Ok a \<and> Q a)"
  by (cases r) auto

lemma owp_not_panic: "owp False r Q E \<Longrightarrow> r \<noteq> Panic"
  by auto

lemma owp_not_fuel: "owp p r Q E \<Longrightarrow> r \<noteq> OutOfFuel"
  by auto

lemma obind_Ok_iff [simp]: "obind r f = Ok b \<longleftrightarrow> (\<exists>a. r = Ok a \<and> f a = Ok b)"
  by (cases r) auto

lemma obind_assoc: "obind (obind r f) g = obind r (\<lambda>a. obind (f a) g)"
  by (cases r) auto

text \<open>The loop rule: an invariant over the elements still to come and the state.\<close>

lemma owp_ofold:
  assumes "I xs s"
    and "\<And>x ys s. I (x # ys) s \<Longrightarrow> x \<in> set xs \<Longrightarrow> owp p (f x s) (I ys) E"
  shows "owp p (ofold f xs s) (I []) E"
  using assms
proof (induction xs arbitrary: s)
  case Nil
  then show ?case by simp
next
  case (Cons x xs)
  have "owp p (f x s) (I xs) E"
    using Cons.prems by simp
  then have "owp p (f x s) (\<lambda>t. owp p (ofold f xs t) (I []) E) E"
  proof (rule owp_mono)
    fix t
    assume "I xs t"
    then show "owp p (ofold f xs t) (I []) E"
      using Cons.prems(2) by (intro Cons.IH) simp_all
  qed
  then show ?case by (simp add: owp_bind)
qed

lemma ofold_append: "ofold f (xs @ ys) s = obind (ofold f xs s) (ofold f ys)"
proof (induction xs arbitrary: s)
  case Nil
  then show ?case by simp
next
  case (Cons x xs)
  then show ?case by (cases "f x s") simp_all
qed

lemma ofold_Ok_invariant:
  assumes "ofold f xs s = Ok t" and "I s"
    and "\<And>x s s'. x \<in> set xs \<Longrightarrow> I s \<Longrightarrow> f x s = Ok s' \<Longrightarrow> I s'"
  shows "I t"
  using assms
proof (induction xs arbitrary: s)
  case Nil
  then show ?case by simp
next
  case (Cons x xs)
  from Cons.prems(1) obtain s' where s': "f x s = Ok s'" "ofold f xs s' = Ok t"
    by auto
  have "I s'" using s'(1) Cons.prems(2) Cons.prems(3) [of x s s'] by simp
  with s'(2) show ?case
    by (rule Cons.IH) (auto intro: Cons.prems(3))
qed

text \<open>\<open>collect\<close> of an iterator of results.\<close>

fun omap :: "('x \<Rightarrow> ('e, 'y) outcome) \<Rightarrow> 'x list \<Rightarrow> ('e, 'y list) outcome" where
  "omap f [] = Ok []"
| "omap f (x # xs) = obind (f x) (\<lambda>y. obind (omap f xs) (\<lambda>ys. Ok (y # ys)))"

lemma omap_Ok:
  "\<forall>x \<in> set xs. \<exists>y. f x = Ok y \<and> P x y \<Longrightarrow> \<exists>ys. omap f xs = Ok ys \<and> list_all2 (\<lambda>x y. f x = Ok y \<and> P x y) xs ys"
proof (induction xs)
  case (Cons x xs)
  then obtain y ys where "f x = Ok y \<and> P x y" "omap f xs = Ok ys" "list_all2 (\<lambda>x y. f x = Ok y \<and> P x y) xs ys" by auto
  then show ?case by (intro exI [of _ "y # ys"]) simp
qed simp

fun oall :: "('x \<Rightarrow> ('e, bool) outcome) \<Rightarrow> 'x list \<Rightarrow> ('e, bool) outcome" where
  "oall f [] = Ok True"
| "oall f (x # xs) = obind (f x) (\<lambda>b. if b then oall f xs else Ok False)"

lemma oall_Ok: "(\<And>x. x \<in> set xs \<Longrightarrow> f x = Ok (P x)) \<Longrightarrow> oall f xs = Ok (\<forall>x \<in> set xs. P x)"
  by (induction xs) simp_all

subsection \<open>Machine addition\<close>

definition uadd :: "nat \<Rightarrow> bool \<Rightarrow> nat \<Rightarrow> nat \<Rightarrow> ('e, nat) outcome" where
  "uadd w checks a b =
     (if a + b < 2 ^ w then Ok (a + b) else if checks then Panic else Ok ((a + b) mod 2 ^ w))"

lemma uadd_fits [simp]: "a + b < 2 ^ w \<Longrightarrow> uadd w checks a b = Ok (a + b)"
  by (simp add: uadd_def)

subsection \<open>Ordered maps\<close>

fun om_insert :: "'k::linorder \<Rightarrow> 'v \<Rightarrow> ('k \<times> 'v) list \<Rightarrow> ('k \<times> 'v) list" where
  "om_insert k v [] = [(k, v)]"
| "om_insert k v ((k', v') # m) =
     (if k < k' then (k, v) # (k', v') # m
      else if k = k' then (k, v) # m
      else (k', v') # om_insert k v m)"

definition om_remove :: "'k \<Rightarrow> ('k \<times> 'v) list \<Rightarrow> ('k \<times> 'v) list" where
  "om_remove k m = filter (\<lambda>(k', _). k' \<noteq> k) m"

definition om_wf :: "('k::linorder \<times> 'v) list \<Rightarrow> bool" where
  "om_wf m \<longleftrightarrow> sorted_wrt (<) (map fst m)"

lemma om_wf_Nil [simp]: "om_wf []"
  by (simp add: om_wf_def)

lemma om_wf_Cons: "om_wf ((k, v) # m) \<longleftrightarrow> (\<forall>k' \<in> fst ` set m. k < k') \<and> om_wf m"
  by (auto simp: om_wf_def)

lemma om_wf_distinct: "om_wf m \<Longrightarrow> distinct (map fst m)"
  by (simp add: om_wf_def strict_sorted_iff)

lemma keys_om_insert [simp]: "fst ` set (om_insert k v m) = insert k (fst ` set m)"
  by (induction k v m rule: om_insert.induct) auto

lemma om_wf_insert: "om_wf m \<Longrightarrow> om_wf (om_insert k v m)"
  by (induction k v m rule: om_insert.induct) (auto simp: om_wf_Cons)

lemma map_of_keys_less: "\<forall>k' \<in> fst ` set m. (k::'k::linorder) < k' \<Longrightarrow> map_of m k = None"
  by (auto simp: map_of_eq_None_iff)

lemma get_om_insert: "om_wf m \<Longrightarrow> map_of (om_insert k v m) = (map_of m)(k \<mapsto> v)"
proof (induction k v m rule: om_insert.induct)
  case (1 k v)
  then show ?case by simp
next
  case (2 k v k' v' m)
  then show ?case by (auto simp: om_wf_Cons fun_upd_twist)
qed

lemma keys_om_remove [simp]: "fst ` set (om_remove k m) = fst ` set m - {k}"
  by (force simp: om_remove_def)

lemma om_wf_remove: "om_wf m \<Longrightarrow> om_wf (om_remove k m)"
proof (induction m)
  case Nil
  then show ?case by (simp add: om_remove_def)
next
  case (Cons p m)
  obtain k' v' where p: "p = (k', v')" by (cases p)
  from Cons have m: "\<forall>x \<in> fst ` set m. k' < x" "om_wf (om_remove k m)"
    by (auto simp: p om_wf_Cons)
  show ?case
  proof (cases "k' = k")
    case True
    with m show ?thesis by (simp add: p om_remove_def)
  next
    case False
    then have "om_remove k (p # m) = (k', v') # om_remove k m"
      by (simp add: p om_remove_def)
    with m show ?thesis by (auto simp: om_wf_Cons)
  qed
qed

lemma get_om_remove: "map_of (om_remove k m) = (map_of m)(k := None)"
  by (induction m) (auto simp: om_remove_def)

subsection \<open>Hash maps\<close>

abbreviation hm_insert :: "'k \<Rightarrow> 'v \<Rightarrow> ('k \<times> 'v) list \<Rightarrow> ('k \<times> 'v) list" where
  "hm_insert \<equiv> AList.update"

abbreviation hm_remove :: "'k \<Rightarrow> ('k \<times> 'v) list \<Rightarrow> ('k \<times> 'v) list" where
  "hm_remove \<equiv> AList.delete"

definition hm_wf :: "('k \<times> 'v) list \<Rightarrow> bool" where
  "hm_wf m \<longleftrightarrow> distinct (map fst m)"

lemma hm_wf_Nil [simp]: "hm_wf []"
  by (simp add: hm_wf_def)

lemma hm_wf_insert: "hm_wf m \<Longrightarrow> hm_wf (hm_insert k v m)"
  by (simp add: hm_wf_def distinct_update)

lemma hm_wf_remove: "hm_wf m \<Longrightarrow> hm_wf (hm_remove k m)"
  by (simp add: hm_wf_def distinct_delete)

lemma get_hm_insert: "map_of (hm_insert k v m) = (map_of m)(k \<mapsto> v)"
  by (simp add: update_conv')

lemma get_hm_remove: "map_of (hm_remove k m) = (map_of m)(k := None)"
  by (simp add: delete_conv')

lemma keys_hm_insert: "fst ` set (hm_insert k v m) = insert k (fst ` set m)"
  by (metis dom_map_of_conv_image_fst dom_fun_upd get_hm_insert option.distinct(1))

subsection \<open>The map interface\<close>

text \<open>
  What the components rely on of a map, whichever of the two representations the source
  uses: \<open>insert\<close> and \<open>remove\<close> keep the representation invariant and behave as the
  update and the deletion of a partial function. \<open>entry(k).or_insert(v)\<close> is proved once
  here for both.
\<close>

locale finite_map =
  fixes ins :: "'k \<Rightarrow> 'v \<Rightarrow> ('k \<times> 'v) list \<Rightarrow> ('k \<times> 'v) list"
    and del :: "'k \<Rightarrow> ('k \<times> 'v) list \<Rightarrow> ('k \<times> 'v) list"
    and wf :: "('k \<times> 'v) list \<Rightarrow> bool"
  assumes wf_empty: "wf []"
    and wf_ins: "wf m \<Longrightarrow> wf (ins k v m)"
    and wf_del: "wf m \<Longrightarrow> wf (del k m)"
    and get_ins: "wf m \<Longrightarrow> map_of (ins k v m) = (map_of m)(k \<mapsto> v)"
    and get_del: "wf m \<Longrightarrow> map_of (del k m) = (map_of m)(k := None)"
    and wf_keys: "wf m \<Longrightarrow> distinct (map fst m)"
begin

lemma entry_or_insert:
  assumes "wf m"
  shows "map_of (case map_of m k of None \<Rightarrow> ins k v m | Some _ \<Rightarrow> m) k =
    Some (case map_of m k of None \<Rightarrow> v | Some w \<Rightarrow> w)"
  using assms by (simp add: get_ins split: option.split)

lemma mem_iff_get: "wf m \<Longrightarrow> (k, v) \<in> set m \<longleftrightarrow> map_of m k = Some v"
  by (simp add: wf_keys)

lemma wf_fold_ins: "wf m \<Longrightarrow> wf (fold (\<lambda>(k, v). ins k v) kvs m)"
  by (induction kvs arbitrary: m) (auto simp: wf_ins)

lemma get_fold_ins: "wf m \<Longrightarrow> map_of (fold (\<lambda>(k, v). ins k v) kvs m) k =
    (case map_of (rev kvs) k of None \<Rightarrow> map_of m k | Some v \<Rightarrow> Some v)"
proof (induction kvs arbitrary: m)
  case Nil
  then show ?case by simp
next
  case (Cons p kvs)
  obtain a b where p: "p = (a, b)" by (cases p)
  have "map_of (fold (\<lambda>(k, v). ins k v) (p # kvs) m) k =
      (case map_of (rev kvs) k of None \<Rightarrow> map_of (ins a b m) k | Some v \<Rightarrow> Some v)"
    using Cons by (simp add: p wf_ins)
  then show ?case
    using Cons.prems by (auto simp: p get_ins map_add_def split: option.splits)
qed

lemma del_ins_same: "wf m \<Longrightarrow> map_of (del k (ins k v m)) = (map_of m)(k := None)"
  by (simp add: get_del get_ins wf_ins)

end

interpretation om: finite_map om_insert om_remove om_wf
  by unfold_locales
    (simp_all add: om_wf_insert om_wf_remove get_om_insert get_om_remove om_wf_distinct)

interpretation hm: finite_map AList.update AList.delete hm_wf
  by unfold_locales (simp_all add: hm_wf_insert hm_wf_remove get_hm_insert get_hm_remove,
    simp add: hm_wf_def)

lemmas [map_laws] = om.get_ins om.get_del get_hm_insert get_hm_remove

subsection \<open>Reachability over a successor function\<close>

definition reach :: "('n \<Rightarrow> 'n list) \<Rightarrow> ('n \<times> 'n) set" where
  "reach succs = {(x, y). y \<in> set (succs x)}"

lemma reach_iff [simp]: "(x, y) \<in> reach succs \<longleftrightarrow> y \<in> set (succs x)"
  by (simp add: reach_def)

lemma reach_closed_set:
  assumes "(x, y) \<in> (reach succs)\<^sup>*" and "x \<in> A" and "\<And>a b. a \<in> A \<Longrightarrow> b \<in> set (succs a) \<Longrightarrow> b \<in> A"
  shows "y \<in> A"
  using assms(1,2) by (induction rule: rtrancl_induct) (auto intro: assms(3))

lemma acyclic_by_measure:
  "(\<And>x y. (x, y) \<in> r \<Longrightarrow> f y < (f x :: nat)) \<Longrightarrow> acyclic r"
  by (rule acyclicI_order [where f = f]) auto

text \<open>
  \<open>succs_first succs M xs\<close>: every element of \<open>xs\<close> has its successors in \<open>M\<close> or earlier in
  the list, the order a depth-first search finishes its nodes in.
\<close>

fun succs_first :: "('n \<Rightarrow> 'n list) \<Rightarrow> 'n set \<Rightarrow> 'n list \<Rightarrow> bool" where
  "succs_first succs M [] = True"
| "succs_first succs M (x # xs) = (set (succs x) \<subseteq> M \<and> succs_first succs (insert x M) xs)"

lemma succs_first_append:
  "succs_first succs M (xs @ ys) \<longleftrightarrow> succs_first succs M xs \<and> succs_first succs (M \<union> set xs) ys"
  by (induction xs arbitrary: M) auto

lemma succs_first_drop_grey:
  "succs_first succs (insert n M) xs \<Longrightarrow> \<forall>x \<in> set xs. n \<notin> set (succs x) \<Longrightarrow> succs_first succs M xs"
  by (induction xs arbitrary: M) (auto simp: insert_commute)

lemma succs_first_nth:
  assumes "succs_first succs {} xs" and "i < length xs" and "c \<in> set (succs (xs ! i))"
  shows "\<exists>j < i. xs ! j = c"
proof -
  have "xs = take i xs @ xs ! i # drop (Suc i) xs"
    using assms(2) by (rule id_take_nth_drop)
  with assms(1) have "succs_first succs {} (take i xs @ xs ! i # drop (Suc i) xs)"
    by simp
  then have "set (succs (xs ! i)) \<subseteq> set (take i xs)"
    by (simp add: succs_first_append)
  with assms(3) have "c \<in> set (take i xs)" by blast
  with assms(2) show ?thesis
    by (auto simp: in_set_conv_nth)
qed

lemma succs_first_trancl:
  assumes "(x, y) \<in> (reach succs)\<^sup>+" and "succs_first succs {} xs" and "i < length xs" and "x = xs ! i"
  shows "\<exists>j < i. xs ! j = y"
  using assms(1)
proof (induction rule: trancl_induct)
  case (base y)
  then show ?case using assms succs_first_nth [of succs xs i y] by simp
next
  case (step y z)
  then obtain j where j: "j < i" "xs ! j = y" by blast
  with step(2) assms(3) obtain k where "k < j" "xs ! k = z"
    using succs_first_nth [OF assms(2), of j z] by auto
  with j show ?case by (intro exI [of _ k]) simp
qed

lemma succs_first_no_cycle:
  assumes "succs_first succs {} xs" and "x \<in> set xs"
  shows "(x, x) \<notin> (reach succs)\<^sup>+"
proof
  assume cyc: "(x, x) \<in> (reach succs)\<^sup>+"
  define i where "i = (LEAST i. i < length xs \<and> xs ! i = x)"
  have "\<exists>i. i < length xs \<and> xs ! i = x"
    using assms(2) by (simp add: in_set_conv_nth)
  then have i: "i < length xs" "xs ! i = x"
    unfolding i_def by (metis (mono_tags, lifting) LeastI)+
  with succs_first_trancl [OF cyc assms(1)] obtain j where "j < i" "xs ! j = x" by blast
  with i show False
    unfolding i_def by (metis (mono_tags, lifting) less_trans not_less_Least)
qed

subsection \<open>Strings\<close>

definition starts_with :: "string \<Rightarrow> string \<Rightarrow> bool" where
  "starts_with p s \<longleftrightarrow> take (length p) s = p"

definition strip_prefix :: "string \<Rightarrow> string \<Rightarrow> string option" where
  "strip_prefix p s = (if starts_with p s then Some (drop (length p) s) else None)"

definition ends_with :: "string \<Rightarrow> string \<Rightarrow> bool" where
  "ends_with p s \<longleftrightarrow> length p \<le> length s \<and> drop (length s - length p) s = p"

definition strip_suffix :: "string \<Rightarrow> string \<Rightarrow> string option" where
  "strip_suffix p s = (if ends_with p s then Some (take (length s - length p) s) else None)"

fun split_once :: "char \<Rightarrow> string \<Rightarrow> (string \<times> string) option" where
  "split_once c [] = None"
| "split_once c (x # xs) =
     (if x = c then Some ([], xs)
      else map_option (\<lambda>(a, b). (x # a, b)) (split_once c xs))"

lemma starts_with_append [simp]: "starts_with p (p @ s)"
  by (simp add: starts_with_def)

lemma starts_with_iff: "starts_with p s \<longleftrightarrow> (\<exists>r. s = p @ r)"
  by (metis append_eq_conv_conj append_take_drop_id starts_with_def)

lemma strip_prefix_append [simp]: "strip_prefix p (p @ s) = Some s"
  by (simp add: strip_prefix_def)

lemma strip_prefix_Some_iff: "strip_prefix p s = Some r \<longleftrightarrow> s = p @ r"
  by (auto simp: strip_prefix_def starts_with_iff)

lemma strip_suffix_append [simp]: "strip_suffix p (s @ p) = Some s"
  by (simp add: strip_suffix_def ends_with_def)

lemma strip_suffix_Some_iff: "strip_suffix p s = Some r \<longleftrightarrow> s = r @ p"
proof
  assume "strip_suffix p s = Some r"
  then show "s = r @ p"
    by (auto simp: strip_suffix_def ends_with_def split: if_splits) (metis append_take_drop_id)
qed simp

lemma split_once_None_iff: "split_once c s = None \<longleftrightarrow> c \<notin> set s"
  by (induction s) auto

lemma split_once_Some_iff: "split_once c s = Some (a, b) \<longleftrightarrow> s = a @ c # b \<and> c \<notin> set a"
proof (induction s arbitrary: a)
  case Nil
  then show ?case by simp
next
  case (Cons x xs)
  show ?case
  proof (cases "x = c")
    case True
    then show ?thesis by (auto simp: Cons_eq_append_conv)
  next
    case False
    have "split_once c (x # xs) = Some (a, b) \<longleftrightarrow>
        (\<exists>a'. a = x # a' \<and> split_once c xs = Some (a', b))"
      using False by auto
    also have "\<dots> \<longleftrightarrow> (\<exists>a'. a = x # a' \<and> xs = a' @ c # b \<and> c \<notin> set a')"
      by (simp add: Cons.IH)
    also have "\<dots> \<longleftrightarrow> x # xs = a @ c # b \<and> c \<notin> set a"
      using False by (cases a) auto
    finally show ?thesis .
  qed
qed

end
