(* ===== verification/DepGraph.thy ===== *)
theory DepGraph
  imports Prelude
begin

section \<open>The dependency graph (src/util/graph.rs)\<close>

text \<open>
  \<open>Graph<N, E>\<close> is an ordered map from a node to the ordered map of its children and
  their edge labels. The theory models every operation of the file: \<open>add\<close>, \<open>link\<close>
  (the write through the returned reference is a function argument), \<open>reversed\<close>,
  \<open>contains\<close>, \<open>edge\<close>, \<open>edges\<close>, the topological \<open>sort\<close>, the path test
  \<open>is_path_from_to\<close> and the breadth-first \<open>path_to\<close> behind \<open>path_to_bottom\<close> and
  \<open>path_to_top\<close>.

  \<open>sort\<close> indexes \<open>self.nodes[node]\<close>, which panics for a child that was never added as
  a node; the depth of its recursion is bounded by the number of nodes (\<open>sort_visit\<close> has
  it as its first argument). The loop of \<open>is_path_from_to\<close> ends as soon as a popped node
  has no entry.
\<close>

type_synonym ('n, 'e) graph = "('n \<times> ('n \<times> 'e) list) list"

definition graph_new :: "('n, 'e) graph" where
  "graph_new = []"

definition graph_add :: "'n::linorder \<Rightarrow> ('n, 'e) graph \<Rightarrow> ('n, 'e) graph" where
  "graph_add n g = (case map_of g n of None \<Rightarrow> om_insert n [] g | Some _ \<Rightarrow> g)"

definition graph_link ::
  "'e \<Rightarrow> ('e \<Rightarrow> 'e) \<Rightarrow> 'n::linorder \<Rightarrow> 'n \<Rightarrow> ('n, 'e) graph \<Rightarrow> ('n, 'e) graph" where
  "graph_link dflt upd n c g =
     (let adj = (case map_of g n of None \<Rightarrow> [] | Some m \<Rightarrow> m);
          e = (case map_of adj c of None \<Rightarrow> dflt | Some e \<Rightarrow> e)
      in om_insert n (om_insert c (upd e) adj) g)"

definition graph_edges :: "('n, 'e) graph \<Rightarrow> 'n \<Rightarrow> ('n \<times> 'e) list" where
  "graph_edges g n = (case map_of g n of None \<Rightarrow> [] | Some m \<Rightarrow> m)"

definition graph_contains :: "('n, 'e) graph \<Rightarrow> 'n \<Rightarrow> bool" where
  "graph_contains g n = (map_of g n \<noteq> None)"

definition graph_edge :: "('n, 'e) graph \<Rightarrow> 'n \<Rightarrow> 'n \<Rightarrow> 'e option" where
  "graph_edge g from dest = (case map_of g from of None \<Rightarrow> None | Some m \<Rightarrow> map_of m dest)"

definition graph_iter :: "('n, 'e) graph \<Rightarrow> 'n list" where
  "graph_iter g = map fst g"

definition graph_len :: "('n, 'e) graph \<Rightarrow> nat" where
  "graph_len g = length g"

definition graph_reversed :: "'e \<Rightarrow> ('n::linorder, 'e) graph \<Rightarrow> ('n, 'e) graph" where
  "graph_reversed dflt g =
     fold (\<lambda>n ret. fold (\<lambda>(m, e) ret. graph_link dflt (\<lambda>_. e) m n ret) (graph_edges g n)
                     (graph_add n ret))
       (graph_iter g) graph_new"

fun sort_visit ::
  "nat \<Rightarrow> ('n, 'e) graph \<Rightarrow> 'n \<Rightarrow> 'n list \<times> 'n set \<Rightarrow> (unit, 'n list \<times> 'n set) outcome" where
  "sort_visit 0 g n s = OutOfFuel"
| "sort_visit (Suc d) g n (dst, marks) =
     (if n \<in> marks then Ok (dst, marks)
      else case map_of g n of
        None \<Rightarrow> Panic
      | Some m \<Rightarrow>
          obind (ofold (sort_visit d g) (map fst m) (dst, insert n marks))
            (\<lambda>(dst, marks). Ok (dst @ [n], marks)))"

definition graph_sort :: "('n, 'e) graph \<Rightarrow> (unit, 'n list) outcome" where
  "graph_sort g =
     obind (ofold (sort_visit (Suc (length g)) g) (graph_iter g) ([], {}))
       (\<lambda>(ret, _). Ok ret)"

fun path_scan :: "'n \<Rightarrow> 'n list \<Rightarrow> 'n list \<Rightarrow> 'n set \<Rightarrow> ('n list \<times> 'n set) option" where
  "path_scan dest [] stack seen = Some (stack, seen)"
| "path_scan dest (p # ps) stack seen =
     (if p = dest then None
      else if p \<in> seen then path_scan dest ps stack seen
      else path_scan dest ps (p # stack) (insert p seen))"

definition graph_targets :: "('n, 'e) graph \<Rightarrow> 'n set" where
  "graph_targets g = (\<Union>(_, m) \<in> set g. fst ` set m)"

lemma finite_graph_targets [simp]: "finite (graph_targets g)"
  by (auto simp: graph_targets_def)

lemma targets_of_get: "map_of g n = Some m \<Longrightarrow> fst ` set m \<subseteq> graph_targets g"
  by (auto simp: graph_targets_def dest!: map_of_SomeD)

lemma path_scan_measure:
  assumes "path_scan dest ps stack seen = Some (stack', seen')" and "set ps \<subseteq> U" and "finite U"
  shows "card (U - seen') + length stack' = card (U - seen) + length stack"
  using assms(1,2)
proof (induction dest ps stack seen rule: path_scan.induct)
  case (1 dest stack seen)
  then show ?case by simp
next
  case (2 dest p ps stack seen)
  show ?case
  proof (cases "p \<in> seen")
    case True
    with 2 show ?thesis by (auto split: if_splits)
  next
    case False
    with "2.prems" have "card (U - seen) = Suc (card (U - insert p seen))"
      using assms(3) by (metis Diff_insert card_Suc_Diff1 finite_Diff insert_subset list.simps(15)
          Diff_iff)
    with False 2 show ?thesis by (auto split: if_splits)
  qed
qed

function path_loop :: "('n, 'e) graph \<Rightarrow> 'n \<Rightarrow> 'n list \<Rightarrow> 'n set \<Rightarrow> bool" where
  "path_loop g dest [] seen = False"
| "path_loop g dest (p # stack) seen =
     (case map_of g p of
        None \<Rightarrow> False
      | Some m \<Rightarrow>
          (case path_scan dest (map fst m) stack seen of
             None \<Rightarrow> True
           | Some (stack', seen') \<Rightarrow> path_loop g dest stack' seen'))"
  by pat_completeness auto
termination
proof (relation "measure (\<lambda>(g, _, stack, seen). card (graph_targets g - seen) + length stack)")
  fix g :: "('n, 'e) graph" and dest p stack seen m x stack' seen'
  assume "map_of g p = Some m" and "path_scan dest (map fst m) stack seen = Some x"
    and "(stack', seen') = x"
  then have "card (graph_targets g - seen') + length stack' =
      card (graph_targets g - seen) + length stack"
    by (intro path_scan_measure [where ps = "map fst m"]) (auto dest: targets_of_get)
  then show "((g, dest, stack', seen'), (g, dest, p # stack, seen))
      \<in> measure (\<lambda>(g, _, stack, seen). card (graph_targets g - seen) + length stack)"
    by simp
qed simp

definition is_path_from_to :: "('n, 'e) graph \<Rightarrow> 'n \<Rightarrow> 'n \<Rightarrow> bool" where
  "is_path_from_to g from dest = path_loop g dest [from] {from}"


subsection \<open>Well-formedness and the edge relation\<close>

definition graph_wf :: "('n::linorder, 'e) graph \<Rightarrow> bool" where
  "graph_wf g \<longleftrightarrow> om_wf g \<and> (\<forall>(n, m) \<in> set g. om_wf m)"

definition graph_succs :: "('n, 'e) graph \<Rightarrow> 'n \<Rightarrow> 'n list" where
  "graph_succs g n = map fst (graph_edges g n)"

definition graph_closed :: "('n, 'e) graph \<Rightarrow> bool" where
  "graph_closed g \<longleftrightarrow>
     (\<forall>n \<in> set (graph_iter g). set (graph_succs g n) \<subseteq> set (graph_iter g))"

abbreviation graph_rel :: "('n, 'e) graph \<Rightarrow> ('n \<times> 'n) set" where
  "graph_rel g \<equiv> reach (graph_succs g)"

lemma graph_wf_new [simp]: "graph_wf graph_new"
  by (simp add: graph_wf_def graph_new_def)

lemma graph_wf_get: "graph_wf g \<Longrightarrow> map_of g n = Some m \<Longrightarrow> om_wf m"
  by (auto simp: graph_wf_def dest!: map_of_SomeD)

lemma graph_wf_edges: "graph_wf g \<Longrightarrow> om_wf (graph_edges g n)"
  by (auto simp: graph_edges_def graph_wf_get split: option.split)

lemma graph_wf_insert: "graph_wf g \<Longrightarrow> om_wf m \<Longrightarrow> graph_wf (om_insert n m g)"
proof -
  assume g: "graph_wf g" and m: "om_wf m"
  have "set (om_insert n m g) \<subseteq> insert (n, m) (set g)"
    by (induction n m g rule: om_insert.induct) auto
  with g m show ?thesis by (auto simp: graph_wf_def om_wf_insert)
qed

lemma graph_wf_add: "graph_wf g \<Longrightarrow> graph_wf (graph_add n g)"
  by (auto simp: graph_add_def graph_wf_insert split: option.split)

lemma graph_wf_link: "graph_wf g \<Longrightarrow> graph_wf (graph_link d u n c g)"
  by (cases "map_of g n")
    (simp_all add: graph_link_def Let_def graph_wf_insert om_wf_insert graph_wf_get om_wf_Cons)

lemma graph_edges_get: "graph_wf g \<Longrightarrow> map_of (graph_edges g n) c = graph_edge g n c"
  by (simp add: graph_edges_def graph_edge_def split: option.split)

lemma graph_edge_add [simp]:
  "graph_wf g \<Longrightarrow> graph_edge (graph_add k g) n c = graph_edge g n c"
  by (auto simp: graph_edge_def graph_add_def graph_wf_def map_laws split: option.split)

lemma graph_edge_link:
  assumes "graph_wf g"
  shows "graph_edge (graph_link d u n c g) n' c' =
    (if n' = n \<and> c' = c
     then Some (u (case graph_edge g n c of None \<Rightarrow> d | Some e \<Rightarrow> e))
     else graph_edge g n' c')"
proof -
  have wf: "om_wf g" using assms by (simp add: graph_wf_def)
  show ?thesis
  proof (cases "map_of g n")
    case None
    with wf show ?thesis by (simp add: graph_edge_def graph_link_def map_laws)
  next
    case (Some m)
    with assms have "om_wf m" by (rule graph_wf_get)
    with wf Some show ?thesis
      by (auto simp: graph_edge_def graph_link_def map_laws Let_def)
  qed
qed

lemma graph_contains_add [simp]:
  "graph_wf g \<Longrightarrow> graph_contains (graph_add k g) n \<longleftrightarrow> n = k \<or> graph_contains g n"
  by (auto simp: graph_contains_def graph_add_def graph_wf_def map_laws split: option.split)

lemma graph_contains_link [simp]:
  "graph_wf g \<Longrightarrow> graph_contains (graph_link d u k c g) n \<longleftrightarrow> n = k \<or> graph_contains g n"
  by (auto simp: graph_contains_def graph_link_def graph_wf_def map_laws Let_def)

lemma graph_contains_iff: "graph_contains g n \<longleftrightarrow> n \<in> set (graph_iter g)"
  by (auto simp: graph_contains_def graph_iter_def map_of_eq_None_iff)

lemma succs_edge_iff: "c \<in> set (graph_succs g n) \<longleftrightarrow> graph_edge g n c \<noteq> None"
  by (cases "map_of g n")
    (simp_all add: graph_succs_def graph_edges_def graph_edge_def domIff [symmetric]
      dom_map_of_conv_image_fst del: not_None_eq)

lemma succs_contains: "c \<in> set (graph_succs g n) \<Longrightarrow> graph_contains g n"
  by (cases "map_of g n") (auto simp: graph_succs_def graph_edges_def graph_contains_def)

lemma succs_closed: "graph_closed g \<Longrightarrow> c \<in> set (graph_succs g n) \<Longrightarrow> graph_contains g c"
  using succs_contains [of c g n] by (auto simp: graph_closed_def graph_contains_iff)

subsection \<open>Reversal\<close>

lemma reversed_inner:
  assumes "graph_wf ret" and "distinct (map fst es)"
  shows "graph_wf (fold (\<lambda>(m, e). graph_link d (\<lambda>_. e) m n) es ret)"
    and "graph_edge (fold (\<lambda>(m, e). graph_link d (\<lambda>_. e) m n) es ret) a b =
      (if b = n \<and> a \<in> fst ` set es then map_of es a else graph_edge ret a b)"
  using assms
proof (induction es arbitrary: ret)
  case Nil
  {
    case 1
    then show ?case by simp
  next
    case 2
    then show ?case by simp
  }
next
  case (Cons p es)
  obtain m e where p: "p = (m, e)" by (cases p)
  {
    case 1
    then show ?case using Cons.IH(1) by (simp add: p graph_wf_link)
  next
    case 2
    then show ?case
      using Cons.IH(2) [of "graph_link d (\<lambda>_. e) m n ret"]
      by (auto simp: p graph_wf_link graph_edge_link)
  }
qed

definition reversed_step :: "'e \<Rightarrow> ('n::linorder, 'e) graph \<Rightarrow> 'n \<Rightarrow> ('n, 'e) graph \<Rightarrow> ('n, 'e) graph"
  where "reversed_step d g n ret =
    fold (\<lambda>(m, e). graph_link d (\<lambda>_. e) m n) (graph_edges g n) (graph_add n ret)"

lemma reversed_step_props:
  assumes "graph_wf g" and "graph_wf ret"
  shows "graph_wf (reversed_step d g n ret)"
    and "graph_edge (reversed_step d g n ret) a b =
      (if b = n \<and> graph_edge g n a \<noteq> None then graph_edge g n a else graph_edge ret a b)"
proof -
  have d: "distinct (map fst (graph_edges g n))"
    using assms(1) by (simp add: graph_wf_edges om_wf_distinct)
  have k: "a \<in> fst ` set (graph_edges g n) \<longleftrightarrow> graph_edge g n a \<noteq> None"
    using succs_edge_iff [of a g n] by (simp add: graph_succs_def)
  show "graph_wf (reversed_step d g n ret)"
    unfolding reversed_step_def by (rule reversed_inner(1) [OF graph_wf_add [OF assms(2)] d])
  show "graph_edge (reversed_step d g n ret) a b =
      (if b = n \<and> graph_edge g n a \<noteq> None then graph_edge g n a else graph_edge ret a b)"
    unfolding reversed_step_def reversed_inner(2) [OF graph_wf_add [OF assms(2)] d] k
    using assms by (auto simp: graph_edges_get)
qed

lemma reversed_fold:
  assumes "graph_wf g" and "graph_wf ret"
  shows "graph_wf (fold (reversed_step d g) ns ret)"
    and "graph_edge (fold (reversed_step d g) ns ret) a b =
      (if b \<in> set ns \<and> graph_edge g b a \<noteq> None then graph_edge g b a else graph_edge ret a b)"
  using assms(2)
proof (induction ns arbitrary: ret)
  case Nil
  {
    case 1
    then show ?case by simp
  next
    case 2
    then show ?case by simp
  }
next
  case (Cons n ns)
  {
    case 1
    then show ?case by (simp add: Cons.IH(1) reversed_step_props(1) [OF assms(1)])
  next
    case 2
    then show ?case
      by (auto simp: Cons.IH(2) [OF reversed_step_props(1) [OF assms(1) 2]]
          reversed_step_props(2) [OF assms(1)])
  }
qed

lemma graph_reversed_eq: "graph_reversed d g = fold (reversed_step d g) (graph_iter g) graph_new"
  unfolding graph_reversed_def reversed_step_def by (rule arg_cong [where f = "\<lambda>f. fold f _ _"]) (simp add: fun_eq_iff)

lemma graph_wf_reversed: "graph_wf g \<Longrightarrow> graph_wf (graph_reversed d g)"
  unfolding graph_reversed_eq by (rule reversed_fold(1)) simp_all

lemma graph_edge_new [simp]: "graph_edge graph_new a b = None"
  by (simp add: graph_edge_def graph_new_def)

lemma graph_edge_reversed: "graph_wf g \<Longrightarrow> graph_edge (graph_reversed d g) a b = graph_edge g b a"
  using succs_contains [of a g b]
  by (cases "graph_edge g b a")
    (auto simp: graph_reversed_eq reversed_fold(2) graph_contains_iff succs_edge_iff)


subsection \<open>Topological sort\<close>

abbreviation deps_first :: "('n, 'e) graph \<Rightarrow> 'n set \<Rightarrow> 'n list \<Rightarrow> bool" where
  "deps_first g \<equiv> succs_first (graph_succs g)"

definition visited ::
  "('n, 'e) graph \<Rightarrow> 'n list \<Rightarrow> 'n list \<times> 'n set \<Rightarrow> 'n list \<times> 'n set \<Rightarrow> bool" where
  "visited g rs s t \<longleftrightarrow> (\<exists>new.
     fst t = fst s @ new \<and> snd t = snd s \<union> set new \<and> distinct new \<and> set new \<inter> snd s = {} \<and>
     set rs \<subseteq> snd t \<and> set new \<subseteq> set (graph_iter g) \<and>
     (\<forall>x \<in> set new. set (graph_succs g x) \<subseteq> snd t \<and> (\<exists>r \<in> set rs. (r, x) \<in> (graph_rel g)\<^sup>*)) \<and>
     (acyclic (graph_rel g) \<longrightarrow> deps_first g (snd s) new))"

lemma visited_refl: "n \<in> snd s \<Longrightarrow> visited g [n] s s"
  by (auto simp: visited_def)

lemma visited_Nil: "visited g [] s s"
  by (auto simp: visited_def)

lemma visited_trans:
  assumes "visited g [r] s t" and "visited g rs t u"
  shows "visited g (r # rs) s u"
proof -
  from assms(1) obtain new1 where 1: "fst t = fst s @ new1" "snd t = snd s \<union> set new1"
    "distinct new1" "set new1 \<inter> snd s = {}" "r \<in> snd t" "set new1 \<subseteq> set (graph_iter g)"
    "\<forall>x \<in> set new1. set (graph_succs g x) \<subseteq> snd t \<and> (r, x) \<in> (graph_rel g)\<^sup>*"
    "acyclic (graph_rel g) \<longrightarrow> deps_first g (snd s) new1"
    by (auto simp: visited_def)
  from assms(2) obtain new2 where 2: "fst u = fst t @ new2" "snd u = snd t \<union> set new2"
    "distinct new2" "set new2 \<inter> snd t = {}" "set rs \<subseteq> snd u" "set new2 \<subseteq> set (graph_iter g)"
    "\<forall>x \<in> set new2. set (graph_succs g x) \<subseteq> snd u \<and> (\<exists>r \<in> set rs. (r, x) \<in> (graph_rel g)\<^sup>*)"
    "acyclic (graph_rel g) \<longrightarrow> deps_first g (snd t) new2"
    by (auto simp: visited_def)
  show ?thesis
    unfolding visited_def
    by (rule exI [where x = "new1 @ new2"]) (use 1 2 in \<open>auto simp: succs_first_append\<close>)
qed

lemma visited_close:
  assumes kids: "visited g (graph_succs g n) (dst, insert n marks) (dst', marks')"
    and n: "n \<notin> marks" "n \<in> set (graph_iter g)"
  shows "visited g [n] (dst, marks) (dst' @ [n], marks')"
proof -
  from kids obtain new where new: "dst' = dst @ new" "marks' = insert n marks \<union> set new"
    "distinct new" "set new \<inter> insert n marks = {}" "set (graph_succs g n) \<subseteq> marks'"
    "set new \<subseteq> set (graph_iter g)"
    "\<forall>x \<in> set new. set (graph_succs g x) \<subseteq> marks' \<and>
      (\<exists>r \<in> set (graph_succs g n). (r, x) \<in> (graph_rel g)\<^sup>*)"
    "acyclic (graph_rel g) \<longrightarrow> deps_first g (insert n marks) new"
    by (auto simp: visited_def)
  have reached: "(n, x) \<in> (graph_rel g)\<^sup>+" if "x \<in> set new" for x
    using new(7) that by (fastforce intro: rtrancl_into_trancl2)
  have "deps_first g marks (new @ [n])" if ac: "acyclic (graph_rel g)"
  proof -
    have "\<forall>x \<in> set new. n \<notin> set (graph_succs g x)"
      using ac reached by (auto simp: acyclic_def) (meson reach_iff trancl.trancl_into_trancl)
    with new(8) ac have "deps_first g marks new"
      by (blast intro: succs_first_drop_grey)
    moreover have "n \<notin> set (graph_succs g n)"
      using ac unfolding acyclic_def by (metis reach_iff r_into_trancl')
    ultimately show ?thesis
      using new(2,5) by (auto simp: succs_first_append)
  qed
  with new n reached show ?thesis
    unfolding visited_def
    by (intro exI [where x = "new @ [n]"]) (auto intro: trancl_into_rtrancl)
qed

lemma card_unmarked_insert:
  "n \<notin> marks \<Longrightarrow> n \<in> set ns \<Longrightarrow> card (set ns - insert n marks) < card (set ns - marks)"
  by (intro psubset_card_mono) auto

lemma sort_visit_list:
  assumes node: "\<And>n s. n \<in> set ns \<Longrightarrow> card (set (graph_iter g) - snd s) < d \<Longrightarrow>
      owp p (sort_visit d g n s) (visited g [n] s) (\<lambda>_. False)"
    and fuel: "card (set (graph_iter g) - snd s) < d"
  shows "owp p (ofold (sort_visit d g) ns s) (visited g ns s) (\<lambda>_. False)"
  using assms
proof (induction ns arbitrary: s)
  case Nil
  then show ?case by (simp add: visited_Nil)
next
  case (Cons n ns)
  have "owp p (sort_visit d g n s) (visited g [n] s) (\<lambda>_. False)"
    using Cons.prems by simp
  then have "owp p (sort_visit d g n s)
      (\<lambda>t. owp p (ofold (sort_visit d g) ns t) (visited g (n # ns) s) (\<lambda>_. False)) (\<lambda>_. False)"
  proof (rule owp_mono)
    fix t
    assume t: "visited g [n] s t"
    then have "card (set (graph_iter g) - snd t) \<le> card (set (graph_iter g) - snd s)"
      by (intro card_mono) (auto simp: visited_def)
    with Cons.prems(2) have "card (set (graph_iter g) - snd t) < d" by simp
    then have "owp p (ofold (sort_visit d g) ns t) (visited g ns t) (\<lambda>_. False)"
      using Cons.prems(1) by (intro Cons.IH) simp_all
    then show "owp p (ofold (sort_visit d g) ns t) (visited g (n # ns) s) (\<lambda>_. False)"
      by (rule owp_mono) (auto intro: visited_trans [OF t])
  qed simp
  then show ?case by (simp add: owp_bind)
qed

lemma sort_visit_spec:
  assumes "card (set (graph_iter g) - snd s) < d"
    and "graph_contains g n \<or> \<not> graph_closed g"
  shows "owp (\<not> graph_closed g) (sort_visit d g n s) (visited g [n] s) (\<lambda>_. False)"
  using assms
proof (induction d arbitrary: n s)
  case 0
  then show ?case by simp
next
  case (Suc d)
  obtain dst marks where s: "s = (dst, marks)" by (cases s)
  show ?case
  proof (cases "n \<in> marks \<or> map_of g n = None")
    case True
    with Suc.prems(2) show ?thesis
      by (auto simp: s visited_refl graph_contains_def)
  next
    case False
    then obtain m where m: "map_of g n = Some m" and n: "n \<notin> marks" by auto
    have kids: "graph_succs g n = map fst m"
      by (simp add: graph_succs_def graph_edges_def m)
    have node: "n \<in> set (graph_iter g)"
      using m by (simp add: graph_contains_iff [symmetric] graph_contains_def)
    have fuel: "card (set (graph_iter g) - snd (dst, insert n marks)) < d"
      using card_unmarked_insert [OF n node] Suc.prems(1) by (simp add: s)
    have "owp (\<not> graph_closed g) (ofold (sort_visit d g) (map fst m) (dst, insert n marks))
        (visited g (graph_succs g n) (dst, insert n marks)) (\<lambda>_. False)"
      unfolding kids
    proof (rule sort_visit_list [OF Suc.IH fuel])
      fix c s'
      assume "c \<in> set (map fst m)" "card (set (graph_iter g) - snd s') < d"
      then show "card (set (graph_iter g) - snd s') < d"
        and "graph_contains g c \<or> \<not> graph_closed g"
        using succs_closed [of g c n] by (auto simp: kids)
    qed
    then have "owp (\<not> graph_closed g) (ofold (sort_visit d g) (map fst m) (dst, insert n marks))
        (\<lambda>a. owp (\<not> graph_closed g) (case a of (dst, marks) \<Rightarrow> Ok (dst @ [n], marks))
          (visited g [n] s) (\<lambda>_. False)) (\<lambda>_. False)"
      by (rule owp_mono) (auto simp: s intro: visited_close [OF _ n node])
    then show ?thesis
      using n m by (auto simp: s intro!: owp_bind)
  qed
qed

lemma graph_sort_spec:
  "owp (\<not> graph_closed g) (graph_sort g)
     (\<lambda>xs. distinct xs \<and> set xs = set (graph_iter g) \<and> graph_closed g \<and>
        (acyclic (graph_rel g) \<longrightarrow> deps_first g {} xs)) (\<lambda>_. False)"
proof -
  have fuel: "card (set (graph_iter g) - snd ([], {} :: 'a set)) < Suc (length g)"
    using card_length [of "graph_iter g"] by (simp add: graph_iter_def)
  have "owp (\<not> graph_closed g) (ofold (sort_visit (Suc (length g)) g) (graph_iter g) ([], {}))
      (visited g (graph_iter g) ([], {})) (\<lambda>_. False)"
    by (rule sort_visit_list [OF sort_visit_spec fuel]) (auto simp: graph_contains_iff)
  then show ?thesis
    unfolding graph_sort_def
  proof (intro owp_bind, elim owp_mono)
    fix t
    assume t: "visited g (graph_iter g) ([], {}) t"
    then have "graph_closed g"
      by (fastforce simp: visited_def graph_closed_def)
    with t show "owp (\<not> graph_closed g) (case t of (ret, _) \<Rightarrow> Ok ret)
        (\<lambda>xs. distinct xs \<and> set xs = set (graph_iter g) \<and> graph_closed g \<and>
          (acyclic (graph_rel g) \<longrightarrow> deps_first g {} xs)) (\<lambda>_. False)"
      by (cases t) (auto simp: visited_def)
  qed simp
qed


subsection \<open>The path test\<close>

lemma path_scan_None_iff: "path_scan dest ps stack seen = None \<longleftrightarrow> dest \<in> set ps"
  by (induction dest ps stack seen rule: path_scan.induct) auto

lemma path_scan_Some:
  "path_scan dest ps stack seen = Some (stack', seen') \<Longrightarrow>
     set stack' = set stack \<union> (set ps - seen) \<and> seen' = seen \<union> set ps"
  by (induction dest ps stack seen rule: path_scan.induct) (auto split: if_splits)

lemma path_loop_sound:
  "path_loop g dest stack seen \<Longrightarrow> \<exists>x \<in> set stack. (x, dest) \<in> (graph_rel g)\<^sup>+"
proof (induction g dest stack seen rule: path_loop.induct)
  case (1 g dest seen)
  then show ?case by simp
next
  case (2 g dest p stack seen)
  from "2.prems" obtain m where m: "map_of g p = Some m"
    by (auto split: option.splits)
  have kids: "set (graph_succs g p) = fst ` set m"
    by (simp add: graph_succs_def graph_edges_def m)
  show ?case
  proof (cases "path_scan dest (map fst m) stack seen")
    case None
    then have "(p, dest) \<in> graph_rel g"
      by (simp add: path_scan_None_iff kids)
    then show ?thesis by auto
  next
    case (Some sq)
    obtain stack' seen' where sq: "sq = (stack', seen')" by (cases sq)
    have "path_loop g dest stack' seen'"
      using "2.prems" by (simp add: m Some sq)
    then obtain x where x: "x \<in> set stack'" "(x, dest) \<in> (graph_rel g)\<^sup>+"
      using "2.IH" [OF m Some sq [symmetric]] by auto
    with path_scan_Some [of dest "map fst m" stack seen stack' seen'] Some sq
    consider "x \<in> set stack" | "(p, x) \<in> graph_rel g"
      by (auto simp: kids)
    then show ?thesis
      using x(2) by cases (auto intro: trancl_into_trancl2)
  qed
qed

lemma path_loop_complete:
  assumes "\<not> path_loop g dest stack seen" and "graph_closed g"
    and "set stack \<subseteq> seen" and "seen \<subseteq> set (graph_iter g)"
    and "\<forall>x \<in> seen - set stack. dest \<notin> set (graph_succs g x) \<and> set (graph_succs g x) \<subseteq> seen"
    and "x \<in> seen"
  shows "(x, dest) \<notin> (graph_rel g)\<^sup>+"
  using assms
proof (induction g dest stack seen rule: path_loop.induct)
  case (1 g dest seen)
  show ?case
  proof
    assume "(x, dest) \<in> (graph_rel g)\<^sup>+"
    then obtain y where y: "(x, y) \<in> (graph_rel g)\<^sup>*" "dest \<in> set (graph_succs g y)"
      by (metis reach_iff tranclD2)
    from y(1) have "y \<in> seen"
      by (rule reach_closed_set) (use "1.prems" in auto)
    with y(2) "1.prems" show False by simp
  qed
next
  case (2 g dest p stack seen)
  from "2.prems" have "graph_contains g p" by (auto simp: graph_contains_iff)
  then obtain m where m: "map_of g p = Some m" by (auto simp: graph_contains_def)
  have kids: "set (graph_succs g p) = fst ` set m"
    by (simp add: graph_succs_def graph_edges_def m)
  from "2.prems"(1) m obtain stack' seen' where
    scan: "path_scan dest (map fst m) stack seen = Some (stack', seen')"
    and loop: "\<not> path_loop g dest stack' seen'"
    by (auto split: option.splits)
  have dest: "dest \<notin> set (graph_succs g p)"
    using scan path_scan_None_iff [of dest "map fst m" stack seen] by (simp add: kids)
  have sets: "set stack' = set stack \<union> (set (graph_succs g p) - seen)"
    "seen' = seen \<union> set (graph_succs g p)"
    using path_scan_Some [OF scan] by (simp_all add: kids)
  show ?case
  proof (rule "2.IH" [OF m scan refl loop "2.prems"(2)])
    show "seen' \<subseteq> set (graph_iter g)"
      using "2.prems"(2,4) succs_closed [of g _ p] by (auto simp: sets graph_contains_iff)
    show "\<forall>x \<in> seen' - set stack'. dest \<notin> set (graph_succs g x) \<and> set (graph_succs g x) \<subseteq> seen'"
      using "2.prems"(5) dest by (auto simp: sets)
  qed (use "2.prems" in \<open>auto simp: sets\<close>)
qed

lemma is_path_sound: "is_path_from_to g from dest \<Longrightarrow> (from, dest) \<in> (graph_rel g)\<^sup>+"
  using path_loop_sound [of g dest "[from]" "{from}"] by (simp add: is_path_from_to_def)


subsection \<open>Properties\<close>

text \<open>
  C36: \<open>Graph::sort\<close> panics exactly when some child was never added as a node; otherwise it
  returns every node exactly once, and on an acyclic graph every child precedes its parents.
\<close>

theorem graph_sort_topological:
  "(graph_sort g = Panic \<longleftrightarrow> \<not> graph_closed g) \<and>
   (graph_closed g \<longrightarrow> (\<exists>xs. graph_sort g = Ok xs \<and> distinct xs \<and> set xs = set (graph_iter g) \<and>
      (acyclic (graph_rel g) \<longrightarrow>
         (\<forall>i < length xs. \<forall>c. graph_edge g (xs ! i) c \<noteq> None \<longrightarrow> (\<exists>j < i. xs ! j = c)))))"
proof (cases "graph_sort g")
  case (Ok xs)
  then show ?thesis
    using graph_sort_spec [of g] succs_first_nth [of "graph_succs g" xs] by (auto simp: succs_edge_iff)
qed (use graph_sort_spec [of g] in \<open>auto\<close>)

theorem graph_sort_topological_witness:
  "graph_sort [(1::nat, [(2::nat, ''a''), (3, ''b'')]), (2, [(3, ''c'')]), (3, [])] = Ok [3, 2, 1] \<and>
   graph_closed [(1::nat, [(2::nat, ''a''), (3, ''b'')]), (2, [(3, ''c'')]), (3, [])]"
proof -
  let ?g = "[(1::nat, [(2::nat, ''a''), (3, ''b'')]), (2, [(3, ''c'')]), (3, [])]"
  have run: "graph_sort ?g = Ok [3, 2, 1]"
    by (simp add: graph_sort_def graph_iter_def)
  with graph_sort_topological [of ?g] show ?thesis by simp
qed

text \<open>
  reversing a graph turns every edge around and keeps its label.
\<close>

theorem graph_reversed_edges:
  "graph_wf g \<Longrightarrow>
     graph_wf (graph_reversed d g) \<and> graph_edge (graph_reversed d g) a b = graph_edge g b a"
  by (simp add: graph_wf_reversed graph_edge_reversed)

theorem graph_reversed_edges_witness:
  "graph_edge (graph_reversed ''x'' [(1::nat, [(2, ''a''), (3, ''b'')]), (2, [(3, ''c'')])]) 3 2 =
     Some ''c''"
  using graph_reversed_edges [of "[(1::nat, [(2, ''a''), (3, ''b'')]), (2, [(3, ''c'')])]" "''x''" 3 2]
  by (simp add: graph_wf_def om_wf_def graph_edge_def)

text \<open>
  \<open>is_path_from_to\<close> answers whether there is a non-empty path, on every graph whose
  children are all nodes; a positive answer is right on every graph.
\<close>

theorem is_path_from_to_correct:
  "(is_path_from_to g from dest \<longrightarrow> (from, dest) \<in> (graph_rel g)\<^sup>+) \<and>
   (graph_closed g \<longrightarrow> (from, dest) \<in> (graph_rel g)\<^sup>+ \<longrightarrow> is_path_from_to g from dest)"
proof -
  have "is_path_from_to g from dest" if c: "graph_closed g" and p: "(from, dest) \<in> (graph_rel g)\<^sup>+"
  proof -
    from p have "graph_contains g from"
      by (metis reach_iff succs_contains tranclD)
    then show ?thesis
      using path_loop_complete [of g dest "[from]" "{from}" "from"] c p
      by (auto simp: is_path_from_to_def graph_contains_iff)
  qed
  then show ?thesis by (auto intro: is_path_sound)
qed

theorem is_path_from_to_correct_witness:
  "(1, 3) \<in> (graph_rel [(1::nat, [(2::nat, ''a'')]), (2, [(3, ''c'')]), (3, [])])\<^sup>+ \<and>
   (3, 1) \<notin> (graph_rel [(1::nat, [(2::nat, ''a'')]), (2, [(3, ''c'')]), (3, [])])\<^sup>+"
proof -
  let ?g = "[(1::nat, [(2::nat, ''a'')]), (2, [(3, ''c'')]), (3, [])]"
  have "graph_closed ?g"
    by (simp add: graph_closed_def graph_iter_def graph_succs_def graph_edges_def)
  moreover have "is_path_from_to ?g 1 3" "\<not> is_path_from_to ?g 3 1"
    by (simp_all add: is_path_from_to_def)
  ultimately show ?thesis
    using is_path_from_to_correct [of ?g 1 3] is_path_from_to_correct [of ?g 3 1] by blast
qed

text \<open>
  without that condition the search can miss a path: after three calls of \<open>link\<close> the
  loop stops at node 3, which has no entry of its own, although 4 is reachable from 1.
\<close>

theorem is_path_from_to_stops_early:
  "let g = graph_link () id 2 4 (graph_link () id 1 3 (graph_link () id (1::nat) 2 graph_new))
   in (1, 4) \<in> (graph_rel g)\<^sup>+ \<and> \<not> is_path_from_to g 1 4"
proof -
  let ?g = "[(1::nat, [(2::nat, ()), (3, ())]), (2, [(4, ())])]"
  have g: "graph_link () id 2 4 (graph_link () id 1 3 (graph_link () id (1::nat) 2 graph_new)) = ?g"
    by (simp add: graph_link_def graph_new_def)
  have "(1, 2) \<in> graph_rel ?g" "(2, 4) \<in> graph_rel ?g"
    by (simp_all add: graph_succs_def graph_edges_def)
  then have "(1, 4) \<in> (graph_rel ?g)\<^sup>+"
    by (meson r_into_trancl' trancl.trancl_into_trancl)
  then show ?thesis
    unfolding g by (simp add: is_path_from_to_def)
qed

end
