(* ===== verification/GraphPaths.thy ===== *)
theory GraphPaths
  imports DepGraph
begin

section \<open>Shortest paths in the dependency graph (src/util/graph.rs)\<close>

text \<open>
  \<open>path_to\<close> runs a breadth-first search from a package until it pops a node without
  outgoing edges, recording for each discovered node the node and edge it was discovered
  from, and then follows these links back. \<open>path_to_bottom\<close> searches along the edges,
  \<open>path_to_top\<close> against them. The search loop takes an iteration bound; \<open>path_bound\<close>
  exceeds the number of nodes that can ever be queued.

  The lemmas follow the search by an invariant with a level function: discovered nodes
  carry their distance from the start, the queue is sorted by level and spans at most two
  levels.
\<close>

type_synonym ('n, 'e) back_links = "('n \<times> ('n \<times> 'e)) list"

fun bfs_push ::
  "'n::linorder \<Rightarrow> ('n \<times> 'e) list \<Rightarrow> ('n, 'e) back_links \<Rightarrow> 'n list \<Rightarrow> ('n, 'e) back_links \<times> 'n list"
where
  "bfs_push p [] bk q = (bk, q)"
| "bfs_push p ((c, e) # es) bk q =
     (case map_of bk c of
        None \<Rightarrow> bfs_push p es (om_insert c (p, e) bk) (q @ [c])
      | Some _ \<Rightarrow> bfs_push p es bk q)"

fun bfs_loop ::
  "nat \<Rightarrow> ('n::linorder \<Rightarrow> ('n \<times> 'e) list) \<Rightarrow> ('n, 'e) back_links \<Rightarrow> 'n list \<Rightarrow> 'n \<Rightarrow>
   (unit, ('n, 'e) back_links \<times> 'n) outcome" where
  "bfs_loop 0 fe bk q lst = OutOfFuel"
| "bfs_loop (Suc k) fe bk [] lst = Ok (bk, lst)"
| "bfs_loop (Suc k) fe bk (p # q) lst =
     (if fe p = [] then Ok (bk, p)
      else let (bk', q') = bfs_push p (fe p) bk q in bfs_loop k fe bk' q' p)"

lemma length_om_remove_less: "map_of m k = Some v \<Longrightarrow> length (om_remove k m) < length m"
proof -
  assume "map_of m k = Some v"
  then have "(k, v) \<in> set m" by (rule map_of_SomeD)
  then show ?thesis
    unfolding om_remove_def by (rule length_filter_less) simp
qed

function walk_back ::
  "('n, 'e) back_links \<Rightarrow> 'n \<Rightarrow> ('n \<times> 'e option) list \<times> 'n" where
  "walk_back bk nxt =
     (case map_of bk nxt of
        None \<Rightarrow> ([], nxt)
      | Some (p, e) \<Rightarrow>
          (let (result, n) = walk_back (om_remove nxt bk) p in ((nxt, Some e) # result, n)))"
  by pat_completeness auto
termination
  by (relation "measure (\<lambda>(bk, _). length bk)") (auto intro: length_om_remove_less)

declare walk_back.simps [simp del]

definition path_bound :: "('n, 'e) graph \<Rightarrow> nat" where
  "path_bound g = Suc (Suc (length g + length (concat (map snd g))))"

definition path_to ::
  "('n::linorder, 'e) graph \<Rightarrow> ('n \<Rightarrow> ('n \<times> 'e) list) \<Rightarrow> 'n \<Rightarrow> (unit, ('n \<times> 'e option) list) outcome"
where
  "path_to g fn_edge pkg =
     obind (bfs_loop (path_bound g) fn_edge [] [pkg] pkg)
       (\<lambda>(bk, lst).
          let (result, nxt) = walk_back bk lst;
              result = (if \<forall>(n, _) \<in> set result. n \<noteq> nxt then result @ [(nxt, None)] else result)
          in Ok (rev result))"

definition path_to_bottom ::
  "('n::linorder, 'e) graph \<Rightarrow> 'n \<Rightarrow> (unit, ('n \<times> 'e option) list) outcome" where
  "path_to_bottom g pkg = path_to g (graph_edges g) pkg"

definition graph_parents :: "('n, 'e) graph \<Rightarrow> 'n \<Rightarrow> ('n \<times> 'e) list" where
  "graph_parents g pk =
     List.map_filter (\<lambda>(p, adjacent). map_option (\<lambda>e. (p, e)) (map_of adjacent pk)) g"

definition path_to_top ::
  "('n::linorder, 'e) graph \<Rightarrow> 'n \<Rightarrow> (unit, ('n \<times> 'e option) list) outcome" where
  "path_to_top g pkg = path_to g (graph_parents g) pkg"

subsection \<open>The search invariant\<close>

abbreviation fe_rel :: "('n \<Rightarrow> ('n \<times> 'e) list) \<Rightarrow> ('n \<times> 'n) set" where
  "fe_rel fe \<equiv> reach (\<lambda>n. map fst (fe n))"

definition bfs_inv ::
  "('n::linorder \<Rightarrow> ('n \<times> 'e) list) \<Rightarrow> 'n \<Rightarrow> ('n \<Rightarrow> nat) \<Rightarrow> 'n set \<Rightarrow> ('n, 'e) back_links \<Rightarrow> 'n list \<Rightarrow> bool"
where
  "bfs_inv fe s lev P bk q \<longleftrightarrow>
     om_wf bk \<and> s \<notin> dom (map_of bk) \<and> lev s = 0 \<and>
     insert s (dom (map_of bk)) = P \<union> set q \<and> (\<forall>x \<in> P \<union> set q. (s, x) \<in> (fe_rel fe)\<^sup>*) \<and>
     (\<forall>c p e. map_of bk c = Some (p, e) \<longrightarrow> p \<in> P \<and> (c, e) \<in> set (fe p) \<and> lev c = Suc (lev p)) \<and>
     (\<forall>p \<in> P. fe p \<noteq> [] \<and> (\<forall>c \<in> fst ` set (fe p). c \<in> P \<union> set q \<and> lev c \<le> Suc (lev p))) \<and>
     (\<forall>p \<in> P. \<forall>x \<in> set q. lev p \<le> lev x) \<and>
     sorted (map lev q) \<and> (\<forall>x \<in> set q. lev x \<le> Suc (lev (hd q)))"

lemma bfs_inv_kids:
  "bfs_inv fe s lev P bk q \<Longrightarrow> p \<in> P \<Longrightarrow> c \<in> fst ` set (fe p) \<Longrightarrow>
     c \<in> P \<union> set q \<and> lev c \<le> Suc (lev p)"
  unfolding bfs_inv_def by blast

lemma bfs_inv_nonleaf: "bfs_inv fe s lev P bk q \<Longrightarrow> p \<in> P \<Longrightarrow> fe p \<noteq> []"
  unfolding bfs_inv_def by blast

lemma bfs_push_spec:
  assumes "bfs_push p es bk q = (bk', q')" and "om_wf bk"
  shows "om_wf bk' \<and> dom (map_of bk') = dom (map_of bk) \<union> fst ` set es \<and>
    (\<forall>c \<in> dom (map_of bk). map_of bk' c = map_of bk c) \<and>
    (\<forall>c e p'. c \<notin> dom (map_of bk) \<longrightarrow> map_of bk' c = Some (p', e) \<longrightarrow> p' = p \<and> (c, e) \<in> set es) \<and>
    (\<exists>new. q' = q @ new \<and> set new = fst ` set es - dom (map_of bk))"
  using assms
proof (induction p es bk q rule: bfs_push.induct)
  case (1 p bk q)
  then show ?case by (auto simp: dom_def)
next
  case (2 p c e es bk q)
  show ?case
  proof (cases "map_of bk c")
    case None
    have "bfs_push p es (om_insert c (p, e) bk) (q @ [c]) = (bk', q')"
      using "2.prems"(1) None by simp
    note ih = "2.IH"(1) [OF None this om_wf_insert [OF "2.prems"(2)]]
    have dom: "dom (map_of (om_insert c (p, e) bk)) = insert c (dom (map_of bk))"
      using "2.prems"(2) by (simp add: map_laws)
    have get: "map_of (om_insert c (p, e) bk) = (map_of bk)(c \<mapsto> (p, e))"
      using "2.prems"(2) by (simp add: map_laws)
    from ih obtain new where new: "q' = (q @ [c]) @ new"
      "set new = fst ` set es - insert c (dom (map_of bk))"
      by (auto simp: dom)
    have "\<exists>new. q' = q @ new \<and> set new = fst ` set ((c, e) # es) - dom (map_of bk)"
      by (rule exI [where x = "c # new"]) (use new None in auto)
    moreover have keep: "\<forall>x \<in> insert c (dom (map_of bk)).
        map_of bk' x = ((map_of bk)(c \<mapsto> (p, e))) x"
      unfolding dom [symmetric] get [symmetric] using ih by (elim conjE)
    then have "map_of bk' c = Some (p, e)" by simp
    moreover have "\<forall>x \<in> dom (map_of bk). map_of bk' x = map_of bk x"
      using keep None by auto
    moreover have "\<forall>c' e' p'. c' \<notin> dom (map_of bk) \<longrightarrow> map_of bk' c' = Some (p', e') \<longrightarrow>
        p' = p \<and> (c', e') \<in> set ((c, e) # es)"
    proof (intro allI impI)
      fix c' e' p'
      assume c': "c' \<notin> dom (map_of bk)" "map_of bk' c' = Some (p', e')"
      show "p' = p \<and> (c', e') \<in> set ((c, e) # es)"
      proof (cases "c' = c")
        case True
        with keep c'(2) show ?thesis by simp
      next
        case False
        with c' ih show ?thesis unfolding dom by simp
      qed
    qed
    ultimately show ?thesis
      using ih unfolding dom by simp
  next
    case (Some a)
    with 2 show ?thesis by auto
  qed
qed

lemma bfs_push_measure:
  assumes "bfs_push p es bk q = (bk', q')" and "om_wf bk" and "fst ` set es \<subseteq> U" and "finite U"
  shows "card (U - dom (map_of bk')) + length q' = card (U - dom (map_of bk)) + length q"
  using assms(1,2,3)
proof (induction p es bk q rule: bfs_push.induct)
  case (1 p bk q)
  then show ?case by simp
next
  case (2 p c e es bk q)
  show ?case
  proof (cases "map_of bk c")
    case None
    then have "c \<in> U - dom (map_of bk)" using "2.prems"(3) by auto
    then have "card (U - dom (map_of bk)) = Suc (card (U - insert c (dom (map_of bk))))"
      using assms(4) by (metis Diff_insert card_Suc_Diff1 finite_Diff)
    moreover have "dom (map_of (om_insert c (p, e) bk)) = insert c (dom (map_of bk))"
      using "2.prems"(2) by (simp add: map_laws)
    ultimately show ?thesis
      using 2 None by (simp add: om_wf_insert)
  next
    case (Some a)
    with 2 show ?thesis by simp
  qed
qed

lemma bfs_inv_start: "bfs_inv fe s (\<lambda>_. 0) {} [] [s]"
  by (simp add: bfs_inv_def)

lemma bfs_inv_step:
  assumes inv: "bfs_inv fe s lev P bk (p # q)" and kids: "fe p \<noteq> []"
    and push: "bfs_push p (fe p) bk q = (bk', q')" and ac: "(s, s) \<notin> (fe_rel fe)\<^sup>+"
  shows "\<exists>lev'. bfs_inv fe s lev' (insert p P) bk' q'"
proof -
  note I = inv [unfolded bfs_inv_def]
  from I have wf: "om_wf bk" and s: "s \<notin> dom (map_of bk)"
    and cov: "insert s (dom (map_of bk)) = P \<union> set (p # q)"
    and rch: "\<forall>x \<in> P \<union> set (p # q). (s, x) \<in> (fe_rel fe)\<^sup>*"
    and lnk: "\<forall>c p' e. map_of bk c = Some (p', e) \<longrightarrow>
        p' \<in> P \<and> (c, e) \<in> set (fe p') \<and> lev c = Suc (lev p')"
    and fin: "\<forall>p' \<in> P. fe p' \<noteq> [] \<and>
        (\<forall>c \<in> fst ` set (fe p'). c \<in> P \<union> set (p # q) \<and> lev c \<le> Suc (lev p'))"
    and le: "\<forall>p' \<in> P. \<forall>x \<in> set (p # q). lev p' \<le> lev x"
    and srt: "sorted (map lev (p # q))" and near: "\<forall>x \<in> set (p # q). lev x \<le> Suc (lev p)"
    and zero: "lev s = 0"
    by auto
  note spec = bfs_push_spec [OF push wf]
  from spec obtain new where q': "q' = q @ new" and new: "set new = fst ` set (fe p) - dom (map_of bk)"
    by blast
  from spec have wf': "om_wf bk'" and dom': "dom (map_of bk') = dom (map_of bk) \<union> fst ` set (fe p)"
    and old: "\<forall>c \<in> dom (map_of bk). map_of bk' c = map_of bk c"
    by simp_all
  from spec have fresh: "\<forall>c e p'. c \<notin> dom (map_of bk) \<longrightarrow> map_of bk' c = Some (p', e) \<longrightarrow>
      p' = p \<and> (c, e) \<in> set (fe p)"
    by blast
  have step: "(s, c) \<in> (fe_rel fe)\<^sup>+" if "c \<in> fst ` set (fe p)" for c
  proof -
    have "(s, p) \<in> (fe_rel fe)\<^sup>*" and "(p, c) \<in> fe_rel fe"
      using rch that by auto
    then show ?thesis by (rule rtrancl_into_trancl1)
  qed
  with ac have snk: "s \<notin> fst ` set (fe p)" by blast
  define lev' where "lev' c = (if c \<in> set new then Suc (lev p) else lev c)" for c
  have same: "lev' c = lev c" if "c \<in> P \<union> set (p # q)" for c
    using that cov s snk new by (auto simp: lev'_def)
  have "bfs_inv fe s lev' (insert p P) bk' q'"
    unfolding bfs_inv_def
  proof (intro conjI)
    show "om_wf bk'" by (rule wf')
    show "s \<notin> dom (map_of bk')" using s snk dom' by blast
    show "lev' s = 0" using zero snk new by (auto simp: lev'_def)
    show "insert s (dom (map_of bk')) = insert p P \<union> set q'"
      using cov dom' q' new by auto
    show "\<forall>x \<in> insert p P \<union> set q'. (s, x) \<in> (fe_rel fe)\<^sup>*"
    proof
      fix x
      assume "x \<in> insert p P \<union> set q'"
      then consider "x \<in> P \<union> set (p # q)" | "x \<in> fst ` set (fe p)"
        using q' new by auto
      then show "(s, x) \<in> (fe_rel fe)\<^sup>*"
        by cases (use rch step in \<open>blast intro: trancl_into_rtrancl\<close>)+
    qed
    show "\<forall>c p' e. map_of bk' c = Some (p', e) \<longrightarrow>
        p' \<in> insert p P \<and> (c, e) \<in> set (fe p') \<and> lev' c = Suc (lev' p')"
    proof (intro allI impI)
      fix c p' e
      assume c: "map_of bk' c = Some (p', e)"
      show "p' \<in> insert p P \<and> (c, e) \<in> set (fe p') \<and> lev' c = Suc (lev' p')"
      proof (cases "c \<in> dom (map_of bk)")
        case True
        then have "map_of bk c = Some (p', e)" using c old by auto
        with lnk have *: "p' \<in> P" "(c, e) \<in> set (fe p')" "lev c = Suc (lev p')" by auto
        moreover have "c \<in> P \<union> set (p # q)" using True cov by blast
        then have "lev' c = lev c" by (rule same)
        moreover have "lev' p' = lev p'" using * by (intro same) simp
        ultimately show ?thesis by simp
      next
        case False
        with c fresh have *: "p' = p" "(c, e) \<in> set (fe p)" by auto
        then have "c \<in> set new" using new False by force
        with * same show ?thesis by (simp add: lev'_def)
      qed
    qed
    show "\<forall>p' \<in> insert p P. fe p' \<noteq> [] \<and>
        (\<forall>c \<in> fst ` set (fe p'). c \<in> insert p P \<union> set q' \<and> lev' c \<le> Suc (lev' p'))"
    proof
      fix p'
      assume "p' \<in> insert p P"
      then consider "p' = p" | "p' \<in> P" by blast
      then show "fe p' \<noteq> [] \<and>
          (\<forall>c \<in> fst ` set (fe p'). c \<in> insert p P \<union> set q' \<and> lev' c \<le> Suc (lev' p'))"
      proof cases
        case 1
        have "c \<in> insert p P \<union> set q' \<and> lev' c \<le> Suc (lev' p)" if c: "c \<in> fst ` set (fe p)" for c
        proof (cases "c \<in> set new")
          case True
          then show ?thesis using same q' by (simp add: lev'_def)
        next
          case False
          then have "c \<in> P \<union> set (p # q)" using c new cov by auto
          moreover have "lev c \<le> Suc (lev p)"
            using calculation le near by force
          ultimately show ?thesis using same q' by auto
        qed
        with 1 kids show ?thesis by simp
      next
        case 2
        with fin same q' show ?thesis by auto
      qed
    qed
    show "\<forall>p' \<in> insert p P. \<forall>x \<in> set q'. lev' p' \<le> lev' x"
    proof (intro ballI)
      fix p' x
      assume p': "p' \<in> insert p P" and x: "x \<in> set q'"
      have "lev p' \<le> lev p" using p' le by auto
      moreover have "lev p \<le> lev' x"
        using x srt same q' by (auto simp: lev'_def)
      ultimately show "lev' p' \<le> lev' x" using p' same by auto
    qed
    have lev_q: "map lev' q = map lev q" using same by simp
    have lev_new: "map lev' new = replicate (length new) (Suc (lev p))"
      by (simp add: lev'_def map_replicate_const [symmetric])
    show "sorted (map lev' q')"
      using srt near by (auto simp: q' lev_q lev_new sorted_append)
    show "\<forall>x \<in> set q'. lev' x \<le> Suc (lev' (hd q'))"
    proof
      fix x
      assume x: "x \<in> set q'"
      have "lev' x \<le> Suc (lev p)"
        using x near same q' by (auto simp: lev'_def)
      moreover have "hd q' \<in> set q'" using x by (cases q') auto
      then have "lev p \<le> lev' (hd q')"
        using srt same q' by (auto simp: lev'_def)
      ultimately show "lev' x \<le> Suc (lev' (hd q'))" by simp
    qed
  qed
  then show ?thesis by blast
qed


subsection \<open>The search stops at the first leaf\<close>

lemma acyclic_finite_leaf:
  assumes "acyclic (fe_rel fe)" and "finite P" and "x \<in> P"
    and "\<forall>p \<in> P. fe p \<noteq> [] \<and> fst ` set (fe p) \<subseteq> P"
  shows False
proof -
  let ?r = "fe_rel fe \<inter> P \<times> P"
  have "acyclic ?r" using assms(1) by (rule acyclic_subset) simp
  moreover have "finite ?r"
    using assms(2) by (rule_tac finite_subset [of _ "P \<times> P"]) auto
  ultimately have "wf (?r\<inverse>)" by (rule finite_acyclic_wf_converse [rotated])
  then obtain m where m: "m \<in> P" "\<And>y. (y, m) \<in> ?r\<inverse> \<Longrightarrow> y \<notin> P"
    using assms(3) by (rule wfE_min) blast
  have "fe m \<noteq> []" and kids: "fst ` set (fe m) \<subseteq> P"
    using assms(4) m(1) by auto
  then obtain c where "c \<in> fst ` set (fe m)" by (cases "fe m") auto
  then have "c \<in> P" and "(c, m) \<in> ?r\<inverse>"
    using kids m(1) by auto
  with m(2) show False by blast
qed

lemma bfs_loop_spec:
  assumes "bfs_inv fe s lev P bk q" and ac: "acyclic (fe_rel fe)"
    and U: "finite U" "\<And>p. fst ` set (fe p) \<subseteq> U"
    and "card (U - dom (map_of bk)) + length q < k"
  shows "\<exists>bk' l q' lev' P'. bfs_loop k fe bk q lst = Ok (bk', l) \<and> fe l = [] \<and>
    bfs_inv fe s lev' P' bk' (l # q')"
  using assms(1,5)
proof (induction k arbitrary: lev P bk q lst)
  case 0
  then show ?case by simp
next
  case (Suc k)
  show ?case
  proof (cases q)
    case Nil
    from Suc.prems(1) have P: "insert s (dom (map_of bk)) = P"
      "\<forall>p \<in> P. fe p \<noteq> [] \<and> fst ` set (fe p) \<subseteq> P"
      unfolding Nil bfs_inv_def by auto
    then have "s \<in> P" and "finite P"
      by (auto simp: finite_dom_map_of)
    with P(2) ac have False by (intro acyclic_finite_leaf [of fe P s])
    then show ?thesis ..
  next
    case (Cons p q0)
    show ?thesis
    proof (cases "fe p = []")
      case True
      with Suc.prems(1) Cons show ?thesis by auto
    next
      case False
      obtain bk' q' where push: "bfs_push p (fe p) bk q0 = (bk', q')"
        by (cases "bfs_push p (fe p) bk q0")
      have "(s, s) \<notin> (fe_rel fe)\<^sup>+" using ac by (simp add: acyclic_def)
      with Suc.prems(1) Cons False push obtain lev' where
        "bfs_inv fe s lev' (insert p P) bk' q'"
        using bfs_inv_step by blast
      moreover have "card (U - dom (map_of bk')) + length q' < k"
        using bfs_push_measure [OF push _ U(2) U(1)] Suc.prems Cons by (simp add: bfs_inv_def)
      ultimately show ?thesis
        using Suc.IH [of lev' "insert p P" bk' q' p] Cons False push by simp
    qed
  qed
qed

subsection \<open>Following the links back\<close>

fun edge_path :: "('n \<Rightarrow> ('n \<times> 'e) list) \<Rightarrow> 'n \<Rightarrow> ('n \<times> 'e option) list \<Rightarrow> bool" where
  "edge_path fe a [] = True"
| "edge_path fe a ((c, None) # r) = False"
| "edge_path fe a ((c, Some e) # r) = ((c, e) \<in> set (fe a) \<and> edge_path fe c r)"

fun path_end :: "'n \<Rightarrow> ('n \<times> 'e option) list \<Rightarrow> 'n" where
  "path_end a [] = a"
| "path_end a ((c, _) # r) = path_end c r"

lemma edge_path_snoc:
  "edge_path fe a (r @ [(c, Some e)]) \<longleftrightarrow> edge_path fe a r \<and> (c, e) \<in> set (fe (path_end a r))"
  by (induction fe a r rule: edge_path.induct) auto

lemma path_end_snoc [simp]: "path_end a (r @ [(c, e)]) = c"
  by (induction a r rule: path_end.induct) auto

lemma walk_back_spec:
  assumes inv: "bfs_inv fe s lev P bk q" and "x \<in> P \<union> set q"
    and "\<forall>c. lev c \<le> lev x \<longrightarrow> map_of b c = map_of bk c"
  shows "\<exists>r. walk_back b x = (rev r, s) \<and> edge_path fe s r \<and> length r = lev x \<and>
    path_end s r = x \<and> fst ` set r \<subseteq> dom (map_of bk)"
  using assms(2,3)
proof (induction "lev x" arbitrary: x b)
  case 0
  have "map_of bk x = None"
    using inv "0.hyps" by (cases "map_of bk x") (auto simp: bfs_inv_def)
  moreover from this inv "0.prems"(1) have "x = s"
    by (auto simp: bfs_inv_def)
  ultimately show ?case
    using "0.prems"(2) "0.hyps" by (subst walk_back.simps) simp
next
  case (Suc n)
  from inv Suc.prems(1) Suc.hyps(2) obtain p e where
    x: "map_of bk x = Some (p, e)" "p \<in> P" "(x, e) \<in> set (fe p)" "lev x = Suc (lev p)"
    unfolding bfs_inv_def by (metis Zero_not_Suc domD insert_iff prod.exhaust)
  have "\<forall>c. lev c \<le> lev p \<longrightarrow> map_of (om_remove x b) c = map_of bk c"
    using Suc.prems(2) x(4) by (auto simp: get_om_remove)
  with Suc.hyps x obtain r where r: "walk_back (om_remove x b) p = (rev r, s)" "edge_path fe s r"
    "length r = lev p" "path_end s r = p" "fst ` set r \<subseteq> dom (map_of bk)"
    by (metis UnI1 old.nat.inject)
  have "map_of b x = Some (p, e)" using Suc.prems(2) x(1) by simp
  with r have "walk_back b x = (rev (r @ [(x, Some e)]), s)"
    by (subst walk_back.simps) simp
  with r x show ?case
    by (intro exI [where x = "r @ [(x, Some e)]"]) (auto simp: edge_path_snoc)
qed

lemma bfs_shortest:
  assumes inv: "bfs_inv fe s lev P bk (l # q)" and "a \<in> P \<union> set (l # q)" and "edge_path fe a r"
    and "lev a + length r < lev l"
  shows "path_end a r \<in> P"
  using assms(2,3,4)
proof (induction r arbitrary: a)
  case Nil
  then have "a \<notin> set (l # q)"
    using inv by (auto simp: bfs_inv_def)
  with Nil.prems(1) show ?case by simp
next
  case (Cons x r)
  obtain c e where x: "x = (c, Some e)" and c: "(c, e) \<in> set (fe a)" "edge_path fe c r"
    using Cons.prems(2) by (cases x; cases "snd x") auto
  have "a \<notin> set (l # q)"
    using Cons.prems inv by (auto simp: bfs_inv_def)
  with Cons.prems(1) have "a \<in> P" by simp
  moreover have "c \<in> fst ` set (fe a)" using c(1) by force
  ultimately have "c \<in> P \<union> set (l # q)" and "lev c \<le> Suc (lev a)"
    using bfs_inv_kids [OF inv] by blast+
  then show ?case
    using Cons.IH [of c] Cons.prems(3) c by (simp add: x)
qed


subsection \<open>The result of the search\<close>

definition shortest_leaf_path ::
  "('n \<Rightarrow> ('n \<times> 'e) list) \<Rightarrow> 'n \<Rightarrow> ('n \<times> 'e option) list \<Rightarrow> bool" where
  "shortest_leaf_path fe s r \<longleftrightarrow>
     edge_path fe s r \<and> fe (path_end s r) = [] \<and>
     (\<forall>r'. edge_path fe s r' \<longrightarrow> fe (path_end s r') = [] \<longrightarrow> length r \<le> length r')"

lemma path_to_spec:
  assumes ac: "acyclic (fe_rel fe)" and U: "finite U" "\<And>p. fst ` set (fe p) \<subseteq> U"
    and bound: "card U + 1 < path_bound g"
  shows "\<exists>r. path_to g fe s = Ok ((s, None) # r) \<and> shortest_leaf_path fe s r"
proof -
  obtain bk l q lev P where run: "bfs_loop (path_bound g) fe [] [s] s = Ok (bk, l)"
    and leaf: "fe l = []" and inv: "bfs_inv fe s lev P bk (l # q)"
    using bfs_loop_spec [OF bfs_inv_start ac U, where k = "path_bound g" and lst = s] bound
    by (auto; blast)
  from walk_back_spec [OF inv, of l bk] obtain r where
    r: "walk_back bk l = (rev r, s)" "edge_path fe s r" "length r = lev l" "path_end s r = l"
    "fst ` set r \<subseteq> dom (map_of bk)"
    by auto
  have s: "s \<notin> dom (map_of bk)" "lev s = 0" "s \<in> P \<union> set (l # q)"
    using inv by (auto simp: bfs_inv_def)
  have "\<forall>(n, _) \<in> set (rev r). n \<noteq> s"
    using r(5) s(1) by auto
  then have "path_to g fe s = Ok ((s, None) # r)"
    by (simp add: path_to_def run r)
  moreover have "length r \<le> length r'"
    if "edge_path fe s r'" "fe (path_end s r') = []" for r'
  proof (rule ccontr)
    assume "\<not> length r \<le> length r'"
    then have "path_end s r' \<in> P"
      using bfs_shortest [OF inv s(3) that(1)] r(3) s(2) by simp
    with bfs_inv_nonleaf [OF inv] that(2) show False by blast
  qed
  ultimately show ?thesis
    using r leaf by (auto simp: shortest_leaf_path_def)
qed

lemma card_fst_set_le: "card (fst ` set xs) \<le> length xs"
  using card_length [of "map fst xs"] by simp

lemma path_to_bottom_spec:
  assumes "acyclic (graph_rel g)"
  shows "\<exists>r. path_to_bottom g s = Ok ((s, None) # r) \<and> shortest_leaf_path (graph_edges g) s r"
  unfolding path_to_bottom_def
proof (rule path_to_spec [where U = "fst ` set (concat (map snd g))"])
  show "acyclic (fe_rel (graph_edges g))"
    using assms by (simp add: graph_succs_def [abs_def])
  show "fst ` set (graph_edges g p) \<subseteq> fst ` set (concat (map snd g))" for p
  proof (cases "map_of g p")
    case (Some m)
    then have "set m \<subseteq> set (concat (map snd g))"
      by (force dest: map_of_SomeD)
    with Some show ?thesis by (auto simp: graph_edges_def)
  qed (simp add: graph_edges_def)
  show "card (fst ` set (concat (map snd g))) + 1 < path_bound g"
    using card_fst_set_le [of "concat (map snd g)"] by (simp add: path_bound_def)
qed simp

lemma graph_parents_iff:
  assumes "graph_wf g"
  shows "(p, e) \<in> set (graph_parents g n) \<longleftrightarrow> graph_edge g p n = Some e"
proof -
  have "(p, e) \<in> set (graph_parents g n) \<longleftrightarrow> (\<exists>m. (p, m) \<in> set g \<and> map_of m n = Some e)"
    by (force simp: graph_parents_def List.map_filter_def)
  also have "\<dots> \<longleftrightarrow> graph_edge g p n = Some e"
    using assms by (auto simp: om.mem_iff_get graph_wf_def graph_edge_def split: option.splits)
  finally show ?thesis .
qed

lemma graph_parents_rel:
  assumes "graph_wf g"
  shows "fe_rel (graph_parents g) = (graph_rel g)\<inverse>"
proof -
  have "(n, p) \<in> fe_rel (graph_parents g) \<longleftrightarrow> (p, n) \<in> graph_rel g" for n p
    using graph_parents_iff [OF assms] by (force simp: succs_edge_iff)
  then show ?thesis by auto
qed

lemma path_to_top_spec:
  assumes "graph_wf g" and "acyclic (graph_rel g)"
  shows "\<exists>r. path_to_top g s = Ok ((s, None) # r) \<and> shortest_leaf_path (graph_parents g) s r"
  unfolding path_to_top_def
proof (rule path_to_spec [where U = "fst ` set g"])
  show "acyclic (fe_rel (graph_parents g))"
    using assms by (simp add: graph_parents_rel acyclic_converse)
  show "fst ` set (graph_parents g p) \<subseteq> fst ` set g" for p
    by (force simp: graph_parents_def List.map_filter_def)
  show "card (fst ` set g) + 1 < path_bound g"
    using card_fst_set_le [of g] by (simp add: path_bound_def)
qed simp


subsection \<open>Properties\<close>

text \<open>
  on an acyclic graph \<open>path_to_bottom\<close> terminates with a shortest path from the given
  node to a node without children, each element after the first labelled with the edge that
  leads to it.
\<close>

theorem path_to_bottom_shortest:
  "acyclic (graph_rel g) \<Longrightarrow>
     \<exists>r. path_to_bottom g s = Ok ((s, None) # r) \<and> edge_path (graph_edges g) s r \<and>
       graph_edges g (path_end s r) = [] \<and>
       (\<forall>r'. edge_path (graph_edges g) s r' \<longrightarrow> graph_edges g (path_end s r') = [] \<longrightarrow>
          length r \<le> length r')"
  using path_to_bottom_spec [of g s] by (auto simp: shortest_leaf_path_def)

theorem path_to_bottom_shortest_witness:
  "path_to_bottom [(1::nat, [(2, ''a''), (3, ''b'')]), (2, [(4, ''c'')])] 1 =
     Ok [(1, None), (3, Some ''b'')]"
proof -
  let ?g = "[(1::nat, [(2::nat, ''a''), (3, ''b'')]), (2, [(4, ''c'')])]"
  have "acyclic (graph_rel ?g)"
    by (rule acyclic_by_measure [where f = "\<lambda>x. 5 - x"])
      (auto simp: graph_succs_def graph_edges_def split: if_splits)
  from path_to_bottom_shortest [OF this, of 1] obtain r
    where r: "path_to_bottom ?g 1 = Ok ((1, None) # r)" "edge_path (graph_edges ?g) 1 r"
      "graph_edges ?g (path_end 1 r) = []"
      "\<And>r'. edge_path (graph_edges ?g) 1 r' \<Longrightarrow> graph_edges ?g (path_end 1 r') = [] \<Longrightarrow>
         length r \<le> length r'"
    by blast
  have "length r \<le> 1"
    using r(4) [of "[(3, Some ''b'')]"] by (simp add: graph_edges_def)
  with r(2,3) have "r = [(3, Some ''b'')]"
    by (cases "(graph_edges ?g, Suc 0, r)" rule: edge_path.cases)
      (auto simp: graph_edges_def split: if_splits option.splits)
  with r(1) show ?thesis by simp
qed

text \<open>
  \<open>path_to_top\<close> is the same search over the parents of a node: a shortest path up to
  a node nobody depends on.
\<close>

theorem path_to_top_shortest:
  "graph_wf g \<Longrightarrow> acyclic (graph_rel g) \<Longrightarrow>
     \<exists>r. path_to_top g s = Ok ((s, None) # r) \<and> edge_path (graph_parents g) s r \<and>
       (\<forall>p. graph_edge g p (path_end s r) = None) \<and>
       (\<forall>r'. edge_path (graph_parents g) s r' \<longrightarrow> graph_parents g (path_end s r') = [] \<longrightarrow>
          length r \<le> length r')"
proof -
  assume "graph_wf g" and "acyclic (graph_rel g)"
  moreover have "graph_edge g p n = None" if "graph_parents g n = []" for p n
    using graph_parents_iff [OF \<open>graph_wf g\<close>, of p _ n] that by (cases "graph_edge g p n") auto
  ultimately show ?thesis
    using path_to_top_spec [of g s] by (auto simp: shortest_leaf_path_def)
qed

theorem path_to_top_shortest_witness:
  "\<exists>r. path_to_top [(1::nat, [(2, ''a''), (3, ''b'')]), (2, [(4, ''c'')])] 4 = Ok ((4, None) # r)"
proof -
  let ?g = "[(1::nat, [(2::nat, ''a''), (3, ''b'')]), (2, [(4, ''c'')])]"
  have "acyclic (graph_rel ?g)"
    by (rule acyclic_by_measure [where f = "\<lambda>x. 5 - x"])
      (auto simp: graph_succs_def graph_edges_def split: if_splits)
  moreover have "graph_wf ?g"
    by (simp add: graph_wf_def om_wf_def)
  ultimately show ?thesis
    using path_to_top_shortest [of ?g 4] by blast
qed

end
