(* ===== verification/DepQueue.thy ===== *)
theory DepQueue
  imports Prelude
begin

section \<open>The dependency queue (src/util/dependency_queue.rs)\<close>

text \<open>
  \<open>DependencyQueue<N, E, V>\<close> schedules the units of a build: \<open>queue\<close> registers a node with
  its (node, edge) dependencies, \<open>queue_finished\<close> computes the priorities, \<open>dequeue\<close>
  takes a node without open dependencies and \<open>finish\<close> records that a node has produced an
  edge. Hash maps and hash sets are lists whose order stands for the unspecified iteration
  order; the assertions, the indexing operations and the \<open>unwrap\<close>s are \<open>Panic\<close> branches.

  The recursion of \<open>depth\<close> carries its depth bound as the first argument; \<open>queue_finished\<close>
  passes one more than the number of nodes that occur, and \<open>dq_depth_spec\<close> shows that this
  is enough. The \<open>usize\<close> costs are added at 64 bits: \<open>checks\<close> says whether the build of
  cargo panics on an arithmetic overflow or wraps around.

  The second half follows the life of a queue as a step relation over the queue, the pairs
  reported as finished and the nodes handed out.
\<close>

record ('n, 'e, 'v) dependency_queue =
  dep_map :: "('n \<times> ('n \<times> 'e) list \<times> 'v) list"
  reverse_dep_map :: "('n \<times> ('e \<times> 'n list) list) list"
  dq_priority :: "('n \<times> nat) list"
  dq_cost :: "('n \<times> nat) list"

definition dq_new :: "('n, 'e, 'v) dependency_queue" where
  "dq_new = \<lparr>dep_map = [], reverse_dep_map = [], dq_priority = [], dq_cost = []\<rparr>"

definition rev_insert ::
  "'n \<Rightarrow> 'n \<times> 'e \<Rightarrow> ('n \<times> ('e \<times> 'n list) list) list \<Rightarrow> ('n \<times> ('e \<times> 'n list) list) list" where
  "rev_insert key de rm =
     (let em = (case map_of rm (fst de) of None \<Rightarrow> [] | Some em \<Rightarrow> em);
          ks = (case map_of em (snd de) of None \<Rightarrow> [] | Some ks \<Rightarrow> ks)
      in hm_insert (fst de) (hm_insert (snd de) (List.insert key ks) em) rm)"

definition dq_queue ::
  "'n \<Rightarrow> 'v \<Rightarrow> ('n \<times> 'e) list \<Rightarrow> nat \<Rightarrow> ('n, 'e, 'v) dependency_queue \<Rightarrow>
   (unit, ('n, 'e, 'v) dependency_queue) outcome" where
  "dq_queue key value dependencies cost q =
     (if map_of (dep_map q) key \<noteq> None then Panic
      else Ok (q\<lparr>dep_map := hm_insert key (fold List.insert dependencies [], value) (dep_map q),
                 reverse_dep_map := fold (rev_insert key) dependencies (reverse_dep_map q),
                 dq_cost := hm_insert key cost (dq_cost q)\<rparr>))"

definition rev_deps :: "('n \<times> ('e \<times> 'n list) list) list \<Rightarrow> 'n \<Rightarrow> 'n list" where
  "rev_deps rm key = (case map_of rm key of None \<Rightarrow> [] | Some em \<Rightarrow> concat (map snd em))"

fun depth ::
  "nat \<Rightarrow> ('n \<times> ('e \<times> 'n list) list) list \<Rightarrow> 'n \<Rightarrow> ('n \<times> 'n list) list \<Rightarrow>
   (unit, 'n list \<times> ('n \<times> 'n list) list) outcome" where
  "depth 0 rm key results = OutOfFuel"
| "depth (Suc d) rm key results =
     (case map_of results key of
        Some dp \<Rightarrow> if dp = [] then Panic else Ok (dp, results)
      | None \<Rightarrow>
          obind (ofold (\<lambda>dep (acc, res).
                   obind (depth d rm dep res) (\<lambda>(s, res). Ok (fold List.insert s acc, res)))
                 (rev_deps rm key) ([key], hm_insert key [] results))
            (\<lambda>(acc, res). Ok (acc, hm_insert key acc res)))"

definition index_map :: "('n \<times> nat) list \<Rightarrow> 'n \<Rightarrow> (unit, nat) outcome" where
  "index_map m k = (case map_of m k of None \<Rightarrow> Panic | Some c \<Rightarrow> Ok c)"

definition total_cost :: "bool \<Rightarrow> ('n \<times> nat) list \<Rightarrow> 'n \<times> 'n list \<Rightarrow> (unit, nat) outcome" where
  "total_cost checks costs ns =
     obind (index_map costs (fst ns))
       (\<lambda>c. obind (ofold (\<lambda>k acc. obind (index_map costs k) (uadd 64 checks acc)) (snd ns) 0)
         (uadd 64 checks c))"

definition node_bound :: "('n, 'e, 'v) dependency_queue \<Rightarrow> nat" where
  "node_bound q =
     Suc (length (dep_map q) + length (concat (map (\<lambda>(n, em). concat (map snd em)) (reverse_dep_map q))))"

definition dq_queue_finished ::
  "bool \<Rightarrow> ('n, 'e, 'v) dependency_queue \<Rightarrow> (unit, ('n, 'e, 'v) dependency_queue) outcome" where
  "dq_queue_finished checks q =
     obind (ofold (\<lambda>key out. obind (depth (node_bound q) (reverse_dep_map q) key out) (\<lambda>(_, out). Ok out))
             (map fst (dep_map q)) [])
       (\<lambda>out. obind (ofold (\<lambda>ns acc. obind (total_cost checks (dq_cost q) ns) (\<lambda>c. Ok (acc @ [(fst ns, c)]))) out [])
         (\<lambda>prio. Ok (q\<lparr>dq_priority := prio\<rparr>)))"

fun max_by_key :: "('n \<times> nat) list \<Rightarrow> ('n \<times> nat) option" where
  "max_by_key [] = None"
| "max_by_key (x # xs) =
     (case max_by_key xs of
        None \<Rightarrow> Some x
      | Some y \<Rightarrow> if snd y < snd x then Some x else Some y)"

definition dq_dequeue ::
  "('n, 'e, 'v) dependency_queue \<Rightarrow>
   (unit, ('n \<times> 'v \<times> nat) option \<times> ('n, 'e, 'v) dependency_queue) outcome" where
  "dq_dequeue q =
     obind (ofold (\<lambda>(key, _) acc. obind (index_map (dq_priority q) key) (\<lambda>p. Ok (acc @ [(key, p)])))
             (filter (\<lambda>(_, deps, _). deps = []) (dep_map q)) [])
       (\<lambda>ready. case max_by_key ready of
            None \<Rightarrow> Ok (None, q)
          | Some (key, p) \<Rightarrow>
              (case map_of (dep_map q) key of
                 None \<Rightarrow> Panic
               | Some (_, data) \<Rightarrow>
                   Ok (Some (key, data, p), q\<lparr>dep_map := hm_remove key (dep_map q)\<rparr>)))"

definition dq_is_empty :: "('n, 'e, 'v) dependency_queue \<Rightarrow> bool" where
  "dq_is_empty q = (dep_map q = [])"

definition dq_len :: "('n, 'e, 'v) dependency_queue \<Rightarrow> nat" where
  "dq_len q = length (dep_map q)"

fun finish_dep ::
  "'n \<times> 'e \<Rightarrow> 'n \<Rightarrow> 'n list \<times> ('n \<times> ('n \<times> 'e) list \<times> 'v) list \<Rightarrow>
   (unit, 'n list \<times> ('n \<times> ('n \<times> 'e) list \<times> 'v) list) outcome" where
  "finish_dep key dep (result, dm) =
     (case map_of dm dep of
        None \<Rightarrow> Panic
      | Some (edges, v) \<Rightarrow>
          if key \<notin> set edges then Panic
          else let edges' = removeAll key edges
               in Ok (if edges' = [] then result @ [dep] else result, hm_insert dep (edges', v) dm))"

definition dq_finish ::
  "'n \<Rightarrow> 'e \<Rightarrow> ('n, 'e, 'v) dependency_queue \<Rightarrow>
   (unit, 'n list \<times> ('n, 'e, 'v) dependency_queue) outcome" where
  "dq_finish node edge q =
     (case (case map_of (reverse_dep_map q) node of None \<Rightarrow> None | Some em \<Rightarrow> map_of em edge) of
        None \<Rightarrow> Ok ([], q)
      | Some ks \<Rightarrow>
          obind (ofold (finish_dep (node, edge)) ks ([], dep_map q))
            (\<lambda>(result, dm). Ok (result, q\<lparr>dep_map := dm\<rparr>)))"


subsection \<open>The static dependencies and the invariant\<close>

definition rev_of :: "('n \<times> ('e \<times> 'n list) list) list \<Rightarrow> 'n \<Rightarrow> 'e \<Rightarrow> 'n list" where
  "rev_of rm d e =
     (case map_of rm d of None \<Rightarrow> [] | Some em \<Rightarrow> (case map_of em e of None \<Rightarrow> [] | Some ks \<Rightarrow> ks))"

definition deps_of :: "('n \<times> ('e \<times> 'n list) list) list \<Rightarrow> 'n \<Rightarrow> ('n \<times> 'e) set" where
  "deps_of rm n = {(d, e). n \<in> set (rev_of rm d e)}"

definition rev_wf :: "('n \<times> ('e \<times> 'n list) list) list \<Rightarrow> bool" where
  "rev_wf rm \<longleftrightarrow> hm_wf rm \<and> (\<forall>(d, em) \<in> set rm. hm_wf em \<and> (\<forall>(e, ks) \<in> set em. distinct ks))"

definition dq_inv :: "('n \<times> 'e) set \<Rightarrow> ('n, 'e, 'v) dependency_queue \<Rightarrow> bool" where
  "dq_inv F q \<longleftrightarrow>
     hm_wf (dep_map q) \<and> rev_wf (reverse_dep_map q) \<and>
     (\<forall>n ds v. map_of (dep_map q) n = Some (ds, v) \<longrightarrow> set ds = deps_of (reverse_dep_map q) n - F) \<and>
     (\<forall>n. map_of (dep_map q) n = None \<longrightarrow> deps_of (reverse_dep_map q) n \<subseteq> F)"

lemma dq_inv_get:
  "dq_inv F q \<Longrightarrow> map_of (dep_map q) n = Some (ds, v) \<Longrightarrow> set ds = deps_of (reverse_dep_map q) n - F"
  unfolding dq_inv_def by blast

lemma dq_inv_gone:
  "dq_inv F q \<Longrightarrow> map_of (dep_map q) n = None \<Longrightarrow> deps_of (reverse_dep_map q) n \<subseteq> F"
  unfolding dq_inv_def by blast

lemma dq_inv_wf: "dq_inv F q \<Longrightarrow> hm_wf (dep_map q) \<and> rev_wf (reverse_dep_map q)"
  unfolding dq_inv_def by blast

lemma dq_inv_new: "dq_inv {} dq_new"
  by (auto simp: dq_inv_def dq_new_def rev_wf_def deps_of_def rev_of_def)

lemma set_fold_insert [simp]: "set (fold List.insert xs ys) = set xs \<union> set ys"
  by (induction xs arbitrary: ys) auto

lemma distinct_fold_insert [simp]: "distinct ys \<Longrightarrow> distinct (fold List.insert xs ys)"
  by (induction xs arbitrary: ys) auto

lemma rev_of_insert:
  "rev_of (rev_insert key de rm) d e =
     (if (d, e) = de then List.insert key (rev_of rm d e) else rev_of rm d e)"
  by (cases de) (auto simp: rev_of_def rev_insert_def Let_def get_hm_insert split: option.splits)

lemma deps_of_insert:
  "deps_of (rev_insert key de rm) n = (if n = key then insert de (deps_of rm n) else deps_of rm n)"
  by (auto simp: deps_of_def rev_of_insert split: if_splits)

lemma deps_of_fold_insert:
  "deps_of (fold (rev_insert key) ds rm) n =
     (if n = key then set ds \<union> deps_of rm n else deps_of rm n)"
  by (induction ds arbitrary: rm) (auto simp: deps_of_insert)

lemma set_hm_insert: "set (hm_insert k v m) \<subseteq> insert (k, v) (set m)"
  by (induction m) auto

lemma ball_hm_insert: "P (k, v) \<Longrightarrow> \<forall>x \<in> set m. P x \<Longrightarrow> \<forall>x \<in> set (hm_insert k v m). P x"
  using set_hm_insert [of k v m] by blast

lemma rev_wf_get: "rev_wf rm \<Longrightarrow> map_of rm d = Some em \<Longrightarrow> hm_wf em"
  by (auto simp: rev_wf_def dest!: map_of_SomeD)

lemma rev_wf_distinct: "rev_wf rm \<Longrightarrow> distinct (rev_of rm d e)"
  by (fastforce simp: rev_wf_def rev_of_def dest!: map_of_SomeD split: option.splits)

lemma rev_wf_em:
  "rev_wf rm \<Longrightarrow> map_of rm d = Some em \<Longrightarrow> (e, ks) \<in> set em \<Longrightarrow> distinct ks"
  by (fastforce simp: rev_wf_def dest!: map_of_SomeD)

lemma rev_wf_upd:
  assumes "rev_wf rm" and "hm_wf em" and "\<forall>(e, ks) \<in> set em. distinct ks"
  shows "rev_wf (hm_insert d em rm)"
  unfolding rev_wf_def
proof (intro conjI ball_hm_insert)
  show "hm_wf (hm_insert d em rm)"
    using assms(1) by (simp add: rev_wf_def hm_wf_insert)
qed (use assms in \<open>simp_all add: rev_wf_def\<close>)

lemma rev_wf_insert:
  assumes "rev_wf rm"
  shows "rev_wf (rev_insert key de rm)"
proof -
  obtain d e where de: "de = (d, e)" by (cases de)
  let ?em = "case map_of rm d of None \<Rightarrow> [] | Some em \<Rightarrow> em"
  define em where "em = ?em"
  have em: "hm_wf em"
    using assms by (simp add: em_def rev_wf_get split: option.split)
  have ks: "distinct ks" if "(e', ks) \<in> set em" for e' ks
    using that rev_wf_em [OF assms, of d _ e' ks] by (cases "map_of rm d") (auto simp: em_def)
  define ks where "ks = List.insert key (case map_of em e of None \<Rightarrow> [] | Some ks \<Rightarrow> ks)"
  have "distinct ks"
    by (cases "map_of em e") (auto simp: ks_def intro!: ks map_of_SomeD)
  then have "\<forall>(e, ks) \<in> set (hm_insert e ks em). distinct ks"
    by (intro ball_hm_insert) (use ks in auto)
  then have "rev_wf (hm_insert d (hm_insert e ks em) rm)"
    by (intro rev_wf_upd [OF assms] hm_wf_insert em)
  then show ?thesis
    by (simp add: rev_insert_def Let_def de em_def ks_def)
qed

lemma rev_wf_fold: "rev_wf rm \<Longrightarrow> rev_wf (fold (rev_insert key) ds rm)"
  by (induction ds arbitrary: rm) (auto simp: rev_wf_insert)

lemma dq_inv_queue:
  assumes "dq_inv {} q" and "dq_queue key v ds c q = Ok q'"
  shows "dq_inv {} q'"
proof -
  have new: "map_of (dep_map q) key = None"
    and q': "q' = q\<lparr>dep_map := hm_insert key (fold List.insert ds [], v) (dep_map q),
                 reverse_dep_map := fold (rev_insert key) ds (reverse_dep_map q),
                 dq_cost := hm_insert key c (dq_cost q)\<rparr>"
    using assms(2) by (simp_all add: dq_queue_def del: not_None_eq split: if_splits)
  have "deps_of (reverse_dep_map q) key = {}"
    using assms(1) new by (auto simp: dq_inv_def)
  with assms(1) show ?thesis
    unfolding dq_inv_def q'
    by (auto simp: hm_wf_insert rev_wf_fold get_hm_insert deps_of_fold_insert)
qed


subsection \<open>Dequeuing\<close>

lemma max_by_key_None_iff [simp]: "max_by_key xs = None \<longleftrightarrow> xs = []"
  by (cases xs) (auto split: option.splits)

lemma max_by_key_max: "max_by_key xs = Some y \<Longrightarrow> y \<in> set xs \<and> (\<forall>x \<in> set xs. snd x \<le> snd y)"
proof (induction xs arbitrary: y)
  case Nil
  then show ?case by simp
next
  case (Cons x xs)
  then show ?case
    by (cases "max_by_key xs") (fastforce split: if_splits)+
qed

definition dq_ready :: "('n, 'e, 'v) dependency_queue \<Rightarrow> 'n set" where
  "dq_ready q = {n. \<exists>v. map_of (dep_map q) n = Some ([], v)}"

definition dq_prioritised :: "('n, 'e, 'v) dependency_queue \<Rightarrow> bool" where
  "dq_prioritised q \<longleftrightarrow> fst ` set (dep_map q) \<subseteq> fst ` set (dq_priority q)"

definition prio_of :: "('n, 'e, 'v) dependency_queue \<Rightarrow> 'n \<Rightarrow> nat" where
  "prio_of q n = (case map_of (dq_priority q) n of None \<Rightarrow> 0 | Some p \<Rightarrow> p)"

lemma ready_list:
  assumes "fst ` set xs \<subseteq> fst ` set (dq_priority q)"
  shows "ofold (\<lambda>(key, _) acc. obind (index_map (dq_priority q) key) (\<lambda>p. Ok (acc @ [(key, p)]))) xs acc =
    Ok (acc @ map (\<lambda>(k, _). (k, prio_of q k)) xs)"
  using assms
proof (induction xs arbitrary: acc)
  case Nil
  then show ?case by simp
next
  case (Cons x xs)
  obtain k w where x: "x = (k, w)" by (cases x)
  from Cons.prems have "map_of (dq_priority q) k \<noteq> None"
    by (auto simp: x map_of_eq_None_iff)
  then obtain p where "map_of (dq_priority q) k = Some p" by auto
  with Cons show ?case by (simp add: x prio_of_def index_map_def)
qed

lemma dq_ready_iff:
  assumes "hm_wf (dep_map q)"
  shows "dq_ready q = fst ` set (filter (\<lambda>(_, deps, _). deps = []) (dep_map q))"
  using assms by (force simp: dq_ready_def hm.mem_iff_get [symmetric])

lemma dq_dequeue_cases:
  assumes "hm_wf (dep_map q)" and "dq_prioritised q"
  obtains (empty) "dq_dequeue q = Ok (None, q)" "dq_ready q = {}"
  | (found) n v where
      "dq_dequeue q = Ok (Some (n, v, prio_of q n), q\<lparr>dep_map := hm_remove n (dep_map q)\<rparr>)"
      "map_of (dep_map q) n = Some ([], v)" "\<forall>m \<in> dq_ready q. prio_of q m \<le> prio_of q n"
proof -
  let ?f = "filter (\<lambda>(_, deps, _). deps = []) (dep_map q)"
  let ?r = "map (\<lambda>(k, _). (k, prio_of q k)) ?f"
  have run: "ofold (\<lambda>(key, _) acc. obind (index_map (dq_priority q) key) (\<lambda>p. Ok (acc @ [(key, p)]))) ?f [] = Ok ?r"
    using assms(2) ready_list [of ?f q "[]"] by (auto simp: dq_prioritised_def)
  show thesis
  proof (cases "max_by_key ?r")
    case None
    then show thesis
      using empty assms(1)
      by (simp add: dq_dequeue_def run dq_ready_iff del: obind_Ok_iff)
  next
    case (Some y)
    obtain n p where y: "y = (n, p)" by (cases y)
    from max_by_key_max [OF Some] have n: "n \<in> fst ` set ?f" "p = prio_of q n"
      and m: "\<forall>m \<in> fst ` set ?f. prio_of q m \<le> prio_of q n"
      by (auto simp: y image_iff)
    have "n \<in> dq_ready q"
      using n(1) by (simp only: dq_ready_iff [OF assms(1)])
    then obtain v where v: "map_of (dep_map q) n = Some ([], v)"
      by (auto simp: dq_ready_def)
    show thesis
    proof (rule found)
      show "dq_dequeue q = Ok (Some (n, v, prio_of q n), q\<lparr>dep_map := hm_remove n (dep_map q)\<rparr>)"
        by (simp only: dq_dequeue_def run obind.simps Some y option.case prod.case)
          (simp add: v n(2))
      show "\<forall>m \<in> dq_ready q. prio_of q m \<le> prio_of q n"
        using m by (simp only: dq_ready_iff [OF assms(1)])
    qed (rule v)
  qed
qed

lemma dq_inv_dequeue:
  assumes inv: "dq_inv F q" and n: "map_of (dep_map q) n = Some ([], v)"
  shows "dq_inv F (q\<lparr>dep_map := hm_remove n (dep_map q)\<rparr>)"
proof -
  have "deps_of (reverse_dep_map q) n \<subseteq> F"
    using inv n by (force simp: dq_inv_def)
  with inv show ?thesis
    by (auto simp: dq_inv_def hm_wf_remove get_hm_remove)
qed


subsection \<open>Finishing\<close>

lemma finish_loop:
  assumes "distinct ks" and "hm_wf dm"
    and "\<And>k. k \<in> set ks \<Longrightarrow> \<exists>ds v. map_of dm k = Some (ds, v) \<and> key \<in> set ds"
  shows "\<exists>dm'. ofold (finish_dep key) ks (res, dm) =
       Ok (res @ filter (\<lambda>k. set (fst (the (map_of dm k))) \<subseteq> {key}) ks, dm') \<and> hm_wf dm' \<and>
     (\<forall>n. map_of dm' n = (if n \<in> set ks
        then map_option (\<lambda>(ds, v). (removeAll key ds, v)) (map_of dm n) else map_of dm n))"
  using assms
proof (induction ks arbitrary: res dm)
  case Nil
  then show ?case by simp
next
  case (Cons k ks)
  obtain ds v where k: "map_of dm k = Some (ds, v)" "key \<in> set ds"
    using Cons.prems(3) [of k] by auto
  let ?dm = "hm_insert k (removeAll key ds, v) dm"
  let ?res = "if removeAll key ds = [] then res @ [k] else res"
  have step: "finish_dep key k (res, dm) = Ok (?res, ?dm)"
    using k by (simp add: Let_def)
  have empty: "removeAll key ds = [] \<longleftrightarrow> set ds \<subseteq> {key}"
    by (auto simp: removeAll_filter_not_eq filter_empty_conv)
  have same: "map_of ?dm k' = map_of dm k'" if "k' \<in> set ks" for k'
    using that Cons.prems(1) by (auto simp: get_hm_insert)
  have "\<exists>dm'. ofold (finish_dep key) ks (?res, ?dm) =
       Ok (?res @ filter (\<lambda>k. set (fst (the (map_of ?dm k))) \<subseteq> {key}) ks, dm') \<and> hm_wf dm' \<and>
     (\<forall>n. map_of dm' n = (if n \<in> set ks
        then map_option (\<lambda>(ds, v). (removeAll key ds, v)) (map_of ?dm n) else map_of ?dm n))"
    using Cons.prems by (intro Cons.IH) (auto simp: hm_wf_insert same)
  then obtain dm' where dm': "ofold (finish_dep key) ks (?res, ?dm) =
       Ok (?res @ filter (\<lambda>k. set (fst (the (map_of ?dm k))) \<subseteq> {key}) ks, dm')" "hm_wf dm'"
     "\<And>n. map_of dm' n = (if n \<in> set ks
        then map_option (\<lambda>(ds, v). (removeAll key ds, v)) (map_of ?dm n) else map_of ?dm n)"
    by blast
  have flt: "filter (\<lambda>k. set (fst (the (map_of ?dm k))) \<subseteq> {key}) ks =
      filter (\<lambda>k. set (fst (the (map_of dm k))) \<subseteq> {key}) ks"
    by (rule filter_cong) (simp_all add: same)
  show ?case
    using dm'(1,2) Cons.prems(1) k
    by (intro exI [of _ dm'])
      (simp add: step flt empty dm'(3) del: finish_dep.simps, auto simp: same get_hm_insert)
qed

lemma rev_of_deps: "n \<in> set (rev_of rm d e) \<longleftrightarrow> (d, e) \<in> deps_of rm n"
  by (simp add: deps_of_def)

lemma dq_finish_rev:
  "dq_finish d e q =
     obind (ofold (finish_dep (d, e)) (rev_of (reverse_dep_map q) d e) ([], dep_map q))
       (\<lambda>(result, dm). Ok (result, q\<lparr>dep_map := dm\<rparr>))"
  by (simp add: dq_finish_def rev_of_def split: option.split)

lemma dq_finish_fresh:
  assumes inv: "dq_inv F q" and fresh: "(d, e) \<notin> F"
  obtains q' res where "dq_finish d e q = Ok (res, q')" "dq_inv (insert (d, e) F) q'"
    "set res = {n. (d, e) \<in> deps_of (reverse_dep_map q) n \<and> n \<in> dq_ready q'}"
    "distinct res" "fst ` set (dep_map q') = fst ` set (dep_map q)"
    "reverse_dep_map q' = reverse_dep_map q" "dq_priority q' = dq_priority q"
proof -
  let ?ks = "rev_of (reverse_dep_map q) d e"
  have mem: "\<exists>ds v. map_of (dep_map q) k = Some (ds, v) \<and> (d, e) \<in> set ds" if "k \<in> set ?ks" for k
  proof -
    from that have de: "(d, e) \<in> deps_of (reverse_dep_map q) k" by (simp add: deps_of_def)
    with fresh inv have "map_of (dep_map q) k \<noteq> None" unfolding dq_inv_def by blast
    then obtain ds v where "map_of (dep_map q) k = Some (ds, v)" by auto
    with de fresh inv show ?thesis by (auto simp: dq_inv_def)
  qed
  have wf: "hm_wf (dep_map q)" "distinct ?ks"
    using inv by (auto simp: dq_inv_def rev_wf_distinct)
  from finish_loop [where res = "[]", OF wf(2,1) mem] obtain dm' where
    run: "ofold (finish_dep (d, e)) ?ks ([], dep_map q) =
       Ok (filter (\<lambda>k. set (fst (the (map_of (dep_map q) k))) \<subseteq> {(d, e)}) ?ks, dm')"
    and wf': "hm_wf dm'"
    and dm': "\<And>n. map_of dm' n = (if n \<in> set ?ks
        then map_option (\<lambda>(ds, v). (removeAll (d, e) ds, v)) (map_of (dep_map q) n)
        else map_of (dep_map q) n)"
    by auto
  let ?q = "q\<lparr>dep_map := dm'\<rparr>"
  have dom: "dom (map_of dm') = dom (map_of (dep_map q))"
    by (auto simp: dm' split: if_splits)
  have inv': "dq_inv (insert (d, e) F) ?q"
    unfolding dq_inv_def
  proof (intro conjI allI impI)
    fix n ds v
    assume n: "map_of (dep_map ?q) n = Some (ds, v)"
    then obtain ds0 where n0: "map_of (dep_map q) n = Some (ds0, v)"
      "ds = (if n \<in> set ?ks then removeAll (d, e) ds0 else ds0)"
      by (auto simp: dm' split: if_splits)
    with dq_inv_get [OF inv n0(1)] show "set ds = deps_of (reverse_dep_map ?q) n - insert (d, e) F"
      by (auto simp: rev_of_deps)
  next
    fix n
    assume "map_of (dep_map ?q) n = None"
    then have "map_of (dep_map q) n = None" by (auto simp: dm' split: if_splits)
    with dq_inv_gone [OF inv] show "deps_of (reverse_dep_map ?q) n \<subseteq> insert (d, e) F" by auto
  qed (use wf' dq_inv_wf [OF inv] in simp_all)
  have "set (filter (\<lambda>k. set (fst (the (map_of (dep_map q) k))) \<subseteq> {(d, e)}) ?ks) =
      {n. (d, e) \<in> deps_of (reverse_dep_map q) n \<and> n \<in> dq_ready ?q}"
    using mem by (auto simp: dq_ready_def dm' rev_of_deps removeAll_filter_not_eq filter_empty_conv)
      (force simp: rev_of_deps)+
  with run wf inv' dom show thesis
    by (intro that [of "filter (\<lambda>k. set (fst (the (map_of (dep_map q) k))) \<subseteq> {(d, e)}) ?ks" ?q])
      (simp_all add: dq_finish_rev dom_map_of_conv_image_fst)
qed


subsection \<open>Priorities\<close>

definition black :: "('n \<times> 'n list) list \<Rightarrow> 'n set" where
  "black res = {k. \<exists>v. map_of res k = Some v \<and> v \<noteq> []}"

definition vals_ok :: "('n \<Rightarrow> 'n list) \<Rightarrow> ('n \<times> 'n list) list \<Rightarrow> bool" where
  "vals_ok succs res \<longleftrightarrow> hm_wf res \<and>
     (\<forall>k v. map_of res k = Some v \<longrightarrow> v \<noteq> [] \<longrightarrow> distinct v \<and> set v = (reach succs)\<^sup>* `` {k})"

definition depth_visited ::
  "('n \<Rightarrow> 'n list) \<Rightarrow> 'n set \<Rightarrow> 'n list \<Rightarrow> ('n \<times> 'n list) list \<Rightarrow> ('n \<times> 'n list) list \<Rightarrow> bool" where
  "depth_visited succs U ks res res' \<longleftrightarrow> (\<exists>new.
     (\<forall>k. k \<notin> set new \<longrightarrow> map_of res' k = map_of res k) \<and> (\<forall>k \<in> set new. map_of res k = None) \<and>
     set new \<subseteq> U \<and> black res' = black res \<union> set new \<and> set ks \<subseteq> black res' \<and>
     succs_first succs (black res) new \<and> vals_ok succs res')"

lemma vals_okD:
  "vals_ok succs res \<Longrightarrow> map_of res k = Some v \<Longrightarrow> v \<noteq> [] \<Longrightarrow>
     distinct v \<and> set v = (reach succs)\<^sup>* `` {k}"
  unfolding vals_ok_def by blast

lemma vals_ok_insert:
  assumes "vals_ok succs res" and "v \<noteq> [] \<Longrightarrow> distinct v \<and> set v = (reach succs)\<^sup>* `` {k}"
  shows "vals_ok succs (hm_insert k v res)"
  unfolding vals_ok_def
proof (intro conjI allI impI)
  show "hm_wf (hm_insert k v res)"
    using assms(1) unfolding vals_ok_def by (blast intro: hm_wf_insert)
  fix k' v'
  assume "map_of (hm_insert k v res) k' = Some v'" and "v' \<noteq> []"
  then have "distinct v' \<and> set v' = (reach succs)\<^sup>* `` {k'}"
    using assms(2) vals_okD [OF assms(1), of k' v']
    by (cases "k' = k") (simp_all add: get_hm_insert)
  then show "distinct v'" and "set v' = (reach succs)\<^sup>* `` {k'}" by blast+
qed

lemma depth_visited_refl: "vals_ok succs res \<Longrightarrow> set ks \<subseteq> black res \<Longrightarrow> depth_visited succs U ks res res"
  unfolding depth_visited_def by (intro exI [of _ "[]"]) simp

lemma depth_visited_trans:
  assumes "depth_visited succs U ks res res1" and "depth_visited succs U ls res1 res2"
  shows "depth_visited succs U (ks @ ls) res res2"
proof -
  from assms(1) obtain new1 where 1: "\<forall>k. k \<notin> set new1 \<longrightarrow> map_of res1 k = map_of res k"
    "\<forall>k \<in> set new1. map_of res k = None" "set new1 \<subseteq> U" "black res1 = black res \<union> set new1"
    "set ks \<subseteq> black res1" "succs_first succs (black res) new1"
    unfolding depth_visited_def by blast
  from assms(2) obtain new2 where 2: "\<forall>k. k \<notin> set new2 \<longrightarrow> map_of res2 k = map_of res1 k"
    "\<forall>k \<in> set new2. map_of res1 k = None" "set new2 \<subseteq> U" "black res2 = black res1 \<union> set new2"
    "set ls \<subseteq> black res2" "succs_first succs (black res1) new2" "vals_ok succs res2"
    unfolding depth_visited_def by blast
  have "\<forall>k \<in> set new2. map_of res k = None"
    using 1(1,2) 2(2) by metis
  with 1 2 show ?thesis
    unfolding depth_visited_def
    by (intro exI [of _ "new1 @ new2"]) (auto simp: succs_first_append)
qed

lemma depth_visited_dom:
  assumes "depth_visited succs U ks res res'"
  shows "dom (map_of res) \<subseteq> dom (map_of res')"
    and "map_of res' g = Some [] \<Longrightarrow> map_of res g = Some []" and "vals_ok succs res'"
proof -
  from assms obtain new where new: "\<forall>k. k \<notin> set new \<longrightarrow> map_of res' k = map_of res k"
    "\<forall>k \<in> set new. map_of res k = None" "set new \<subseteq> black res'" "vals_ok succs res'"
    unfolding depth_visited_def by blast
  show "dom (map_of res) \<subseteq> dom (map_of res')"
  proof
    fix k
    assume "k \<in> dom (map_of res)"
    with new(2) have "k \<notin> set new" by auto
    with new(1) \<open>k \<in> dom (map_of res)\<close> show "k \<in> dom (map_of res')" by auto
  qed
  show "map_of res' g = Some [] \<Longrightarrow> map_of res g = Some []"
    using new(1,3) by (cases "g \<in> set new") (auto simp: black_def)
  show "vals_ok succs res'" by (rule new(4))
qed

lemma black_start [simp]: "map_of res key = None \<Longrightarrow> black (hm_insert key [] res) = black res"
  by (auto simp: black_def get_hm_insert)

lemma black_end [simp]: "acc \<noteq> [] \<Longrightarrow> black (hm_insert key acc res) = insert key (black res)"
  by (auto simp: black_def get_hm_insert)

lemma depth_visited_close:
  assumes kids: "depth_visited succs U (succs key) (hm_insert key [] res) res2"
    and none: "map_of res key = None" and U: "key \<in> U"
    and acc: "distinct acc" "set acc = (reach succs)\<^sup>* `` {key}"
  shows "depth_visited succs U [key] res (hm_insert key acc res2)"
proof -
  from kids obtain new where new:
    "\<forall>k. k \<notin> set new \<longrightarrow> map_of res2 k = map_of (hm_insert key [] res) k"
    "\<forall>k \<in> set new. map_of (hm_insert key [] res) k = None" "set new \<subseteq> U"
    "black res2 = black res \<union> set new" "set (succs key) \<subseteq> black res2"
    "succs_first succs (black res) new" "vals_ok succs res2"
    unfolding depth_visited_def black_start [OF none] by blast
  have ne: "acc \<noteq> []" using acc(2) by force
  have "vals_ok succs (hm_insert key acc res2)"
    using acc by (intro vals_ok_insert new(7)) simp
  moreover have "\<forall>k. k \<notin> set (new @ [key]) \<longrightarrow> map_of (hm_insert key acc res2) k = map_of res k"
    using new(1) by (simp add: get_hm_insert)
  moreover have "\<forall>k \<in> set (new @ [key]). map_of res k = None"
    using new(2) none by (auto simp: get_hm_insert split: if_splits)
  moreover have "succs_first succs (black res) (new @ [key])"
    using new(4-6) by (simp add: succs_first_append)
  ultimately show ?thesis
    unfolding depth_visited_def
    using new(3,4) U ne by (intro exI [of _ "new @ [key]"]) simp
qed

lemma rtrancl_image_step: "r\<^sup>* `` {x} = insert x (\<Union>y \<in> r `` {x}. r\<^sup>* `` {y})"
proof -
  have "(x, z) \<in> r\<^sup>* \<longleftrightarrow> z = x \<or> (\<exists>y. (x, y) \<in> r \<and> (y, z) \<in> r\<^sup>*)" for z
    by (metis converse_rtrancl_into_rtrancl converse_rtranclE rtrancl.rtrancl_refl)
  then show ?thesis by auto
qed

abbreviation collect_step where
  "collect_step d rm \<equiv> \<lambda>dep (acc, res).
     obind (depth d rm dep res) (\<lambda>(s, res). Ok (fold List.insert s acc, res))"

definition grey_above :: "('n \<Rightarrow> 'n list) \<Rightarrow> ('n \<times> 'n list) list \<Rightarrow> 'n \<Rightarrow> bool" where
  "grey_above succs res key \<longleftrightarrow> (\<forall>g. map_of res g = Some [] \<longrightarrow> (g, key) \<in> (reach succs)\<^sup>+)"

definition collected ::
  "('n \<Rightarrow> 'n list) \<Rightarrow> 'n set \<Rightarrow> 'n \<Rightarrow> ('n \<times> 'n list) list \<Rightarrow> 'n list \<Rightarrow>
   'n list \<times> ('n \<times> 'n list) list \<Rightarrow> bool" where
  "collected succs U key res ds s \<longleftrightarrow>
     depth_visited succs U ds res (snd s) \<and> distinct (fst s) \<and>
     set (fst s) = insert key (\<Union>x \<in> set ds. (reach succs)\<^sup>* `` {x})"

lemma collected_step:
  assumes "collected succs U key res ds (acc, r)" and "depth_visited succs U [x] r r'"
    and "map_of r' x = Some v"
  shows "collected succs U key res (ds @ [x]) (fold List.insert v acc, r')"
proof -
  have "v \<noteq> []"
    using assms(2,3) by (auto simp: depth_visited_def black_def)
  then have "set v = (reach succs)\<^sup>* `` {x}"
    using vals_okD [OF depth_visited_dom(3) [OF assms(2)] assms(3)] by simp
  moreover have "depth_visited succs U (ds @ [x]) res r'"
    using assms(1) by (intro depth_visited_trans [OF _ assms(2)]) (simp add: collected_def)
  ultimately show ?thesis
    using assms(1) by (simp add: collected_def Un_ac)
qed

lemma collected_end:
  assumes "collected succs U key res (succs key) (acc, r)"
  shows "distinct acc" "set acc = (reach succs)\<^sup>* `` {key}" "depth_visited succs U (succs key) res r"
proof -
  have "reach succs `` {key} = set (succs key)" by auto
  then show "set acc = (reach succs)\<^sup>* `` {key}"
    using assms by (simp only: collected_def fst_conv rtrancl_image_step [of _ key])
qed (use assms in \<open>simp_all add: collected_def\<close>)

lemma grey_above_kid:
  assumes grey: "grey_above succs res key" and kids: "depth_visited succs U ds (hm_insert key [] res) r"
    and x: "x \<in> set (succs key)"
  shows "grey_above succs r x"
  unfolding grey_above_def
proof (intro allI impI)
  fix g
  assume "map_of r g = Some []"
  then have "map_of (hm_insert key [] res) g = Some []"
    by (rule depth_visited_dom(2) [OF kids])
  then have "g = key \<or> (g, key) \<in> (reach succs)\<^sup>+"
    using grey by (auto simp: get_hm_insert grey_above_def split: if_splits)
  with x show "(g, x) \<in> (reach succs)\<^sup>+"
    by (auto intro: trancl_into_trancl)
qed

definition depth_pre ::
  "('n \<Rightarrow> 'n list) \<Rightarrow> 'n set \<Rightarrow> nat \<Rightarrow> 'n \<Rightarrow> ('n \<times> 'n list) list \<Rightarrow> bool" where
  "depth_pre succs U d key res \<longleftrightarrow>
     finite U \<and> (\<forall>x. set (succs x) \<subseteq> U) \<and> key \<in> U \<and> vals_ok succs res \<and>
     card (U - dom (map_of res)) < d \<and> grey_above succs res key"

lemma depth_pre_kid:
  assumes pre: "depth_pre succs U (Suc d) key res" and none: "map_of res key = None"
    and kids: "depth_visited succs U ds (hm_insert key [] res) r" and x: "x \<in> set (succs key)"
  shows "depth_pre succs U d x r"
proof -
  have "card (U - dom (map_of r)) < card (U - dom (map_of res))"
    using depth_visited_dom(1) [OF kids] pre none
    by (intro psubset_card_mono) (auto simp: depth_pre_def get_hm_insert)
  with pre have "card (U - dom (map_of r)) < d"
    by (simp add: depth_pre_def)
  then show ?thesis
    using pre x depth_visited_dom(3) [OF kids] grey_above_kid [OF _ kids x]
    by (auto simp: depth_pre_def)
qed

lemma collect_loop:
  assumes node: "\<And>x r. depth_pre (rev_deps rm) U d x r \<Longrightarrow> owp p (depth d rm x r)
      (\<lambda>(s, r'). depth_visited (rev_deps rm) U [x] r r' \<and> map_of r' x = Some s) (\<lambda>_. False)"
    and pre: "depth_pre (rev_deps rm) U (Suc d) key res" and none: "map_of res key = None"
  shows "owp p (ofold (collect_step d rm) (rev_deps rm key) ([key], hm_insert key [] res))
    (collected (rev_deps rm) U key (hm_insert key [] res) (rev_deps rm key)) (\<lambda>_. False)"
proof -
  let ?succs = "rev_deps rm" and ?res = "hm_insert key [] res"
  define I where "I = (\<lambda>ys s. \<exists>ds. ?succs key = ds @ ys \<and> collected ?succs U key ?res ds s)"
  have "owp p (ofold (collect_step d rm) (?succs key) ([key], ?res)) (I []) (\<lambda>_. False)"
  proof (rule owp_ofold)
    have "vals_ok ?succs ?res"
      using pre by (intro vals_ok_insert) (simp_all add: depth_pre_def)
    then show "I (?succs key) ([key], ?res)"
      unfolding I_def collected_def by (intro exI [of _ "[]"]) (simp add: depth_visited_refl)
  next
    fix x ys s
    assume "I (x # ys) s" and x: "x \<in> set (?succs key)"
    moreover obtain acc r where s: "s = (acc, r)" by (cases s)
    ultimately obtain ds where ds: "?succs key = ds @ x # ys"
      "collected ?succs U key ?res ds (acc, r)"
      unfolding I_def by blast
    then have "depth_pre ?succs U d x r"
      using depth_pre_kid [OF pre none _ x, of ds] by (simp add: collected_def)
    from node [OF this] have "owp p (depth d rm x r)
        (\<lambda>a. owp p (case a of (s, res) \<Rightarrow> Ok (fold List.insert s acc, res)) (I ys) (\<lambda>_. False))
        (\<lambda>_. False)"
      by (rule owp_mono)
        (auto simp: I_def ds(1) intro!: exI [of _ "ds @ [x]"] collected_step [OF ds(2)])
    then show "owp p (collect_step d rm x s) (I ys) (\<lambda>_. False)"
      unfolding s prod.case by (rule owp_bind)
  qed
  then show ?thesis
    by (rule owp_mono) (auto simp: I_def)
qed

lemma depth_spec:
  assumes "depth_pre (rev_deps rm) U d key res"
  shows "owp (\<not> acyclic (reach (rev_deps rm))) (depth d rm key res)
    (\<lambda>(s, res'). depth_visited (rev_deps rm) U [key] res res' \<and> map_of res' key = Some s) (\<lambda>_. False)"
  using assms
proof (induction d arbitrary: key res)
  case 0
  then show ?case by (simp add: depth_pre_def)
next
  case (Suc d)
  let ?succs = "rev_deps rm" and ?cyc = "\<not> acyclic (reach (rev_deps rm))"
  show ?case
  proof (cases "map_of res key")
    case (Some dp)
    have "dp \<noteq> [] \<or> ?cyc"
      using Suc.prems Some by (auto simp: depth_pre_def grey_above_def acyclic_def)
    then show ?thesis
      using Some Suc.prems
      by (auto intro!: depth_visited_refl simp: black_def depth_pre_def)
  next
    case None
    have "owp ?cyc (ofold (collect_step d rm) (?succs key) ([key], hm_insert key [] res))
        (\<lambda>a. owp ?cyc (case a of (acc, res) \<Rightarrow> Ok (acc, hm_insert key acc res))
          (\<lambda>(s, res'). depth_visited ?succs U [key] res res' \<and> map_of res' key = Some s) (\<lambda>_. False))
        (\<lambda>_. False)"
      using Suc.prems collected_end [of ?succs U key "hm_insert key [] res"]
      by (intro owp_mono [OF collect_loop [OF Suc.IH Suc.prems None]])
        (auto simp: depth_pre_def get_hm_insert intro!: depth_visited_close None)
    then show ?thesis
      unfolding depth.simps None option.case by (rule owp_bind)
  qed
qed


definition dq_rel :: "('n, 'e, 'v) dependency_queue \<Rightarrow> ('n \<times> 'n) set" where
  "dq_rel q = {(d, n). \<exists>e. (d, e) \<in> deps_of (reverse_dep_map q) n}"

lemma rev_deps_iff:
  assumes "rev_wf rm"
  shows "n \<in> set (rev_deps rm d) \<longleftrightarrow> (\<exists>e. (d, e) \<in> deps_of rm n)"
proof (cases "map_of rm d")
  case None
  then show ?thesis by (simp add: rev_deps_def deps_of_def rev_of_def)
next
  case (Some em)
  have "hm_wf em" by (rule rev_wf_get [OF assms Some])
  then have "n \<in> set (concat (map snd em)) \<longleftrightarrow> (\<exists>e ks. map_of em e = Some ks \<and> n \<in> set ks)"
    by (force simp: hm.mem_iff_get [symmetric])
  moreover have "n \<in> set (rev_of rm d e) \<longleftrightarrow> (\<exists>ks. map_of em e = Some ks \<and> n \<in> set ks)" for e
    by (cases "map_of em e") (simp_all add: rev_of_def Some)
  ultimately show ?thesis
    by (simp add: rev_deps_def deps_of_def Some)
qed

lemma dq_rel_reach: "rev_wf (reverse_dep_map q) \<Longrightarrow> dq_rel q = reach (rev_deps (reverse_dep_map q))"
  by (auto simp: dq_rel_def rev_deps_iff)

text \<open>Adding step by step at a width is adding once: a partial sum exceeds the range only when
  the whole sum does, and wrapping commutes with addition.\<close>

lemma index_map_Ok: "k \<in> fst ` set costs \<Longrightarrow> index_map costs k = Ok (the (map_of costs k))"
  by (cases "map_of costs k") (auto simp: index_map_def map_of_eq_None_iff)

lemma uadd_wrap: "uadd w False a b = Ok ((a + b) mod 2 ^ w)"
  by (simp add: uadd_def)

lemma uadd_uadd:
  "obind (uadd w checks a b) (\<lambda>s. uadd w checks s c) = uadd w checks a (b + c)"
proof (cases checks)
  case False
  then show ?thesis by (simp add: uadd_wrap mod_simps add.assoc)
qed (auto simp: uadd_def)

lemma uadd_sum:
  assumes "distinct ks" and "set ks \<subseteq> fst ` set costs"
  shows "ofold (\<lambda>k acc. obind (index_map costs k) (uadd w checks acc)) ks a =
    (if ks = [] then Ok a else uadd w checks a (\<Sum>k \<in> set ks. the (map_of costs k)))"
  using assms
proof (induction ks arbitrary: a)
  case (Cons k ks)
  then have "index_map costs k = Ok (the (map_of costs k))" by (simp add: index_map_Ok)
  moreover from Cons have "ofold (\<lambda>k acc. obind (index_map costs k) (uadd w checks acc)) ks =
      (\<lambda>a. if ks = [] then Ok a else uadd w checks a (\<Sum>k \<in> set ks. the (map_of costs k)))"
    by (intro ext) simp
  moreover have "obind (uadd w checks a b) Ok = uadd w checks a b" for b
    by (simp add: uadd_def)
  ultimately show ?case using Cons.prems by (cases "ks = []") (simp_all add: uadd_uadd)
qed simp

lemma total_cost_eq:
  assumes "insert n (set ks) \<subseteq> fst ` set costs" and "distinct ks"
  shows "total_cost checks costs (n, ks) =
    uadd 64 checks (the (map_of costs n)) (\<Sum>k \<in> set ks. the (map_of costs k))"
proof -
  have "obind (uadd 64 checks 0 b) (uadd 64 checks c) = (uadd 64 checks c b :: (unit, nat) outcome)" for b c
    by (cases checks) (simp_all add: uadd_wrap mod_simps, simp add: uadd_def)
  with assms show ?thesis by (simp add: total_cost_def index_map_Ok uadd_sum)
qed

lemma priorities_Ok:
  assumes "\<And>n ks. (n, ks) \<in> set out \<Longrightarrow> total_cost checks costs (n, ks) = Ok (f n)"
  shows "ofold (\<lambda>ns acc. obind (total_cost checks costs ns) (\<lambda>c. Ok (acc @ [(fst ns, c)]))) out acc =
    Ok (acc @ map (\<lambda>(n, _). (n, f n)) out)"
  using assms by (induction out arbitrary: acc) (auto simp: split_def)

lemma priorities_Panic:
  assumes "\<And>n ks. (n, ks) \<in> set out \<Longrightarrow> total_cost checks costs (n, ks) \<in> {Ok (f n), Panic}"
    and "(n, ks) \<in> set out" and "total_cost checks costs (n, ks) = Panic"
  shows "ofold (\<lambda>ns acc. obind (total_cost checks costs ns) (\<lambda>c. Ok (acc @ [(fst ns, c)]))) out acc = Panic"
  using assms(1,2)
proof (induction out arbitrary: acc)
  case (Cons x out)
  show ?case
  proof (cases "x = (n, ks)")
    case False
    with Cons show ?thesis using Cons.prems(1) [of "fst x" "snd x"] by auto
  qed (simp add: assms(3))
qed simp

lemma depth_all:
  assumes U: "finite U" "\<forall>x. set (rev_deps rm x) \<subseteq> U" "set ks \<subseteq> U" "card U < d"
  shows "owp (\<not> acyclic (reach (rev_deps rm)))
    (ofold (\<lambda>key out. obind (depth d rm key out) (\<lambda>(_, out). Ok out)) ks [])
    (\<lambda>out. depth_visited (rev_deps rm) U ks [] out) (\<lambda>_. False)"
proof -
  define I where "I = (\<lambda>ys out. \<exists>xs. ks = xs @ ys \<and> depth_visited (rev_deps rm) U xs [] out)"
  have "owp (\<not> acyclic (reach (rev_deps rm)))
      (ofold (\<lambda>key out. obind (depth d rm key out) (\<lambda>(_, out). Ok out)) ks []) (I []) (\<lambda>_. False)"
  proof (rule owp_ofold)
    show "I ks []"
      unfolding I_def by (intro exI [of _ "[]"]) (simp add: depth_visited_refl vals_ok_def)
  next
    fix x ys out
    assume "I (x # ys) out" and x: "x \<in> set ks"
    then obtain xs where xs: "ks = xs @ x # ys" "depth_visited (rev_deps rm) U xs [] out"
      unfolding I_def by blast
    have "card (U - dom (map_of out)) \<le> card U"
      using U(1) by (intro card_mono) auto
    then have "depth_pre (rev_deps rm) U d x out"
      using U x depth_visited_dom(2) [OF xs(2)] depth_visited_dom(3) [OF xs(2)]
      by (auto simp: depth_pre_def grey_above_def)
    from depth_spec [OF this]
    show "owp (\<not> acyclic (reach (rev_deps rm))) (obind (depth d rm x out) (\<lambda>(_, out). Ok out))
        (I ys) (\<lambda>_. False)"
      by (intro owp_bind, elim owp_mono)
        (auto simp: I_def xs(1) intro!: exI [of _ "xs @ [x]"] depth_visited_trans [OF xs(2)])
  qed
  then show ?thesis by (rule owp_mono) (auto simp: I_def)
qed

lemma depth_visited_acyclic:
  assumes "depth_visited succs U ks [] out" and "\<And>x y. y \<in> set (succs x) \<Longrightarrow> y \<in> set ks"
  shows "acyclic (reach succs)"
proof -
  from assms(1) obtain new where new: "black out = set new" "set ks \<subseteq> black out" "succs_first succs {} new"
    by (auto simp: depth_visited_def black_def)
  have "(x, x) \<notin> (reach succs)\<^sup>+" for x
  proof
    assume cyc: "(x, x) \<in> (reach succs)\<^sup>+"
    then obtain y where "x \<in> set (succs y)" by (metis reach_iff tranclD2)
    with assms(2) new have "x \<in> set new" by auto
    with succs_first_no_cycle [OF new(3)] cyc show False by blast
  qed
  then show ?thesis by (simp add: acyclic_def)
qed

lemma rev_deps_bound:
  "set (rev_deps rm x) \<subseteq> set (concat (map (\<lambda>(n, em). concat (map snd em)) rm))"
  by (cases "map_of rm x") (force simp: rev_deps_def dest: map_of_SomeD)+

definition dq_costed :: "('n, 'e, 'v) dependency_queue \<Rightarrow> bool" where
  "dq_costed q \<longleftrightarrow> fst ` set (dep_map q) \<subseteq> fst ` set (dq_cost q)"

definition dq_priority_spec :: "('n, 'e, 'v) dependency_queue \<Rightarrow> 'n \<Rightarrow> nat" where
  "dq_priority_spec q n =
     the (map_of (dq_cost q) n) + (\<Sum>m \<in> (dq_rel q)\<^sup>* `` {n}. the (map_of (dq_cost q) m))"

text \<open>The priorities fit into a \<open>usize\<close>, where overflows are checked.\<close>

definition dq_fits :: "bool \<Rightarrow> ('n, 'e, 'v) dependency_queue \<Rightarrow> bool" where
  "dq_fits checks q \<longleftrightarrow> (checks \<longrightarrow> (\<forall>n \<in> fst ` set (dep_map q). dq_priority_spec q n < 2 ^ 64))"

lemma dq_inv_targets:
  assumes "dq_inv {} q" and "n \<in> set (rev_deps (reverse_dep_map q) d)"
  shows "n \<in> fst ` set (dep_map q)"
proof -
  from assms obtain e where "(d, e) \<in> deps_of (reverse_dep_map q) n"
    using dq_inv_wf [OF assms(1)] by (auto simp: rev_deps_iff)
  then have "map_of (dep_map q) n \<noteq> None"
    using dq_inv_gone [OF assms(1), of n] by blast
  then show ?thesis by (auto simp: map_of_eq_None_iff)
qed

lemma queue_finished_spec:
  assumes inv: "dq_inv {} q" and cost: "dq_costed q"
  shows "owp (\<not> (acyclic (dq_rel q) \<and> dq_fits checks q)) (dq_queue_finished checks q)
    (\<lambda>q'. acyclic (dq_rel q) \<and> dq_fits checks q \<and> (\<exists>prio. q' = q\<lparr>dq_priority := prio\<rparr> \<and>
       (\<forall>n \<in> fst ` set (dep_map q). map_of prio n = Some (dq_priority_spec q n mod 2 ^ 64)))) (\<lambda>_. False)"
    (is "owp ?P _ ?Q _")
proof -
  let ?rm = "reverse_dep_map q" and ?ks = "map fst (dep_map q)"
  let ?U = "set ?ks"
  note rel = dq_rel_reach [OF conjunct2 [OF dq_inv_wf [OF inv]]]
  have U: "\<forall>x. set (rev_deps ?rm x) \<subseteq> ?U"
    using dq_inv_targets [OF inv] by auto
  have fuel: "card ?U < node_bound q"
    using card_length [of ?ks] by (simp add: node_bound_def)
  have "owp ?P
      (ofold (\<lambda>key out. obind (depth (node_bound q) ?rm key out) (\<lambda>(_, out). Ok out)) ?ks [])
      (depth_visited (rev_deps ?rm) ?U ?ks []) (\<lambda>_. False)"
    by (rule owp_panic_mono, rule depth_all) (use U fuel rel in simp_all)
  then show ?thesis
    unfolding dq_queue_finished_def
  proof (rule owp_bind [OF owp_mono])
    fix out
    assume vis: "depth_visited (rev_deps ?rm) ?U ?ks [] out"
    have ac: "acyclic (reach (rev_deps ?rm))"
      using U by (intro depth_visited_acyclic [OF vis]) auto
    note ok = depth_visited_dom(3) [OF vis]
    from vis obtain new where new: "black out = set new" "?U \<subseteq> black out"
      "\<forall>k. k \<notin> set new \<longrightarrow> map_of out k = None" "set new \<subseteq> ?U"
      unfolding depth_visited_def by (auto simp: black_def)
    have wf: "hm_wf out" using ok by (simp add: vals_ok_def)
    have keys: "n \<in> ?U" if "(n, ks) \<in> set out" for n ks
    proof -
      from that wf have "map_of out n = Some ks" by (simp add: hm.mem_iff_get)
      with new(3) have "n \<in> set new" by force
      with new(4) show ?thesis by blast
    qed
    have cost_of: "total_cost checks (dq_cost q) (n, ks) =
        (if checks \<and> 2 ^ 64 \<le> dq_priority_spec q n then Panic else Ok (dq_priority_spec q n mod 2 ^ 64))"
      if "(n, ks) \<in> set out" for n ks
    proof -
      from that wf have get: "map_of out n = Some ks" by (simp add: hm.mem_iff_get)
      with new(1,3) have n: "n \<in> black out" by force
      with get have "ks \<noteq> []" by (simp add: black_def)
      from vals_okD [OF ok get this] have ks: "distinct ks" "set ks = (dq_rel q)\<^sup>* `` {n}"
        by (simp_all add: rel)
      have "set ks \<subseteq> ?U"
      proof
        fix m
        assume "m \<in> set ks"
        then have "(n, m) \<in> (reach (rev_deps ?rm))\<^sup>*" by (simp add: ks(2) rel)
        then show "m \<in> ?U" by (rule reach_closed_set) (use n new U in auto)
      qed
      with n new cost ks show ?thesis
        by (subst total_cost_eq) (auto simp: dq_costed_def dq_priority_spec_def uadd_def)
    qed
    have prio: "map_of (map (\<lambda>(n, _). (n, dq_priority_spec q n mod 2 ^ 64)) out) n =
        Some (dq_priority_spec q n mod 2 ^ 64)" if "n \<in> ?U" for n
    proof -
      from that new(2) obtain v where "map_of out n = Some v" by (auto simp: black_def)
      then show ?thesis
        by (induction out) (auto split: if_splits)
    qed
    show "owp ?P
        (obind (ofold (\<lambda>ns acc. obind (total_cost checks (dq_cost q) ns) (\<lambda>c. Ok (acc @ [(fst ns, c)]))) out [])
          (\<lambda>prio. Ok (q\<lparr>dq_priority := prio\<rparr>))) ?Q (\<lambda>_. False)"
    proof (cases "dq_fits checks q")
      case True
      have "total_cost checks (dq_cost q) (n, ks) = Ok (dq_priority_spec q n mod 2 ^ 64)"
        if "(n, ks) \<in> set out" for n ks
        using True keys [OF that] by (auto simp: cost_of [OF that] dq_fits_def)
      with True ac prio rel show ?thesis by (subst priorities_Ok) auto
    next
      case False
      then obtain n where n: "checks" "n \<in> ?U" "2 ^ 64 \<le> dq_priority_spec q n"
        by (force simp: dq_fits_def not_less)
      with new(2) obtain ks where ks: "(n, ks) \<in> set out" by (auto simp: black_def dest: map_of_SomeD)
      have p: "total_cost checks (dq_cost q) (n, ks) = Panic"
        unfolding cost_of [OF ks] using n by simp
      have all: "total_cost checks (dq_cost q) (m, ks) \<in> {Ok (dq_priority_spec q m mod 2 ^ 64), Panic}"
        if "(m, ks) \<in> set out" for m ks
        by (simp add: cost_of [OF that])
      show ?thesis using False by (simp add: priorities_Panic [OF all ks p])
    qed
  qed simp
qed


subsection \<open>The life of a queue\<close>

text \<open>
  A build after \<open>queue_finished\<close>: the state is the queue, the (node, edge) pairs reported
  as finished and the nodes handed out so far. The scheduler reports a pair at most once and
  only for a node that was handed out (\<open>job_queue\<close> reports \<open>Artifact::Metadata\<close> and
  \<open>Artifact::All\<close> of a running unit).
\<close>

type_synonym ('n, 'e, 'v) dq_run = "('n, 'e, 'v) dependency_queue \<times> ('n \<times> 'e) set \<times> 'n set"

inductive dq_step :: "('n, 'e, 'v) dq_run \<Rightarrow> ('n, 'e, 'v) dq_run \<Rightarrow> bool" where
  start: "dq_dequeue q = Ok (Some (n, v, p), q') \<Longrightarrow> dq_step (q, F, R) (q', F, insert n R)"
| produced: "n \<in> R \<Longrightarrow> (n, e) \<notin> F \<Longrightarrow> dq_finish n e q = Ok (res, q') \<Longrightarrow>
     dq_step (q, F, R) (q', insert (n, e) F, R)"

inductive_cases dq_stepE: "dq_step (q, F, R) t"

definition dq_run_inv :: "('n, 'e, 'v) dependency_queue \<Rightarrow> ('n, 'e, 'v) dq_run \<Rightarrow> bool" where
  "dq_run_inv q0 t \<longleftrightarrow> (case t of (q, F, R) \<Rightarrow>
     dq_inv F q \<and> reverse_dep_map q = reverse_dep_map q0 \<and> dq_priority q = dq_priority q0 \<and>
     dq_prioritised q \<and> fst ` F \<subseteq> R \<and> R \<inter> fst ` set (dep_map q) = {} \<and>
     R \<union> fst ` set (dep_map q) = fst ` set (dep_map q0))"

lemma dq_dequeue_Some:
  assumes "dq_dequeue q = Ok (Some (n, v, p), q')" and "hm_wf (dep_map q)" and "dq_prioritised q"
  shows "map_of (dep_map q) n = Some ([], v)" "p = prio_of q n"
    "q' = q\<lparr>dep_map := hm_remove n (dep_map q)\<rparr>" "\<forall>m \<in> dq_ready q. prio_of q m \<le> p"
  by (rule dq_dequeue_cases [OF assms(2,3)]; use assms(1) in simp)+

lemma keys_hm_remove: "fst ` set (hm_remove k m) = fst ` set m - {k}"
  by (induction m) auto

lemma dq_run_inv_step:
  assumes "dq_run_inv q0 s" and "dq_step s t"
  shows "dq_run_inv q0 t"
proof -
  obtain q F R where s: "s = (q, F, R)" by (cases s)
  have inv: "dq_inv F q" "dq_prioritised q" using assms(1) by (auto simp: s dq_run_inv_def)
  have wf: "hm_wf (dep_map q)" using dq_inv_wf [OF inv(1)] by simp
  from assms(2) show ?thesis
    unfolding s
  proof (cases rule: dq_step.cases)
    case (start n v p q')
    note d = dq_dequeue_Some [OF start(2) wf inv(2)]
    have "n \<in> fst ` set (dep_map q)" using d(1) by (force dest: map_of_SomeD)
    moreover have "dq_prioritised q'"
      using inv(2) by (auto simp: d(3) dq_prioritised_def keys_hm_remove)
    ultimately show ?thesis
      using assms(1) dq_inv_dequeue [OF inv(1) d(1)]
      by (auto simp: s start(1) d(3) dq_run_inv_def keys_hm_remove)
  next
    case (produced n e res q')
    obtain q1 res1 where f: "dq_finish n e q = Ok (res1, q1)" "dq_inv (insert (n, e) F) q1"
      "fst ` set (dep_map q1) = fst ` set (dep_map q)" "reverse_dep_map q1 = reverse_dep_map q"
      "dq_priority q1 = dq_priority q"
      by (rule dq_finish_fresh [OF inv(1) produced(3)])
    then have "q1 = q'" using produced(4) by simp
    moreover have "dq_prioritised q1"
      using inv(2) f by (simp add: dq_prioritised_def)
    ultimately show ?thesis
      using f assms(1) produced(2) by (simp add: s produced(1) dq_run_inv_def)
  qed
qed

lemma dq_run_inv_reach: "dq_step\<^sup>*\<^sup>* s t \<Longrightarrow> dq_run_inv q0 s \<Longrightarrow> dq_run_inv q0 t"
  by (induction rule: rtranclp_induct) (auto intro: dq_run_inv_step)

lemma dq_progress:
  assumes inv: "dq_inv F q" and prio: "dq_prioritised q" and ac: "acyclic (dq_rel q)"
    and all: "\<And>d e n. (d, e) \<in> deps_of (reverse_dep_map q) n \<Longrightarrow> map_of (dep_map q) d = None \<Longrightarrow> (d, e) \<in> F"
    and ne: "dep_map q \<noteq> []"
  shows "\<exists>n v p q'. dq_dequeue q = Ok (Some (n, v, p), q')"
proof -
  have wf: "hm_wf (dep_map q)" "rev_wf (reverse_dep_map q)" using dq_inv_wf [OF inv] by simp_all
  let ?K = "fst ` set (dep_map q)"
  let ?r = "{(x, y). x \<in> ?K \<and> y \<in> ?K \<and> (x, y) \<in> dq_rel q}"
  have "acyclic ?r" using ac by (rule acyclic_subset) auto
  moreover have "finite ?r" by (rule finite_subset [of _ "?K \<times> ?K"]) auto
  ultimately have r: "wf ?r" by (intro finite_acyclic_wf)
  obtain k where k: "k \<in> ?K" using ne by (cases "dep_map q") auto
  obtain n where n: "n \<in> ?K" "\<And>d. (d, n) \<in> ?r \<Longrightarrow> d \<notin> ?K"
    by (rule wfE_min [OF r k]) blast
  from n(1) have "map_of (dep_map q) n \<noteq> None" by (simp add: map_of_eq_None_iff)
  then obtain ds v where get: "map_of (dep_map q) n = Some (ds, v)" by auto
  have "deps_of (reverse_dep_map q) n \<subseteq> F"
  proof
    fix de
    assume de: "de \<in> deps_of (reverse_dep_map q) n"
    obtain d e where [simp]: "de = (d, e)" by (cases de)
    have "(d, n) \<in> dq_rel q" using de by (auto simp: dq_rel_def)
    with n have "d \<notin> ?K" by blast
    with de show "de \<in> F" using all [of d e n] by (simp add: map_of_eq_None_iff)
  qed
  then have "ds = []" using dq_inv_get [OF inv get] by (metis Diff_eq_empty_iff set_empty)
  with get have "n \<in> dq_ready q" by (auto simp: dq_ready_def)
  then show ?thesis
    by (rule_tac dq_dequeue_cases [OF wf(1) prio]) auto
qed


subsection \<open>Properties\<close>

text \<open>A queue of two nodes, 2 waiting for 1, as two calls of \<open>queue\<close> build it.\<close>

definition two_nodes :: "(nat, unit, char) dependency_queue" where
  "two_nodes = \<lparr>dep_map = [(1, [], CHR ''a''), (2, [(1, ())], CHR ''b'')],
     reverse_dep_map = [(1, [((), [2])])], dq_priority = [], dq_cost = [(1, 10), (2, 5)]\<rparr>"

definition two_prio :: "(nat, unit, char) dependency_queue" where
  "two_prio = two_nodes\<lparr>dq_priority := [(1, 25), (2, 10)]\<rparr>"

lemma two_nodes_built:
  "obind (dq_queue 1 CHR ''a'' [] 10 dq_new) (dq_queue 2 CHR ''b'' [(1, ())] 5) = Ok two_nodes"
  by (simp add: dq_queue_def dq_new_def two_nodes_def rev_insert_def)

lemma two_nodes_inv: "dq_inv {} two_nodes" "dq_costed two_nodes" "acyclic (dq_rel two_nodes)"
  "dq_rel two_nodes = {(1, 2)}"
proof -
  from two_nodes_built obtain a :: "(nat, unit, char) dependency_queue"
    where a: "dq_queue 1 CHR ''a'' [] 10 dq_new = Ok a" "dq_queue 2 CHR ''b'' [(1, ())] 5 a = Ok two_nodes"
    by (auto simp del: One_nat_def)
  show "dq_inv {} two_nodes"
    by (rule dq_inv_queue [OF dq_inv_queue [OF dq_inv_new a(1)] a(2)])
  show "dq_costed two_nodes" by (simp add: dq_costed_def two_nodes_def)
  show rel: "dq_rel two_nodes = {(1, 2)}"
    by (auto simp: dq_rel_def deps_of_def rev_of_def two_nodes_def split: if_splits)
  show "acyclic (dq_rel two_nodes)"
    unfolding rel by (rule acyclic_by_measure [where f = "\<lambda>x. 3 - x"]) auto
qed

text \<open>The same queue with costs whose priorities exceed 64 bits.\<close>

definition huge_costs :: "(nat, unit, char) dependency_queue" where
  "huge_costs = two_nodes\<lparr>dq_cost := [(1, 2 ^ 64 - 4), (2, 2)]\<rparr>"

lemma two_nodes_depth:
  "ofold (\<lambda>key out. obind (depth (node_bound two_nodes) (reverse_dep_map two_nodes) key out) (\<lambda>(_, out). Ok out))
     (map fst (dep_map two_nodes)) [] = Ok [(1, [2, 1]), (2, [2])]"
  by (simp add: two_nodes_def node_bound_def rev_deps_def eval_nat_numeral)

lemma two_nodes_finished:
  "dq_queue_finished checks (two_nodes\<lparr>dq_cost := costs\<rparr>) =
     obind (ofold (\<lambda>ns acc. obind (total_cost checks costs ns) (\<lambda>c. Ok (acc @ [(fst ns, c)])))
         [(1, [2, 1]), (2, [2])] [])
       (\<lambda>prio. Ok (two_nodes\<lparr>dq_cost := costs, dq_priority := prio\<rparr>))"
  using two_nodes_depth by (simp add: dq_queue_finished_def node_bound_def)

lemma two_prio_inv: "dq_inv {} two_prio" "dq_prioritised two_prio" "acyclic (dq_rel two_prio)"
  "Domain (dq_rel two_prio) \<subseteq> fst ` set (dep_map two_prio)"
  using two_nodes_inv
  by (simp_all add: two_prio_def dq_inv_def dq_rel_def dq_prioritised_def)
    (simp_all add: two_nodes_def)

text \<open>
  C38: on a queue built by \<open>queue\<close>, \<open>queue_finished\<close> panics exactly when the dependencies
  have a cycle or, in a build with overflow checks, when the priority of some node exceeds the
  64 bits of a \<open>usize\<close>. Otherwise it changes only the priorities, and the priority of a node is
  its own cost plus the costs of all nodes that wait for it, itself included, wrapped to 64 bits
  (which matters only without overflow checks).
\<close>

theorem queue_finished_priorities:
  assumes "dq_inv {} q" and "dq_costed q"
  shows "(dq_queue_finished checks q = Panic \<longleftrightarrow> \<not> acyclic (dq_rel q) \<or>
      (checks \<and> (\<exists>n \<in> fst ` set (dep_map q). 2 ^ 64 \<le> the (map_of (dq_cost q) n) +
         (\<Sum>m \<in> (dq_rel q)\<^sup>* `` {n}. the (map_of (dq_cost q) m))))) \<and>
    (dq_queue_finished checks q \<noteq> Panic \<longrightarrow>
      (\<exists>prio. dq_queue_finished checks q = Ok (q\<lparr>dq_priority := prio\<rparr>) \<and>
       (\<forall>n \<in> fst ` set (dep_map q). map_of prio n =
          Some ((the (map_of (dq_cost q) n) +
            (\<Sum>m \<in> (dq_rel q)\<^sup>* `` {n}. the (map_of (dq_cost q) m))) mod 2 ^ 64))))"
  using queue_finished_spec [OF assms, of checks]
  by (cases "dq_queue_finished checks q")
    (simp_all add: dq_fits_def dq_priority_spec_def not_less, force+)

theorem queue_finished_priorities_witness:
  "dq_queue_finished True two_nodes = Ok two_prio \<and>
   map_of (dq_priority two_prio) 1 = Some 25 \<and>
   dq_queue_finished True huge_costs = Panic \<and>
   dq_queue_finished False huge_costs =
     Ok (huge_costs\<lparr>dq_priority := [(1, 2 ^ 64 - 6), (2, 4)]\<rparr>)"
proof (intro conjI)
  note eval = two_nodes_finished total_cost_def index_map_def uadd_def
  have huge: "dq_inv {} huge_costs" "dq_costed huge_costs"
    using two_nodes_inv(1) by (simp_all add: huge_costs_def dq_inv_def dq_costed_def two_nodes_def)
  show fin: "dq_queue_finished True two_nodes = Ok two_prio"
    using two_nodes_finished [of True "[(1, 10), (2, 5)]"]
    by (simp add: two_prio_def two_nodes_def total_cost_def index_map_def uadd_def)
  have "{(1, 2)}\<^sup>* `` {1} = {1, 2 :: nat}"
    by (auto elim: rtranclE)
  then have sum: "the (map_of (dq_cost two_nodes) 1) +
      (\<Sum>m \<in> (dq_rel two_nodes)\<^sup>* `` {1}. the (map_of (dq_cost two_nodes) m)) = 25"
    unfolding two_nodes_inv(4) by (simp add: two_nodes_def)
  have one: "1 \<in> fst ` set (dep_map two_nodes)" by (simp add: two_nodes_def)
  from conjunct2 [OF queue_finished_priorities [OF two_nodes_inv(1,2), of True]] fin
  obtain prio where prio: "two_prio = two_nodes\<lparr>dq_priority := prio\<rparr>"
    "\<forall>n \<in> fst ` set (dep_map two_nodes). map_of prio n = Some ((the (map_of (dq_cost two_nodes) n) +
       (\<Sum>m \<in> (dq_rel two_nodes)\<^sup>* `` {n}. the (map_of (dq_cost two_nodes) m))) mod 2 ^ 64)"
    by auto
  show "map_of (dq_priority two_prio) 1 = Some 25"
    using bspec [OF prio(2) one] by (simp add: prio(1) sum [unfolded One_nat_def])
  show "dq_queue_finished True huge_costs = Panic"
    using queue_finished_priorities [OF huge, of True]
    by (auto simp: eval huge_costs_def)
  show "dq_queue_finished False huge_costs = Ok (huge_costs\<lparr>dq_priority := [(1, 2 ^ 64 - 6), (2, 4)]\<rparr>)"
    by (simp add: eval huge_costs_def)
qed

text \<open>
  C21: every state of a build keeps the books: the open dependencies of a waiting node are its
  declared ones without those already produced, and a node is handed out only after each of its
  dependencies has been produced.
\<close>

theorem dq_run_order:
  assumes "dq_inv {} q0" and "dq_prioritised q0" and "dq_step\<^sup>*\<^sup>* (q0, {}, {}) (q, F, R)"
  shows "(\<forall>n ds v. map_of (dep_map q) n = Some (ds, v) \<longrightarrow>
            set ds = deps_of (reverse_dep_map q0) n - F) \<and>
    (\<forall>n \<in> R. deps_of (reverse_dep_map q0) n \<subseteq> F) \<and>
    R \<union> fst ` set (dep_map q) = fst ` set (dep_map q0) \<and> R \<inter> fst ` set (dep_map q) = {}"
proof -
  have "dq_run_inv q0 (q0, {}, {})"
    using assms(1,2) by (simp add: dq_run_inv_def)
  then have inv: "dq_run_inv q0 (q, F, R)"
    by (rule dq_run_inv_reach [OF assms(3)])
  then have i: "dq_inv F q" "reverse_dep_map q = reverse_dep_map q0"
    by (simp_all add: dq_run_inv_def)
  have "deps_of (reverse_dep_map q0) n \<subseteq> F" if "n \<in> R" for n
    using that inv dq_inv_gone [OF i(1), of n] by (auto simp: dq_run_inv_def map_of_eq_None_iff)
  with inv show ?thesis
    using dq_inv_get [OF i(1)] by (simp add: dq_run_inv_def)
qed

lemma two_prio_start:
  "dq_dequeue two_prio = Ok (Some (1, CHR ''a'', 25), two_prio\<lparr>dep_map := [(2, [(1, ())], CHR ''b'')]\<rparr>)"
  by (simp add: dq_dequeue_def two_prio_def two_nodes_def index_map_def)

theorem dq_run_order_witness:
  "deps_of (reverse_dep_map two_prio) 2 = {(1, ())} \<and> deps_of (reverse_dep_map two_prio) 1 = {}"
proof -
  have "dq_step\<^sup>*\<^sup>* (two_prio, {}, {}) (two_prio\<lparr>dep_map := [(2, [(1, ())], CHR ''b'')]\<rparr>, {}, {1})"
    using start [OF two_prio_start, of "{}" "{}"] by (intro r_into_rtranclp) simp
  from dq_run_order [OF two_prio_inv(1,2) this] show ?thesis
    by (simp del: split_paired_All One_nat_def split: if_splits)
qed

text \<open>
  C23: a build never gets stuck: when the dependencies are acyclic and every dependency is
  itself a node of the queue, a state with waiting nodes in which everything handed out has
  produced what the others wait for can hand out another node, and it is one of the ready nodes
  with the highest priority.
\<close>

theorem dq_run_progress:
  assumes "dq_inv {} q0" and "dq_prioritised q0" and "acyclic (dq_rel q0)"
    and "Domain (dq_rel q0) \<subseteq> fst ` set (dep_map q0)"
    and "dq_step\<^sup>*\<^sup>* (q0, {}, {}) (q, F, R)"
    and "\<forall>n d e. (d, e) \<in> deps_of (reverse_dep_map q0) n \<longrightarrow> d \<in> R \<longrightarrow> (d, e) \<in> F"
    and "\<not> dq_is_empty q"
  shows "\<exists>n v p q'. dq_dequeue q = Ok (Some (n, v, p), q') \<and> dq_step (q, F, R) (q', F, insert n R) \<and>
    n \<in> dq_ready q \<and> (\<forall>m \<in> dq_ready q. prio_of q m \<le> p) \<and> dq_len q' < dq_len q"
proof -
  have "dq_run_inv q0 (q0, {}, {})"
    using assms(1,2) by (simp add: dq_run_inv_def)
  then have inv: "dq_run_inv q0 (q, F, R)"
    by (rule dq_run_inv_reach [OF assms(5)])
  then have i: "dq_inv F q" "dq_prioritised q" "reverse_dep_map q = reverse_dep_map q0"
    "R \<union> fst ` set (dep_map q) = fst ` set (dep_map q0)"
    by (simp_all add: dq_run_inv_def)
  have rel: "dq_rel q = dq_rel q0" using i(3) by (simp add: dq_rel_def)
  have "\<exists>n v p q'. dq_dequeue q = Ok (Some (n, v, p), q')"
  proof (rule dq_progress [OF i(1,2)])
    fix d e n
    assume de: "(d, e) \<in> deps_of (reverse_dep_map q) n" and "map_of (dep_map q) d = None"
    then have "d \<in> Domain (dq_rel q0)" "d \<notin> fst ` set (dep_map q)"
      using i(3) by (auto simp: dq_rel_def map_of_eq_None_iff)
    with assms(4) i(4) have "d \<in> R" by blast
    with assms(6) de i(3) show "(d, e) \<in> F" by simp
  qed (use assms(3,7) rel in \<open>simp_all add: dq_is_empty_def\<close>)
  then obtain n v p q' where run: "dq_dequeue q = Ok (Some (n, v, p), q')" by blast
  note d = dq_dequeue_Some [OF run conjunct1 [OF dq_inv_wf [OF i(1)]] i(2)]
  have "n \<in> fst ` set (dep_map q)" using d(1) by (force dest: map_of_SomeD)
  then have "dq_len q' < dq_len q"
    by (auto simp: dq_len_def d(3) AList.delete_eq intro!: length_filter_less)
  then show ?thesis
    using run d by (auto simp: dq_ready_def intro: start)
qed

theorem dq_run_progress_witness:
  "\<exists>n v p q'. dq_dequeue two_prio = Ok (Some (n, v, p), q') \<and> dq_len q' < dq_len two_prio"
proof -
  have "\<not> dq_is_empty two_prio" by (simp add: dq_is_empty_def two_prio_def two_nodes_def)
  with dq_run_progress [OF two_prio_inv, of two_prio "{}" "{}"] show ?thesis by blast
qed

text \<open>
  reporting a pair for the first time never panics, and returns exactly the nodes that
  were waiting for this pair only.
\<close>

theorem dq_finish_first:
  assumes "dq_inv F q" and "(d, e) \<notin> F"
  shows "\<exists>res q'. dq_finish d e q = Ok (res, q') \<and> dq_inv (insert (d, e) F) q' \<and> distinct res \<and>
    set res = {n. \<exists>ds v. map_of (dep_map q) n = Some (ds, v) \<and> set ds = {(d, e)}}"
proof -
  obtain q' res where f: "dq_finish d e q = Ok (res, q')" "dq_inv (insert (d, e) F) q'"
    "set res = {n. (d, e) \<in> deps_of (reverse_dep_map q) n \<and> n \<in> dq_ready q'}" "distinct res"
    "fst ` set (dep_map q') = fst ` set (dep_map q)" "reverse_dep_map q' = reverse_dep_map q"
    by (rule dq_finish_fresh [OF assms])
  have same: "map_of (dep_map q) n = None \<longleftrightarrow> map_of (dep_map q') n = None" for n
    using f(5) by (simp add: map_of_eq_None_iff)
  have "n \<in> set res \<longleftrightarrow> (\<exists>ds v. map_of (dep_map q) n = Some (ds, v) \<and> set ds = {(d, e)})" for n
  proof (cases "map_of (dep_map q) n")
    case None
    with same [of n] show ?thesis by (simp add: f(3) dq_ready_def)
  next
    case (Some w)
    obtain ds v where w: "w = (ds, v)" by (cases w)
    from Some same [of n] obtain ds' v' where n': "map_of (dep_map q') n = Some (ds', v')"
      by (cases "map_of (dep_map q') n") auto
    have "set ds = deps_of (reverse_dep_map q) n - F"
      using dq_inv_get [OF assms(1)] Some w by simp
    moreover have "set ds' = deps_of (reverse_dep_map q) n - insert (d, e) F"
      using dq_inv_get [OF f(2) n'] f(6) by simp
    moreover have "n \<in> dq_ready q' \<longleftrightarrow> set ds' = {}"
      by (simp add: dq_ready_def n')
    ultimately show ?thesis
      using assms(2) by (auto simp: f(3) Some w)
  qed
  with f show ?thesis by blast
qed

theorem dq_finish_first_witness:
  "\<exists>res q'. dq_finish 1 () two_prio = Ok (res, q') \<and> set res = {2}"
proof -
  have "{n. \<exists>ds v. map_of (dep_map two_prio) n = Some (ds, v) \<and> set ds = {(1, ())}} = {2}"
    by (auto simp: two_prio_def two_nodes_def split: if_splits)
  with dq_finish_first [OF two_prio_inv(1), of 1 "()"] show ?thesis by auto
qed

end
