(* ===== verification/Cfg.thy ===== *)
theory Cfg
  imports Prelude
begin

section \<open>Platform and cfg expressions (crates/cargo-platform)\<close>

text \<open>
  The tokenizer and the recursive-descent parser of \<open>cfg.rs\<close>, the printer, the evaluation of
  expressions, and the \<open>Platform\<close> type of \<open>lib.rs\<close>. The tokenizer's position is the rest of
  the input. A \<open>ParseError\<close> carries the whole input besides its kind; the model adds it at the
  entry points. The parser has a recursion bound (\<open>parse_expr\<close>, \<open>parse_list\<close>); the entry
  points pass twice the length of the input plus two, which \<open>parse_fuel\<close> shows to be enough.
  \<open>char::is_alphanumeric\<close> is the argument \<open>alnum\<close>; warning texts are constructors.
\<close>

datatype ident = Ident (ident_name: string) (ident_raw: bool)

datatype cfg = Name ident | KeyPair ident string

datatype cfg_expr =
    CfgNot cfg_expr
  | CfgAll "cfg_expr list"
  | CfgAny "cfg_expr list"
  | CfgValue cfg
  | CfgTrue
  | CfgFalse

datatype token = LeftParen | RightParen | TIdent bool string | Comma | Equals | TString string

datatype parse_error_kind =
    UnterminatedString
  | UnexpectedChar char
  | UnexpectedToken string string
  | IncompleteExpr string
  | UnterminatedExpression string
  | InvalidTargetParen
  | InvalidTargetChar char

datatype parse_error = ParseError string parse_error_kind

definition KEYWORDS :: "string list" where
  "KEYWORDS = [''true'', ''false'']"

subsection \<open>Equality and display\<close>

definition ident_eq :: "ident \<Rightarrow> ident \<Rightarrow> bool" where
  "ident_eq a b = (ident_name a = ident_name b)"

fun cfg_eq :: "cfg \<Rightarrow> cfg \<Rightarrow> bool" where
  "cfg_eq (Name a) (Name b) = ident_eq a b"
| "cfg_eq (KeyPair a v) (KeyPair b w) = (ident_eq a b \<and> v = w)"
| "cfg_eq _ _ = False"

definition show_ident :: "ident \<Rightarrow> string" where
  "show_ident i = (if ident_raw i then ''r#'' else []) @ ident_name i"

fun show_cfg :: "cfg \<Rightarrow> string" where
  "show_cfg (Name s) = show_ident s"
| "show_cfg (KeyPair k v) = show_ident k @ '' = '' @ [CHR 0x22] @ v @ [CHR 0x22]"

fun comma_sep :: "string list \<Rightarrow> string" where
  "comma_sep [] = []"
| "comma_sep [x] = x"
| "comma_sep (x # xs) = x @ '', '' @ comma_sep xs"

fun show_expr :: "cfg_expr \<Rightarrow> string" where
  "show_expr (CfgNot e) = ''not('' @ show_expr e @ '')''"
| "show_expr (CfgAll es) = ''all('' @ comma_sep (map show_expr es) @ '')''"
| "show_expr (CfgAny es) = ''any('' @ comma_sep (map show_expr es) @ '')''"
| "show_expr (CfgValue c) = show_cfg c"
| "show_expr CfgTrue = ''true''"
| "show_expr CfgFalse = ''false''"

subsection \<open>Evaluation\<close>

fun cfg_matches :: "cfg_expr \<Rightarrow> cfg list \<Rightarrow> bool" where
  "cfg_matches (CfgNot e) cfg = (\<not> cfg_matches e cfg)"
| "cfg_matches (CfgAll es) cfg = list_all (\<lambda>e. cfg_matches e cfg) es"
| "cfg_matches (CfgAny es) cfg = list_ex (\<lambda>e. cfg_matches e cfg) es"
| "cfg_matches (CfgValue c) cfg = list_ex (cfg_eq c) cfg"
| "cfg_matches CfgTrue cfg = True"
| "cfg_matches CfgFalse cfg = False"

subsection \<open>Tokenizer\<close>

definition is_ident_start :: "char \<Rightarrow> bool" where
  "is_ident_start ch =
     (ch = CHR ''_'' \<or> (CHR ''a'' \<le> ch \<and> ch \<le> CHR ''z'') \<or> (CHR ''A'' \<le> ch \<and> ch \<le> CHR ''Z''))"

definition is_ident_rest :: "char \<Rightarrow> bool" where
  "is_ident_rest ch = (is_ident_start ch \<or> (CHR ''0'' \<le> ch \<and> ch \<le> CHR ''9''))"

fun classify :: "token \<Rightarrow> string" where
  "classify LeftParen = ''`(`''"
| "classify RightParen = ''`)`''"
| "classify (TIdent _ _) = ''an identifier''"
| "classify Comma = ''`,`''"
| "classify Equals = ''`=`''"
| "classify (TString _) = ''a string''"

definition scan_ident :: "bool \<Rightarrow> char \<Rightarrow> string \<Rightarrow> (token \<times> string)" where
  "scan_ident raw ch s = (TIdent raw (ch # takeWhile is_ident_rest s), dropWhile is_ident_rest s)"

fun tok_next :: "string \<Rightarrow> (parse_error_kind, (token \<times> string) option) outcome" where
  "tok_next [] = Ok None"
| "tok_next (ch # s) =
     (if ch = CHR '' '' then tok_next s
      else if ch = CHR ''('' then Ok (Some (LeftParen, s))
      else if ch = CHR '')'' then Ok (Some (RightParen, s))
      else if ch = CHR '','' then Ok (Some (Comma, s))
      else if ch = CHR ''='' then Ok (Some (Equals, s))
      else if ch = CHR 0x22 then
        (case split_once (CHR 0x22) s of
           Some (val, s') \<Rightarrow> Ok (Some (TString val, s'))
         | None \<Rightarrow> Err UnterminatedString)
      else if is_ident_start ch then
        (if ch = CHR ''r'' then
           (case s of
              d # s1 \<Rightarrow>
                if d = CHR ''#'' then
                  (case s1 of
                     ch' # s2 \<Rightarrow>
                       if is_ident_start ch' then Ok (Some (scan_ident True ch' s2))
                       else Err (UnexpectedChar ch')
                   | [] \<Rightarrow> Err (IncompleteExpr ''identifier''))
                else Ok (Some (scan_ident False ch s))
            | [] \<Rightarrow> Ok (Some (scan_ident False ch s)))
         else Ok (Some (scan_ident False ch s)))
      else Err (UnexpectedChar ch))"

subsection \<open>Parser\<close>

definition parser_try :: "token \<Rightarrow> string \<Rightarrow> bool \<times> string" where
  "parser_try t s =
     (case tok_next s of
        Ok (Some (t', s')) \<Rightarrow> if t = t' then (True, s') else (False, s)
      | _ \<Rightarrow> (False, s))"

definition parser_eat :: "token \<Rightarrow> string \<Rightarrow> (parse_error_kind, string) outcome" where
  "parser_eat t s =
     obind (tok_next s) (\<lambda>r. case r of
        Some (t', s') \<Rightarrow> if t = t' then Ok s' else Err (UnexpectedToken (classify t) (classify t'))
      | None \<Rightarrow> Err (IncompleteExpr (classify t)))"

definition parser_cfg :: "string \<Rightarrow> (parse_error_kind, cfg \<times> string) outcome" where
  "parser_cfg s =
     obind (tok_next s) (\<lambda>r. case r of
        Some (TIdent raw name, s1) \<Rightarrow>
          (let (eq, s2) = parser_try Equals s1
           in if eq then
                obind (tok_next s2) (\<lambda>r. case r of
                   Some (TString v, s3) \<Rightarrow> Ok (KeyPair (Ident name raw) v, s3)
                 | Some (t, _) \<Rightarrow> Err (UnexpectedToken ''a string'' (classify t))
                 | None \<Rightarrow> Err (IncompleteExpr ''a string''))
              else Ok (Name (Ident name raw), s1))
      | Some (t, _) \<Rightarrow> Err (UnexpectedToken ''identifier'' (classify t))
      | None \<Rightarrow> Err (IncompleteExpr ''identifier''))"

fun expr_of_cfg :: "cfg \<Rightarrow> cfg_expr" where
  "expr_of_cfg (Name n) =
     (if ident_name n = ''true'' then CfgTrue
      else if ident_name n = ''false'' then CfgFalse
      else CfgValue (Name n))"
| "expr_of_cfg v = CfgValue v"

fun parse_expr :: "nat \<Rightarrow> string \<Rightarrow> (parse_error_kind, cfg_expr \<times> string) outcome"
and parse_list :: "nat \<Rightarrow> string \<Rightarrow> cfg_expr list \<Rightarrow> (parse_error_kind, cfg_expr list \<times> string) outcome"
where
  "parse_expr 0 s = OutOfFuel"
| "parse_expr (Suc n) s =
     obind (tok_next s) (\<lambda>r. case r of
        None \<Rightarrow> Err (IncompleteExpr ''start of a cfg expression'')
      | Some (t, s1) \<Rightarrow>
          if t = TIdent False ''all'' \<or> t = TIdent False ''any'' then
            obind (parser_eat LeftParen s1) (\<lambda>s2.
            obind (parse_list n s2 []) (\<lambda>(es, s3).
              Ok (if t = TIdent False ''all'' then CfgAll es else CfgAny es, s3)))
          else if t = TIdent False ''not'' then
            obind (parser_eat LeftParen s1) (\<lambda>s2.
            obind (parse_expr n s2) (\<lambda>(e, s3).
            obind (parser_eat RightParen s3) (\<lambda>s4. Ok (CfgNot e, s4))))
          else obind (parser_cfg s) (\<lambda>(v, s2). Ok (expr_of_cfg v, s2)))"
| "parse_list 0 s es = OutOfFuel"
| "parse_list (Suc n) s es =
     (let (close, s1) = parser_try RightParen s
      in if close then Ok (es, s1)
         else obind (parse_expr n s) (\<lambda>(e, s2).
           let (comma, s3) = parser_try Comma s2
           in if comma then parse_list n s3 (es @ [e])
              else obind (parser_eat RightParen s2) (\<lambda>s4. Ok (es @ [e], s4))))"

definition parser_rest :: "string \<Rightarrow> string option" where
  "parser_rest s = (case dropWhile (\<lambda>c. c = CHR '' '') s of [] \<Rightarrow> None | r \<Rightarrow> Some r)"

definition with_orig :: "string \<Rightarrow> (parse_error_kind, 'a) outcome \<Rightarrow> (parse_error, 'a) outcome" where
  "with_orig orig r =
     (case r of Ok a \<Rightarrow> Ok a | Err k \<Rightarrow> Err (ParseError orig k) | Panic \<Rightarrow> Panic | OutOfFuel \<Rightarrow> OutOfFuel)"

definition finish_parse :: "'a \<times> string \<Rightarrow> (parse_error_kind, 'a) outcome" where
  "finish_parse r =
     (case parser_rest (snd r) of
        Some rest \<Rightarrow> Err (UnterminatedExpression rest)
      | None \<Rightarrow> Ok (fst r))"

definition cfg_from_str :: "string \<Rightarrow> (parse_error, cfg) outcome" where
  "cfg_from_str s = with_orig s (obind (parser_cfg s) finish_parse)"

definition expr_from_str :: "string \<Rightarrow> (parse_error, cfg_expr) outcome" where
  "expr_from_str s = with_orig s (obind (parse_expr (2 * length s + 2) s) finish_parse)"

definition matches_key :: "string \<Rightarrow> cfg list \<Rightarrow> bool" where
  "matches_key key target_cfg =
     (if starts_with ''cfg('' key \<and> ends_with '')'' key then
        (case expr_from_str (take (length key - 1 - 4) (drop 4 key)) of
           Ok ce \<Rightarrow> cfg_matches ce target_cfg
         | _ \<Rightarrow> False)
      else False)"

subsection \<open>Platforms (lib.rs)\<close>

datatype platform = PlatformName string | PlatformCfg cfg_expr

fun platform_matches :: "platform \<Rightarrow> string \<Rightarrow> cfg list \<Rightarrow> bool" where
  "platform_matches (PlatformName p) name cfg = (p = name)"
| "platform_matches (PlatformCfg p) name cfg = cfg_matches p cfg"

definition validate_named_platform ::
  "(char \<Rightarrow> bool) \<Rightarrow> string \<Rightarrow> (parse_error, unit) outcome" where
  "validate_named_platform alnum name =
     (case find (\<lambda>c. \<not> (alnum c \<or> c = CHR ''_'' \<or> c = CHR ''-'' \<or> c = CHR ''.'')) name of
        Some ch \<Rightarrow>
          if CHR ''('' \<in> set name then Err (ParseError name InvalidTargetParen)
          else Err (ParseError name (InvalidTargetChar ch))
      | None \<Rightarrow> Ok ())"

datatype cfg_warning = UnsupportedName string | UnsupportedFeatureKey | KeywordName cfg string

fun check_cfg_attrs :: "cfg_expr \<Rightarrow> cfg_warning list \<Rightarrow> cfg_warning list" where
  "check_cfg_attrs (CfgNot e) ws = check_cfg_attrs e ws"
| "check_cfg_attrs (CfgAll es) ws = fold check_cfg_attrs es ws"
| "check_cfg_attrs (CfgAny es) ws = fold check_cfg_attrs es ws"
| "check_cfg_attrs (CfgValue (Name n)) ws =
     (if ident_name n \<in> set [''test'', ''debug_assertions'', ''proc_macro'']
      then ws @ [UnsupportedName (show_ident n)] else ws)"
| "check_cfg_attrs (CfgValue (KeyPair n _)) ws =
     (if ident_name n = ''feature'' then ws @ [UnsupportedFeatureKey] else ws)"
| "check_cfg_attrs CfgTrue ws = ws"
| "check_cfg_attrs CfgFalse ws = ws"

definition check_cfg_attributes :: "platform \<Rightarrow> cfg_warning list \<Rightarrow> cfg_warning list" where
  "check_cfg_attributes p ws = (case p of PlatformCfg e \<Rightarrow> check_cfg_attrs e ws | _ \<Rightarrow> ws)"

fun cfg_ident :: "cfg \<Rightarrow> ident" where
  "cfg_ident (Name n) = n"
| "cfg_ident (KeyPair n _) = n"

fun check_keywords :: "cfg_expr \<Rightarrow> cfg_warning list \<Rightarrow> cfg_warning list" where
  "check_keywords (CfgNot e) ws = check_keywords e ws"
| "check_keywords (CfgAll es) ws = fold check_keywords es ws"
| "check_keywords (CfgAny es) ws = fold check_keywords es ws"
| "check_keywords CfgTrue ws = ws"
| "check_keywords CfgFalse ws = ws"
| "check_keywords (CfgValue c) ws =
     (if \<not> ident_raw (cfg_ident c) \<and> ident_name (cfg_ident c) \<in> set KEYWORDS
      then ws @ [KeywordName c (show_ident (cfg_ident c))] else ws)"

definition check_cfg_keywords :: "platform \<Rightarrow> cfg_warning list \<Rightarrow> cfg_warning list" where
  "check_cfg_keywords p ws = (case p of PlatformCfg e \<Rightarrow> check_keywords e ws | _ \<Rightarrow> ws)"

definition platform_from_str :: "(char \<Rightarrow> bool) \<Rightarrow> string \<Rightarrow> (parse_error, platform) outcome" where
  "platform_from_str alnum s =
     (case Option.bind (strip_prefix ''cfg('' s) (strip_suffix '')'') of
        Some s' \<Rightarrow> obind (expr_from_str s') (\<lambda>e. Ok (PlatformCfg e))
      | None \<Rightarrow> obind (validate_named_platform alnum s) (\<lambda>_. Ok (PlatformName s)))"

fun show_platform :: "platform \<Rightarrow> string" where
  "show_platform (PlatformName n) = n"
| "show_platform (PlatformCfg e) = ''cfg('' @ show_expr e @ '')''"


subsection \<open>The parser always answers\<close>

lemma split_once_shorter: "split_once c s = Some (a, b) \<Longrightarrow> length b < length s"
  by (simp add: split_once_Some_iff)

lemma tok_next_spec:
  "owp False (tok_next s) (\<lambda>r. \<forall>t s'. r = Some (t, s') \<longrightarrow> length s' < length s) (\<lambda>_. True)"
proof (induction s rule: tok_next.induct)
  case (2 ch s)
  have "length (dropWhile is_ident_rest s) < Suc (length s)"
    using length_dropWhile_le [of is_ident_rest] by (auto simp: less_Suc_eq_le le_Suc_eq)
  moreover have "length (dropWhile is_ident_rest s2) < Suc (length s)" if "s = c # d # s2" for c d s2
    using that length_dropWhile_le [of is_ident_rest s2] by simp
  moreover have "owp False (tok_next s) (\<lambda>r. \<forall>t s'. r = Some (t, s') \<longrightarrow> length s' < length (ch # s)) (\<lambda>_. True)"
    if "ch = CHR '' ''"
    using 2 [OF that] by (rule owp_mono) auto
  ultimately show ?case
    by (auto simp: scan_ident_def dest: split_once_shorter split: option.splits list.splits)
qed simp

lemma tok_next_shorter: "tok_next s = Ok (Some (t, s')) \<Longrightarrow> length s' < length s"
  using tok_next_spec [of s] by simp

lemma tok_next_total: "tok_next s \<noteq> OutOfFuel" "tok_next s \<noteq> Panic"
  using tok_next_spec [of s] by auto

lemma parser_try_shorter:
  "parser_try t s = (True, s') \<Longrightarrow> length s' < length s" "parser_try t s = (False, s') \<Longrightarrow> s' = s"
  by (auto simp: parser_try_def dest: tok_next_shorter split: outcome.splits option.splits if_splits)

lemma parser_eat_spec: "owp False (parser_eat t s) (\<lambda>s'. length s' < length s) (\<lambda>_. True)"
  unfolding parser_eat_def
  by (intro owp_bind, rule owp_mono [OF tok_next_spec]) (auto split: option.split)

lemma parser_cfg_spec: "owp False (parser_cfg s) (\<lambda>(v, s'). length s' < length s) (\<lambda>_. True)"
  unfolding parser_cfg_def
proof (intro owp_bind, rule owp_mono [OF tok_next_spec])
  fix r
  assume r: "tok_next s = Ok r"
  show "owp False (case r of
        Some (TIdent raw name, s1) \<Rightarrow>
          (let (eq, s2) = parser_try Equals s1
           in if eq then
                obind (tok_next s2) (\<lambda>r. case r of
                   Some (TString v, s3) \<Rightarrow> Ok (KeyPair (Ident name raw) v, s3)
                 | Some (t, _) \<Rightarrow> Err (UnexpectedToken ''a string'' (classify t))
                 | None \<Rightarrow> Err (IncompleteExpr ''a string''))
              else Ok (Name (Ident name raw), s1))
      | Some (t, _) \<Rightarrow> Err (UnexpectedToken ''identifier'' (classify t))
      | None \<Rightarrow> Err (IncompleteExpr ''identifier''))
     (\<lambda>(v, s'). length s' < length s) (\<lambda>_. True)"
  proof (cases r)
    case (Some ts)
    obtain t s1 where ts: "ts = (t, s1)" by (cases ts)
    have s1: "length s1 < length s" using r by (simp add: Some ts tok_next_shorter)
    have str: "owp False (tok_next s2) (\<lambda>r. owp False (case r of
           Some (TString v, s3) \<Rightarrow> Ok (KeyPair i v, s3)
         | Some (t, _) \<Rightarrow> Err (UnexpectedToken ''a string'' (classify t))
         | None \<Rightarrow> Err (IncompleteExpr ''a string'')) (\<lambda>(v, s'). length s' < length s) (\<lambda>_. True)) (\<lambda>_. True)"
      if "length s2 < length s" for s2 i
      using that
      by (intro owp_mono [OF tok_next_spec]) (auto dest: tok_next_shorter split: option.split token.split)
    show ?thesis
    proof (cases t)
      case (TIdent raw name)
      obtain eq s2 where eq: "parser_try Equals s1 = (eq, s2)" by (cases "parser_try Equals s1")
      then have "length s2 < length s"
        using parser_try_shorter [of Equals s1 s2] s1 by (cases eq) auto
      with str s1 show ?thesis
        by (simp add: Some ts TIdent eq Let_def owp_bind del: tok_next.simps)
    qed (simp_all add: Some ts)
  qed simp
qed


lemma owp_bindI:
  assumes "owp p r P (\<lambda>_. True)" and "\<And>a. r = Ok a \<Longrightarrow> P a \<Longrightarrow> owp p (f a) Q (\<lambda>_. True)"
  shows "owp p (obind r f) Q (\<lambda>_. True)"
  using assms by (cases r) auto

definition expr_ok :: "nat \<Rightarrow> bool" where
  "expr_ok n \<longleftrightarrow> (\<forall>s. 2 * length s < n \<longrightarrow>
     owp False (parse_expr n s) (\<lambda>(e, s'). length s' < length s) (\<lambda>_. True))"

definition list_ok :: "nat \<Rightarrow> bool" where
  "list_ok n \<longleftrightarrow> (\<forall>s es. 2 * length s + 1 < n \<longrightarrow>
     owp False (parse_list n s es) (\<lambda>(e, s'). length s' \<le> length s) (\<lambda>_. True))"

lemma list_call_ok:
  assumes "list_ok n" and "length s1 < length s" and "2 * length s < Suc n"
  shows "owp False (obind (parser_eat LeftParen s1) (\<lambda>s2.
      obind (parse_list n s2 []) (\<lambda>(es, s3). Ok (f es, s3))))
    (\<lambda>(e, s'). length s' < length s) (\<lambda>_. True)"
proof (rule owp_bindI [OF parser_eat_spec])
  fix s2 :: string
  assume s2: "length s2 < length s1"
  with assms have "owp False (parse_list n s2 []) (\<lambda>(e, s'). length s' \<le> length s2) (\<lambda>_. True)"
    by (simp add: list_ok_def)
  then show "owp False (obind (parse_list n s2 []) (\<lambda>(es, s3). Ok (f es, s3)))
      (\<lambda>(e, s'). length s' < length s) (\<lambda>_. True)"
    by (rule owp_bindI) (use s2 assms(2) in auto)
qed

lemma not_call_ok:
  assumes "expr_ok n" and "length s1 < length s" and "2 * length s < Suc n"
  shows "owp False (obind (parser_eat LeftParen s1) (\<lambda>s2. obind (parse_expr n s2) (\<lambda>(e, s3).
      obind (parser_eat RightParen s3) (\<lambda>s4. Ok (CfgNot e, s4)))))
    (\<lambda>(e, s'). length s' < length s) (\<lambda>_. True)"
proof (rule owp_bindI [OF parser_eat_spec])
  fix s2 :: string
  assume s2: "length s2 < length s1"
  with assms have "owp False (parse_expr n s2) (\<lambda>(e, s'). length s' < length s2) (\<lambda>_. True)"
    by (simp add: expr_ok_def)
  then show "owp False (obind (parse_expr n s2) (\<lambda>(e, s3).
      obind (parser_eat RightParen s3) (\<lambda>s4. Ok (CfgNot e, s4))))
    (\<lambda>(e, s'). length s' < length s) (\<lambda>_. True)"
    by (rule owp_bindI) (use s2 assms(2) in \<open>auto intro!: owp_bindI [OF parser_eat_spec]\<close>)
qed

lemma expr_ok_Suc:
  assumes "expr_ok n" and "list_ok n"
  shows "expr_ok (Suc n)"
  unfolding expr_ok_def parse_expr.simps
proof (intro allI impI, rule owp_bindI [OF tok_next_spec])
  fix s :: string and r :: "(token \<times> string) option"
  assume n: "2 * length s < Suc n" and r: "\<forall>t s'. r = Some (t, s') \<longrightarrow> length s' < length s"
  have val: "owp False (obind (parser_cfg s) (\<lambda>(v, s2). Ok (expr_of_cfg v, s2)))
      (\<lambda>(e, s'). length s' < length s) (\<lambda>_. True)"
    by (rule owp_bindI [OF parser_cfg_spec]) auto
  show "owp False (case r of
        None \<Rightarrow> Err (IncompleteExpr ''start of a cfg expression'')
      | Some (t, s1) \<Rightarrow>
          if t = TIdent False ''all'' \<or> t = TIdent False ''any'' then
            obind (parser_eat LeftParen s1) (\<lambda>s2.
            obind (parse_list n s2 []) (\<lambda>(es, s3).
              Ok (if t = TIdent False ''all'' then CfgAll es else CfgAny es, s3)))
          else if t = TIdent False ''not'' then
            obind (parser_eat LeftParen s1) (\<lambda>s2.
            obind (parse_expr n s2) (\<lambda>(e, s3).
            obind (parser_eat RightParen s3) (\<lambda>s4. Ok (CfgNot e, s4))))
          else obind (parser_cfg s) (\<lambda>(v, s2). Ok (expr_of_cfg v, s2)))
        (\<lambda>(e, s'). length s' < length s) (\<lambda>_. True)"
    using r val list_call_ok [OF assms(2) _ n, where f = CfgAll]
      list_call_ok [OF assms(2) _ n, where f = CfgAny] not_call_ok [OF assms(1) _ n]
    by (cases r) (auto split: prod.split)
qed

lemma list_ok_Suc:
  assumes "expr_ok n" and "list_ok n"
  shows "list_ok (Suc n)"
  unfolding list_ok_def
proof (intro allI impI)
  fix s :: string and es :: "cfg_expr list"
  assume n: "2 * length s + 1 < Suc n"
  have "owp False (parse_expr n s) (\<lambda>(e, s'). length s' < length s) (\<lambda>_. True)"
    using n assms(1) by (simp add: expr_ok_def)
  then have step: "owp False (obind (parse_expr n s) (\<lambda>(e, s2).
         let (comma, s3) = parser_try Comma s2
         in if comma then parse_list n s3 (es @ [e])
            else obind (parser_eat RightParen s2) (\<lambda>s4. Ok (es @ [e], s4))))
       (\<lambda>(e, s'). length s' \<le> length s) (\<lambda>_. True)"
  proof (rule owp_bindI)
    fix a :: "cfg_expr \<times> string"
    assume a: "case a of (e, s') \<Rightarrow> length s' < length s"
    obtain e s2 comma s3 where es: "a = (e, s2)" and comma: "parser_try Comma s2 = (comma, s3)"
      by (cases a; cases "parser_try Comma (snd a)") auto
    have close: "owp False (obind (parser_eat RightParen s2) (\<lambda>s4. Ok (es @ [e], s4)))
        (\<lambda>(e, s'). length s' \<le> length s) (\<lambda>_. True)"
      using a es by (intro owp_bindI [OF parser_eat_spec]) auto
    have more: "owp False (parse_list n s3 (es @ [e])) (\<lambda>(e, s'). length s' \<le> length s) (\<lambda>_. True)"
      if "length s3 < length s"
    proof -
      have "owp False (parse_list n s3 (es @ [e])) (\<lambda>(e, s'). length s' \<le> length s3) (\<lambda>_. True)"
        using assms(2) n that by (simp add: list_ok_def)
      then show ?thesis by (rule owp_mono) (use that in auto)
    qed
    show "owp False (case a of (e, s2) \<Rightarrow>
         let (comma, s3) = parser_try Comma s2
         in if comma then parse_list n s3 (es @ [e])
            else obind (parser_eat RightParen s2) (\<lambda>s4. Ok (es @ [e], s4)))
       (\<lambda>(e, s'). length s' \<le> length s) (\<lambda>_. True)"
      using a close more parser_try_shorter(1) [of Comma s2 s3] by (auto simp: es comma)
  qed
  obtain close s1 where close: "parser_try RightParen s = (close, s1)"
    by (cases "parser_try RightParen s")
  then show "owp False (parse_list (Suc n) s es) (\<lambda>(e, s'). length s' \<le> length s) (\<lambda>_. True)"
    using step parser_try_shorter(1) [of RightParen s s1] by (auto simp: close)
qed

lemma parse_fuel: "expr_ok n" "list_ok n"
proof (induction n)
  case 0
  {
    case 1
    show ?case by (simp add: expr_ok_def)
  next
    case 2
    show ?case by (simp add: list_ok_def)
  }
qed (simp_all add: expr_ok_Suc list_ok_Suc)

lemma expr_from_str_total: "expr_from_str s \<noteq> OutOfFuel" "expr_from_str s \<noteq> Panic"
proof -
  have "owp False (parse_expr (2 * length s + 2) s) (\<lambda>_. True) (\<lambda>_. True)"
    by (rule owp_mono [of _ _ "\<lambda>(e, s'). length s' < length s" "\<lambda>_. True"])
      (use parse_fuel(1) [of "2 * length s + 2"] in \<open>auto simp: expr_ok_def\<close>)
  then show "expr_from_str s \<noteq> OutOfFuel" "expr_from_str s \<noteq> Panic"
    by (cases "parse_expr (2 * length s + 2) s";
        auto simp: expr_from_str_def with_orig_def finish_parse_def split: option.splits)+
qed


subsection \<open>Printing and parsing\<close>

text \<open>
  The expressions that a printed form can stand for: identifiers of the right shape, strings
  without quotation marks, no unquoted \<open>all\<close>, \<open>any\<close> or \<open>not\<close> as a value, and no
  value named \<open>true\<close> or \<open>false\<close>.
\<close>

definition ident_ok :: "ident \<Rightarrow> bool" where
  "ident_ok i \<longleftrightarrow> (case ident_name i of [] \<Rightarrow> False | c # s \<Rightarrow> is_ident_start c \<and> list_all is_ident_rest s)"

definition not_operator :: "ident \<Rightarrow> bool" where
  "not_operator i \<longleftrightarrow> ident_raw i \<or> ident_name i \<notin> {''all'', ''any'', ''not''}"

fun cfg_ok :: "cfg \<Rightarrow> bool" where
  "cfg_ok (Name i) = ident_ok i"
| "cfg_ok (KeyPair i v) = (ident_ok i \<and> CHR 0x22 \<notin> set v)"

fun value_ok :: "cfg \<Rightarrow> bool" where
  "value_ok (Name i) = (not_operator i \<and> ident_name i \<noteq> ''true'' \<and> ident_name i \<noteq> ''false'')"
| "value_ok (KeyPair i v) = not_operator i"

fun expr_wf :: "cfg_expr \<Rightarrow> bool" where
  "expr_wf (CfgNot e) = expr_wf e"
| "expr_wf (CfgAll es) = list_all expr_wf es"
| "expr_wf (CfgAny es) = list_all expr_wf es"
| "expr_wf (CfgValue c) = (cfg_ok c \<and> value_ok c)"
| "expr_wf CfgTrue = True"
| "expr_wf CfgFalse = True"

definition ends_ident :: "string \<Rightarrow> bool" where
  "ends_ident rest \<longleftrightarrow> (case rest of [] \<Rightarrow> True | c # _ \<Rightarrow> \<not> is_ident_rest c \<and> c \<noteq> CHR ''#'')"

definition ends_expr :: "string \<Rightarrow> bool" where
  "ends_expr rest \<longleftrightarrow> (case rest of [] \<Rightarrow> True | c # _ \<Rightarrow> c = CHR '')'' \<or> c = CHR '','')"

lemma ident_start_special:
  assumes "is_ident_start c"
  shows "c \<noteq> CHR '' ''" "c \<noteq> CHR ''(''" "c \<noteq> CHR '')''" "c \<noteq> CHR '',''" "c \<noteq> CHR ''=''" "c \<noteq> CHR 0x22"
    "c \<noteq> CHR ''#''" "is_ident_rest c"
  using assms by (auto simp: is_ident_start_def is_ident_rest_def less_eq_char_def)

lemma ident_rest_special:
  "\<not> is_ident_rest CHR '' ''" "\<not> is_ident_rest CHR ''(''" "\<not> is_ident_rest CHR '')''" "\<not> is_ident_rest CHR '',''"
  "is_ident_start CHR ''r''" "\<not> is_ident_rest CHR ''#''"
  by (auto simp: is_ident_start_def is_ident_rest_def less_eq_char_def)

lemma ends_expr_ident: "ends_expr rest \<Longrightarrow> ends_ident rest"
  by (auto simp: ends_expr_def ends_ident_def ident_rest_special split: list.splits)

lemma scan_ident_all:
  assumes "list_all is_ident_rest s" and "ends_ident rest"
  shows "scan_ident raw c (s @ rest) = (TIdent raw (c # s), rest)"
proof -
  have "takeWhile is_ident_rest rest = []" "dropWhile is_ident_rest rest = rest"
    using assms(2) by (auto simp: ends_ident_def split: list.splits)
  then show ?thesis
    using assms(1) by (simp add: scan_ident_def list_all_iff)
qed

lemma tok_ident:
  assumes "ident_ok i" and "ends_ident rest"
  shows "tok_next (show_ident i @ rest) = Ok (Some (TIdent (ident_raw i) (ident_name i), rest))"
proof -
  obtain c s where i: "ident_name i = c # s" "is_ident_start c" "list_all is_ident_rest s"
    using assms(1) by (auto simp: ident_ok_def split: list.splits)
  note sp = ident_start_special [OF i(2)]
  show ?thesis
  proof (cases "ident_raw i")
    case True
    then have "show_ident i @ rest = CHR ''r'' # CHR ''#'' # c # s @ rest"
      by (simp add: show_ident_def i)
    then show ?thesis
      using True i by (simp add: scan_ident_all [OF i(3) assms(2)] ident_rest_special)
  next
    case False
    then have shown: "show_ident i @ rest = c # s @ rest"
      by (simp add: show_ident_def i)
    have tok: "scan_ident False c (s @ rest) = (TIdent (ident_raw i) (ident_name i), rest)"
      using False i scan_ident_all [OF i(3) assms(2)] by simp
    show ?thesis
    proof (cases "s @ rest")
      case Nil
      with tok sp i(2) show ?thesis unfolding shown by auto
    next
      case (Cons d s1)
      have "d \<noteq> CHR ''#''"
        using Cons assms(2) i(3) by (cases s) (auto simp: ends_ident_def ident_rest_special)
      with Cons tok sp i(2) show ?thesis unfolding shown by auto
    qed
  qed
qed

lemma tok_punct [simp]:
  "tok_next (CHR '' '' # s) = tok_next s" "tok_next (CHR ''('' # s) = Ok (Some (LeftParen, s))"
  "tok_next (CHR '')'' # s) = Ok (Some (RightParen, s))" "tok_next (CHR '','' # s) = Ok (Some (Comma, s))"
  "tok_next (CHR ''='' # s) = Ok (Some (Equals, s))"
  by simp_all

lemma tok_string:
  "CHR 0x22 \<notin> set v \<Longrightarrow> tok_next (CHR 0x22 # v @ CHR 0x22 # rest) = Ok (Some (TString v, rest))"
  using split_once_Some_iff [of "CHR 0x22" "v @ CHR 0x22 # rest" v rest] by simp

lemma try_not_equals: "ends_expr rest \<Longrightarrow> parser_try Equals rest = (False, rest)"
  by (cases rest) (auto simp: parser_try_def ends_expr_def)

lemma parser_cfg_show:
  assumes "cfg_ok c" and "ends_expr rest"
  shows "parser_cfg (show_cfg c @ rest) = Ok (c, rest)"
proof (cases c)
  case (Name i)
  then show ?thesis
    using assms tok_ident [of i rest] ends_expr_ident [of rest]
    by (cases i) (simp add: parser_cfg_def try_not_equals del: tok_next.simps)
next
  case (KeyPair i v)
  let ?rest = "CHR '' '' # CHR ''='' # CHR '' '' # CHR 0x22 # v @ CHR 0x22 # rest"
  have "ends_ident ?rest" by (simp add: ends_ident_def ident_rest_special)
  moreover have "parser_try Equals ?rest = (True, CHR '' '' # CHR 0x22 # v @ CHR 0x22 # rest)"
    by (simp add: parser_try_def del: tok_next.simps(2))
  ultimately show ?thesis
    using assms KeyPair tok_ident [of i ?rest] tok_string [of v rest]
    by (cases i) (simp add: parser_cfg_def del: tok_next.simps(2))
qed


definition shows_back :: "cfg_expr \<Rightarrow> bool" where
  "shows_back e \<longleftrightarrow> (\<forall>n rest. ends_expr rest \<longrightarrow> 2 * length (show_expr e @ rest) < n \<longrightarrow>
     parse_expr n (show_expr e @ rest) = Ok (e, rest))"

lemma word_ident: "c # s \<in> {''all'', ''any'', ''not'', ''true'', ''false''} \<Longrightarrow> ident_ok (Ident (c # s) False)"
  by (auto simp: ident_ok_def is_ident_rest_def is_ident_start_def less_eq_char_def)

lemma tok_word:
  assumes "w \<in> {''all'', ''any'', ''not'', ''true'', ''false''}" and "ends_ident rest"
  shows "tok_next (w @ rest) = Ok (Some (TIdent False w, rest))"
proof -
  have "ident_ok (Ident w False)" using assms(1) word_ident [of "hd w" "tl w"] by auto
  from tok_ident [OF this assms(2)] show ?thesis by (simp add: show_ident_def)
qed

lemma ends_paren [simp]: "ends_ident (CHR ''('' # s)" "ends_expr (CHR '')'' # s)" "ends_expr (CHR '','' # s)"
  by (simp_all add: ends_ident_def ends_expr_def ident_rest_special)

lemma eat_paren [simp]:
  "parser_eat LeftParen (CHR ''('' # s) = Ok s" "parser_eat RightParen (CHR '')'' # s) = Ok s"
  by (simp_all add: parser_eat_def del: tok_next.simps)

lemma show_ident_start: "ident_ok i \<Longrightarrow> \<exists>c s. show_ident i = c # s \<and> is_ident_start c"
  by (auto simp: show_ident_def ident_ok_def ident_rest_special split: list.splits)

lemma show_expr_start: "expr_wf e \<Longrightarrow> \<exists>c s. show_expr e = c # s \<and> is_ident_start c"
proof (cases e)
  case (CfgValue c)
  assume "expr_wf e"
  with CfgValue show ?thesis
    by (cases c) (auto dest!: show_ident_start)
qed (auto simp: is_ident_start_def less_eq_char_def)

lemma try_close_ident:
  assumes "is_ident_start c"
  shows "parser_try RightParen (c # s) = (False, c # s)"
  using ident_start_special [OF assms] assms
  by (auto simp: parser_try_def scan_ident_def split: outcome.split option.split list.splits if_splits)

lemma parser_cfg_space: "parser_cfg (CHR '' '' # s) = parser_cfg s"
  by (simp only: parser_cfg_def tok_punct(1))

lemma parse_space [simp]:
  "parse_expr n (CHR '' '' # s) = parse_expr n s" "parse_list n (CHR '' '' # s) es = parse_list n s es"
proof -
  show e: "parse_expr n (CHR '' '' # s) = parse_expr n s" for n
    by (cases n) (simp_all only: parse_expr.simps tok_punct(1) parser_cfg_space)
  have "parser_try RightParen (CHR '' '' # s) =
      (if fst (parser_try RightParen s) then parser_try RightParen s else (False, CHR '' '' # s))"
    by (simp add: parser_try_def del: tok_next.simps(2) split: outcome.split option.split)
  then show "parse_list n (CHR '' '' # s) es = parse_list n s es"
    by (cases n) (auto simp: e split: prod.split)
qed

lemma parse_list_show:
  assumes "\<forall>e \<in> set es. expr_wf e \<and> shows_back e"
    and "2 * length (comma_sep (map show_expr es) @ CHR '')'' # rest) + 1 < n"
  shows "parse_list n (comma_sep (map show_expr es) @ CHR '')'' # rest) acc = Ok (acc @ es, rest)"
  using assms
proof (induction es arbitrary: n acc rule: induct_list012)
  case 1
  then obtain m where "n = Suc m" by (cases n) auto
  then show ?case by (simp add: parser_try_def del: tok_next.simps(2))
next
  case (2 e)
  then obtain m where n: "n = Suc m" by (cases n) auto
  obtain c s where c: "show_expr e = c # s" "is_ident_start c" using 2 show_expr_start [of e] by auto
  have "parse_expr m (show_expr e @ CHR '')'' # rest) = Ok (e, CHR '')'' # rest)"
    using 2 by (simp add: n shows_back_def)
  moreover have "parser_try Comma (CHR '')'' # rest) = (False, CHR '')'' # rest)"
    by (simp add: parser_try_def del: tok_next.simps(2))
  ultimately show ?case
    using try_close_ident [OF c(2), of "s @ CHR '')'' # rest"] c(1) by (simp add: n)
next
  case (3 e e' es)
  then obtain m where n: "n = Suc m" by (cases n) auto
  let ?rest = "comma_sep (map show_expr (e' # es)) @ CHR '')'' # rest"
  obtain c s where c: "show_expr e = c # s" "is_ident_start c" using 3 show_expr_start [of e] by auto
  have "parse_expr m (show_expr e @ CHR '','' # CHR '' '' # ?rest) = Ok (e, CHR '','' # CHR '' '' # ?rest)"
    using 3(3,4) by (simp add: n shows_back_def)
  moreover have "parser_try Comma (CHR '','' # CHR '' '' # ?rest) = (True, CHR '' '' # ?rest)"
    by (simp add: parser_try_def del: tok_next.simps(2))
  moreover have "parse_list m ?rest (acc @ [e]) = Ok ((acc @ [e]) @ e' # es, rest)"
    using 3(3,4) by (intro 3(2)) (simp_all add: n)
  ultimately show ?case
    using try_close_ident [OF c(2), of "s @ CHR '','' # CHR '' '' # ?rest"] c(1) by (simp add: n)
qed

lemma shows_back_word:
  assumes "e = CfgTrue \<and> w = ''true'' \<or> e = CfgFalse \<and> w = ''false''"
    and "ends_expr rest" and "0 < n"
  shows "parse_expr n (w @ rest) = Ok (e, rest)"
proof -
  obtain m where n: "n = Suc m" using assms(3) by (cases n) auto
  have w: "w \<in> {''all'', ''any'', ''not'', ''true'', ''false''}" using assms(1) by auto
  have "parser_cfg (show_cfg (Name (Ident w False)) @ rest) = Ok (Name (Ident w False), rest)"
    using w word_ident [of "hd w" "tl w"] by (intro parser_cfg_show assms(2)) auto
  then show ?thesis
    using assms(1) tok_word [OF w ends_expr_ident [OF assms(2)]]
    by (auto simp: n show_ident_def)
qed

lemma show_expr_back: "expr_wf e \<Longrightarrow> shows_back e"
proof (induction e)
  case (CfgNot e)
  show ?case
    unfolding shows_back_def
  proof (intro allI impI)
    fix n rest
    assume "ends_expr rest" and n: "2 * length (show_expr (CfgNot e) @ rest) < n"
    then obtain m where m: "n = Suc m" by (cases n) auto
    have "parse_expr m (show_expr e @ CHR '')'' # rest) = Ok (e, CHR '')'' # rest)"
      using CfgNot n by (simp add: m shows_back_def)
    then show "parse_expr n (show_expr (CfgNot e) @ rest) = Ok (CfgNot e, rest)"
      using tok_word [of "''not''" "CHR ''('' # show_expr e @ CHR '')'' # rest"] by (simp add: m)
  qed
next
  case (CfgAll es)
  show ?case
    unfolding shows_back_def
  proof (intro allI impI)
    fix n rest
    assume n: "2 * length (show_expr (CfgAll es) @ rest) < n"
    then obtain m where m: "n = Suc m" by (cases n) auto
    have "parse_list m (comma_sep (map show_expr es) @ CHR '')'' # rest) [] = Ok ([] @ es, rest)"
      using CfgAll n by (intro parse_list_show) (auto simp: m list_all_iff)
    then show "parse_expr n (show_expr (CfgAll es) @ rest) = Ok (CfgAll es, rest)"
      using tok_word [of "''all''" "CHR ''('' # comma_sep (map show_expr es) @ CHR '')'' # rest"]
      by (simp add: m)
  qed
next
  case (CfgAny es)
  show ?case
    unfolding shows_back_def
  proof (intro allI impI)
    fix n rest
    assume n: "2 * length (show_expr (CfgAny es) @ rest) < n"
    then obtain m where m: "n = Suc m" by (cases n) auto
    have "parse_list m (comma_sep (map show_expr es) @ CHR '')'' # rest) [] = Ok ([] @ es, rest)"
      using CfgAny n by (intro parse_list_show) (auto simp: m list_all_iff)
    then show "parse_expr n (show_expr (CfgAny es) @ rest) = Ok (CfgAny es, rest)"
      using tok_word [of "''any''" "CHR ''('' # comma_sep (map show_expr es) @ CHR '')'' # rest"]
      by (simp add: m)
  qed
next
  case (CfgValue c)
  show ?case
    unfolding shows_back_def
  proof (intro allI impI)
    fix n rest
    assume rest: "ends_expr rest" and "2 * length (show_expr (CfgValue c) @ rest) < n"
    then obtain m where m: "n = Suc m" by (cases n) auto
    have ok: "cfg_ok c" "value_ok c" using CfgValue by simp_all
    let ?i = "cfg_ident c"
    have "\<exists>r. tok_next (show_cfg c @ rest) = Ok (Some (TIdent (ident_raw ?i) (ident_name ?i), r))"
    proof (cases c)
      case (Name i)
      with ok(1) tok_ident [of i rest] ends_expr_ident [OF rest] show ?thesis by simp
    next
      case (KeyPair i v)
      have "ends_ident (CHR '' '' # CHR ''='' # CHR '' '' # CHR 0x22 # v @ CHR 0x22 # rest)"
        by (simp add: ends_ident_def ident_rest_special)
      with KeyPair ok(1) show ?thesis
        using tok_ident [of i "CHR '' '' # CHR ''='' # CHR '' '' # CHR 0x22 # v @ CHR 0x22 # rest"] by simp
    qed
    moreover have "not_operator ?i" "expr_of_cfg c = CfgValue c"
      using ok(2) by (cases c; simp)+
    ultimately show "parse_expr n (show_expr (CfgValue c) @ rest) = Ok (CfgValue c, rest)"
      using parser_cfg_show [OF ok(1) rest] by (auto simp: m not_operator_def)
  qed
qed (auto simp: shows_back_def intro!: shows_back_word [of _ "''true''", simplified]
      shows_back_word [of _ "''false''", simplified])


lemma expr_round_trip: "expr_wf e \<Longrightarrow> expr_from_str (show_expr e) = Ok e"
  using show_expr_back [of e]
  by (auto simp: shows_back_def expr_from_str_def finish_parse_def parser_rest_def with_orig_def ends_expr_def
      dest!: spec [of _ "2 * length (show_expr e) + 2"] spec [of _ "[]"])

lemma strip_cfg:
  "Option.bind (strip_prefix ''cfg('' key) (strip_suffix '')'') =
     (if starts_with ''cfg('' key \<and> ends_with '')'' key then Some (take (length key - 1 - 4) (drop 4 key))
      else None)"
proof (cases "starts_with ''cfg('' key")
  case True
  then obtain r where key: "key = ''cfg('' @ r" by (auto simp: starts_with_iff)
  show ?thesis
  proof (cases r rule: rev_cases)
    case Nil
    with True key show ?thesis by (simp add: strip_prefix_def strip_suffix_def ends_with_def)
  next
    case (snoc t c)
    with True key show ?thesis
      by (auto simp: strip_prefix_def strip_suffix_def ends_with_def)
  qed
qed (simp add: strip_prefix_def)

subsection \<open>Properties\<close>

text \<open>
  C24: printing a platform and parsing it again gives the same platform, for every named
  platform of legal characters and every cfg expression whose identifiers and strings have a
  printed form; parsing never runs out of recursion and never panics, whatever the input.
\<close>

theorem platform_round_trip:
  assumes "\<not> alnum CHR ''(''"
  shows "(\<forall>n. list_all (\<lambda>c. alnum c \<or> c = CHR ''_'' \<or> c = CHR ''-'' \<or> c = CHR ''.'') n \<longrightarrow>
       platform_from_str alnum (show_platform (PlatformName n)) = Ok (PlatformName n)) \<and>
    (\<forall>e. expr_wf e \<longrightarrow>
       platform_from_str alnum (show_platform (PlatformCfg e)) = Ok (PlatformCfg e)) \<and>
    (\<forall>s. platform_from_str alnum s \<noteq> OutOfFuel \<and> platform_from_str alnum s \<noteq> Panic)"
proof (intro conjI allI impI)
  fix n
  assume n: "list_all (\<lambda>c. alnum c \<or> c = CHR ''_'' \<or> c = CHR ''-'' \<or> c = CHR ''.'') n"
  then have "CHR ''('' \<notin> set n" using assms by (auto simp: list_all_iff)
  then have "\<not> starts_with ''cfg('' n" by (auto simp: starts_with_iff)
  moreover have "find (\<lambda>c. \<not> (alnum c \<or> c = CHR ''_'' \<or> c = CHR ''-'' \<or> c = CHR ''.'')) n = None"
    using n by (auto simp: find_None_iff list_all_iff)
  ultimately show "platform_from_str alnum (show_platform (PlatformName n)) = Ok (PlatformName n)"
    using strip_cfg [of n] by (simp add: platform_from_str_def validate_named_platform_def)
next
  fix e
  assume "expr_wf e"
  moreover have "strip_prefix ''cfg('' (''cfg('' @ show_expr e @ '')'') = Some (show_expr e @ '')'')"
    by (rule strip_prefix_append)
  ultimately show "platform_from_str alnum (show_platform (PlatformCfg e)) = Ok (PlatformCfg e)"
    by (simp add: platform_from_str_def expr_round_trip)
next
  fix s
  have v: "validate_named_platform alnum s \<noteq> OutOfFuel" "validate_named_platform alnum s \<noteq> Panic"
    by (auto simp: validate_named_platform_def split: option.split)
  have e: "expr_from_str t \<noteq> OutOfFuel" "expr_from_str t \<noteq> Panic" for t
    by (rule expr_from_str_total)+
  have bind: "obind r f \<noteq> OutOfFuel \<and> obind r f \<noteq> Panic"
    if "r \<noteq> OutOfFuel" "r \<noteq> Panic" "\<And>a. \<exists>b. f a = Ok b" for r :: "(parse_error, 'x) outcome" and f :: "'x \<Rightarrow> (parse_error, platform) outcome"
    using that by (cases r) (auto, (metis outcome.distinct(3,5))+)
  show "platform_from_str alnum s \<noteq> OutOfFuel" "platform_from_str alnum s \<noteq> Panic"
    using bind [OF v] bind [OF e] by (auto simp: platform_from_str_def split: option.split)
qed

theorem platform_round_trip_witness:
  "platform_from_str (\<lambda>c. CHR ''a'' \<le> c \<and> c \<le> CHR ''z'')
     (show_platform (PlatformCfg (CfgAll [CfgNot (CfgValue (Name (Ident ''unix'' False))),
        CfgValue (KeyPair (Ident ''os'' True) ''x y'')]))) =
   Ok (PlatformCfg (CfgAll [CfgNot (CfgValue (Name (Ident ''unix'' False))),
        CfgValue (KeyPair (Ident ''os'' True) ''x y'')]))"
proof -
  let ?e = "CfgAll [CfgNot (CfgValue (Name (Ident ''unix'' False))), CfgValue (KeyPair (Ident ''os'' True) ''x y'')]"
  have "expr_wf ?e"
    by (simp add: ident_ok_def not_operator_def is_ident_rest_def is_ident_start_def less_eq_char_def)
  moreover have "\<not> (CHR ''a'' \<le> CHR ''('' \<and> CHR ''('' \<le> CHR ''z'')" by (simp add: less_eq_char_def)
  ultimately show ?thesis
    using platform_round_trip [of "\<lambda>c. CHR ''a'' \<le> c \<and> c \<le> CHR ''z''"] by blast
qed

text \<open>
  the two ways Cargo asks whether a \<open>cfg(..)\<close> key applies agree: \<open>matches_key\<close> is
  parsing the key as a platform and matching it, with every parse error counted as no match.
\<close>

theorem matches_key_platform:
  "matches_key key target_cfg \<longleftrightarrow>
     (\<exists>e. platform_from_str alnum key = Ok (PlatformCfg e) \<and> platform_matches (PlatformCfg e) name target_cfg)"
proof (cases "starts_with ''cfg('' key \<and> ends_with '')'' key")
  case True
  let ?s = "take (length key - 1 - 4) (drop 4 key)"
  show ?thesis
    using True expr_from_str_total [of ?s]
    by (cases "expr_from_str ?s") (simp_all add: matches_key_def platform_from_str_def strip_cfg)
next
  case False
  then show ?thesis
    by (auto simp: matches_key_def platform_from_str_def strip_cfg)
qed

text \<open>
  a raw identifier does not escape the boolean literals: \<open>cfg(r#true)\<close> is the literal
  \<open>true\<close>, not a value named \<open>true\<close>, so a value of that name cannot be written.
\<close>

theorem raw_true_is_boolean:
  "expr_from_str ''r#true'' = Ok CfgTrue \<and>
   (\<forall>s. expr_from_str s \<noteq> Ok (CfgValue (Name (Ident ''true'' True))))"
proof
  show "expr_from_str ''r#true'' = Ok CfgTrue"
  proof -
    have "ident_ok (Ident ''true'' True)"
      by (simp add: ident_ok_def is_ident_rest_def is_ident_start_def less_eq_char_def)
    then have "tok_next ''r#true'' = Ok (Some (TIdent True ''true'', []))"
      "parser_cfg ''r#true'' = Ok (Name (Ident ''true'' True), [])"
      using tok_ident [of "Ident ''true'' True" "[]"] parser_cfg_show [of "Name (Ident ''true'' True)" "[]"]
      by (simp_all add: show_ident_def ends_ident_def ends_expr_def)
    then show ?thesis
      by (simp add: expr_from_str_def with_orig_def finish_parse_def parser_rest_def eval_nat_numeral
          del: tok_next.simps)
  qed
  have no: "expr_of_cfg v \<noteq> CfgValue (Name (Ident ''true'' True))" for v
    by (cases v rule: expr_of_cfg.cases) auto
  have "parse_expr n s = Ok (e, s') \<Longrightarrow> e \<noteq> CfgValue (Name (Ident ''true'' True))" for n s e s'
    using no by (cases n) (auto split: option.splits if_splits)
  then show "\<forall>s. expr_from_str s \<noteq> Ok (CfgValue (Name (Ident ''true'' True)))"
    by (auto simp: expr_from_str_def with_orig_def finish_parse_def simp del: parse_expr.simps add_2_eq_Suc'
        split: outcome.splits option.splits)
qed

end
