(* ===== verification/Versions.thy ===== *)
theory Versions
  imports Prelude "HOL-Library.Product_Lexorder" "HOL-Library.Option_ord"
begin

section \<open>Versions and version requirements\<close>

text \<open>
  The data of the \<open>semver\<close> crate that Cargo reads (versions, comparators) and Cargo's own
  code on top of it: \<open>util/semver_eval_ext.rs\<close> (matching of pre-releases),
  \<open>util/semver_ext.rs\<close> (\<open>OptVersionReq\<close>), \<open>PartialVersion\<close> and \<open>RustVersion\<close> of
  \<open>cargo-util-schemas\<close>, and \<open>SemverCompatibility\<close> of \<open>resolver/types.rs\<close>.

  \<open>semver\<close> itself is not part of the repository. Its pre-release and build identifiers are type
  variables \<open>'p\<close>, \<open>'b\<close> whose order is the crate's order on non-empty identifiers (the empty
  identifier is \<open>None\<close>; an empty pre-release is the greatest one); \<open>VersionReq::matches\<close>,
  \<open>Version::parse\<close> and \<open>VersionReq::parse\<close> are arguments of the definitions that call them.
  Version numbers are natural numbers below \<open>2 ^ 64\<close>. The upper bounds of a requirement add one to
  one of them, at 64 bits: \<open>u64::MAX\<close> overflows, which panics in a build with overflow checks
  (the flag \<open>checks\<close>) and wraps around to zero otherwise.
\<close>

datatype ('p, 'b) version =
  Version (ver_major: nat) (ver_minor: nat) (ver_patch: nat) (ver_pre: "'p option") (ver_build: "'b option")

definition pre_key :: "'p option \<Rightarrow> bool \<times> 'p option" where
  "pre_key p = (p = None, p)"

definition ver_point :: "('p, 'b) version \<Rightarrow> nat \<times> nat \<times> nat \<times> bool \<times> 'p option" where
  "ver_point v = (ver_major v, ver_minor v, ver_patch v, pre_key (ver_pre v))"

instantiation version :: (linorder, linorder) linorder
begin

definition less_eq_version :: "('a, 'b) version \<Rightarrow> ('a, 'b) version \<Rightarrow> bool" where
  "v \<le> w \<longleftrightarrow> (ver_point v, ver_build v) \<le> (ver_point w, ver_build w)"

definition less_version :: "('a, 'b) version \<Rightarrow> ('a, 'b) version \<Rightarrow> bool" where
  "v < w \<longleftrightarrow> (ver_point v, ver_build v) < (ver_point w, ver_build w)"

instance
proof
  fix x y z :: "('a, 'b) version"
  show "x < y \<longleftrightarrow> x \<le> y \<and> \<not> y \<le> x"
    unfolding less_version_def less_eq_version_def by (rule less_le_not_le)
  show "x \<le> x" by (simp add: less_eq_version_def)
  show "x \<le> y \<Longrightarrow> y \<le> z \<Longrightarrow> x \<le> z" unfolding less_eq_version_def by (rule order_trans)
  show "x \<le> y \<or> y \<le> x" unfolding less_eq_version_def by (rule linear)
  assume "x \<le> y" and "y \<le> x"
  then have "(ver_point x, ver_build x) = (ver_point y, ver_build y)"
    unfolding less_eq_version_def by (rule order_antisym)
  then show "x = y"
    by (cases x; cases y) (simp add: ver_point_def pre_key_def)
qed

end

datatype semver_op = Exact | Greater | GreaterEq | Less | LessEq | Tilde | Caret | Wildcard

record 'p comparator =
  cmp_op :: semver_op
  cmp_major :: nat
  cmp_minor :: "nat option"
  cmp_patch :: "nat option"
  cmp_pre :: "'p option"

type_synonym 'p version_req = "'p comparator list"

subsection \<open>Matching with pre-releases (util/semver_eval_ext.rs)\<close>

definition matches_exact :: "'p comparator \<Rightarrow> ('p, 'b) version \<Rightarrow> bool" where
  "matches_exact cmp ver =
     (if ver_major ver \<noteq> cmp_major cmp then False
      else if (case cmp_minor cmp of Some minor \<Rightarrow> ver_minor ver \<noteq> minor | None \<Rightarrow> False) then False
      else if (case cmp_patch cmp of Some patch \<Rightarrow> ver_patch ver \<noteq> patch | None \<Rightarrow> False) then False
      else ver_pre ver = cmp_pre cmp)"

definition matches_greater :: "'p::linorder comparator \<Rightarrow> ('p, 'b) version \<Rightarrow> bool" where
  "matches_greater cmp ver =
     (if ver_major ver \<noteq> cmp_major cmp then ver_major ver > cmp_major cmp
      else case cmp_minor cmp of
        None \<Rightarrow> False
      | Some minor \<Rightarrow>
          if ver_minor ver \<noteq> minor then ver_minor ver > minor
          else case cmp_patch cmp of
            None \<Rightarrow> False
          | Some patch \<Rightarrow>
              if ver_patch ver \<noteq> patch then ver_patch ver > patch
              else pre_key (ver_pre ver) > pre_key (cmp_pre cmp))"

definition matches_less :: "'p::linorder comparator \<Rightarrow> ('p, 'b) version \<Rightarrow> bool" where
  "matches_less cmp ver =
     (if ver_major ver \<noteq> cmp_major cmp then ver_major ver < cmp_major cmp
      else case cmp_minor cmp of
        None \<Rightarrow> False
      | Some minor \<Rightarrow>
          if ver_minor ver \<noteq> minor then ver_minor ver < minor
          else case cmp_patch cmp of
            None \<Rightarrow> False
          | Some patch \<Rightarrow>
              if ver_patch ver \<noteq> patch then ver_patch ver < patch
              else pre_key (ver_pre ver) < pre_key (cmp_pre cmp))"

definition fill_partial_req :: "'p comparator \<Rightarrow> 'p comparator" where
  "fill_partial_req cmp =
     (if cmp_minor cmp = None then cmp\<lparr>cmp_minor := Some 0, cmp_patch := Some 0\<rparr>
      else if cmp_patch cmp = None then cmp\<lparr>cmp_patch := Some 0\<rparr>
      else cmp)"

definition fill_partial_req_include_pre :: "'p \<Rightarrow> 'p comparator \<Rightarrow> 'p comparator" where
  "fill_partial_req_include_pre pre0 cmp =
     (let cmp = (if cmp_minor cmp = None
                 then cmp\<lparr>cmp_minor := Some 0, cmp_patch := Some 0, cmp_pre := Some pre0\<rparr>
                 else if cmp_patch cmp = None then cmp\<lparr>cmp_patch := Some 0\<rparr>
                 else cmp)
      in if cmp_pre cmp = None then cmp\<lparr>cmp_pre := Some pre0\<rparr> else cmp)"

text \<open>The three increments: \<open>upper.patch\<close>, \<open>upper.minor\<close> or \<open>upper.major\<close> plus one.\<close>

definition bump_patch :: "bool \<Rightarrow> nat \<Rightarrow> 'p comparator \<Rightarrow> ('e, 'p comparator) outcome" where
  "bump_patch checks p upper = obind (uadd 64 checks p 1) (\<lambda>p. Ok (upper\<lparr>cmp_patch := Some p\<rparr>))"

definition bump_minor :: "bool \<Rightarrow> nat \<Rightarrow> 'p comparator \<Rightarrow> ('e, 'p comparator) outcome" where
  "bump_minor checks m upper =
     obind (uadd 64 checks m 1) (\<lambda>m. Ok (upper\<lparr>cmp_minor := Some m, cmp_patch := Some 0\<rparr>))"

definition bump_major :: "bool \<Rightarrow> 'p comparator \<Rightarrow> ('e, 'p comparator) outcome" where
  "bump_major checks upper =
     obind (uadd 64 checks (cmp_major upper) 1)
       (\<lambda>m. Ok (upper\<lparr>cmp_major := m, cmp_minor := Some 0, cmp_patch := Some 0\<rparr>))"

definition exact_upper :: "bool \<Rightarrow> 'p \<Rightarrow> 'p comparator \<Rightarrow> ('e, 'p comparator) outcome" where
  "exact_upper checks pre0 cmp =
     (let upper = cmp\<lparr>cmp_op := Less, cmp_pre := Some pre0\<rparr>
      in (case (cmp_minor upper, cmp_patch upper) of
             (Some m, Some p) \<Rightarrow> bump_patch checks p upper
           | (Some m, None) \<Rightarrow> bump_minor checks m upper
           | (None, None) \<Rightarrow> bump_major checks upper
           | (None, Some _) \<Rightarrow> Ok upper))"

definition matches_exact_prerelease ::
  "bool \<Rightarrow> 'p::linorder \<Rightarrow> 'p comparator \<Rightarrow> ('p, 'b) version \<Rightarrow> ('e, bool) outcome" where
  "matches_exact_prerelease checks pre0 cmp ver =
     (if matches_exact cmp ver then Ok True
      else if cmp_pre cmp \<noteq> None then Ok False
      else if \<not> matches_greater (fill_partial_req cmp) ver then Ok False
      else obind (exact_upper checks pre0 cmp) (\<lambda>upper. Ok (matches_less upper ver)))"

definition tilde_upper :: "bool \<Rightarrow> 'p \<Rightarrow> 'p comparator \<Rightarrow> ('e, 'p comparator) outcome" where
  "tilde_upper checks pre0 cmp =
     (let upper = cmp\<lparr>cmp_op := Less, cmp_pre := Some pre0\<rparr>
      in (case (cmp_minor upper, cmp_patch upper) of
             (Some m, _) \<Rightarrow> bump_minor checks m upper
           | (None, None) \<Rightarrow> bump_major checks upper
           | (None, Some _) \<Rightarrow> Ok upper))"

definition matches_tilde_prerelease ::
  "bool \<Rightarrow> 'p::linorder \<Rightarrow> 'p comparator \<Rightarrow> ('p, 'b) version \<Rightarrow> ('e, bool) outcome" where
  "matches_tilde_prerelease checks pre0 cmp ver =
     (if matches_exact cmp ver then Ok True
      else if \<not> matches_greater (fill_partial_req cmp) ver then Ok False
      else obind (tilde_upper checks pre0 cmp) (\<lambda>upper. Ok (matches_less upper ver)))"

definition caret_upper :: "bool \<Rightarrow> 'p \<Rightarrow> 'p comparator \<Rightarrow> ('e, 'p comparator) outcome" where
  "caret_upper checks pre0 cmp =
     (let upper = cmp\<lparr>cmp_op := Less, cmp_pre := Some pre0\<rparr>
      in
           (if cmp_major upper > 0 \<or> (cmp_minor upper = None \<and> cmp_patch upper = None)
            then bump_major checks upper
            else case (cmp_minor upper, cmp_patch upper) of
              (Some m, None) \<Rightarrow> bump_minor checks m upper
            | (Some m, Some p) \<Rightarrow> if m > 0 then bump_minor checks m upper else bump_patch checks p upper
            | (None, _) \<Rightarrow> Ok upper))"

definition matches_caret_prerelease ::
  "bool \<Rightarrow> 'p::linorder \<Rightarrow> 'p comparator \<Rightarrow> ('p, 'b) version \<Rightarrow> ('e, bool) outcome" where
  "matches_caret_prerelease checks pre0 cmp ver =
     (if matches_exact cmp ver then Ok True
      else if \<not> matches_greater (fill_partial_req cmp) ver then Ok False
      else obind (caret_upper checks pre0 cmp) (\<lambda>upper. Ok (matches_less upper ver)))"

definition matches_prerelease_impl ::
  "bool \<Rightarrow> 'p::linorder \<Rightarrow> 'p comparator \<Rightarrow> ('p, 'b) version \<Rightarrow> bool \<Rightarrow> ('e, bool) outcome" where
  "matches_prerelease_impl checks pre0 cmp ver lower_bound_prerelease =
     (case cmp_op cmp of
        Exact \<Rightarrow> matches_exact_prerelease checks pre0 cmp ver
      | Wildcard \<Rightarrow> matches_exact_prerelease checks pre0 cmp ver
      | Greater \<Rightarrow> Ok (matches_greater cmp ver)
      | GreaterEq \<Rightarrow>
          obind (matches_exact_prerelease checks pre0 cmp ver)
            (\<lambda>b. if b then Ok True else Ok (matches_greater cmp ver))
      | Less \<Rightarrow>
          (if lower_bound_prerelease then Ok (matches_less (fill_partial_req cmp) ver)
           else Ok (matches_less (fill_partial_req_include_pre pre0 cmp) ver))
      | LessEq \<Rightarrow>
          obind (matches_exact_prerelease checks pre0 cmp ver)
            (\<lambda>b. if b then Ok True else Ok (matches_less (fill_partial_req cmp) ver))
      | Tilde \<Rightarrow> matches_tilde_prerelease checks pre0 cmp ver
      | Caret \<Rightarrow> matches_caret_prerelease checks pre0 cmp ver)"

definition matches_prerelease ::
  "bool \<Rightarrow> 'p::linorder \<Rightarrow> 'p version_req \<Rightarrow> ('p, 'b) version \<Rightarrow> ('e, bool) outcome" where
  "matches_prerelease checks pre0 req ver =
     (let lb = list_ex (\<lambda>cmp. (cmp_op cmp = Greater \<or> cmp_op cmp = GreaterEq) \<and> cmp_pre cmp \<noteq> None) req
      in oall (\<lambda>cmp. matches_prerelease_impl checks pre0 cmp ver lb) req)"

subsection \<open>\<open>OptVersionReq\<close> (util/semver_ext.rs)\<close>

definition is_prerelease :: "('p, 'b) version \<Rightarrow> bool" where
  "is_prerelease v = (ver_pre v \<noteq> None)"

definition to_req :: "semver_op \<Rightarrow> ('p, 'b) version \<Rightarrow> 'p version_req" where
  "to_req op v =
     [\<lparr>cmp_op = op, cmp_major = ver_major v, cmp_minor = Some (ver_minor v),
       cmp_patch = Some (ver_patch v), cmp_pre = ver_pre v\<rparr>]"

definition to_exact_req :: "('p, 'b) version \<Rightarrow> 'p version_req" where
  "to_exact_req v = to_req Exact v"

definition to_caret_req :: "('p, 'b) version \<Rightarrow> 'p version_req" where
  "to_caret_req v = to_req Caret v"

datatype ('p, 'b) opt_version_req =
    AnyReq
  | Req "'p version_req"
  | Locked "('p, 'b) version" "'p version_req"
  | Precise "('p, 'b) version" "'p version_req"

definition opt_exact :: "('p, 'b) version \<Rightarrow> ('p, 'b) opt_version_req" where
  "opt_exact v = Req (to_exact_req v)"

definition lock_to_exact :: "('p, 'b) version \<Rightarrow> ('p, 'b) opt_version_req" where
  "lock_to_exact v = Locked v (to_exact_req v)"

definition req_is_exact :: "'p version_req \<Rightarrow> bool" where
  "req_is_exact req =
     (case req of
        [cmp] \<Rightarrow> cmp_op cmp = Exact \<and> cmp_minor cmp \<noteq> None \<and> cmp_patch cmp \<noteq> None
      | _ \<Rightarrow> False)"

fun opt_is_exact :: "('p, 'b) opt_version_req \<Rightarrow> bool" where
  "opt_is_exact AnyReq = False"
| "opt_is_exact (Req req) = req_is_exact req"
| "opt_is_exact (Precise _ req) = req_is_exact req"
| "opt_is_exact (Locked _ _) = True"

fun opt_matches ::
  "('p version_req \<Rightarrow> ('p, 'b) version \<Rightarrow> bool) \<Rightarrow> ('p, 'b) opt_version_req \<Rightarrow> ('p, 'b) version \<Rightarrow> bool"
where
  "opt_matches req_matches AnyReq version = True"
| "opt_matches req_matches (Req req) version = req_matches req version"
| "opt_matches req_matches (Locked v _) version = (v = version)"
| "opt_matches req_matches (Precise v _) version =
     (ver_major v = ver_major version \<and> ver_minor v = ver_minor version \<and>
      ver_patch v = ver_patch version \<and> ver_pre v = ver_pre version \<and>
      (ver_build v = ver_build version \<or> ver_build v = None))"

fun opt_req :: "('p, 'b) opt_version_req \<Rightarrow> 'p version_req" where
  "opt_req AnyReq = []"
| "opt_req (Req req) = req"
| "opt_req (Locked _ req) = req"
| "opt_req (Precise _ req) = req"

definition opt_lock_to ::
  "('p version_req \<Rightarrow> ('p, 'b) version \<Rightarrow> bool) \<Rightarrow> ('p, 'b) version \<Rightarrow>
   ('p, 'b) opt_version_req \<Rightarrow> (unit, ('p, 'b) opt_version_req) outcome" where
  "opt_lock_to req_matches version r =
     (if opt_matches req_matches r version then Ok (Locked version (opt_req r)) else Panic)"

definition precise_to :: "('p, 'b) version \<Rightarrow> ('p, 'b) opt_version_req \<Rightarrow> ('p, 'b) opt_version_req" where
  "precise_to version r = Precise version (opt_req r)"

fun is_precise :: "('p, 'b) opt_version_req \<Rightarrow> bool" where
  "is_precise (Precise _ _) = True"
| "is_precise _ = False"

fun precise_version :: "('p, 'b) opt_version_req \<Rightarrow> ('p, 'b) version option" where
  "precise_version (Precise v _) = Some v"
| "precise_version _ = None"

fun opt_is_locked :: "('p, 'b) opt_version_req \<Rightarrow> bool" where
  "opt_is_locked (Locked _ _) = True"
| "opt_is_locked _ = False"

fun locked_version :: "('p, 'b) opt_version_req \<Rightarrow> ('p, 'b) version option" where
  "locked_version (Locked v _) = Some v"
| "locked_version _ = None"

fun opt_matches_prerelease ::
  "('p version_req \<Rightarrow> ('p, 'b) version \<Rightarrow> bool) \<Rightarrow> bool \<Rightarrow> 'p::linorder \<Rightarrow>
   ('p, 'b) opt_version_req \<Rightarrow> ('p, 'b) version \<Rightarrow> ('e, bool) outcome" where
  "opt_matches_prerelease req_matches checks pre0 (Req req) version = matches_prerelease checks pre0 req version"
| "opt_matches_prerelease req_matches checks pre0 r version = Ok (opt_matches req_matches r version)"

subsection \<open>Partial versions and Rust versions (cargo-util-schemas)\<close>

text \<open>
  The fields \<open>pre\<close> and \<open>build\<close> of \<open>PartialVersion\<close> are optional identifiers, which may
  themselves be empty.
\<close>

record ('p, 'b) partial_version =
  pv_major :: nat
  pv_minor :: "nat option"
  pv_patch :: "nat option"
  pv_pre :: "'p option option"
  pv_build :: "'b option option"

definition unwrap_or :: "'a \<Rightarrow> 'a option \<Rightarrow> 'a" where
  "unwrap_or d x = (case x of None \<Rightarrow> d | Some a \<Rightarrow> a)"

definition pv_to_version :: "('p, 'b) partial_version \<Rightarrow> ('p, 'b) version option" where
  "pv_to_version pv =
     (case (pv_minor pv, pv_patch pv) of
        (Some mi, Some pa) \<Rightarrow>
          Some (Version (pv_major pv) mi pa (unwrap_or None (pv_pre pv)) (unwrap_or None (pv_build pv)))
      | _ \<Rightarrow> None)"

definition pv_to_caret_req :: "('p, 'b) partial_version \<Rightarrow> 'p version_req" where
  "pv_to_caret_req pv =
     [\<lparr>cmp_op = Caret, cmp_major = pv_major pv, cmp_minor = pv_minor pv, cmp_patch = pv_patch pv,
       cmp_pre = unwrap_or None (pv_pre pv)\<rparr>]"

definition pv_matches :: "('p, 'b) partial_version \<Rightarrow> ('p, 'b) version \<Rightarrow> bool" where
  "pv_matches pv version =
     (if ver_pre version \<noteq> None \<and> pv_pre pv = None then False
      else pv_major pv = ver_major version \<and>
        (case pv_minor pv of None \<Rightarrow> True | Some f \<Rightarrow> f = ver_minor version) \<and>
        (case pv_patch pv of None \<Rightarrow> True | Some f \<Rightarrow> f = ver_patch version) \<and>
        (case pv_pre pv of None \<Rightarrow> True | Some f \<Rightarrow> f = ver_pre version) \<and>
        (case pv_build pv of None \<Rightarrow> True | Some f \<Rightarrow> f = ver_build version))"

definition pv_from_version :: "('p, 'b) version \<Rightarrow> ('p, 'b) partial_version" where
  "pv_from_version ver =
     \<lparr>pv_major = ver_major ver, pv_minor = Some (ver_minor ver), pv_patch = Some (ver_patch ver),
      pv_pre = (if ver_pre ver = None then None else Some (ver_pre ver)),
      pv_build = (if ver_build ver = None then None else Some (ver_build ver))\<rparr>"

datatype pv_error = PvVersionReq | PvPrerelease | PvBuildMetadata | PvUnexpected

definition pv_from_str ::
  "(string \<Rightarrow> ('p, 'b) version option) \<Rightarrow> (string \<Rightarrow> 'p version_req option) \<Rightarrow> string \<Rightarrow>
   (pv_error, ('p, 'b) partial_version) outcome" where
  "pv_from_str parse_version parse_req value =
     (case parse_version value of
        Some ver \<Rightarrow> Ok (pv_from_version ver)
      | None \<Rightarrow>
          (case parse_req value of
             None \<Rightarrow>
               if CHR ''-'' \<in> set value then Err PvPrerelease
               else if CHR ''+'' \<in> set value then Err PvBuildMetadata
               else Err PvUnexpected
           | Some [cmp] \<Rightarrow>
               if cmp_op cmp \<noteq> Caret then Err PvVersionReq
               else if starts_with ''^'' value then Err PvVersionReq
               else Ok \<lparr>pv_major = cmp_major cmp, pv_minor = cmp_minor cmp, pv_patch = cmp_patch cmp,
                        pv_pre = (if cmp_pre cmp = None then None else Some (cmp_pre cmp)),
                        pv_build = None\<rparr>
           | Some _ \<Rightarrow> Err PvVersionReq))"

record rust_version =
  rv_major :: nat
  rv_minor :: "nat option"
  rv_patch :: "nat option"

definition rv_new :: "nat \<Rightarrow> nat \<Rightarrow> nat \<Rightarrow> rust_version" where
  "rv_new major minor patch = \<lparr>rv_major = major, rv_minor = Some minor, rv_patch = Some patch\<rparr>"

definition rv_to_partial :: "rust_version \<Rightarrow> ('p, 'b) partial_version" where
  "rv_to_partial rv =
     \<lparr>pv_major = rv_major rv, pv_minor = rv_minor rv, pv_patch = rv_patch rv, pv_pre = None, pv_build = None\<rparr>"

definition is_compatible_with ::
  "('p version_req \<Rightarrow> ('p, 'b) version \<Rightarrow> bool) \<Rightarrow> rust_version \<Rightarrow> ('p, 'b) partial_version \<Rightarrow> bool" where
  "is_compatible_with req_matches rv rustc =
     req_matches (pv_to_caret_req (rv_to_partial rv :: ('p, 'b) partial_version))
       (Version (pv_major rustc) (unwrap_or 0 (pv_minor rustc)) (unwrap_or 0 (pv_patch rustc)) None None)"

datatype rv_error = RvPartialVersion pv_error | RvPrerelease | RvBuildMetadata

definition rv_try_from :: "('p, 'b) partial_version \<Rightarrow> (rv_error, rust_version) outcome" where
  "rv_try_from partial =
     (if pv_pre partial \<noteq> None then Err RvPrerelease
      else if pv_build partial \<noteq> None then Err RvBuildMetadata
      else Ok \<lparr>rv_major = pv_major partial, rv_minor = pv_minor partial, rv_patch = pv_patch partial\<rparr>)"

definition rv_try_from_version :: "('p, 'b) version \<Rightarrow> (rv_error, rust_version) outcome" where
  "rv_try_from_version version = rv_try_from (pv_from_version version)"

definition rv_from_str ::
  "(string \<Rightarrow> ('p, 'b) version option) \<Rightarrow> (string \<Rightarrow> 'p version_req option) \<Rightarrow> string \<Rightarrow>
   (rv_error, rust_version) outcome" where
  "rv_from_str parse_version parse_req value =
     (case pv_from_str parse_version parse_req value of
        Ok partial \<Rightarrow> rv_try_from partial
      | Err e \<Rightarrow> Err (RvPartialVersion e)
      | Panic \<Rightarrow> Panic
      | OutOfFuel \<Rightarrow> OutOfFuel)"

subsection \<open>Semver compatibility (resolver/types.rs)\<close>

datatype semver_compatibility = CompatMajor nat | CompatMinor nat | CompatPatch nat

definition semver_compat :: "('p, 'b) version \<Rightarrow> semver_compatibility" where
  "semver_compat ver =
     (if ver_major ver \<noteq> 0 then CompatMajor (ver_major ver)
      else if ver_minor ver \<noteq> 0 then CompatMinor (ver_minor ver)
      else CompatPatch (ver_patch ver))"

subsection \<open>Matching as membership in an interval\<close>

text \<open>
  What the requirement operators mean, as bounds on the point (major, minor, patch, pre-release)
  of a version: a missing component of the requirement is zero in the lower bound; the upper
  bound excludes the pre-releases of the first version that is not allowed any more.
\<close>

definition nz :: "nat option \<Rightarrow> nat" where
  "nz x = (case x of None \<Rightarrow> 0 | Some n \<Rightarrow> n)"

definition cmp_wf :: "'p comparator \<Rightarrow> bool" where
  "cmp_wf cmp \<longleftrightarrow> (cmp_minor cmp = None \<longrightarrow> cmp_patch cmp = None) \<and>
     (cmp_patch cmp = None \<longrightarrow> cmp_pre cmp = None)"

text \<open>No number of the requirement is \<open>u64::MAX\<close>.\<close>

definition cmp_below_max :: "'p comparator \<Rightarrow> bool" where
  "cmp_below_max cmp \<longleftrightarrow>
     cmp_major cmp < 2 ^ 64 - 1 \<and> nz (cmp_minor cmp) < 2 ^ 64 - 1 \<and> nz (cmp_patch cmp) < 2 ^ 64 - 1"

definition cmp_point :: "'p comparator \<Rightarrow> nat \<times> nat \<times> nat \<times> bool \<times> 'p option" where
  "cmp_point cmp = (cmp_major cmp, nz (cmp_minor cmp), nz (cmp_patch cmp), pre_key (cmp_pre cmp))"

definition next_exact :: "'p \<Rightarrow> 'p comparator \<Rightarrow> nat \<times> nat \<times> nat \<times> bool \<times> 'p option" where
  "next_exact pre0 cmp =
     (case (cmp_minor cmp, cmp_patch cmp) of
        (Some m, Some p) \<Rightarrow> (cmp_major cmp, m, p + 1, pre_key (Some pre0))
      | (Some m, None) \<Rightarrow> (cmp_major cmp, m + 1, 0, pre_key (Some pre0))
      | _ \<Rightarrow> (cmp_major cmp + 1, 0, 0, pre_key (Some pre0)))"

definition next_minor :: "'p \<Rightarrow> 'p comparator \<Rightarrow> nat \<times> nat \<times> nat \<times> bool \<times> 'p option" where
  "next_minor pre0 cmp =
     (case cmp_minor cmp of
        Some m \<Rightarrow> (cmp_major cmp, m + 1, 0, pre_key (Some pre0))
      | None \<Rightarrow> (cmp_major cmp + 1, 0, 0, pre_key (Some pre0)))"

definition next_breaking :: "'p \<Rightarrow> 'p comparator \<Rightarrow> nat \<times> nat \<times> nat \<times> bool \<times> 'p option" where
  "next_breaking pre0 cmp =
     (if cmp_major cmp > 0 \<or> cmp_minor cmp = None then (cmp_major cmp + 1, 0, 0, pre_key (Some pre0))
      else if nz (cmp_minor cmp) > 0 \<or> cmp_patch cmp = None
           then (0, nz (cmp_minor cmp) + 1, 0, pre_key (Some pre0))
      else (0, 0, nz (cmp_patch cmp) + 1, pre_key (Some pre0)))"

definition cmp_allows ::
  "'p::linorder \<Rightarrow> bool \<Rightarrow> 'p comparator \<Rightarrow> nat \<times> nat \<times> nat \<times> bool \<times> 'p option \<Rightarrow> bool" where
  "cmp_allows pre0 lb cmp x =
     (case cmp_op cmp of
        Greater \<Rightarrow> if cmp_patch cmp = None then next_exact pre0 cmp \<le> x else cmp_point cmp < x
      | GreaterEq \<Rightarrow> cmp_point cmp \<le> x
      | Less \<Rightarrow> if cmp_pre cmp = None \<and> \<not> lb then x < cmp_point (cmp\<lparr>cmp_pre := Some pre0\<rparr>)
                else x < cmp_point cmp
      | LessEq \<Rightarrow> if cmp_patch cmp = None then x < next_exact pre0 cmp else x \<le> cmp_point cmp
      | Tilde \<Rightarrow> cmp_point cmp \<le> x \<and> x < next_minor pre0 cmp
      | Caret \<Rightarrow> cmp_point cmp \<le> x \<and> x < next_breaking pre0 cmp
      | _ \<Rightarrow> if cmp_patch cmp = None then cmp_point cmp \<le> x \<and> x < next_exact pre0 cmp
             else x = cmp_point cmp)"

lemma pre_key_less [simp]:
  "pre_key (Some (a :: 'p::linorder)) < pre_key (Some b) \<longleftrightarrow> a < b"
  "pre_key (Some (a :: 'p::linorder)) < pre_key None"
  "\<not> pre_key None < pre_key (x :: 'p::linorder option)"
  by (auto simp: pre_key_def less_prod_def')

lemma pre_key_le_None [simp]: "pre_key None \<le> pre_key (x :: 'p::linorder option) \<longleftrightarrow> x = None"
  by (auto simp: pre_key_def less_eq_prod_def)

lemma pre_key_eq [simp]: "pre_key x = pre_key y \<longleftrightarrow> x = y"
  by (auto simp: pre_key_def)

lemma point_less:
  fixes a b c :: nat and p :: "'p::linorder option"
  shows "(a, b, c, pre_key p) < (a', b', c', pre_key p') \<longleftrightarrow>
     a < a' \<or> a = a' \<and> (b < b' \<or> b = b' \<and> (c < c' \<or> c = c' \<and> pre_key p < pre_key p'))"
  by (auto simp: less_prod_def' pre_key_def)

lemma point_le:
  fixes a b c :: nat and p :: "'p::linorder option"
  shows "(a, b, c, pre_key p) \<le> (a', b', c', pre_key p') \<longleftrightarrow>
     a < a' \<or> a = a' \<and> (b < b' \<or> b = b' \<and> (c < c' \<or> c = c' \<and> (pre_key p < pre_key p' \<or> p = p')))"
  by (simp only: le_less point_less) auto

definition cmp_full :: "'p comparator \<Rightarrow> bool" where
  "cmp_full cmp \<longleftrightarrow> cmp_minor cmp \<noteq> None \<and> cmp_patch cmp \<noteq> None"

lemma matches_less_point: "cmp_full cmp \<Longrightarrow> matches_less cmp ver \<longleftrightarrow> ver_point ver < cmp_point cmp"
  by (auto simp: cmp_full_def matches_less_def ver_point_def cmp_point_def nz_def point_less)

lemma matches_greater_point: "cmp_full cmp \<Longrightarrow> matches_greater cmp ver \<longleftrightarrow> cmp_point cmp < ver_point ver"
  by (auto simp: cmp_full_def matches_greater_def ver_point_def cmp_point_def nz_def point_less)

lemma fill_point:
  assumes "cmp_wf cmp"
  shows "cmp_full (fill_partial_req cmp)" "cmp_point (fill_partial_req cmp) = cmp_point cmp"
  using assms by (auto simp: cmp_full_def fill_partial_req_def cmp_point_def cmp_wf_def nz_def)

lemma fill_pre_point:
  assumes "cmp_wf cmp"
  shows "cmp_full (fill_partial_req_include_pre pre0 cmp)"
    "cmp_point (fill_partial_req_include_pre pre0 cmp) =
       (if cmp_pre cmp = None then cmp_point (cmp\<lparr>cmp_pre := Some pre0\<rparr>) else cmp_point cmp)"
  using assms
  by (auto simp: cmp_full_def fill_partial_req_include_pre_def cmp_point_def cmp_wf_def nz_def Let_def)

lemma matches_exact_point:
  assumes "cmp_wf cmp" and "cmp_patch cmp \<noteq> None"
  shows "matches_exact cmp ver \<longleftrightarrow> ver_point ver = cmp_point cmp"
  using assms by (auto simp: matches_exact_def ver_point_def cmp_point_def cmp_wf_def nz_def)

lemma matches_exact_in:
  fixes pre0 :: "'p::linorder"
  assumes "cmp_wf cmp" and "matches_exact cmp ver"
  shows "cmp_point cmp \<le> ver_point ver \<and> ver_point ver < next_exact pre0 cmp"
  using assms
  by (cases "cmp_minor cmp"; cases "cmp_patch cmp"; cases "cmp_pre cmp")
    (auto simp: matches_exact_def ver_point_def cmp_point_def cmp_wf_def nz_def next_exact_def
      point_le point_less split: if_splits)

lemma matches_exact_lower:
  assumes "cmp_wf cmp" and "ver_point ver = cmp_point cmp"
  shows "matches_exact cmp ver"
  using assms by (auto simp: matches_exact_def ver_point_def cmp_point_def cmp_wf_def nz_def
      split: option.splits)

lemma next_le:
  fixes pre0 :: "'p::linorder"
  assumes "cmp_wf cmp"
  shows "next_exact pre0 cmp \<le> next_minor pre0 cmp" "next_exact pre0 cmp \<le> next_breaking pre0 cmp"
  using assms
  by (auto simp: next_exact_def next_minor_def next_breaking_def cmp_wf_def nz_def point_le
      split: option.splits)

lemma in_upper:
  assumes wf: "cmp_wf cmp" and u: "\<exists>upper. r = Ok upper \<and> cmp_full upper \<and> cmp_point upper = hi"
    and hi: "next_exact pre0 cmp \<le> hi"
  shows "(if matches_exact cmp ver then Ok True
      else if \<not> matches_greater (fill_partial_req cmp) ver then Ok False
      else obind r (\<lambda>upper. Ok (matches_less upper ver)))
    = Ok (cmp_point cmp \<le> ver_point ver \<and> ver_point ver < hi)"
proof -
  from u obtain upper where u: "r = Ok upper" "cmp_full upper" "cmp_point upper = hi" by blast
  show ?thesis
    using matches_exact_in [OF wf, of ver pre0] matches_exact_lower [OF wf, of ver] hi
    by (auto simp: matches_greater_point fill_point [OF wf] matches_less_point [OF u(2)] u(1,3))
qed

lemma pre_gap:
  fixes pre0 :: "'p::linorder"
  assumes "\<forall>p. pre0 \<le> p" and "(a, b, c, pre_key None) \<le> ver_point v"
    and "ver_point v < (a, b, Suc c, pre_key (Some pre0))"
  shows "ver_point v = (a, b, c, pre_key None)"
proof -
  have "\<not> pre_key (ver_pre v) < pre_key (Some pre0)"
    using assms(1) by (cases "ver_pre v") (auto simp: not_less)
  with assms(2,3) show ?thesis
    by (auto simp: ver_point_def point_le point_less)
qed

lemma bump_fits [simp]:
  "p < 2 ^ 64 - 1 \<Longrightarrow> bump_patch checks p upper = Ok (upper\<lparr>cmp_patch := Some (p + 1)\<rparr>)"
  "m < 2 ^ 64 - 1 \<Longrightarrow> bump_minor checks m upper = Ok (upper\<lparr>cmp_minor := Some (m + 1), cmp_patch := Some 0\<rparr>)"
  "cmp_major upper < 2 ^ 64 - 1 \<Longrightarrow> bump_major checks upper =
     Ok (upper\<lparr>cmp_major := cmp_major upper + 1, cmp_minor := Some 0, cmp_patch := Some 0\<rparr>)"
  by (simp_all add: bump_patch_def bump_minor_def bump_major_def)

lemma upper_point:
  assumes "cmp_wf cmp" and "cmp_below_max cmp"
  shows "\<exists>u. exact_upper checks pre0 cmp = Ok u \<and> cmp_full u \<and> cmp_point u = next_exact pre0 cmp"
    and "\<exists>u. tilde_upper checks pre0 cmp = Ok u \<and> cmp_full u \<and> cmp_point u = next_minor pre0 cmp"
    and "\<exists>u. caret_upper checks pre0 cmp = Ok u \<and> cmp_full u \<and> cmp_point u = next_breaking pre0 cmp"
  unfolding owp_Ok_iff [symmetric] using assms
  by (auto simp: cmp_full_def cmp_point_def nz_def cmp_wf_def cmp_below_max_def Let_def exact_upper_def next_exact_def
      tilde_upper_def next_minor_def caret_upper_def next_breaking_def split: option.splits)

lemma tilde_interval:
  assumes "cmp_wf cmp" and "cmp_below_max cmp"
  shows "matches_tilde_prerelease checks pre0 cmp ver =
    Ok (cmp_point cmp \<le> ver_point ver \<and> ver_point ver < next_minor pre0 cmp)"
  unfolding matches_tilde_prerelease_def
  by (rule in_upper [OF assms(1) upper_point(2) [OF assms] next_le(1) [OF assms(1)]])

lemma caret_interval:
  assumes "cmp_wf cmp" and "cmp_below_max cmp"
  shows "matches_caret_prerelease checks pre0 cmp ver =
    Ok (cmp_point cmp \<le> ver_point ver \<and> ver_point ver < next_breaking pre0 cmp)"
  unfolding matches_caret_prerelease_def
  by (rule in_upper [OF assms(1) upper_point(3) [OF assms] next_le(2) [OF assms(1)]])

lemma exact_interval:
  assumes wf: "cmp_wf cmp" and fits: "cmp_below_max cmp" and pre0: "\<forall>p. pre0 \<le> p"
  shows "matches_exact_prerelease checks pre0 cmp ver = Ok
    (if cmp_patch cmp = None then cmp_point cmp \<le> ver_point ver \<and> ver_point ver < next_exact pre0 cmp
     else ver_point ver = cmp_point cmp)"
proof (cases "cmp_pre cmp")
  case (Some a)
  with wf have "cmp_patch cmp \<noteq> None" by (auto simp: cmp_wf_def)
  with Some wf show ?thesis
    by (auto simp: matches_exact_prerelease_def matches_exact_point)
next
  case None
  have *: "matches_exact_prerelease checks pre0 cmp ver =
      Ok (cmp_point cmp \<le> ver_point ver \<and> ver_point ver < next_exact pre0 cmp)"
    unfolding matches_exact_prerelease_def None simp_thms if_False
    by (rule in_upper [OF wf upper_point(1) [OF wf fits] order_refl])
  show ?thesis
  proof (cases "cmp_patch cmp")
    case (Some p)
    with wf obtain m where m: "cmp_minor cmp = Some m" by (auto simp: cmp_wf_def)
    then have pts: "cmp_point cmp = (cmp_major cmp, m, p, pre_key None)"
      "next_exact pre0 cmp = (cmp_major cmp, m, Suc p, pre_key (Some pre0))"
      using Some None by (simp_all add: cmp_point_def next_exact_def nz_def)
    have "(cmp_major cmp, m, p, pre_key (None :: 'a option)) < (cmp_major cmp, m, Suc p, pre_key (Some pre0))"
      by (simp add: point_less)
    then have "cmp_point cmp \<le> ver_point ver \<and> ver_point ver < next_exact pre0 cmp \<longleftrightarrow> ver_point ver = cmp_point cmp"
      using pre_gap [OF pre0, of "cmp_major cmp" m p ver] by (auto simp: pts)
    with Some show ?thesis by (simp add: *)
  qed (simp add: *)
qed

lemma partial_greater:
  assumes "cmp_wf cmp" and "cmp_patch cmp = None" and pre0: "\<forall>p. pre0 \<le> p"
  shows "matches_greater cmp ver \<longleftrightarrow> next_exact pre0 cmp \<le> ver_point ver"
proof -
  have "pre_key (Some pre0) < pre_key (ver_pre ver) \<or> ver_pre ver = Some pre0"
    using pre0 by (cases "ver_pre ver") (auto simp: le_less)
  with assms show ?thesis
    by (auto simp: matches_greater_def next_exact_def ver_point_def point_le split: option.splits)
qed

lemma matches_impl_allows:
  assumes wf: "cmp_wf cmp" and fits: "cmp_below_max cmp" and pre0: "\<forall>p. pre0 \<le> p"
  shows "matches_prerelease_impl checks pre0 cmp ver lb = Ok (cmp_allows pre0 lb cmp (ver_point ver))"
proof -
  have full: "cmp_full cmp" if "cmp_patch cmp \<noteq> None"
    using that wf by (auto simp: cmp_full_def cmp_wf_def)
  have less: "cmp_point cmp < next_exact pre0 cmp"
    using wf by (auto simp: cmp_point_def next_exact_def nz_def cmp_wf_def point_less split: option.splits)
  show ?thesis
    using partial_greater [OF wf _ pre0, of ver] matches_greater_point [OF full, of ver] less
    by (cases "cmp_op cmp"; cases "cmp_patch cmp")
      (auto simp: matches_prerelease_impl_def exact_interval [OF wf fits pre0] cmp_allows_def tilde_interval [OF wf fits] caret_interval [OF wf fits]
        matches_less_point fill_point [OF wf] fill_pre_point [OF wf] not_less not_le)
qed


subsection \<open>Properties\<close>





text \<open>
  at \<open>u64::MAX\<close> the upper bound overflows: a caret requirement whose major number is the greatest
  one panics in a build with overflow checks, and without them rejects the newer versions that it
  should accept.
\<close>

theorem caret_overflow:
  assumes "ver_major v = 2 ^ 64 - 1" and "ver_major w = 2 ^ 64 - 1" and "ver_pre v = None" and "ver_pre w = None"
    and "ver_point v < ver_point w"
  shows "matches_prerelease checks pre0 (to_caret_req v) w = (if checks then Panic else Ok False)"
proof -
  let ?c = "\<lparr>cmp_op = Caret, cmp_major = 2 ^ 64 - 1, cmp_minor = Some (ver_minor v),
    cmp_patch = Some (ver_patch v), cmp_pre = None\<rparr>"
  have req: "to_caret_req v = [?c]" using assms by (simp add: to_caret_req_def to_req_def)
  have greater: "\<not> matches_exact ?c w" "matches_greater (fill_partial_req ?c) w"
    using assms by (auto simp: matches_exact_def matches_greater_def fill_partial_req_def ver_point_def point_less)
  show ?thesis
    unfolding req matches_prerelease_def
    using greater assms(2)
    by (auto simp: matches_prerelease_impl_def matches_caret_prerelease_def caret_upper_def bump_major_def uadd_def
        matches_less_def)
qed

theorem caret_overflow_witness:
  "matches_prerelease True (0::nat) (to_caret_req (Version (2 ^ 64 - 1) 0 0 None (None :: nat option)))
     (Version (2 ^ 64 - 1) 0 1 None None) = (Panic :: (unit, bool) outcome)"
  using caret_overflow [of "Version (2 ^ 64 - 1) 0 0 None (None :: nat option)" "Version (2 ^ 64 - 1) 0 1 None None" True "0::nat"]
  by (simp add: ver_point_def point_less)

text \<open>
  locking a requirement panics exactly when the version does not satisfy it; the locked
  requirement accepts this version and no other, build metadata included, and remembers the
  original requirement. Making it precise accepts any build metadata unless some is given.
\<close>

theorem opt_lock_to_only:
  "(opt_lock_to m v r = Panic \<longleftrightarrow> \<not> opt_matches m r v) \<and>
   (opt_matches m r v \<longrightarrow> (\<exists>r'. opt_lock_to m v r = Ok r' \<and> opt_is_locked r' \<and> opt_is_exact r' \<and>
      opt_req r' = opt_req r \<and> (\<forall>w. opt_matches m r' w \<longleftrightarrow> w = v))) \<and>
   (\<forall>w. opt_matches m (precise_to v r) w \<longleftrightarrow>
      ver_point w = ver_point v \<and> (ver_build v = None \<or> ver_build w = ver_build v))"
  by (auto simp: opt_lock_to_def precise_to_def ver_point_def)

theorem opt_lock_to_only_witness:
  "opt_lock_to (\<lambda>_ _. False) (Version 1 0 0 None (Some 5)) AnyReq =
     Ok (Locked (Version 1 0 0 (None :: nat option) (Some (5::nat))) [])"
  using opt_lock_to_only [of "\<lambda>_ _. False" "Version 1 0 0 (None :: nat option) (Some (5::nat))" AnyReq]
  by (simp add: opt_lock_to_def)

end
