(* ===== verification/Names.thy ===== *)
theory Names
  imports Prelude
begin

section \<open>Restricted names\<close>

text \<open>
  Validation and sanitising of package, registry, feature and profile names
  (\<open>cargo-util-schemas/src/restricted_names.rs\<close>) and the name tests of
  \<open>src/util/restricted_names.rs\<close>. The Unicode tables are arguments: \<open>xs\<close> and \<open>xc\<close>
  stand for \<open>unicode_ident::is_xid_start\<close> and \<open>is_xid_continue\<close>, \<open>alnum\<close> for
  \<open>char::is_alphanumeric\<close> and \<open>lower\<close> for \<open>str::to_lowercase\<close>. What the theorems use of
  them is named in their hypotheses: the letters of \<open>package\<close> start and continue an
  identifier, and a colon does neither. The texts of the error messages are constructors.
\<close>

datatype name_reason =
    NoLeadingDigit | XidStart | XidContinue | ProfileCharacters | NoSlashes | XidStartOrDigit
  | XidContinueOrSign

datatype profile_help = UseDevProfile | UseBuildOverride | ChooseDifferentName

datatype name_error =
    Empty string
  | InvalidCharacter char string string name_reason
  | ProfileNameReservedKeyword string profile_help
  | FeatureNameStartsWithDepColon string

definition is_digit10 :: "char \<Rightarrow> bool" where
  "is_digit10 ch = (CHR ''0'' \<le> ch \<and> ch \<le> CHR ''9'')"

fun split_dcolon :: "string \<Rightarrow> string list" where
  "split_dcolon [] = [[]]"
| "split_dcolon [c] = [[c]]"
| "split_dcolon (c # d # s) =
     (if c = CHR '':'' \<and> d = CHR '':'' then [] # split_dcolon s
      else case split_dcolon (d # s) of
        [] \<Rightarrow> [[c]]
      | p # ps \<Rightarrow> (c # p) # ps)"

definition validate_name ::
  "(char \<Rightarrow> bool) \<Rightarrow> (char \<Rightarrow> bool) \<Rightarrow> string \<Rightarrow> string \<Rightarrow> (name_error, unit) outcome" where
  "validate_name xs xc name what =
     (case name of
        [] \<Rightarrow> Err (Empty what)
      | ch # chars \<Rightarrow>
          if is_digit10 ch
          then Err (InvalidCharacter ch what name NoLeadingDigit)
          else if \<not> (xs ch \<or> ch = CHR ''_'')
          then Err (InvalidCharacter ch what name
                 XidStart)
          else ofold (\<lambda>ch _. if \<not> (xc ch \<or> ch = CHR ''-'')
                 then Err (InvalidCharacter ch what name
                   XidContinue)
                 else Ok ()) chars ())"

definition validate_package_name ::
  "(char \<Rightarrow> bool) \<Rightarrow> (char \<Rightarrow> bool) \<Rightarrow> string \<Rightarrow> (name_error, unit) outcome" where
  "validate_package_name xs xc name =
     ofold (\<lambda>part _. validate_name xs xc part ''package name'') (split_dcolon name) ()"

definition validate_registry_name ::
  "(char \<Rightarrow> bool) \<Rightarrow> (char \<Rightarrow> bool) \<Rightarrow> string \<Rightarrow> (name_error, unit) outcome" where
  "validate_registry_name xs xc name = validate_name xs xc name ''registry name''"

definition validate_path_base_name ::
  "(char \<Rightarrow> bool) \<Rightarrow> (char \<Rightarrow> bool) \<Rightarrow> string \<Rightarrow> (name_error, unit) outcome" where
  "validate_path_base_name xs xc name = validate_name xs xc name ''path base name''"

fun sanitize_start :: "(char \<Rightarrow> bool) \<Rightarrow> string \<Rightarrow> string \<times> string" where
  "sanitize_start xs [] = ([], [])"
| "sanitize_start xs (ch # chars) =
     (if (xs ch \<or> ch = CHR ''_'') \<and> \<not> is_digit10 ch then ([ch], chars) else sanitize_start xs chars)"

definition sanitize_name :: "(char \<Rightarrow> bool) \<Rightarrow> (char \<Rightarrow> bool) \<Rightarrow> string \<Rightarrow> char \<Rightarrow> string" where
  "sanitize_name xs xc name placeholder =
     (let (slug, chars) = sanitize_start xs name;
          slug = slug @ map (\<lambda>ch. if xc ch \<or> ch = CHR ''-'' then ch else placeholder) chars
      in if slug = [] then ''package'' else slug)"

definition sanitize_package_name :: "(char \<Rightarrow> bool) \<Rightarrow> (char \<Rightarrow> bool) \<Rightarrow> string \<Rightarrow> char \<Rightarrow> string" where
  "sanitize_package_name xs xc name placeholder =
     fold (\<lambda>part slug. (if slug \<noteq> [] then slug @ ''::'' else slug) @ sanitize_name xs xc part placeholder)
       (split_dcolon name) []"

definition reserved_profile_names :: "string list" where
  "reserved_profile_names =
     [''build'', ''check'', ''clean'', ''config'', ''fetch'', ''fix'', ''install'', ''metadata'',
      ''package'', ''publish'', ''report'', ''root'', ''run'', ''rust'', ''rustc'', ''rustdoc'',
      ''target'', ''tmp'', ''uninstall'']"

definition validate_profile_name ::
  "(char \<Rightarrow> bool) \<Rightarrow> (string \<Rightarrow> string) \<Rightarrow> string \<Rightarrow> (name_error, unit) outcome" where
  "validate_profile_name alnum lower name =
     (case find (\<lambda>ch. \<not> alnum ch \<and> ch \<noteq> CHR ''_'' \<and> ch \<noteq> CHR ''-'') name of
        Some ch \<Rightarrow> Err (InvalidCharacter ch ''profile name'' name
          ProfileCharacters)
      | None \<Rightarrow>
          let lower_name = lower name
          in if lower_name = ''debug'' then Err (ProfileNameReservedKeyword name
               UseDevProfile)
             else if lower_name = ''build-override'' then Err (ProfileNameReservedKeyword name
               UseBuildOverride)
             else if lower_name \<in> set reserved_profile_names \<or> starts_with ''cargo'' lower_name
             then Err (ProfileNameReservedKeyword name ChooseDifferentName)
             else Ok ())"

definition validate_feature_name ::
  "(char \<Rightarrow> bool) \<Rightarrow> (char \<Rightarrow> bool) \<Rightarrow> string \<Rightarrow> (name_error, unit) outcome" where
  "validate_feature_name xs xc name =
     (case name of
        [] \<Rightarrow> Err (Empty ''feature name'')
      | c # chars \<Rightarrow>
          if starts_with ''dep:'' name then Err (FeatureNameStartsWithDepColon name)
          else if CHR ''/'' \<in> set name
          then Err (InvalidCharacter (CHR ''/'') ''feature name'' name
                 NoSlashes)
          else if \<not> (xs c \<or> c = CHR ''_'' \<or> is_digit10 c)
          then Err (InvalidCharacter c ''feature name'' name
                 XidStartOrDigit)
          else ofold (\<lambda>ch _. if \<not> (xc ch \<or> ch = CHR ''-'' \<or> ch = CHR ''+'' \<or> ch = CHR ''.'')
                 then Err (InvalidCharacter ch ''feature name'' name
                   XidContinueOrSign)
                 else Ok ()) chars ())"

subsection \<open>Name tests (src/util/restricted_names.rs)\<close>

definition is_non_ascii_name :: "string \<Rightarrow> bool" where
  "is_non_ascii_name name = list_ex (\<lambda>ch. (of_char ch :: nat) > 127) name"

definition is_keyword :: "string \<Rightarrow> bool" where
  "is_keyword name \<longleftrightarrow> name \<in> set
     [''Self'', ''abstract'', ''as'', ''async'', ''await'', ''become'', ''box'', ''break'', ''const'',
      ''continue'', ''crate'', ''do'', ''dyn'', ''else'', ''enum'', ''extern'', ''false'', ''final'',
      ''fn'', ''for'', ''if'', ''impl'', ''in'', ''let'', ''loop'', ''macro'', ''match'', ''mod'',
      ''move'', ''mut'', ''override'', ''priv'', ''pub'', ''ref'', ''return'', ''self'', ''static'',
      ''struct'', ''super'', ''trait'', ''true'', ''try'', ''type'', ''typeof'', ''unsafe'',
      ''unsized'', ''use'', ''virtual'', ''where'', ''while'', ''yield'']"

definition ascii_lower :: "char \<Rightarrow> char" where
  "ascii_lower ch =
     (if CHR ''A'' \<le> ch \<and> ch \<le> CHR ''Z'' then char_of (of_char ch + 32 :: nat) else ch)"

definition is_windows_reserved :: "string \<Rightarrow> bool" where
  "is_windows_reserved name \<longleftrightarrow> map ascii_lower name \<in> set
     [''con'', ''prn'', ''aux'', ''nul'', ''com1'', ''com2'', ''com3'', ''com4'', ''com5'', ''com6'',
      ''com7'', ''com8'', ''com9'', ''lpt1'', ''lpt2'', ''lpt3'', ''lpt4'', ''lpt5'', ''lpt6'',
      ''lpt7'', ''lpt8'', ''lpt9'']"

definition is_conflicting_artifact_name :: "string \<Rightarrow> bool" where
  "is_conflicting_artifact_name name \<longleftrightarrow>
     name \<in> set [''deps'', ''examples'', ''build'', ''incremental'']"

definition is_windows_reserved_path :: "string list \<Rightarrow> bool" where
  "is_windows_reserved_path components =
     list_ex (\<lambda>component. is_windows_reserved (takeWhile (\<lambda>c. c \<noteq> CHR ''.'') component)) components"

definition is_glob_pattern :: "string \<Rightarrow> bool" where
  "is_glob_pattern name =
     list_ex (\<lambda>ch. ch \<in> set [CHR ''*'', CHR ''?'', CHR ''['', CHR '']'']) name"

subsection \<open>What a valid name is\<close>

definition name_ok :: "(char \<Rightarrow> bool) \<Rightarrow> (char \<Rightarrow> bool) \<Rightarrow> string \<Rightarrow> bool" where
  "name_ok xs xc name \<longleftrightarrow> name \<noteq> [] \<and>
     (xs (hd name) \<or> hd name = CHR ''_'') \<and> \<not> is_digit10 (hd name) \<and>
     (\<forall>c \<in> set (tl name). xc c \<or> c = CHR ''-'')"

lemma ofold_check_Ok:
  "ofold (\<lambda>x _. if P x then Err (e x) else Ok ()) xs () = Ok () \<longleftrightarrow> (\<forall>x \<in> set xs. \<not> P x)"
  by (induction xs) auto

lemma ofold_unit_Ok: "ofold (\<lambda>x _. f x) xs () = Ok () \<longleftrightarrow> (\<forall>x \<in> set xs. f x = Ok ())"
  by (induction xs) auto

lemma validate_name_Ok: "validate_name xs xc name what = Ok () \<longleftrightarrow> name_ok xs xc name"
  by (cases name) (auto simp: validate_name_def name_ok_def ofold_check_Ok)

lemma validate_package_name_Ok:
  "validate_package_name xs xc name = Ok () \<longleftrightarrow> (\<forall>part \<in> set (split_dcolon name). name_ok xs xc part)"
  by (simp add: validate_package_name_def ofold_unit_Ok validate_name_Ok)

subsection \<open>Splitting and joining\<close>

fun join_dcolon :: "string list \<Rightarrow> string" where
  "join_dcolon [] = []"
| "join_dcolon [p] = p"
| "join_dcolon (p # ps) = p @ ''::'' @ join_dcolon ps"

lemma split_dcolon_not_Nil [simp]: "split_dcolon s \<noteq> []"
  by (induction s rule: split_dcolon.induct) (auto split: list.splits)

lemma join_split: "join_dcolon (split_dcolon s) = s"
proof (induction s rule: split_dcolon.induct)
  case (3 c d s)
  show ?case
  proof (cases "c = CHR '':'' \<and> d = CHR '':''")
    case True
    with 3(1) show ?thesis by (cases "split_dcolon s") auto
  next
    case False
    then obtain p ps where "split_dcolon (d # s) = p # ps" by (cases "split_dcolon (d # s)") auto
    with 3(2) [OF False] False show ?thesis by (cases ps) auto
  qed
qed auto

lemma split_no_colon: "CHR '':'' \<notin> set p \<Longrightarrow> split_dcolon p = [p]"
  by (induction p rule: split_dcolon.induct) auto

lemma split_append:
  assumes "CHR '':'' \<notin> set p"
  shows "split_dcolon (p @ CHR '':'' # CHR '':'' # s) = p # split_dcolon s"
  using assms
proof (induction p)
  case (Cons c p)
  then show ?case by (cases p) auto
qed simp

lemma split_join: "ps \<noteq> [] \<Longrightarrow> \<forall>p \<in> set ps. CHR '':'' \<notin> set p \<Longrightarrow> split_dcolon (join_dcolon ps) = ps"
  by (induction ps rule: join_dcolon.induct) (auto simp: split_no_colon split_append)

lemma sanitize_package_join:
  "sanitize_package_name xs xc name ph = join_dcolon (map (\<lambda>p. sanitize_name xs xc p ph) (split_dcolon name))"
proof -
  have ne: "sanitize_name xs xc p ph \<noteq> []" for p
    by (simp add: sanitize_name_def Let_def split: prod.split)
  have step: "fold (\<lambda>part slug. (if slug \<noteq> [] then slug @ ''::'' else slug) @ sanitize_name xs xc part ph) ps slug
      = slug @ concat (map (\<lambda>p. ''::'' @ sanitize_name xs xc p ph) ps)" if "slug \<noteq> []" for ps slug
    using that by (induction ps arbitrary: slug) auto
  have join: "join_dcolon (p # ps) = p @ concat (map (\<lambda>p. ''::'' @ p) ps)" for p ps
    by (induction ps arbitrary: p) auto
  obtain p ps where "split_dcolon name = p # ps" by (cases "split_dcolon name") auto
  then show ?thesis
    unfolding sanitize_package_name_def
    by (simp add: step [OF ne] join comp_def del: join_dcolon.simps)
qed

definition xid_tables :: "(char \<Rightarrow> bool) \<Rightarrow> (char \<Rightarrow> bool) \<Rightarrow> bool" where
  "xid_tables xs xc \<longleftrightarrow> \<not> xs CHR '':'' \<and> \<not> xc CHR '':'' \<and>
     (\<forall>c \<in> set ''package''. xs c \<and> xc c)"

lemma sanitize_start_cases:
  "sanitize_start xs s = ([], []) \<or>
   (\<exists>c r. sanitize_start xs s = ([c], r) \<and> (xs c \<or> c = CHR ''_'') \<and> \<not> is_digit10 c)"
  by (induction s) auto

lemma sanitize_name_ok:
  assumes "xid_tables xs xc" and ph: "xc ph \<or> ph = CHR ''-''"
  shows "name_ok xs xc (sanitize_name xs xc part ph)"
proof -
  have d: "\<not> is_digit10 CHR ''p''" by (simp add: is_digit10_def less_eq_char_def)
  consider (none) "sanitize_start xs part = ([], [])"
    | (some) c r where "sanitize_start xs part = ([c], r)" "xs c \<or> c = CHR ''_''" "\<not> is_digit10 c"
    using sanitize_start_cases [of xs part] by blast
  then show ?thesis
  proof cases
    case none
    with assms(1) d show ?thesis by (simp add: sanitize_name_def name_ok_def xid_tables_def)
  next
    case some
    with ph show ?thesis by (auto simp: sanitize_name_def name_ok_def)
  qed
qed

lemma name_ok_no_colon:
  assumes "name_ok xs xc p" and "xid_tables xs xc"
  shows "CHR '':'' \<notin> set p"
  using assms by (cases p) (auto simp: name_ok_def xid_tables_def)

lemma sanitize_name_id: "name_ok xs xc p \<Longrightarrow> sanitize_name xs xc p ph = p"
  by (cases p) (auto simp: name_ok_def sanitize_name_def intro: map_idI)

subsection \<open>Properties\<close>

text \<open>
  a sanitised package name is always accepted by the validation, for every input and every
  legal placeholder, and names that were already valid are left alone, so sanitising twice
  changes nothing.
\<close>

theorem sanitize_package_name_valid:
  assumes "xid_tables xs xc" and "xc ph \<or> ph = CHR ''-''"
  shows "validate_package_name xs xc (sanitize_package_name xs xc name ph) = Ok () \<and>
    (validate_package_name xs xc name = Ok () \<longrightarrow> sanitize_package_name xs xc name ph = name) \<and>
    sanitize_package_name xs xc (sanitize_package_name xs xc name ph) ph =
      sanitize_package_name xs xc name ph"
proof -
  let ?ps = "map (\<lambda>p. sanitize_name xs xc p ph) (split_dcolon name)"
  have ok: "\<forall>p \<in> set ?ps. name_ok xs xc p"
    using sanitize_name_ok [OF assms] by auto
  then have split: "split_dcolon (sanitize_package_name xs xc name ph) = ?ps"
    unfolding sanitize_package_join
    by (intro split_join) (auto dest: name_ok_no_colon [OF _ assms(1)])
  have id: "sanitize_package_name xs xc n ph = n" if "\<forall>p \<in> set (split_dcolon n). name_ok xs xc p" for n
  proof -
    have "map (\<lambda>p. sanitize_name xs xc p ph) (split_dcolon n) = split_dcolon n"
      using that by (intro map_idI) (auto simp: sanitize_name_id)
    then show ?thesis by (simp add: sanitize_package_join join_split)
  qed
  show ?thesis
    using ok id [of name] id [of "sanitize_package_name xs xc name ph"] split
    by (simp add: validate_package_name_Ok)
qed

theorem sanitize_package_name_valid_witness:
  "validate_package_name (\<lambda>c. c \<in> set ''abcegkp'') (\<lambda>c. c \<in> set ''abcegkp1'')
     (sanitize_package_name (\<lambda>c. c \<in> set ''abcegkp'') (\<lambda>c. c \<in> set ''abcegkp1'') ''1ab c::'' CHR ''-'') = Ok ()"
  by (rule conjunct1 [OF sanitize_package_name_valid]) (simp_all add: xid_tables_def)

end
