(* ===== verification/Package.thy ===== *)
theory Package
  imports Versions Cfg Names
begin

section \<open>Packages, dependencies and summaries (src/workspace)\<close>

text \<open>
  \<open>PackageId\<close> (\<open>package_id.rs\<close>), \<open>Dependency\<close> and artifact kinds
  (\<open>dependency.rs\<close>), feature values and \<open>Summary\<close> (\<open>summary.rs\<close>), and the
  activation keys of \<open>resolver/types.rs\<close>.

  A source id is a value of the type variable \<open>'s\<close>; its equality stands for the equality of
  \<open>SourceId\<close>, its order for the order the source gives it. The pointer interning behind
  \<open>PackageId\<close> and \<open>InternedString\<close> is not modelled: both are their contents. \<open>m\<close> is
  \<open>VersionReq::matches\<close> of the \<open>semver\<close> crate.
\<close>

definition map_err :: "('e \<Rightarrow> 'f) \<Rightarrow> ('e, 'a) outcome \<Rightarrow> ('f, 'a) outcome" where
  "map_err f r = (case r of Ok a \<Rightarrow> Ok a | Err e \<Rightarrow> Err (f e) | Panic \<Rightarrow> Panic | OutOfFuel \<Rightarrow> OutOfFuel)"

lemma map_err_Ok [simp]: "map_err f r = Ok a \<longleftrightarrow> r = Ok a"
  by (cases r) (auto simp: map_err_def)

subsection \<open>Package ids\<close>

datatype ('p, 'b, 's) package_id =
  PackageId (pkg_name: string) (pkg_version: "('p, 'b) version") (pkg_source: 's)

definition pkg_key :: "('p, 'b, 's) package_id \<Rightarrow> string \<times> ('p, 'b) version \<times> 's" where
  "pkg_key p = (pkg_name p, pkg_version p, pkg_source p)"

instantiation package_id :: (linorder, linorder, linorder) linorder
begin

definition less_eq_package_id :: "('a, 'b, 'c) package_id \<Rightarrow> ('a, 'b, 'c) package_id \<Rightarrow> bool" where
  "p \<le> q \<longleftrightarrow> pkg_key p \<le> pkg_key q"

definition less_package_id :: "('a, 'b, 'c) package_id \<Rightarrow> ('a, 'b, 'c) package_id \<Rightarrow> bool" where
  "p < q \<longleftrightarrow> pkg_key p < pkg_key q"

instance
proof
  fix x y z :: "('a, 'b, 'c) package_id"
  show "x < y \<longleftrightarrow> x \<le> y \<and> \<not> y \<le> x"
    unfolding less_package_id_def less_eq_package_id_def by (rule less_le_not_le)
  show "x \<le> x" by (simp add: less_eq_package_id_def)
  show "x \<le> y \<Longrightarrow> y \<le> z \<Longrightarrow> x \<le> z" unfolding less_eq_package_id_def by (rule order_trans)
  show "x \<le> y \<or> y \<le> x" unfolding less_eq_package_id_def by (rule linear)
  assume "x \<le> y" and "y \<le> x"
  then have "pkg_key x = pkg_key y"
    unfolding less_eq_package_id_def by (rule order_antisym)
  then show "x = y"
    by (cases x; cases y) (simp add: pkg_key_def)
qed

end

definition strip_parens :: "string \<Rightarrow> string option" where
  "strip_parens value = Option.bind (strip_prefix ''('' value) (strip_suffix '')'')"

definition pkg_serialize ::
  "(('p, 'b) version \<Rightarrow> string) \<Rightarrow> ('s \<Rightarrow> string) \<Rightarrow> ('p, 'b, 's) package_id \<Rightarrow> string" where
  "pkg_serialize show_version as_url p =
     pkg_name p @ '' '' @ show_version (pkg_version p) @ '' ('' @ as_url (pkg_source p) @ '')''"

datatype pkg_error = InvalidSerializedPackageId | InvalidVersion | InvalidUrl

definition pkg_deserialize ::
  "(string \<Rightarrow> ('p, 'b) version option) \<Rightarrow> (string \<Rightarrow> 's option) \<Rightarrow> string \<Rightarrow>
   (pkg_error, ('p, 'b, 's) package_id) outcome" where
  "pkg_deserialize parse_version from_url s =
     (case split_once (CHR '' '') s of
        None \<Rightarrow> Err InvalidSerializedPackageId
      | Some (name, rest) \<Rightarrow>
          (case split_once (CHR '' '') rest of
             None \<Rightarrow> Err InvalidSerializedPackageId
           | Some (field, rest) \<Rightarrow>
               (case parse_version field of
                  None \<Rightarrow> Err InvalidVersion
                | Some version \<Rightarrow>
                    (case strip_parens rest of
                       None \<Rightarrow> Err InvalidSerializedPackageId
                     | Some url \<Rightarrow>
                         (case from_url url of
                            None \<Rightarrow> Err InvalidUrl
                          | Some source_id \<Rightarrow> Ok (PackageId name version source_id))))))"

definition pkg_try_new ::
  "(string \<Rightarrow> ('p, 'b) version option) \<Rightarrow> string \<Rightarrow> string \<Rightarrow> 's \<Rightarrow>
   (pkg_error, ('p, 'b, 's) package_id) outcome" where
  "pkg_try_new parse_version name version sid =
     (case parse_version version of None \<Rightarrow> Err InvalidVersion | Some v \<Rightarrow> Ok (PackageId name v sid))"

definition with_source_id :: "'s \<Rightarrow> ('p, 'b, 's) package_id \<Rightarrow> ('p, 'b, 's) package_id" where
  "with_source_id source p = PackageId (pkg_name p) (pkg_version p) source"

definition pkg_map_source :: "'s \<Rightarrow> 's \<Rightarrow> ('p, 'b, 's) package_id \<Rightarrow> ('p, 'b, 's) package_id" where
  "pkg_map_source to_replace replace_with p =
     (if pkg_source p = to_replace then with_source_id replace_with p else p)"

definition tarball_name :: "(('p, 'b) version \<Rightarrow> string) \<Rightarrow> ('p, 'b, 's) package_id \<Rightarrow> string" where
  "tarball_name show_version p = pkg_name p @ ''-'' @ show_version (pkg_version p) @ ''.crate''"

datatype 's activations_key = ActivationsKey string semver_compatibility 's

definition as_activations_key :: "('p, 'b, 's) package_id \<Rightarrow> 's activations_key" where
  "as_activations_key p = ActivationsKey (pkg_name p) (semver_compat (pkg_version p)) (pkg_source p)"

subsection \<open>Artifact kinds\<close>

datatype artifact_kind = AllBinaries | SelectedBinary string | Cdylib | Staticlib

datatype artifact_error = NotAnArtifact string | BothBinForms | DuplicateArtifacts nat

fun crate_type :: "artifact_kind \<Rightarrow> string" where
  "crate_type AllBinaries = ''bin''"
| "crate_type (SelectedBinary _) = ''bin''"
| "crate_type Cdylib = ''cdylib''"
| "crate_type Staticlib = ''staticlib''"

fun artifact_as_str :: "artifact_kind \<Rightarrow> string" where
  "artifact_as_str (SelectedBinary name) = ''bin:'' @ name"
| "artifact_as_str k = crate_type k"

definition artifact_parse :: "string \<Rightarrow> (artifact_error, artifact_kind) outcome" where
  "artifact_parse kind =
     (if kind = ''bin'' then Ok AllBinaries
      else if kind = ''cdylib'' then Ok Cdylib
      else if kind = ''staticlib'' then Ok Staticlib
      else case strip_prefix ''bin:'' kind of
        Some bin_name \<Rightarrow> Ok (SelectedBinary bin_name)
      | None \<Rightarrow> Err (NotAnArtifact kind))"

fun is_selected_binary :: "artifact_kind \<Rightarrow> bool" where
  "is_selected_binary (SelectedBinary _) = True"
| "is_selected_binary _ = False"

definition artifact_validate :: "artifact_kind list \<Rightarrow> (artifact_error, artifact_kind list) outcome" where
  "artifact_validate kinds =
     (if list_ex (\<lambda>k. k = AllBinaries) kinds \<and> list_ex is_selected_binary kinds then Err BothBinForms
      else let num_dupes = length kinds - length (remdups kinds)
           in if num_dupes \<noteq> 0 then Err (DuplicateArtifacts num_dupes) else Ok kinds)"

datatype compile_target = Tuple string | Json string string

datatype target_error = TargetEmpty | JsonNeedsFlag | JsonNotAFile string

definition is_whitespace :: "char \<Rightarrow> bool" where
  "is_whitespace c = (let n = (of_char c :: nat) in (9 \<le> n \<and> n \<le> 13) \<or> n = 32 \<or> n = 133 \<or> n = 160)"

definition str_trim :: "string \<Rightarrow> string" where
  "str_trim s = rev (dropWhile is_whitespace (rev (dropWhile is_whitespace s)))"

text \<open>\<open>canonicalize\<close> is the file system: the stem and the canonical path of an existing file.\<close>

definition compile_target_new ::
  "(string \<Rightarrow> (string \<times> string) option) \<Rightarrow> string \<Rightarrow> bool \<Rightarrow> (target_error, compile_target) outcome" where
  "compile_target_new canonicalize name unstable_json =
     (let name = str_trim name
      in if name = [] then Err TargetEmpty
         else if \<not> ends_with ''.json'' name then Ok (Tuple name)
         else if \<not> unstable_json then Err JsonNeedsFlag
         else case canonicalize name of
                None \<Rightarrow> Err (JsonNotAFile name)
              | Some (short, path) \<Rightarrow> Ok (Json short path))"

fun rustc_target :: "compile_target \<Rightarrow> string" where
  "rustc_target (Tuple name) = name"
| "rustc_target (Json short path) = path"

datatype artifact_target = BuildDependencyAssumeTarget | Force compile_target

record artifact =
  art_kinds :: "artifact_kind list"
  art_is_lib :: bool
  art_target :: "artifact_target option"

definition artifact_target_parse ::
  "(string \<Rightarrow> (string \<times> string) option) \<Rightarrow> string \<Rightarrow> bool \<Rightarrow> (target_error, artifact_target) outcome" where
  "artifact_target_parse canonicalize target unstable_json =
     (if target = ''target'' then Ok BuildDependencyAssumeTarget
      else obind (compile_target_new canonicalize target unstable_json) (\<lambda>t. Ok (Force t)))"

fun artifact_target_as_str :: "artifact_target \<Rightarrow> string" where
  "artifact_target_as_str BuildDependencyAssumeTarget = ''target''"
| "artifact_target_as_str (Force t) = rustc_target t"

fun to_compile_target :: "artifact_target \<Rightarrow> compile_target option" where
  "to_compile_target BuildDependencyAssumeTarget = None"
| "to_compile_target (Force t) = Some t"

definition artifact_new ::
  "(string \<Rightarrow> (string \<times> string) option) \<Rightarrow> string list \<Rightarrow> bool \<Rightarrow> string option \<Rightarrow> bool \<Rightarrow>
   (artifact_error + target_error, artifact) outcome" where
  "artifact_new canonicalize artifacts is_lib target unstable_json =
     obind (ofold (\<lambda>s ks. obind (map_err Inl (artifact_parse s)) (\<lambda>k. Ok (ks @ [k]))) artifacts []) (\<lambda>ks.
     obind (map_err Inl (artifact_validate ks)) (\<lambda>kinds.
     obind (case target of
              None \<Rightarrow> Ok None
            | Some name \<Rightarrow> obind (map_err Inr (artifact_target_parse canonicalize name unstable_json)) (\<lambda>t. Ok (Some t)))
       (\<lambda>target. Ok \<lparr>art_kinds = kinds, art_is_lib = is_lib, art_target = target\<rparr>)))"

subsection \<open>Dependencies\<close>

datatype dep_kind = Normal | Development | Build

fun kind_table :: "dep_kind \<Rightarrow> string" where
  "kind_table Normal = ''dependencies''"
| "kind_table Development = ''dev-dependencies''"
| "kind_table Build = ''build-dependencies''"

record ('p, 'b, 's) dependency =
  dep_name :: string
  dep_source_id :: 's
  dep_registry_id :: "'s option"
  dep_req :: "('p, 'b) opt_version_req"
  dep_specified_req :: bool
  dep_kind :: dep_kind
  dep_only_match_name :: bool
  dep_explicit_name_in_toml :: "string option"
  dep_optional :: bool
  dep_public :: bool
  dep_default_features :: bool
  dep_features :: "string list"
  dep_artifact :: "artifact option"
  dep_platform :: "platform option"

definition dep_new_override :: "string \<Rightarrow> 's \<Rightarrow> (unit, ('p, 'b, 's) dependency) outcome" where
  "dep_new_override name source_id =
     (if name = [] then Panic
      else Ok \<lparr>dep_name = name, dep_source_id = source_id, dep_registry_id = None, dep_req = AnyReq,
        dep_specified_req = False, dep_kind = Normal, dep_only_match_name = True,
        dep_explicit_name_in_toml = None, dep_optional = False, dep_public = False,
        dep_default_features = True, dep_features = [], dep_artifact = None, dep_platform = None\<rparr>)"

definition dep_parse ::
  "(string \<Rightarrow> 'p version_req option) \<Rightarrow> string \<Rightarrow> string option \<Rightarrow> 's \<Rightarrow>
   (unit, ('p, 'b, 's) dependency) outcome" where
  "dep_parse parse_req name version source_id =
     obind (case version of
        Some v \<Rightarrow> (case parse_req v of Some req \<Rightarrow> Ok (True, Req req) | None \<Rightarrow> Err ())
      | None \<Rightarrow> Ok (False, AnyReq)) (\<lambda>(specified_req, version_req).
     obind (dep_new_override name source_id) (\<lambda>ret.
       Ok (ret\<lparr>dep_only_match_name := False, dep_req := version_req, dep_specified_req := specified_req\<rparr>)))"

definition name_in_toml :: "('p, 'b, 's) dependency \<Rightarrow> string" where
  "name_in_toml d = unwrap_or (dep_name d) (dep_explicit_name_in_toml d)"

definition toml_path :: "('p, 'b, 's) dependency \<Rightarrow> string list" where
  "toml_path d =
     (case dep_platform d of None \<Rightarrow> [] | Some p \<Rightarrow> [''target'', show_platform p]) @
     [kind_table (dep_kind d), name_in_toml d]"

definition set_public :: "bool \<Rightarrow> ('p, 'b, 's) dependency \<Rightarrow> (unit, ('p, 'b, 's) dependency) outcome" where
  "set_public public d =
     (if public \<and> dep_kind d \<noteq> Normal then Panic else Ok (d\<lparr>dep_public := public\<rparr>))"

definition set_kind :: "dep_kind \<Rightarrow> ('p, 'b, 's) dependency \<Rightarrow> (unit, ('p, 'b, 's) dependency) outcome" where
  "set_kind kind d = (if dep_public d \<and> kind \<noteq> Normal then Panic else Ok (d\<lparr>dep_kind := kind\<rparr>))"

definition dep_lock_to ::
  "('p version_req \<Rightarrow> ('p, 'b) version \<Rightarrow> bool) \<Rightarrow> ('s \<Rightarrow> 's \<Rightarrow> 's) \<Rightarrow> ('p, 'b, 's) package_id \<Rightarrow>
   ('p, 'b, 's) dependency \<Rightarrow> (unit, ('p, 'b, 's) dependency) outcome" where
  "dep_lock_to m with_precise_from i d =
     (if dep_source_id d \<noteq> pkg_source i then Panic
      else obind (opt_lock_to m (pkg_version i) (dep_req d)) (\<lambda>r.
        Ok (d\<lparr>dep_req := r, dep_source_id := with_precise_from (dep_source_id d) (pkg_source i)\<rparr>)))"

definition dep_lock_version ::
  "('p version_req \<Rightarrow> ('p, 'b) version \<Rightarrow> bool) \<Rightarrow> ('p, 'b) version \<Rightarrow>
   ('p, 'b, 's) dependency \<Rightarrow> (unit, ('p, 'b, 's) dependency) outcome" where
  "dep_lock_version m version d = obind (opt_lock_to m version (dep_req d)) (\<lambda>r. Ok (d\<lparr>dep_req := r\<rparr>))"

definition dep_is_locked :: "('p, 'b, 's) dependency \<Rightarrow> bool" where
  "dep_is_locked d = opt_is_locked (dep_req d)"

definition is_transitive :: "('p, 'b, 's) dependency \<Rightarrow> bool" where
  "is_transitive d = (case dep_kind d of Normal \<Rightarrow> True | Build \<Rightarrow> True | Development \<Rightarrow> False)"

definition is_build :: "('p, 'b, 's) dependency \<Rightarrow> bool" where
  "is_build d = (dep_kind d = Build)"

definition matches_id ::
  "('p version_req \<Rightarrow> ('p, 'b) version \<Rightarrow> bool) \<Rightarrow> ('p, 'b, 's) dependency \<Rightarrow>
   ('p, 'b, 's) package_id \<Rightarrow> bool" where
  "matches_id m d i =
     (dep_name d = pkg_name i \<and>
      (dep_only_match_name d \<or> (opt_matches m (dep_req d) (pkg_version i) \<and> dep_source_id d = pkg_source i)))"

definition matches_ignoring_source ::
  "('p version_req \<Rightarrow> ('p, 'b) version \<Rightarrow> bool) \<Rightarrow> ('p, 'b, 's) dependency \<Rightarrow>
   ('p, 'b, 's) package_id \<Rightarrow> bool" where
  "matches_ignoring_source m d i =
     (dep_name d = pkg_name i \<and> opt_matches m (dep_req d) (pkg_version i))"

definition dep_matches_prerelease ::
  "('p version_req \<Rightarrow> ('p, 'b) version \<Rightarrow> bool) \<Rightarrow> bool \<Rightarrow> 'p::linorder \<Rightarrow> ('p, 'b, 's) dependency \<Rightarrow>
   ('p, 'b, 's) package_id \<Rightarrow> ('e, bool) outcome" where
  "dep_matches_prerelease m checks pre0 d i =
     (if dep_name d \<noteq> pkg_name i then Ok False
      else if dep_only_match_name d then Ok True
      else obind (opt_matches_prerelease m checks pre0 (dep_req d) (pkg_version i))
             (\<lambda>b. Ok (b \<and> dep_source_id d = pkg_source i)))"

definition dep_map_source :: "'s \<Rightarrow> 's \<Rightarrow> ('p, 'b, 's) dependency \<Rightarrow> ('p, 'b, 's) dependency" where
  "dep_map_source to_replace replace_with d =
     (if dep_source_id d = to_replace then d\<lparr>dep_source_id := replace_with\<rparr> else d)"

definition maybe_lib :: "('p, 'b, 's) dependency \<Rightarrow> bool" where
  "maybe_lib d = (case dep_artifact d of None \<Rightarrow> True | Some a \<Rightarrow> art_is_lib a)"

subsection \<open>Lemmas\<close>

lemma artifact_round_trip: "artifact_parse (artifact_as_str k) = Ok k"
proof (cases k)
  case (SelectedBinary name)
  have "strip_prefix ''bin:'' (''bin:'' @ name) = Some name" by (rule strip_prefix_append)
  with SelectedBinary show ?thesis by (simp add: artifact_parse_def)
qed (simp_all add: artifact_parse_def)

lemma strip_parens_Some_iff: "strip_parens v = Some u \<longleftrightarrow> v = ''('' @ u @ '')''"
  by (auto simp: strip_parens_def bind_eq_Some_conv strip_prefix_Some_iff strip_suffix_Some_iff
      simp del: append.simps)

lemma artifact_parse_Ok: "artifact_parse s = Ok k \<Longrightarrow> s = artifact_as_str k"
  by (auto simp: artifact_parse_def strip_prefix_Some_iff split: if_splits option.splits)

lemma distinct_if_no_dupes: "length ks - length (remdups ks) = 0 \<Longrightarrow> distinct ks"
  using length_remdups_leq [of ks] by (metis diff_is_0_eq distinct_remdups le_antisym length_remdups_eq)

lemma parse_kinds_Ok:
  "ofold (\<lambda>s ks. obind (map_err g (artifact_parse s)) (\<lambda>k. Ok (ks @ [k]))) ss acc = Ok ks \<Longrightarrow>
     map artifact_as_str ks = map artifact_as_str acc @ ss"
proof (induction ss arbitrary: acc)
  case (Cons s ss)
  then obtain k where "artifact_parse s = Ok k"
    "ofold (\<lambda>s ks. obind (map_err g (artifact_parse s)) (\<lambda>k. Ok (ks @ [k]))) ss (acc @ [k]) = Ok ks" by auto
  with Cons.IH [of "acc @ [k]"] show ?case by (auto dest: artifact_parse_Ok)
qed simp

subsection \<open>Properties\<close>

text \<open>
  a serialised package id reads back as the same id, for names without spaces and versions
  and source urls that print and parse back; and whatever text is accepted is the serialisation
  of a name, a version text and a url text that parse to the parts of the id.
\<close>

theorem package_id_round_trip:
  assumes "CHR '' '' \<notin> set (pkg_name p)" and "CHR '' '' \<notin> set (show_version (pkg_version p))"
    and "parse_version (show_version (pkg_version p)) = Some (pkg_version p)"
    and "from_url (as_url (pkg_source p)) = Some (pkg_source p)"
  shows "pkg_deserialize parse_version from_url (pkg_serialize show_version as_url p) = Ok p \<and>
    (\<forall>s q. pkg_deserialize parse_version from_url s = Ok q \<longrightarrow>
      (\<exists>v u. s = pkg_name q @ '' '' @ v @ '' ('' @ u @ '')'' \<and> CHR '' '' \<notin> set (pkg_name q) \<and>
         CHR '' '' \<notin> set v \<and> parse_version v = Some (pkg_version q) \<and> from_url u = Some (pkg_source q)))"
proof
  let ?v = "show_version (pkg_version p)" and ?u = "as_url (pkg_source p)"
  have "split_once (CHR '' '') (pkg_serialize show_version as_url p) = Some (pkg_name p, ?v @ '' ('' @ ?u @ '')'')"
    unfolding split_once_Some_iff using assms(1) by (simp add: pkg_serialize_def)
  moreover have "split_once (CHR '' '') (?v @ '' ('' @ ?u @ '')'') = Some (?v, ''('' @ ?u @ '')'')"
    unfolding split_once_Some_iff using assms(2) by simp
  ultimately show "pkg_deserialize parse_version from_url (pkg_serialize show_version as_url p) = Ok p"
    using assms(3,4) strip_parens_Some_iff [of "''('' @ ?u @ '')''" ?u]
    by (simp add: pkg_deserialize_def del: append.simps)
  show "\<forall>s q. pkg_deserialize parse_version from_url s = Ok q \<longrightarrow>
      (\<exists>v u. s = pkg_name q @ '' '' @ v @ '' ('' @ u @ '')'' \<and> CHR '' '' \<notin> set (pkg_name q) \<and>
         CHR '' '' \<notin> set v \<and> parse_version v = Some (pkg_version q) \<and> from_url u = Some (pkg_source q))"
    by (auto simp: pkg_deserialize_def split_once_Some_iff strip_parens_Some_iff split: option.splits)
qed

theorem package_id_round_trip_witness:
  "pkg_deserialize (\<lambda>v. if v = ''1.0.0'' then Some (Version 1 0 0 (None::nat option) (None::nat option)) else None)
     (\<lambda>u. if u = ''path+file:///a b'' then Some (7::nat) else None)
     (''foo 1.0.0 (path+file:///a b)'') = Ok (PackageId ''foo'' (Version 1 0 0 None None) 7)"
proof -
  have "pkg_serialize (\<lambda>_. ''1.0.0'') (\<lambda>_. ''path+file:///a b'') (PackageId ''foo'' (Version 1 0 0 (None::nat option) (None::nat option)) (7::nat)) =
      ''foo 1.0.0 (path+file:///a b)''" by (simp add: pkg_serialize_def)
  moreover note package_id_round_trip [where p = "PackageId ''foo'' (Version 1 0 0 (None::nat option) (None::nat option)) (7::nat)"
      and show_version = "\<lambda>_. ''1.0.0''" and as_url = "\<lambda>_. ''path+file:///a b''"
      and parse_version = "\<lambda>v. if v = ''1.0.0'' then Some (Version 1 0 0 None None) else None"
      and from_url = "\<lambda>u. if u = ''path+file:///a b'' then Some 7 else None"]
  ultimately show ?thesis by simp
qed

text \<open>
  a parsed artifact lists exactly the specifiers it was given, without duplicates and never
  both \<open>bin\<close> and \<open>bin:<name>\<close>, and the specifiers it prints are accepted again.
\<close>

theorem artifact_specifiers:
  assumes "artifact_new canonicalize artifacts is_lib target unstable_json = Ok a"
  shows "map artifact_as_str (art_kinds a) = artifacts \<and> distinct artifacts \<and>
    (''bin'' \<in> set artifacts \<longrightarrow> \<not> (\<exists>s \<in> set artifacts. starts_with ''bin:'' s)) \<and>
    artifact_new canonicalize (map artifact_as_str (art_kinds a)) is_lib target unstable_json = Ok a"
proof -
  from assms obtain ks where ks: "ofold (\<lambda>s ks. obind (map_err (Inl :: _ \<Rightarrow> _ + target_error) (artifact_parse s)) (\<lambda>k. Ok (ks @ [k]))) artifacts [] = Ok ks"
    "artifact_validate ks = Ok (art_kinds a)"
    by (auto simp: artifact_new_def)
  then have eq: "art_kinds a = ks" and dist: "length ks - length (remdups ks) = 0"
    and bin: "\<not> (AllBinaries \<in> set ks \<and> (\<exists>k \<in> set ks. is_selected_binary k))"
    by (auto simp: artifact_validate_def Let_def list_ex_iff split: if_splits)
  have shown: "map artifact_as_str ks = artifacts"
    using parse_kinds_Ok [OF ks(1)] by simp
  have inj: "inj artifact_as_str"
    by (rule injI) (metis artifact_round_trip outcome.inject(1))
  have "distinct artifacts"
    using distinct_if_no_dupes [OF dist] unfolding shown [symmetric] by (simp add: distinct_map inj_on_subset [OF inj])
  moreover have "\<not> starts_with ''bin:'' s" if "''bin'' \<in> set artifacts" "s \<in> set artifacts" for s
  proof
    assume s: "starts_with ''bin:'' s"
    from that(1) obtain k where k: "k \<in> set ks" "artifact_as_str k = artifact_as_str AllBinaries"
      unfolding shown [symmetric] by auto
    then have "AllBinaries \<in> set ks" using injD [OF inj] by metis
    moreover from that(2) obtain k' where "k' \<in> set ks" "s = artifact_as_str k'"
      unfolding shown [symmetric] by auto
    moreover from this(2) s have "is_selected_binary k'"
      by (cases k') (auto simp: starts_with_def)
    ultimately show False using bin by blast
  qed
  ultimately show ?thesis using assms shown by (simp add: eq)
qed

theorem artifact_specifiers_witness:
  "map artifact_as_str [SelectedBinary ''a'', Cdylib] = [''bin:a'', ''cdylib'']"
proof -
  have "artifact_new (\<lambda>_. None) [''bin:a'', ''cdylib''] True (Some ''target'') False =
     Ok \<lparr>art_kinds = [SelectedBinary ''a'', Cdylib], art_is_lib = True, art_target = Some BuildDependencyAssumeTarget\<rparr>"
    by code_simp
  from artifact_specifiers [OF this] show ?thesis by simp
qed

text \<open>
  locking a dependency to a package id succeeds exactly when the sources are equal and the
  requirement accepts the version; afterwards it is locked and, when it is not an override,
  matches only ids with that name and source, and of those only the locked version.
\<close>

theorem lock_to_matches_only:
  assumes precise: "\<And>s. with_precise_from s s = s"
  shows "(case dep_lock_to m with_precise_from i d of
      Ok d' \<Rightarrow> dep_source_id d = pkg_source i \<and> opt_matches m (dep_req d) (pkg_version i) \<and>
        dep_is_locked d' \<and> (dep_name d = pkg_name i \<longrightarrow> matches_id m d' i) \<and>
        (\<forall>j. matches_id m d' j \<longrightarrow> dep_only_match_name d \<or>
          j = PackageId (dep_name d) (pkg_version i) (pkg_source i)) \<and>
        (\<forall>j. matches_id m d' j \<longrightarrow> matches_id m d j)
    | Panic \<Rightarrow> dep_source_id d \<noteq> pkg_source i \<or> \<not> opt_matches m (dep_req d) (pkg_version i)
    | _ \<Rightarrow> False)"
proof (cases "dep_source_id d = pkg_source i \<and> opt_matches m (dep_req d) (pkg_version i)")
  case True
  let ?d = "d\<lparr>dep_req := Locked (pkg_version i) (opt_req (dep_req d))\<rparr>"
  have run: "dep_lock_to m with_precise_from i d = Ok ?d"
    using True precise by (simp add: dep_lock_to_def opt_lock_to_def)
  have "j = PackageId (dep_name d) (pkg_version i) (pkg_source i)"
    if "matches_id m ?d j" "\<not> dep_only_match_name d" for j
    using that True by (cases j) (auto simp: matches_id_def)
  moreover have "matches_id m d j" if "matches_id m ?d j" for j
    using that True by (auto simp: matches_id_def)
  moreover have "matches_id m ?d i" if "dep_name d = pkg_name i"
    using that True by (simp add: matches_id_def)
  ultimately show ?thesis
    using True unfolding run outcome.case by (simp add: dep_is_locked_def) blast
next
  case False
  then show ?thesis by (auto simp: dep_lock_to_def opt_lock_to_def)
qed

theorem lock_to_matches_only_witness:
  "(case dep_lock_to (\<lambda>_ _. True) (\<lambda>s _. s) (PackageId ''a'' (Version 1 0 0 (None :: nat option) (None :: nat option)) (3::nat))
       \<lparr>dep_name = ''a'', dep_source_id = 3, dep_registry_id = None, dep_req = AnyReq,
        dep_specified_req = False, dep_kind = Normal, dep_only_match_name = False,
        dep_explicit_name_in_toml = None, dep_optional = False, dep_public = False,
        dep_default_features = True, dep_features = [], dep_artifact = None, dep_platform = None\<rparr> of
     Ok d' \<Rightarrow> dep_is_locked d' | _ \<Rightarrow> False)"
  using lock_to_matches_only [where with_precise_from = "\<lambda>s _. s" and m = "\<lambda>_ _. True"
      and i = "PackageId ''a'' (Version 1 0 0 (None :: nat option) (None :: nat option)) (3::nat)"
      and d = "\<lparr>dep_name = ''a'', dep_source_id = 3, dep_registry_id = None, dep_req = AnyReq,
        dep_specified_req = False, dep_kind = Normal, dep_only_match_name = False,
        dep_explicit_name_in_toml = None, dep_optional = False, dep_public = False,
        dep_default_features = True, dep_features = [], dep_artifact = None, dep_platform = None\<rparr>"]
  by (simp split: outcome.splits)

end
