(* ===== verification/Summary.thy ===== *)
theory Summary
  imports Package
begin

section \<open>Feature values and summaries (src/workspace/summary.rs)\<close>

text \<open>
  \<open>FeatureValue\<close> with its parser and printer, the validation \<open>build_feature_map\<close> of a
  package's \<open>[features]\<close> table against its dependencies, and \<open>Summary\<close>. The feature map is
  an ordered map; the errors are constructors, one for each \<open>bail!\<close>, without their texts.
\<close>

datatype feature_value = Feature string | Dep string | DepFeature string string bool

definition fv_new :: "string \<Rightarrow> feature_value" where
  "fv_new feature =
     (case split_once (CHR ''/'') feature of
        Some (dep, dep_feat) \<Rightarrow>
          (case strip_suffix ''?'' dep of
             Some dname \<Rightarrow> DepFeature dname dep_feat True
           | None \<Rightarrow> DepFeature dep dep_feat False)
      | None \<Rightarrow>
          (case strip_prefix ''dep:'' feature of
             Some dname \<Rightarrow> Dep dname
           | None \<Rightarrow> Feature feature))"

fun show_fv :: "feature_value \<Rightarrow> string" where
  "show_fv (Feature feat) = feat"
| "show_fv (Dep dname) = ''dep:'' @ dname"
| "show_fv (DepFeature dname dep_feature weak) =
     dname @ (if weak then ''?'' else []) @ ''/'' @ dep_feature"

fun explicit_dep_name :: "feature_value \<Rightarrow> string option" where
  "explicit_dep_name (Dep dname) = Some dname"
| "explicit_dep_name _ = None"

fun feature_or_dep_name :: "feature_value \<Rightarrow> string" where
  "feature_or_dep_name (Feature n) = n"
| "feature_or_dep_name (Dep n) = n"
| "feature_or_dep_name (DepFeature n _ _) = n"

type_synonym feature_map = "(string \<times> feature_value list) list"

datatype feature_error =
    InvalidFeatureName name_error
  | NeitherDependencyNorFeature string feature_value
  | NoImplicitFeature string feature_value
  | NotOptional string feature_value
  | NotListed string feature_value
  | MultipleSlashes string feature_value
  | DepColonWithSlash string feature_value
  | MissingDependency string feature_value string bool
  | WeakNotOptional string feature_value
  | OptionalNotIncluded string
  | OptionalDevDependency string

definition optional_map :: "('p, 'b, 's) dependency list \<Rightarrow> (string \<times> bool) list" where
  "optional_map deps =
     fold (\<lambda>dep m. hm_insert (name_in_toml dep)
        ((case map_of m (name_in_toml dep) of None \<Rightarrow> False | Some o' \<Rightarrow> o') \<or> dep_optional dep) m) deps []"

definition explicitly_listed :: "feature_map \<Rightarrow> string list" where
  "explicitly_listed fm = List.map_filter explicit_dep_name (concat (map snd fm))"

definition add_implicit ::
  "(string \<times> string list) list \<Rightarrow> string list \<Rightarrow> ('p, 'b, 's) dependency \<Rightarrow> feature_map \<Rightarrow> feature_map" where
  "add_implicit features listed dep fm =
     (if \<not> dep_optional dep then fm
      else if map_of features (name_in_toml dep) \<noteq> None \<or> name_in_toml dep \<in> set listed then fm
      else om_insert (name_in_toml dep) [Dep (name_in_toml dep)] fm)"

definition check_fv ::
  "(string \<times> string list) list \<Rightarrow> (string \<times> bool) list \<Rightarrow> feature_map \<Rightarrow> string \<Rightarrow> feature_value \<Rightarrow>
   (feature_error, unit) outcome" where
  "check_fv features dep_map fm feature fv =
     (let dep_data = map_of dep_map (feature_or_dep_name fv);
          is_any_dep = (dep_data \<noteq> None);
          is_optional_dep = (dep_data = Some True)
      in case fv of
           Feature f \<Rightarrow>
             if map_of features f \<noteq> None then Ok ()
             else if \<not> is_any_dep then Err (NeitherDependencyNorFeature feature fv)
             else if is_optional_dep then
               (if map_of fm f = None then Err (NoImplicitFeature feature fv) else Ok ())
             else Err (NotOptional feature fv)
         | Dep dname \<Rightarrow>
             if \<not> is_any_dep then Err (NotListed feature fv)
             else if \<not> is_optional_dep then Err (NotOptional feature fv)
             else Ok ()
         | DepFeature dname dep_feature weak \<Rightarrow>
             if CHR ''/'' \<in> set dep_feature then Err (MultipleSlashes feature fv)
             else if strip_prefix ''dep:'' dname \<noteq> None then Err (DepColonWithSlash feature fv)
             else if \<not> is_any_dep then Err (MissingDependency feature fv dname weak)
             else if weak \<and> \<not> is_optional_dep then Err (WeakNotOptional feature fv)
             else Ok ())"

fun used_dep :: "feature_value \<Rightarrow> string option" where
  "used_dep (Dep d) = Some d"
| "used_dep (DepFeature d _ _) = Some d"
| "used_dep (Feature _) = None"

definition build_feature_map ::
  "(char \<Rightarrow> bool) \<Rightarrow> (char \<Rightarrow> bool) \<Rightarrow> (string \<times> string list) list \<Rightarrow>
   ('p, 'b, 's) dependency list \<Rightarrow> (feature_error, feature_map) outcome" where
  "build_feature_map xs xc features deps =
     (let dep_map = optional_map deps;
          fm0 = map (\<lambda>(feature, list). (feature, map fv_new list)) features;
          listed = explicitly_listed fm0;
          fm = fold (add_implicit features listed) deps fm0
      in obind (ofold (\<lambda>(feature, fvs) _.
             obind (map_err InvalidFeatureName (validate_feature_name xs xc feature))
               (\<lambda>_. ofold (\<lambda>fv _. check_fv features dep_map fm feature fv) fvs ())) fm ())
           (\<lambda>_. let used = List.map_filter used_dep (concat (map snd fm))
                in case find (\<lambda>(dep, is_optional). is_optional \<and> dep \<notin> set used) dep_map of
                     Some (dep, _) \<Rightarrow> Err (OptionalNotIncluded dep)
                   | None \<Rightarrow> Ok fm))"

record ('p, 'b, 's) summary =
  sum_package_id :: "('p, 'b, 's) package_id"
  sum_dependencies :: "('p, 'b, 's) dependency list"
  sum_features :: feature_map
  sum_checksum :: "string option"
  sum_links :: "string option"
  sum_rust_version :: "rust_version option"
  sum_pubtime :: "int option"

definition summary_new ::
  "(char \<Rightarrow> bool) \<Rightarrow> (char \<Rightarrow> bool) \<Rightarrow> ('p, 'b, 's) package_id \<Rightarrow> ('p, 'b, 's) dependency list \<Rightarrow>
   (string \<times> string list) list \<Rightarrow> string option \<Rightarrow> rust_version option \<Rightarrow>
   (feature_error, ('p, 'b, 's) summary) outcome" where
  "summary_new xs xc pkg_id deps features links rust_version =
     obind (ofold (\<lambda>dep _. if dep_optional dep \<and> \<not> is_transitive dep
              then Err (OptionalDevDependency (name_in_toml dep)) else Ok ()) deps ()) (\<lambda>_.
     obind (build_feature_map xs xc features deps) (\<lambda>feature_map.
       Ok \<lparr>sum_package_id = pkg_id, sum_dependencies = deps, sum_features = feature_map,
          sum_checksum = None, sum_links = links, sum_rust_version = rust_version, sum_pubtime = None\<rparr>))"

definition override_id :: "('p, 'b, 's) package_id \<Rightarrow> ('p, 'b, 's) summary \<Rightarrow> ('p, 'b, 's) summary" where
  "override_id i s = s\<lparr>sum_package_id := i\<rparr>"

definition set_checksum :: "string \<Rightarrow> ('p, 'b, 's) summary \<Rightarrow> ('p, 'b, 's) summary" where
  "set_checksum cksum s = s\<lparr>sum_checksum := Some cksum\<rparr>"

definition set_pubtime :: "int \<Rightarrow> ('p, 'b, 's) summary \<Rightarrow> ('p, 'b, 's) summary" where
  "set_pubtime t s = s\<lparr>sum_pubtime := Some t\<rparr>"

definition try_map_dependencies ::
  "(('p, 'b, 's) dependency \<Rightarrow> ('e, ('p, 'b, 's) dependency) outcome) \<Rightarrow> ('p, 'b, 's) summary \<Rightarrow>
   ('e, ('p, 'b, 's) summary) outcome" where
  "try_map_dependencies f s =
     obind (ofold (\<lambda>d acc. obind (f d) (\<lambda>d'. Ok (acc @ [d']))) (sum_dependencies s) [])
       (\<lambda>ds. Ok (s\<lparr>sum_dependencies := ds\<rparr>))"

definition map_dependencies ::
  "(('p, 'b, 's) dependency \<Rightarrow> ('p, 'b, 's) dependency) \<Rightarrow> ('p, 'b, 's) summary \<Rightarrow> ('p, 'b, 's) summary" where
  "map_dependencies f s = s\<lparr>sum_dependencies := map f (sum_dependencies s)\<rparr>"

definition summary_map_source :: "'s \<Rightarrow> 's \<Rightarrow> ('p, 'b, 's) summary \<Rightarrow> ('p, 'b, 's) summary" where
  "summary_map_source to_replace replace_with s =
     (let me = (if pkg_source (sum_package_id s) = to_replace
                then override_id (with_source_id replace_with (sum_package_id s)) s else s)
      in map_dependencies (dep_map_source to_replace replace_with) me)"

definition summary_eq :: "('p, 'b, 's) summary \<Rightarrow> ('p, 'b, 's) summary \<Rightarrow> bool" where
  "summary_eq a b = (sum_package_id a = sum_package_id b)"

subsection \<open>Lemmas on feature maps\<close>

lemma optional_map_get:
  "map_of (optional_map deps) n =
     (if \<exists>d \<in> set deps. name_in_toml d = n
      then Some (\<exists>d \<in> set deps. name_in_toml d = n \<and> dep_optional d) else None)"
proof -
  have "map_of (fold (\<lambda>dep m. hm_insert (name_in_toml dep)
        ((case map_of m (name_in_toml dep) of None \<Rightarrow> False | Some o' \<Rightarrow> o') \<or> dep_optional dep) m) deps m) n =
     (if \<exists>d \<in> set deps. name_in_toml d = n
      then Some ((case map_of m n of None \<Rightarrow> False | Some o' \<Rightarrow> o') \<or>
        (\<exists>d \<in> set deps. name_in_toml d = n \<and> dep_optional d)) else map_of m n)" for m
    by (induction deps arbitrary: m) (auto simp: get_hm_insert split: option.splits)
  from this [of "[]"] show ?thesis by (simp add: optional_map_def)
qed

lemma hm_wf_optional_map: "hm_wf (optional_map deps)"
proof -
  have "hm_wf m \<Longrightarrow> hm_wf (fold (\<lambda>dep m. hm_insert (name_in_toml dep)
        ((case map_of m (name_in_toml dep) of None \<Rightarrow> False | Some o' \<Rightarrow> o') \<or> dep_optional dep) m) deps m)" for m
    by (induction deps arbitrary: m) (auto simp: hm_wf_insert)
  then show ?thesis by (simp add: optional_map_def)
qed

text \<open>The loop over the dependencies adds exactly the implicit features.\<close>

lemma add_implicit_fold:
  assumes "om_wf fm"
  shows "om_wf (fold (add_implicit features listed) deps fm) \<and>
    map_of (fold (add_implicit features listed) deps fm) f =
      (if (\<exists>d \<in> set deps. dep_optional d \<and> name_in_toml d = f) \<and> map_of features f = None \<and> f \<notin> set listed
       then Some [Dep f] else map_of fm f)"
  using assms
proof (induction deps arbitrary: fm)
  case (Cons d deps)
  have "om_wf (add_implicit features listed d fm)"
    using Cons.prems by (simp add: add_implicit_def om_wf_insert)
  from Cons.IH [OF this] show ?case
    using Cons.prems by (auto simp: add_implicit_def get_om_insert)
qed simp

subsection \<open>What a validated feature map guarantees\<close>

definition fv_sound :: "('p, 'b, 's) dependency list \<Rightarrow> feature_map \<Rightarrow> feature_value \<Rightarrow> bool" where
  "fv_sound deps fm fv \<longleftrightarrow> (case fv of
     Feature f \<Rightarrow> map_of fm f \<noteq> None
   | Dep d \<Rightarrow> \<exists>dep \<in> set deps. name_in_toml dep = d \<and> dep_optional dep
   | DepFeature d f weak \<Rightarrow> (\<exists>dep \<in> set deps. name_in_toml dep = d \<and> (weak \<longrightarrow> dep_optional dep)) \<and>
       CHR ''/'' \<notin> set f \<and> \<not> starts_with ''dep:'' d)"

lemma check_fv_sound:
  assumes "check_fv features (optional_map deps) fm feature fv = Ok ()"
    and "\<And>f. map_of features f \<noteq> None \<Longrightarrow> map_of fm f \<noteq> None"
  shows "fv_sound deps fm fv"
proof (cases fv)
  case (Feature f)
  with assms show ?thesis
    by (auto simp: check_fv_def fv_sound_def Let_def simp del: not_None_eq split: if_splits)
next
  case (Dep d)
  with assms(1) show ?thesis
    by (auto simp: check_fv_def fv_sound_def Let_def optional_map_get split: if_splits)
next
  case (DepFeature d f weak)
  with assms(1) show ?thesis
    by (auto simp: check_fv_def fv_sound_def Let_def optional_map_get strip_prefix_def split: if_splits)
qed

lemma ofold_check_all:
  "ofold (\<lambda>x _. f x) xs () = Ok () \<Longrightarrow> x \<in> set xs \<Longrightarrow> f x = Ok ()"
  by (induction xs) auto

lemma listed_iff:
  "n \<in> set (explicitly_listed fm) \<longleftrightarrow> (\<exists>(f, fvs) \<in> set fm. Dep n \<in> set fvs)"
proof -
  have "explicit_dep_name fv = Some n \<longleftrightarrow> fv = Dep n" for fv by (cases fv) auto
  then show ?thesis by (force simp: explicitly_listed_def List.map_filter_def)
qed

lemma feature_map_facts:
  assumes wf: "om_wf features" and run: "build_feature_map xs xc features deps = Ok fm"
  shows "om_wf fm \<and>
    (\<forall>f. map_of fm f = (case map_of features f of
        Some l \<Rightarrow> Some (map fv_new l)
      | None \<Rightarrow> if (\<exists>d \<in> set deps. dep_optional d \<and> name_in_toml d = f) \<and>
            \<not> (\<exists>g l. map_of features g = Some l \<and> Dep f \<in> set (map fv_new l))
          then Some [Dep f] else None)) \<and>
    (\<forall>f fvs fv. map_of fm f = Some fvs \<longrightarrow> fv \<in> set fvs \<longrightarrow> fv_sound deps fm fv) \<and>
    (\<forall>f fvs. map_of fm f = Some fvs \<longrightarrow> validate_feature_name xs xc f = Ok ()) \<and>
    (\<forall>d \<in> set deps. dep_optional d \<longrightarrow>
       (\<exists>f fvs fv. map_of fm f = Some fvs \<and> fv \<in> set fvs \<and> used_dep fv = Some (name_in_toml d)))"
proof -
  define fm0 where "fm0 = map (\<lambda>(feature, list). (feature, map fv_new list)) features"
  have fm: "fm = fold (add_implicit features (explicitly_listed fm0)) deps fm0"
    and checks: "ofold (\<lambda>(feature, fvs) _.
             obind (map_err InvalidFeatureName (validate_feature_name xs xc feature))
               (\<lambda>_. ofold (\<lambda>fv _. check_fv features (optional_map deps) fm feature fv) fvs ())) fm () = Ok ()"
    and used: "find (\<lambda>(dep, is_optional). is_optional \<and>
        dep \<notin> set (List.map_filter used_dep (concat (map snd fm)))) (optional_map deps) = None"
    using run unfolding build_feature_map_def Let_def fm0_def [symmetric]
    by (auto split: option.splits)
  have get0: "map_of fm0 f = map_option (map fv_new) (map_of features f)" for f
    unfolding fm0_def by (induction features) auto
  have wf0: "om_wf fm0"
    using wf by (simp add: fm0_def om_wf_def comp_def split_def)
  have wf': "om_wf fm" unfolding fm using add_implicit_fold [OF wf0] by blast
  have listed: "n \<in> set (explicitly_listed fm0) \<longleftrightarrow> (\<exists>g l. map_of features g = Some l \<and> Dep n \<in> set (map fv_new l))" for n
    unfolding listed_iff using om.mem_iff_get [OF wf] by (fastforce simp: fm0_def)
  have table: "map_of fm f = (case map_of features f of
        Some l \<Rightarrow> Some (map fv_new l)
      | None \<Rightarrow> if (\<exists>d \<in> set deps. dep_optional d \<and> name_in_toml d = f) \<and>
            \<not> (\<exists>g l. map_of features g = Some l \<and> Dep f \<in> set (map fv_new l))
          then Some [Dep f] else None)" for f
    unfolding fm using add_implicit_fold [OF wf0, of features "explicitly_listed fm0" deps f]
    by (cases "map_of features f") (simp_all add: get0 listed)
  have keep: "map_of fm f \<noteq> None" if "map_of features f \<noteq> None" for f
    using that table [of f] by (auto split: option.splits)
  have entry: "validate_feature_name xs xc f = Ok () \<and>
      (\<forall>fv \<in> set fvs. check_fv features (optional_map deps) fm f fv = Ok ())" if "map_of fm f = Some fvs" for f fvs
  proof -
    from that have "(f, fvs) \<in> set fm" by (rule map_of_SomeD)
    with checks show ?thesis
      by (auto dest!: ofold_check_all [where x = "(f, fvs)", OF checks [unfolded split_def]]
          intro: ofold_check_all)
  qed
  have sound: "fv_sound deps fm fv" if "map_of fm f = Some fvs" "fv \<in> set fvs" for f fvs fv
    using entry [OF that(1)] that(2) keep by (intro check_fv_sound [of features deps fm f]) auto
  have mentioned: "\<exists>f fvs fv. map_of fm f = Some fvs \<and> fv \<in> set fvs \<and> used_dep fv = Some (name_in_toml d)"
    if "d \<in> set deps" "dep_optional d" for d
  proof -
    have "(name_in_toml d, True) \<in> set (optional_map deps)"
      using that optional_map_get [of deps "name_in_toml d"] by (auto simp: hm.mem_iff_get hm_wf_optional_map)
    with used have "name_in_toml d \<in> set (List.map_filter used_dep (concat (map snd fm)))"
      by (auto simp: find_None_iff)
    then obtain f fvs fv where "(f, fvs) \<in> set fm" "fv \<in> set fvs" "used_dep fv = Some (name_in_toml d)"
      by (auto simp: List.map_filter_def split: option.splits)
    then show ?thesis using om.mem_iff_get [OF wf'] by blast
  qed
  show ?thesis
    using wf' table sound entry mentioned by (intro conjI allI impI ballI) blast+
qed

subsection \<open>Properties\<close>

text \<open>
  C29: a feature map that passes validation is sound. It is exactly the table of the manifest with
  one implicit feature, its \<open>dep:\<close> value, for each optional dependency that no feature is named after
  and that no \<open>dep:\<close> value of the table mentions. It refers only to features it has and to
  dependencies of the right kind, all names are valid, and every optional dependency is mentioned by
  some \<open>dep:\<close> value or by a value that asks for one of its features, weakly or not.
\<close>

theorem build_feature_map_sound:
  assumes wf: "om_wf features" and run: "build_feature_map xs xc features deps = Ok fm"
  shows "om_wf fm \<and>
    (\<forall>f. map_of fm f = (case map_of features f of
        Some l \<Rightarrow> Some (map fv_new l)
      | None \<Rightarrow> if (\<exists>d \<in> set deps. dep_optional d \<and> name_in_toml d = f) \<and>
            \<not> (\<exists>g l. map_of features g = Some l \<and> Dep f \<in> set (map fv_new l))
          then Some [Dep f] else None)) \<and>
    (\<forall>f fvs fv. map_of fm f = Some fvs \<longrightarrow> fv \<in> set fvs \<longrightarrow> fv_sound deps fm fv) \<and>
    (\<forall>f fvs. map_of fm f = Some fvs \<longrightarrow> validate_feature_name xs xc f = Ok ()) \<and>
    (\<forall>d \<in> set deps. dep_optional d \<longrightarrow>
       (\<exists>f fvs fv. map_of fm f = Some fvs \<and> fv \<in> set fvs \<and> used_dep fv = Some (name_in_toml d)))"
  using feature_map_facts [OF wf run] .

lemma fv_new_plain:
  "CHR ''/'' \<notin> set f \<Longrightarrow> \<not> starts_with ''dep:'' f \<Longrightarrow> fv_new f = Feature f"
  using split_once_None_iff [of "CHR ''/''" f] by (simp add: fv_new_def strip_prefix_def)

lemma table_ok: "om_wf [(''default'', [''log'', ''dep:tls'']), (''log'', [])]"
  by (simp add: om_wf_def)

definition tls_dep :: "(nat, nat, nat) dependency" where
  "tls_dep = \<lparr>dep_name = ''tls'', dep_source_id = 0, dep_registry_id = None, dep_req = AnyReq,
     dep_specified_req = False, dep_kind = Normal, dep_only_match_name = False,
     dep_explicit_name_in_toml = None, dep_optional = True, dep_public = False,
     dep_default_features = True, dep_features = [], dep_artifact = None, dep_platform = None\<rparr>"

lemma table_run:
  "build_feature_map (\<lambda>_. True) (\<lambda>_. True) [(''default'', [''log'', ''dep:tls'']), (''log'', [])] [tls_dep] =
     Ok [(''default'', [Feature ''log'', Dep ''tls'']), (''log'', [])]"
  by code_simp

text \<open>
  The optional \<open>tls\<close> is mentioned by \<open>dep:tls\<close> and gets no feature; the optional \<open>zip\<close> is asked for a
  feature only weakly and gets its implicit feature.
\<close>

definition zip_dep :: "(nat, nat, nat) dependency" where
  "zip_dep = tls_dep\<lparr>dep_name := ''zip''\<rparr>"

theorem build_feature_map_sound_witness:
  "\<exists>fm. build_feature_map (\<lambda>_. True) (\<lambda>_. True) [(''default'', [''zip?/std'', ''dep:tls''])] [tls_dep, zip_dep] = Ok fm \<and>
     map_of fm ''tls'' = None \<and> map_of fm ''zip'' = Some [Dep ''zip''] \<and>
     fv_sound [tls_dep, zip_dep] fm (DepFeature ''zip'' ''std'' True)"
proof -
  let ?table = "[(''default'', [''zip?/std'', ''dep:tls''])]" and ?deps = "[tls_dep, zip_dep]"
  have ok: "om_wf ?table" by (simp add: om_wf_def)
  have "\<exists>fm. build_feature_map (\<lambda>_. True) (\<lambda>_. True) ?table ?deps = Ok fm"
    by (rule exI [of _ "[(''default'', [DepFeature ''zip'' ''std'' True, Dep ''tls'']), (''zip'', [Dep ''zip''])]"]) code_simp
  then obtain fm where run: "build_feature_map (\<lambda>_. True) (\<lambda>_. True) ?table ?deps = Ok fm" by blast
  have parsed: "fv_new ''dep:tls'' = Dep ''tls''" "fv_new ''zip?/std'' = DepFeature ''zip'' ''std'' True" by code_simp+
  have names: "name_in_toml tls_dep = ''tls''" "name_in_toml zip_dep = ''zip''" "dep_optional zip_dep"
    by (simp_all add: tls_dep_def zip_dep_def name_in_toml_def unwrap_or_def)
  note sound = build_feature_map_sound [OF ok run]
  note table = sound [THEN conjunct2, THEN conjunct1, rule_format]
  have "map_of fm ''default'' = Some [DepFeature ''zip'' ''std'' True, Dep ''tls'']"
    unfolding table by (simp add: parsed)
  then have "fv_sound ?deps fm (DepFeature ''zip'' ''std'' True)"
    using sound [THEN conjunct2, THEN conjunct2, THEN conjunct1] by (meson list.set_intros(1))
  moreover have "map_of fm ''tls'' = None" unfolding table by (simp add: parsed)
  moreover have "map_of fm ''zip'' = Some [Dep ''zip'']" unfolding table by (simp add: parsed names)
  ultimately show ?thesis using run by blast
qed

text \<open>
  printing a parsed feature value gives back the text it was parsed from, whatever the
  text; a name that passes the feature-name validation is parsed as that feature.
\<close>

theorem feature_value_text:
  "show_fv (fv_new s) = s \<and>
   (validate_feature_name xs xc s = Ok () \<longrightarrow> fv_new s = Feature s)"
proof
  show "show_fv (fv_new s) = s"
    by (auto simp: fv_new_def split_once_Some_iff strip_suffix_Some_iff strip_prefix_Some_iff
        split: option.split)
  show "validate_feature_name xs xc s = Ok () \<longrightarrow> fv_new s = Feature s"
    by (cases s) (auto simp: validate_feature_name_def intro!: fv_new_plain split: if_splits)
qed

theorem feature_value_text_witness:
  "show_fv (fv_new ''serde?/std'') = ''serde?/std'' \<and> fv_new ''std'' = Feature ''std''"
proof -
  have "validate_feature_name (\<lambda>_. True) (\<lambda>_. True) ''std'' = Ok ()"
    by (simp add: validate_feature_name_def starts_with_def)
  then show ?thesis
    using feature_value_text [of "''serde?/std''"] feature_value_text [of "''std''" "\<lambda>_. True" "\<lambda>_. True"]
    by blast
qed

end
