(* ===== verification/ConflictCache.thy ===== *)
theory ConflictCache
  imports Prelude
begin

section \<open>The conflict cache of the resolver (src/resolver/conflict_cache.rs)\<close>

text \<open>
  \<open>ConflictStoreTrie\<close> stores sets of packages (conflict maps, sorted by package id) so that
  one can ask whether some stored set is contained in the set of active packages. The theory is
  polymorphic in the package ids \<open>'k\<close>, the conflict reasons \<open>'c\<close> and the dependencies
  \<open>'d\<close>. \<open>act\<close> is the closure \<open>is_active\<close>: the age of an active package. \<open>usize::MAX\<close>
  is the argument \<open>max_age\<close> of \<open>find_conflicting\<close>.

  \<open>paths\<close> is the abstraction: the stored sets with the keys that lead to them. The interface
  \<open>conflict_store\<close> states what the resolver relies on, insertion adds exactly one more
  way to be in conflict, and is interpreted on the trie.
\<close>

datatype ('k, 'c) trie = Leaf "('k \<times> 'c) list" | Node "('k \<times> ('k, 'c) trie) list"

fun trie_find ::
  "('k::linorder \<Rightarrow> nat option) \<Rightarrow> 'k option \<Rightarrow> nat \<Rightarrow> ('k, 'c) trie \<Rightarrow> (('k \<times> 'c) list \<times> nat) option"
and trie_scan ::
  "('k::linorder \<Rightarrow> nat option) \<Rightarrow> 'k option \<Rightarrow> nat \<Rightarrow> (('k \<times> 'c) list \<times> nat) option \<Rightarrow>
   ('k \<times> ('k, 'c) trie) list \<Rightarrow> (('k \<times> 'c) list \<times> nat) option"
where
  "trie_find act must_contain max_age (Leaf c) =
     (if must_contain = None then Some (c, 0) else None)"
| "trie_find act must_contain max_age (Node m) = trie_scan act must_contain max_age None m"
| "trie_scan act must_contain max_age out [] = out"
| "trie_scan act must_contain max_age out ((pid, store) # m) =
     (if (case must_contain of None \<Rightarrow> False | Some f \<Rightarrow> f < pid)
      then trie_scan act must_contain max_age out m
      else case act pid of
        None \<Rightarrow> trie_scan act must_contain max_age out m
      | Some age_this \<Rightarrow>
          if max_age \<le> age_this \<and> must_contain \<noteq> Some pid
          then trie_scan act must_contain max_age out m
          else case trie_find act (if must_contain = Some pid then None else must_contain) max_age store of
            None \<Rightarrow> trie_scan act must_contain max_age out m
          | Some (c, age_o) \<Rightarrow>
              let age = (if must_contain = Some pid then age_o else max age_this age_o)
              in if age < max_age then trie_scan act must_contain age (Some (c, age)) m
                 else trie_scan act must_contain max_age out m)"

fun trie_insert :: "'k::linorder list \<Rightarrow> ('k \<times> 'c) list \<Rightarrow> ('k, 'c) trie \<Rightarrow> ('k, 'c) trie" where
  "trie_insert [] con t = Leaf con"
| "trie_insert (pid # ks) con (Leaf c) = Leaf c"
| "trie_insert (pid # ks) con (Node p) =
     Node (om_insert pid
       (trie_insert ks con (case map_of p pid of None \<Rightarrow> Node [] | Some t \<Rightarrow> t)) p)"

record ('d, 'k, 'c) conflict_cache =
  con_from_dep :: "('d \<times> ('k, 'c) trie) list"
  dep_from_pid :: "('k \<times> 'd list) list"

definition cache_new :: "('d, 'k, 'c) conflict_cache" where
  "cache_new = \<lparr>con_from_dep = [], dep_from_pid = []\<rparr>"

definition cache_find ::
  "('d, 'k::linorder, 'c) conflict_cache \<Rightarrow> 'd \<Rightarrow> ('k \<Rightarrow> nat option) \<Rightarrow> 'k option \<Rightarrow> nat \<Rightarrow>
   ('k \<times> 'c) list option" where
  "cache_find cc dep act must_contain max_age =
     (case map_of (con_from_dep cc) dep of
        None \<Rightarrow> None
      | Some t \<Rightarrow> map_option fst (trie_find act must_contain max_age t))"

definition find_conflicting ::
  "('d, 'k::linorder, 'c) conflict_cache \<Rightarrow> nat \<Rightarrow> ('k \<Rightarrow> nat option) \<Rightarrow> 'd \<Rightarrow> 'k option \<Rightarrow>
   ('k \<times> 'c) list option" where
  "find_conflicting cc max_age act dep must_contain = cache_find cc dep act must_contain max_age"

definition conflicting ::
  "('d, 'k::linorder, 'c) conflict_cache \<Rightarrow> nat \<Rightarrow> ('k \<Rightarrow> nat option) \<Rightarrow> 'd \<Rightarrow> ('k \<times> 'c) list option" where
  "conflicting cc max_age act dep = find_conflicting cc max_age act dep None"

definition cache_insert ::
  "'d \<Rightarrow> ('k::linorder \<times> 'c) list \<Rightarrow> ('d, 'k, 'c) conflict_cache \<Rightarrow> ('d, 'k, 'c) conflict_cache" where
  "cache_insert dep con cc =
     cc\<lparr>con_from_dep := hm_insert dep (trie_insert (map fst con) con
            (case map_of (con_from_dep cc) dep of None \<Rightarrow> Node [] | Some t \<Rightarrow> t)) (con_from_dep cc),
        dep_from_pid := fold (\<lambda>c m. hm_insert c
            (List.insert dep (case map_of m c of None \<Rightarrow> [] | Some ds \<Rightarrow> ds)) m) (map fst con) (dep_from_pid cc)\<rparr>"

definition dependencies_conflicting_with ::
  "('d, 'k, 'c) conflict_cache \<Rightarrow> 'k \<Rightarrow> 'd list option" where
  "dependencies_conflicting_with cc pid = map_of (dep_from_pid cc) pid"

subsection \<open>Stored sets\<close>

inductive path :: "('k, 'c) trie \<Rightarrow> 'k list \<Rightarrow> ('k \<times> 'c) list \<Rightarrow> bool" where
  leaf: "path (Leaf c) [] c"
| node: "(k, t) \<in> set m \<Longrightarrow> path t ks c \<Longrightarrow> path (Node m) (k # ks) c"

inductive_simps path_simps [simp]: "path (Leaf c) ks d" "path (Node m) ks d"

fun heads :: "('k, 'c) trie \<Rightarrow> 'k set" where
  "heads (Leaf c) = {}"
| "heads (Node m) = fst ` set m"

inductive trie_wf :: "('k::linorder, 'c) trie \<Rightarrow> bool" where
  "trie_wf (Leaf c)"
| "om_wf m \<Longrightarrow> (\<And>k t. (k, t) \<in> set m \<Longrightarrow> trie_wf t \<and> (\<forall>h \<in> heads t. k < h)) \<Longrightarrow> trie_wf (Node m)"

inductive_simps trie_wf_simps [simp]: "trie_wf (Leaf c)" "trie_wf (Node m)"

lemma path_heads: "path t ks c \<Longrightarrow> trie_wf t \<Longrightarrow> \<forall>x \<in> set ks. \<exists>h \<in> heads t. h \<le> x"
proof (induction rule: path.induct)
  case (node k t m ks c)
  then have t: "trie_wf t" "\<forall>h \<in> heads t. k < h" by auto
  have "k \<le> x" if "x \<in> set ks" for x
    using node.IH [OF t(1)] t(2) that by (meson less_imp_le less_le_trans)
  with node.hyps(1) show ?case by force
qed simp

lemma path_above:
  assumes "trie_wf (Node m)" and "(k, t) \<in> set m" and "path t ks c" and "x \<in> set ks"
  shows "k < x"
  using assms path_heads [OF assms(3)] by (force intro: less_le_trans)

definition cand ::
  "('k \<Rightarrow> nat option) \<Rightarrow> 'k option \<Rightarrow> ('k, 'c) trie \<Rightarrow> 'k list \<Rightarrow> ('k \<times> 'c) list \<Rightarrow> bool" where
  "cand act mc t ks c \<longleftrightarrow>
     path t ks c \<and> (\<forall>k \<in> set ks. act k \<noteq> None) \<and> (\<forall>f. mc = Some f \<longrightarrow> f \<in> set ks)"

fun score :: "('k \<Rightarrow> nat option) \<Rightarrow> 'k option \<Rightarrow> 'k list \<Rightarrow> nat" where
  "score act mc [] = 0"
| "score act mc (k # ks) = (if mc = Some k then score act mc ks else max (the (act k)) (score act mc ks))"

lemma score_other: "f \<notin> set ks \<Longrightarrow> score act (Some f) ks = score act None ks"
  by (induction ks) auto

definition best ::
  "('k \<Rightarrow> nat option) \<Rightarrow> 'k option \<Rightarrow> nat \<Rightarrow> ('k, 'c) trie \<Rightarrow> (('k \<times> 'c) list \<times> nat) option \<Rightarrow> bool" where
  "best act mc age t r \<longleftrightarrow> (case r of
     None \<Rightarrow> \<forall>ks c. cand act mc t ks c \<longrightarrow> age \<le> score act mc ks
   | Some (c, a) \<Rightarrow> (\<exists>ks. cand act mc t ks c \<and> score act mc ks = a) \<and>
       (\<forall>ks c'. cand act mc t ks c' \<longrightarrow> min age a \<le> score act mc ks))"

definition scanned ::
  "('k \<Rightarrow> nat option) \<Rightarrow> 'k option \<Rightarrow> nat \<Rightarrow> (('k \<times> 'c) list \<times> nat) option \<Rightarrow>
   ('k \<times> ('k, 'c) trie) list \<Rightarrow> (('k \<times> 'c) list \<times> nat) option \<Rightarrow> bool" where
  "scanned act mc age out m r \<longleftrightarrow>
     r = out \<and> (\<forall>ks c. cand act mc (Node m) ks c \<longrightarrow> age \<le> score act mc ks) \<or>
     (\<exists>c a ks. r = Some (c, a) \<and> a < age \<and> cand act mc (Node m) ks c \<and> score act mc ks = a \<and>
        (\<forall>ks c'. cand act mc (Node m) ks c' \<longrightarrow> a \<le> score act mc ks))"

definition cand1 ::
  "('k \<Rightarrow> nat option) \<Rightarrow> 'k option \<Rightarrow> 'k \<Rightarrow> ('k, 'c) trie \<Rightarrow> 'k list \<Rightarrow> ('k \<times> 'c) list \<Rightarrow> bool" where
  "cand1 act mc k t ks c \<longleftrightarrow> cand act mc (Node [(k, t)]) ks c"

lemma cand_Node_Cons:
  "cand act mc (Node ((k, t) # m)) ks c \<longleftrightarrow>
     cand1 act mc k t ks c \<or> cand act mc (Node m) ks c"
  by (auto simp: cand_def cand1_def)

lemma scanned_skip:
  assumes "scanned act mc age out m r"
    and "\<And>ks c. cand1 act mc k t ks c \<Longrightarrow> age \<le> score act mc ks"
  shows "scanned act mc age out ((k, t) # m) r"
proof -
  from assms(1) consider
      (kept) "r = out" "\<forall>ks c. cand act mc (Node m) ks c \<longrightarrow> age \<le> score act mc ks"
    | (better) c' a' ks' where "r = Some (c', a')" "a' < age" "cand act mc (Node m) ks' c'"
        "score act mc ks' = a'" "\<forall>ks c'. cand act mc (Node m) ks c' \<longrightarrow> a' \<le> score act mc ks"
    unfolding scanned_def by blast
  then show ?thesis
  proof cases
    case kept
    then show ?thesis
      unfolding scanned_def cand_Node_Cons using assms(2) by blast
  next
    case better
    have "a' \<le> score act mc ks" if "cand1 act mc k t ks c'' \<or> cand act mc (Node m) ks c''" for ks c''
      using that better assms(2) by (meson dual_order.strict_implies_order order.trans)
    then show ?thesis
      unfolding scanned_def cand_Node_Cons
      using better by (intro disjI2 exI [of _ c'] exI [of _ a'] exI [of _ ks']) auto
  qed
qed

lemma scanned_take:
  assumes "scanned act mc a (Some (c, a)) m r" and "a < age"
    and "cand1 act mc k t ks c" and "score act mc ks = a"
    and "\<And>ks c. cand1 act mc k t ks c \<Longrightarrow> a \<le> score act mc ks"
  shows "scanned act mc age out ((k, t) # m) r"
proof -
  from assms(1) consider
      (kept) "r = Some (c, a)" "\<forall>ks c. cand act mc (Node m) ks c \<longrightarrow> a \<le> score act mc ks"
    | (better) c' a' ks' where "r = Some (c', a')" "a' < a" "cand act mc (Node m) ks' c'"
        "score act mc ks' = a'" "\<forall>ks c'. cand act mc (Node m) ks c' \<longrightarrow> a' \<le> score act mc ks"
    unfolding scanned_def by blast
  then show ?thesis
  proof cases
    case kept
    then show ?thesis
      unfolding scanned_def cand_Node_Cons using assms(2-5) by blast
  next
    case better
    have "a' \<le> score act mc ks" if "cand1 act mc k t ks c'' \<or> cand act mc (Node m) ks c''" for ks c''
      using that better assms(5) by (meson dual_order.strict_implies_order order.trans)
    then show ?thesis
      unfolding scanned_def cand_Node_Cons
      using better assms(2) by (intro disjI2 exI [of _ c'] exI [of _ a'] exI [of _ ks']) auto
  qed
qed

definition sub_mc :: "'k \<Rightarrow> 'k option \<Rightarrow> 'k option" where
  "sub_mc pid mc = (if mc = Some pid then None else mc)"

lemma cand_entry:
  assumes wf: "trie_wf (Node m)" and mem: "(k, t) \<in> set m" and range: "\<And>f. mc = Some f \<Longrightarrow> k \<le> f"
  shows "cand1 act mc k t xs c \<longleftrightarrow>
      (\<exists>ks. xs = k # ks \<and> act k \<noteq> None \<and> cand act (sub_mc k mc) t ks c)"
    and "path t ks c \<Longrightarrow> score act mc (k # ks) =
      (if mc = Some k then score act (sub_mc k mc) ks else max (the (act k)) (score act (sub_mc k mc) ks))"
proof -
  have not_in: "k \<notin> set ks" if "path t ks c" for ks
    using path_above [OF wf mem that] by blast
  show "cand1 act mc k t xs c \<longleftrightarrow>
      (\<exists>ks. xs = k # ks \<and> act k \<noteq> None \<and> cand act (sub_mc k mc) t ks c)"
    by (auto simp: cand1_def cand_def sub_mc_def)
  show "score act mc (k # ks) =
      (if mc = Some k then score act (sub_mc k mc) ks else max (the (act k)) (score act (sub_mc k mc) ks))"
    if "path t ks c"
    using not_in [OF that] by (auto simp: sub_mc_def score_other)
qed


lemma trie_wf_tail: "trie_wf (Node (x # m)) \<Longrightarrow> trie_wf (Node m)"
  by (cases x) (auto simp: om_wf_Cons)

lemma scan_step:
  assumes wf: "trie_wf (Node ((k, t) # m))" and range: "\<And>f. mc = Some f \<Longrightarrow> k \<le> f"
    and act: "act k = Some age_this" and worth: "\<not> (age \<le> age_this \<and> mc \<noteq> Some k)"
    and best: "best act (sub_mc k mc) age t (trie_find act (sub_mc k mc) age t)"
    and rest: "\<And>age out. scanned act mc age out m (trie_scan act mc age out m)"
  shows "scanned act mc age out ((k, t) # m) (trie_scan act mc age out ((k, t) # m))"
proof -
  have mem: "(k, t) \<in> set ((k, t) # m)" by simp
  note entry = cand_entry [OF wf mem range]
  have not_less: "\<not> (case mc of None \<Rightarrow> False | Some f \<Rightarrow> f < k)"
    using range by (auto simp: not_less split: option.splits)
  have sc: "score act mc (k # ks) = (if mc = Some k then score act (sub_mc k mc) ks
      else max age_this (score act (sub_mc k mc) ks))" if "cand act (sub_mc k mc) t ks c" for ks c
    using entry(2) [where ks = ks and c = c and act = act] that act by (simp add: cand_def)
  show ?thesis
  proof (cases "trie_find act (sub_mc k mc) age t")
    case None
    have "age \<le> score act mc xs" if "cand1 act mc k t xs c" for xs c
    proof -
      from that entry(1) [where act = act and xs = xs and c = c] obtain ys
        where ys: "xs = k # ys" "cand act (sub_mc k mc) t ys c" by auto
      with best have "age \<le> score act (sub_mc k mc) ys" by (auto simp: None best_def)
      then show ?thesis
        unfolding ys(1) sc [OF ys(2)] by (auto simp: le_max_iff_disj)
    qed
    then show ?thesis
      using not_less act worth None scanned_skip [OF rest]
      by (auto simp: sub_mc_def)
  next
    case (Some ca)
    obtain c a where ca: "ca = (c, a)" by (cases ca)
    let ?age = "if mc = Some k then a else max age_this a"
    from best obtain ks where ks: "cand act (sub_mc k mc) t ks c" "score act (sub_mc k mc) ks = a"
      and min: "\<And>ks c'. cand act (sub_mc k mc) t ks c' \<Longrightarrow> min age a \<le> score act (sub_mc k mc) ks"
      by (auto simp: best_def Some ca)
    have score: "score act mc (k # ks) = ?age" unfolding sc [OF ks(1)] ks(2) by simp
    have head: "cand1 act mc k t (k # ks) c"
      using entry(1) [where act = act and xs = "k # ks" and c = c] ks(1) act by simp
    have lower: "min age ?age \<le> score act mc xs" if "cand1 act mc k t xs c'" for xs c'
    proof -
      from that entry(1) [where act = act and xs = xs and c = c'] obtain ys where ys: "xs = k # ys" "cand act (sub_mc k mc) t ys c'"
        by auto
      show ?thesis
        using sc [OF ys(2)] min [OF ys(2)] by (auto simp: ys(1))
    qed
    show ?thesis
    proof (cases "?age < age")
      case True
      have "scanned act mc age out ((k, t) # m) (trie_scan act mc ?age (Some (c, ?age)) m)"
        using lower True by (intro scanned_take [OF rest True head score]) (simp add: min_absorb2)
      with True show ?thesis
        using not_less act worth Some by (auto simp: ca Let_def sub_mc_def)
    next
      case False
      have "scanned act mc age out ((k, t) # m) (trie_scan act mc age out m)"
        using lower False by (intro scanned_skip [OF rest]) (simp add: min_absorb1)
      with False show ?thesis
        using not_less act worth Some by (auto simp: ca Let_def sub_mc_def)
    qed
  qed
qed

lemma trie_find_best: "trie_wf t \<Longrightarrow> best act mc age t (trie_find act mc age t)"
proof (induction t arbitrary: mc age)
  case (Leaf c)
  then show ?case by (auto simp: best_def cand_def)
next
  case (Node m)
  have "scanned act mc age out m' (trie_scan act mc age out m')"
    if "set m' \<subseteq> set m" "trie_wf (Node m')" for m' age out
    using that
  proof (induction m' arbitrary: age out)
    case Nil
    then show ?case by (auto simp: scanned_def cand_def)
  next
    case (Cons e m')
    obtain k t where e: "e = (k, t)" by (cases e)
    have rest: "scanned act mc age out m' (trie_scan act mc age out m')" for age out
      using Cons.prems(1) by (intro Cons.IH [OF _ trie_wf_tail [OF Cons.prems(2)]]) simp
    have wf: "trie_wf (Node ((k, t) # m'))" using Cons.prems by (simp add: e)
    have best: "best act (sub_mc k mc) age t (trie_find act (sub_mc k mc) age t)"
      using Cons.prems by (intro Node.IH [of "(k, t)"]) (auto simp: e)
    consider (out) f where "mc = Some f" "f < k"
      | (none) "act k = None" "\<And>f. mc = Some f \<Longrightarrow> k \<le> f"
      | (old) age_this where "act k = Some age_this" "age \<le> age_this" "mc \<noteq> Some k" "\<And>f. mc = Some f \<Longrightarrow> k \<le> f"
      | (look) age_this where "act k = Some age_this" "\<not> (age \<le> age_this \<and> mc \<noteq> Some k)"
          "\<And>f. mc = Some f \<Longrightarrow> k \<le> f"
      by (cases "act k"; cases mc) (auto simp: not_less intro: leI)
    then show ?case
    proof cases
      case out
      have "age \<le> score act mc ks" if "cand1 act mc k t ks c" for ks c
        using that out path_above [OF wf, of k t] by (fastforce simp: cand1_def cand_def)
      with out show ?thesis
        using scanned_skip [OF rest] by (simp add: e)
    next
      case none
      have "age \<le> score act mc ks" if "cand1 act mc k t ks c" for ks c
        using that none by (auto simp: cand1_def cand_def)
      with none show ?thesis
        using scanned_skip [OF rest] by (simp add: e split: option.split)
    next
      case old
      have "age \<le> score act mc ks" if "cand1 act mc k t ks c" for ks c
        using that old by (auto simp: cand1_def cand_def le_max_iff_disj)
      with old show ?thesis
        using scanned_skip [OF rest] by (simp add: e split: option.split)
    next
      case look
      then show ?thesis
        unfolding e by (intro scan_step [OF wf _ _ _ best rest]) auto
    qed
  qed
  from this [of m age None] Node.prems show ?case
    by (auto simp: best_def scanned_def)
qed


subsection \<open>Insertion\<close>

definition hit :: "('k, 'c) trie \<Rightarrow> 'k set \<Rightarrow> bool" where
  "hit t A \<longleftrightarrow> (\<exists>ks c. path t ks c \<and> set ks \<subseteq> A)"

lemma hit_Leaf [simp]: "hit (Leaf c) A"
  by (simp add: hit_def)

lemma hit_Node: "om_wf m \<Longrightarrow> hit (Node m) A \<longleftrightarrow> (\<exists>k t. map_of m k = Some t \<and> k \<in> A \<and> hit t A)"
proof
  assume m: "om_wf m"
  show "hit (Node m) A \<Longrightarrow> \<exists>k t. map_of m k = Some t \<and> k \<in> A \<and> hit t A"
  proof -
    assume "hit (Node m) A"
    then obtain k t ks c where "(k, t) \<in> set m" "path t ks c" "set (k # ks) \<subseteq> A"
      by (auto simp: hit_def)
    then have "map_of m k = Some t" "k \<in> A" "hit t A"
      using m by (auto simp: om.mem_iff_get hit_def)
    then show ?thesis by blast
  qed
  assume "\<exists>k t. map_of m k = Some t \<and> k \<in> A \<and> hit t A"
  then obtain k t ks c where "(k, t) \<in> set m" "k \<in> A" "path t ks c" "set ks \<subseteq> A"
    by (auto simp: hit_def dest: map_of_SomeD)
  then have "path (Node m) (k # ks) c" "set (k # ks) \<subseteq> A" by auto
  then show "hit (Node m) A" unfolding hit_def by blast
qed

lemma trie_wf_get: "trie_wf (Node m) \<Longrightarrow> map_of m k = Some t \<Longrightarrow> trie_wf t \<and> (\<forall>h \<in> heads t. k < h)"
  by (auto dest: map_of_SomeD)

lemma heads_insert: "heads (trie_insert ks con t) \<subseteq> heads t \<union> set (take 1 ks)"
  by (induction ks con t rule: trie_insert.induct) auto

lemma set_om_insert: "set (om_insert k v m) \<subseteq> insert (k, v) (set m)"
  by (induction k v m rule: om_insert.induct) auto

lemma trie_wf_insert:
  "trie_wf t \<Longrightarrow> sorted_wrt (<) ks \<Longrightarrow> trie_wf (trie_insert ks con t)"
proof (induction ks con t rule: trie_insert.induct)
  case (3 k ks con m)
  define t where "t = (case map_of m k of None \<Rightarrow> Node [] | Some t \<Rightarrow> t)"
  have t: "trie_wf t \<and> (\<forall>h \<in> heads t. k < h)"
    using trie_wf_get [OF 3(2)] by (auto simp: t_def split: option.splits)
  have "trie_wf (trie_insert ks con t)"
    using 3 t by (simp add: t_def)
  moreover have "\<forall>h \<in> heads (trie_insert ks con t). k < h"
    using heads_insert [of ks con t] t 3(3) by (cases ks) auto
  moreover have "om_wf m" using 3(2) by simp
  ultimately show ?case
    using 3(2) set_om_insert [of k "trie_insert ks con t" m]
    unfolding trie_insert.simps t_def [symmetric] trie_wf_simps
    by (fastforce intro: om_wf_insert)
qed simp_all

lemma hit_insert: "trie_wf t \<Longrightarrow> hit (trie_insert ks con t) A \<longleftrightarrow> hit t A \<or> set ks \<subseteq> A"
proof (induction ks con t rule: trie_insert.induct)
  case (3 k ks con m)
  define t where "t = (case map_of m k of None \<Rightarrow> Node [] | Some t \<Rightarrow> t)"
  have m: "om_wf m" using 3(2) by simp
  have "trie_wf t"
    using trie_wf_get [OF 3(2)] by (auto simp: t_def split: option.splits)
  with 3 have t: "hit (trie_insert ks con t) A \<longleftrightarrow> hit t A \<or> set ks \<subseteq> A" by (simp add: t_def)
  have "hit t A \<longleftrightarrow> (\<exists>t'. map_of m k = Some t' \<and> hit t' A)"
    by (auto simp: t_def hit_def split: option.split)
  then show ?case
    unfolding trie_insert.simps t_def [symmetric]
    by (auto simp: hit_Node [OF m] hit_Node [OF om_wf_insert [OF m]] get_om_insert [OF m] t)
qed simp_all

definition leaves_ok :: "('k, 'c) trie \<Rightarrow> 'k list \<Rightarrow> bool" where
  "leaves_ok t pre \<longleftrightarrow> (\<forall>ks c. path t ks c \<longrightarrow> map fst c = pre @ ks)"

lemma leaves_ok_insert:
  "trie_wf t \<Longrightarrow> leaves_ok t pre \<Longrightarrow> map fst con = pre @ ks \<Longrightarrow> leaves_ok (trie_insert ks con t) pre"
proof (induction ks con t arbitrary: pre rule: trie_insert.induct)
  case (3 k ks con m)
  define t where "t = (case map_of m k of None \<Rightarrow> Node [] | Some t \<Rightarrow> t)"
  have wf: "trie_wf t"
    using trie_wf_get [OF 3(2)] by (auto simp: t_def split: option.splits)
  have "leaves_ok t (pre @ [k])"
    using 3(3) map_of_SomeD [of m k]
    by (cases "map_of m k") (force simp: leaves_ok_def t_def)+
  with wf 3(1,4) have t: "leaves_ok (trie_insert ks con t) (pre @ [k])" by (simp add: t_def)
  have "map fst c = pre @ k' # ks'"
    if "(k', t') \<in> set (om_insert k (trie_insert ks con t) m)" "path t' ks' c" for k' t' ks' c
  proof (cases "(k', t') \<in> set m")
    case True
    then have "path (Node m) (k' # ks') c" using that(2) by (rule path.node)
    with 3(3) show ?thesis unfolding leaves_ok_def by blast
  next
    case False
    with that(1) set_om_insert [of k "trie_insert ks con t" m]
    have "k' = k" "t' = trie_insert ks con t" by auto
    with that(2) t show ?thesis by (simp add: leaves_ok_def)
  qed
  then show ?case
    unfolding trie_insert.simps t_def [symmetric] leaves_ok_def by auto
qed (auto simp: leaves_ok_def)


subsection \<open>The interface of the store\<close>

text \<open>
  What the resolver relies on: a store answers whether it knows a conflict among a set of
  active packages, and adding a conflict adds exactly the sets that contain it.
\<close>

locale conflict_store =
  fixes empty :: 't
    and add :: "('k \<times> 'c) list \<Rightarrow> 't \<Rightarrow> 't"
    and inv :: "'t \<Rightarrow> bool"
    and known :: "'t \<Rightarrow> 'k set \<Rightarrow> bool"
    and valid :: "('k \<times> 'c) list \<Rightarrow> bool"
  assumes inv_empty: "inv empty"
    and inv_add: "inv t \<Longrightarrow> valid con \<Longrightarrow> inv (add con t)"
    and known_empty: "\<not> known empty A"
    and known_add: "inv t \<Longrightarrow> valid con \<Longrightarrow> known (add con t) A \<longleftrightarrow> known t A \<or> fst ` set con \<subseteq> A"
begin

lemma known_mono: "inv t \<Longrightarrow> valid con \<Longrightarrow> known t A \<Longrightarrow> known (add con t) A"
  by (simp add: known_add)

lemma inv_fold: "inv t \<Longrightarrow> \<forall>con \<in> set cons. valid con \<Longrightarrow> inv (fold add cons t)"
  by (induction cons arbitrary: t) (auto simp: inv_add)

lemma known_fold:
  "inv t \<Longrightarrow> \<forall>con \<in> set cons. valid con \<Longrightarrow>
     known (fold add cons t) A \<longleftrightarrow> known t A \<or> (\<exists>con \<in> set cons. fst ` set con \<subseteq> A)"
  by (induction cons arbitrary: t) (auto simp: inv_add known_add)

lemma known_all:
  "\<forall>con \<in> set cons. valid con \<Longrightarrow>
     known (fold add cons empty) A \<longleftrightarrow> (\<exists>con \<in> set cons. fst ` set con \<subseteq> A)"
  by (simp add: known_fold [OF inv_empty] known_empty)

end

definition store_add :: "('k::linorder \<times> 'c) list \<Rightarrow> ('k, 'c) trie \<Rightarrow> ('k, 'c) trie" where
  "store_add con t = trie_insert (map fst con) con t"

definition store_inv :: "('k::linorder, 'c) trie \<Rightarrow> bool" where
  "store_inv t \<longleftrightarrow> trie_wf t \<and> leaves_ok t []"

interpretation tr: conflict_store "Node []" store_add store_inv hit om_wf
proof unfold_locales
  fix t :: "('a::linorder, 'b) trie" and con :: "('a \<times> 'b) list" and A :: "'a set"
  show "store_inv (Node [])" by (simp add: store_inv_def leaves_ok_def)
  show "\<not> hit (Node []) A" by (simp add: hit_def)
  assume t: "store_inv t" and con: "om_wf con"
  then show "store_inv (store_add con t)"
    by (simp add: store_inv_def store_add_def om_wf_def trie_wf_insert leaves_ok_insert)
  show "hit (store_add con t) A \<longleftrightarrow> hit t A \<or> fst ` set con \<subseteq> A"
    using t by (simp add: store_inv_def store_add_def hit_insert)
qed

lemma find_hit:
  assumes wf: "trie_wf t" and max: "\<And>k a. act k = Some a \<Longrightarrow> a < max_age" "0 < max_age"
  shows "trie_find act None max_age t \<noteq> None \<longleftrightarrow> hit t {k. act k \<noteq> None}"
proof -
  have less: "score act None ks < max_age" if "\<forall>k \<in> set ks. act k \<noteq> None" for ks
    using that max by (induction ks) auto
  have b: "best act None max_age t (trie_find act None max_age t)"
    by (rule trie_find_best [OF wf])
  show ?thesis
  proof
    assume "trie_find act None max_age t \<noteq> None"
    then obtain c a where "trie_find act None max_age t = Some (c, a)" by auto
    with b show "hit t {k. act k \<noteq> None}"
      by (auto simp: best_def cand_def hit_def)
  next
    assume "hit t {k. act k \<noteq> None}"
    then obtain ks c where "cand act None t ks c" "\<forall>k \<in> set ks. act k \<noteq> None"
      by (auto simp: hit_def cand_def)
    with less [of ks] b show "trie_find act None max_age t \<noteq> None"
      by (cases "trie_find act None max_age t") (auto simp: best_def not_le [symmetric])
  qed
qed

lemma cache_fold_get:
  "map_of (con_from_dep (fold (cache_insert dep) cons cc)) dep =
     (case cons of [] \<Rightarrow> map_of (con_from_dep cc) dep
      | _ \<Rightarrow> Some (fold store_add cons (case map_of (con_from_dep cc) dep of None \<Rightarrow> Node [] | Some t \<Rightarrow> t)))"
  by (induction cons arbitrary: cc)
    (auto simp: cache_insert_def get_hm_insert store_add_def split: list.split)

subsection \<open>Properties\<close>

text \<open>
  C15: after any sequence of insertions for a dependency, the cache reports a conflict exactly
  when all packages of one of the inserted conflicts are active; skipping or replacing subsumed
  sets loses nothing.
\<close>

theorem conflict_cache_complete:
  assumes "\<forall>con \<in> set cons. om_wf con" and "\<And>k a. act k = Some a \<Longrightarrow> a < max_age" and "0 < max_age"
  shows "conflicting (fold (cache_insert dep) cons cache_new) max_age act dep \<noteq> None \<longleftrightarrow>
    (\<exists>con \<in> set cons. \<forall>(k, r) \<in> set con. act k \<noteq> None)"
proof -
  let ?t = "fold store_add cons (Node [])"
  have "store_inv ?t" by (rule tr.inv_fold [OF tr.inv_empty assms(1)])
  then have "trie_find act None max_age ?t \<noteq> None \<longleftrightarrow> hit ?t {k. act k \<noteq> None}"
    by (intro find_hit) (auto simp: store_inv_def assms)
  also have "\<dots> \<longleftrightarrow> (\<exists>con \<in> set cons. fst ` set con \<subseteq> {k. act k \<noteq> None})"
    by (rule tr.known_all [OF assms(1)])
  finally have *: "trie_find act None max_age ?t \<noteq> None \<longleftrightarrow>
      (\<exists>con \<in> set cons. fst ` set con \<subseteq> {k. act k \<noteq> None})" .
  have "conflicting (fold (cache_insert dep) cons cache_new) max_age act dep \<noteq> None \<longleftrightarrow>
      cons \<noteq> [] \<and> trie_find act None max_age ?t \<noteq> None"
    unfolding conflicting_def find_conflicting_def cache_find_def cache_fold_get
    by (cases cons) (simp_all add: cache_new_def del: fold_simps)
  also have "\<dots> \<longleftrightarrow> (\<exists>con \<in> set cons. fst ` set con \<subseteq> {k. act k \<noteq> None})"
    unfolding * by (cases cons) simp_all
  finally show ?thesis by (auto simp: image_subset_iff split_def simp del: fold_simps)
qed

theorem conflict_cache_complete_witness:
  "conflicting (fold (cache_insert ()) [[(1::nat, CHR ''s''), (4, CHR ''l'')], [(1, CHR ''s'')]] cache_new)
     100 (\<lambda>k. if k = 1 then Some 7 else None) () \<noteq> None"
proof -
  have "\<forall>con \<in> set [[(1::nat, CHR ''s''), (4, CHR ''l'')], [(1, CHR ''s'')]]. om_wf con"
    by (simp add: om_wf_def)
  moreover have "a < 100" if "(if k = 1 then Some 7 else None) = Some a" for k a :: nat
    using that by (simp split: if_splits)
  ultimately show ?thesis
    by (subst conflict_cache_complete) auto
qed

text \<open>
  C17: what a search returns is a stored conflict whose packages are all active and which contains
  the required package, and no other such conflict has a smaller age, so the resolver can jump
  back as far as possible.
\<close>

theorem trie_find_most_jump_back:
  assumes "store_inv t" and "trie_find act mc max_age t = Some (c, a)" and "a < max_age"
  shows "path t (map fst c) c \<and> (\<forall>k \<in> fst ` set c. act k \<noteq> None) \<and> (\<forall>f. mc = Some f \<longrightarrow> f \<in> fst ` set c) \<and>
    a = score act mc (map fst c) \<and>
    (\<forall>ks c'. path t ks c' \<longrightarrow> (\<forall>k \<in> set ks. act k \<noteq> None) \<longrightarrow> (\<forall>f. mc = Some f \<longrightarrow> f \<in> set ks) \<longrightarrow>
       a \<le> score act mc ks)"
proof -
  have "best act mc max_age t (Some (c, a))"
    using trie_find_best [of t act mc max_age] assms(1,2) by (simp add: store_inv_def)
  then obtain ks where ks: "path t ks c" "\<forall>k \<in> set ks. act k \<noteq> None" "\<forall>f. mc = Some f \<longrightarrow> f \<in> set ks"
    "score act mc ks = a"
    and min: "\<And>ks c'. cand act mc t ks c' \<Longrightarrow> min max_age a \<le> score act mc ks"
    unfolding best_def cand_def option.case prod.case by blast
  have c: "map fst c = ks"
    using ks(1) assms(1) by (simp add: store_inv_def leaves_ok_def)
  then have "fst ` set c = set ks" by (metis set_map)
  moreover have "a \<le> score act mc ks'" if "cand act mc t ks' c'" for ks' c'
    using min [OF that] assms(3) by simp
  ultimately show ?thesis
    using c ks unfolding cand_def by simp
qed

theorem trie_find_most_jump_back_witness:
  "path (store_add [(2::nat, CHR ''s''), (3, CHR ''l'')] (Node [])) [2, 3] [(2, CHR ''s''), (3, CHR ''l'')]"
proof -
  have inv: "store_inv (store_add [(2::nat, CHR ''s''), (3, CHR ''l'')] (Node []))"
    by (rule tr.inv_add [OF tr.inv_empty]) (simp add: om_wf_def)
  have "trie_find (\<lambda>k. Some k) (Some 3) 100 (store_add [(2::nat, CHR ''s''), (3, CHR ''l'')] (Node [])) =
      Some ([(2, CHR ''s''), (3, CHR ''l'')], 2)"
    by (simp add: store_add_def)
  from trie_find_most_jump_back [OF inv this] show ?thesis by simp
qed

end
