(* ===== verification/DepCache.thy ===== *)
theory DepCache
  imports Summary
begin

section \<open>Requested features and required dependencies (src/resolver/dep_cache.rs)\<close>

text \<open>
  \<open>resolve_features\<close> computes, for one package and the features requested of it, the features
  that are enabled and the dependencies that have to be resolved, each with the features wanted of
  it. \<open>BTreeSet\<close>s of strings are sorted lists without duplicates (\<open>insort_insert\<close>), the
  \<open>HashSet\<close> of enabled features is a set, and the \<open>HashMap\<close> of required dependencies an
  association list. The recursion of \<open>require_feature\<close> is cut off at a depth: every nested
  call has added a feature of the table, so the length of the table plus one is enough
  (\<open>require_feature_owp\<close>).

  The specification is a closure: \<open>feature_step\<close> relates a feature to the features its values
  enable, \<open>fv_pairs\<close> says which dependencies and dependency features a value asks for.
  Error texts are not modelled; a \<open>Fatal\<close> error keeps the kind and the names.
\<close>

datatype conflict_reason =
    Semver
  | Links string
  | MissingFeature string
  | RequiredDependencyAsFeature string
  | NonImplicitDependencyAsFeature string

datatype requested_features =
    CliFeatures "feature_value list" bool bool
  | DepFeatures "string list" bool

record resolve_opts =
  dev_deps :: bool
  opt_features :: requested_features

record requirements =
  rq_deps :: "(string \<times> string list) list"
  rq_features :: "string set"

datatype requirement_error = ReqMissingFeature string | ReqMissingDependency string | ReqCycle string

definition rq_new :: requirements where
  "rq_new = \<lparr>rq_deps = [], rq_features = {}\<rparr>"

definition or_default :: "string \<Rightarrow> (string \<times> string list) list \<Rightarrow> string list" where
  "or_default k m = (case map_of m k of None \<Rightarrow> [] | Some v \<Rightarrow> v)"

definition require_dependency :: "string \<Rightarrow> requirements \<Rightarrow> requirements" where
  "require_dependency pkg r = r\<lparr>rq_deps := hm_insert pkg (or_default pkg (rq_deps r)) (rq_deps r)\<rparr>"

definition require_dep_feature ::
  "(string \<Rightarrow> requirements \<Rightarrow> (requirement_error, requirements) outcome) \<Rightarrow> ('p, 'b, 's) summary \<Rightarrow>
   string \<Rightarrow> string \<Rightarrow> bool \<Rightarrow> requirements \<Rightarrow> (requirement_error, requirements) outcome" where
  "require_dep_feature require_feature s package feat weak r =
     obind (if \<not> weak \<and> list_ex (\<lambda>dep. name_in_toml dep = package \<and> dep_optional dep) (sum_dependencies s) \<and>
               map_of (sum_features s) package \<noteq> None
            then require_feature package r else Ok r)
       (\<lambda>r. Ok (r\<lparr>rq_deps := hm_insert package (insort_insert feat (or_default package (rq_deps r))) (rq_deps r)\<rparr>))"

definition require_value ::
  "(string \<Rightarrow> requirements \<Rightarrow> (requirement_error, requirements) outcome) \<Rightarrow> ('p, 'b, 's) summary \<Rightarrow>
   feature_value \<Rightarrow> requirements \<Rightarrow> (requirement_error, requirements) outcome" where
  "require_value require_feature s fv r =
     (case fv of
        Feature feat \<Rightarrow> require_feature feat r
      | Dep dname \<Rightarrow> Ok (require_dependency dname r)
      | DepFeature dname dep_feature weak \<Rightarrow> require_dep_feature require_feature s dname dep_feature weak r)"

fun require_feature ::
  "nat \<Rightarrow> ('p, 'b, 's) summary \<Rightarrow> string \<Rightarrow> requirements \<Rightarrow> (requirement_error, requirements) outcome" where
  "require_feature 0 s feat r = OutOfFuel"
| "require_feature (Suc n) s feat r =
     (if feat \<in> rq_features r then Ok r
      else let r = r\<lparr>rq_features := insert feat (rq_features r)\<rparr>
           in case map_of (sum_features s) feat of
                None \<Rightarrow> Err (ReqMissingFeature feat)
              | Some fvs \<Rightarrow>
                  ofold (\<lambda>fv r. if fv = Feature feat then Err (ReqCycle feat)
                                else require_value (require_feature n s) s fv r) fvs r)"

definition feature_depth :: "('p, 'b, 's) summary \<Rightarrow> nat" where
  "feature_depth s = Suc (length (sum_features s))"

definition handle_default ::
  "('p, 'b, 's) summary \<Rightarrow> bool \<Rightarrow> requirements \<Rightarrow> (requirement_error, requirements) outcome" where
  "handle_default s uses_default_features r =
     (if uses_default_features \<and> map_of (sum_features s) ''default'' \<noteq> None
      then require_feature (feature_depth s) s ''default'' r else Ok r)"

definition requirements_of ::
  "('p, 'b, 's) summary \<Rightarrow> resolve_opts \<Rightarrow> (requirement_error, requirements) outcome" where
  "requirements_of s opts =
     (case opt_features opts of
        CliFeatures features all_features uses_default_features \<Rightarrow>
          obind (if all_features then ofold (require_feature (feature_depth s) s) (map fst (sum_features s)) rq_new else Ok rq_new)
            (\<lambda>r. obind (ofold (require_value (require_feature (feature_depth s) s) s) features r)
            (handle_default s uses_default_features))
      | DepFeatures features uses_default_features \<Rightarrow>
          obind (ofold (require_feature (feature_depth s) s) features rq_new)
            (handle_default s uses_default_features))"

datatype fatal_error =
    NoSuchFeature string
  | HiddenDependencyAsFeature string "string list" bool
  | RequiredDependencyFeature string
  | NoSuchDependency string
  | CyclicFeature string
  | DuplicateLinks string
  | QueryFailed string

datatype ('p, 'b, 's) activate_error =
    Fatal fatal_error
  | Conflict "('p, 'b, 's) package_id" conflict_reason

definition features_enabling_dependency_sorted :: "('p, 'b, 's) summary \<Rightarrow> string \<Rightarrow> string list" where
  "features_enabling_dependency_sorted s target_dep =
     map fst (filter (\<lambda>(_, values). list_ex (\<lambda>v. case v of
          Dep d \<Rightarrow> d = target_dep
        | DepFeature d _ weak \<Rightarrow> \<not> weak \<and> d = target_dep
        | Feature _ \<Rightarrow> False) values) (sum_features s))"

definition into_activate_error ::
  "('p, 'b, 's) package_id option \<Rightarrow> ('p, 'b, 's) summary \<Rightarrow> requirement_error \<Rightarrow> ('p, 'b, 's) activate_error" where
  "into_activate_error parent s e =
     (case e of
        ReqMissingFeature feat \<Rightarrow>
          let deps = filter (\<lambda>dep. name_in_toml dep = feat) (sum_dependencies s)
          in if deps = [] then
               (case parent of None \<Rightarrow> Fatal (NoSuchFeature feat) | Some p \<Rightarrow> Conflict p (MissingFeature feat))
             else if list_ex dep_optional deps then
               (case parent of
                  None \<Rightarrow> let features = features_enabling_dependency_sorted s feat
                           in Fatal (HiddenDependencyAsFeature feat (take 3 features) (drop 3 features \<noteq> []))
                | Some p \<Rightarrow> Conflict p (NonImplicitDependencyAsFeature feat))
             else
               (case parent of
                  None \<Rightarrow> Fatal (RequiredDependencyFeature feat)
                | Some p \<Rightarrow> Conflict p (RequiredDependencyAsFeature feat))
      | ReqMissingDependency dname \<Rightarrow>
          (case parent of None \<Rightarrow> Fatal (NoSuchDependency dname) | Some p \<Rightarrow> Conflict p (MissingFeature dname))
      | ReqCycle feat \<Rightarrow> Fatal (CyclicFeature feat))"

definition build_requirements ::
  "('p, 'b, 's) package_id option \<Rightarrow> ('p, 'b, 's) summary \<Rightarrow> resolve_opts \<Rightarrow>
   (('p, 'b, 's) activate_error, requirements) outcome" where
  "build_requirements parent s opts = map_err (into_activate_error parent s) (requirements_of s opts)"

definition wanted_features :: "requirements \<Rightarrow> ('p, 'b, 's) dependency \<Rightarrow> string list" where
  "wanted_features r dep = fold insort_insert (dep_features dep) (or_default (name_in_toml dep) (rq_deps r))"

definition resolve_features ::
  "('p, 'b, 's) package_id option \<Rightarrow> ('p, 'b, 's) summary \<Rightarrow> resolve_opts \<Rightarrow>
   (('p, 'b, 's) activate_error, string set \<times> (('p, 'b, 's) dependency \<times> string list) list) outcome" where
  "resolve_features parent s opts =
     (let deps = filter (\<lambda>d. is_transitive d \<or> dev_deps opts) (sum_dependencies s)
      in obind (build_requirements parent s opts) (\<lambda>reqs.
           let used = filter (\<lambda>dep. \<not> (dep_optional dep \<and> map_of (rq_deps reqs) (name_in_toml dep) = None)) deps;
               ret = map (\<lambda>dep. (dep, wanted_features reqs dep)) used;
               valid_dep_names = map name_in_toml used
           in if parent = None then
                (case find (\<lambda>dname. dname \<notin> set valid_dep_names) (map fst (rq_deps reqs)) of
                   Some dname \<Rightarrow> Err (into_activate_error parent s (ReqMissingDependency dname))
                 | None \<Rightarrow> Ok (rq_features reqs, ret))
              else Ok (rq_features reqs, ret)))"

text \<open>
  \<open>build_deps\<close> asks the registry for the candidates of every dependency and puts the
  dependencies with the fewest candidates first. \<open>query\<close> is the registry once all its answers
  are ready: the candidates or a failure.
\<close>

type_synonym ('p, 'b, 's) dep_info =
  "('p, 'b, 's) dependency \<times> ('p, 'b, 's) summary list \<times> string list"

definition build_deps ::
  "(('p, 'b, 's) dependency \<Rightarrow> ('p, 'b, 's) summary list option) \<Rightarrow>
   ('p, 'b, 's) package_id option \<Rightarrow> ('p, 'b, 's) summary \<Rightarrow> resolve_opts \<Rightarrow>
   (('p, 'b, 's) activate_error, string set \<times> ('p, 'b, 's) dep_info list) outcome" where
  "build_deps query parent candidate opts =
     obind (resolve_features parent candidate opts) (\<lambda>(used_features, deps).
     obind (ofold (\<lambda>(dep, features) acc.
         case query dep of
           Some candidates \<Rightarrow> Ok (acc @ [(dep, candidates, features)])
         | None \<Rightarrow> Err (Fatal (QueryFailed (dep_name dep)))) deps []) (\<lambda>infos.
       Ok (used_features, sort_key (\<lambda>(_, a, _). length a) infos)))"

subsection \<open>The closure of a feature table\<close>

definition keys_of :: "('p, 'b, 's) summary \<Rightarrow> string set" where
  "keys_of s = fst ` set (sum_features s)"

definition fv_features :: "('p, 'b, 's) summary \<Rightarrow> feature_value \<Rightarrow> string set" where
  "fv_features s fv = (case fv of
     Feature f \<Rightarrow> {f}
   | Dep d \<Rightarrow> {}
   | DepFeature d f weak \<Rightarrow>
       if \<not> weak \<and> (\<exists>dep \<in> set (sum_dependencies s). name_in_toml dep = d \<and> dep_optional dep) \<and> d \<in> keys_of s
       then {d} else {})"

definition fv_pairs :: "feature_value \<Rightarrow> (string \<times> string option) set" where
  "fv_pairs fv = (case fv of
     Feature f \<Rightarrow> {} | Dep d \<Rightarrow> {(d, None)} | DepFeature d f weak \<Rightarrow> {(d, None), (d, Some f)})"

definition values_of :: "('p, 'b, 's) summary \<Rightarrow> string \<Rightarrow> feature_value set" where
  "values_of s f = (case map_of (sum_features s) f of None \<Rightarrow> {} | Some fvs \<Rightarrow> set fvs)"

definition feature_step :: "('p, 'b, 's) summary \<Rightarrow> (string \<times> string) set" where
  "feature_step s = {(f, g). \<exists>fv \<in> values_of s f. g \<in> fv_features s fv}"

definition well_defined :: "('p, 'b, 's) summary \<Rightarrow> string \<Rightarrow> bool" where
  "well_defined s f \<longleftrightarrow> f \<in> keys_of s \<and> Feature f \<notin> values_of s f"

definition rq_pairs :: "requirements \<Rightarrow> (string \<times> string option) set" where
  "rq_pairs r = {(d, None) | d. map_of (rq_deps r) d \<noteq> None} \<union>
     {(d, Some f) | d f. f \<in> set (or_default d (rq_deps r))}"

text \<open>
  \<open>grown s A C r r'\<close>: the run from \<open>r\<close> to \<open>r'\<close> enabled the features \<open>A\<close>, what
  they reach and nothing else; the new features are closed under the table; and the required
  dependencies grew by \<open>C\<close> and by what the values of the new features ask for.
\<close>

definition grown ::
  "('p, 'b, 's) summary \<Rightarrow> string set \<Rightarrow> (string \<times> string option) set \<Rightarrow> requirements \<Rightarrow> requirements \<Rightarrow> bool" where
  "grown s A C r r' \<longleftrightarrow>
     rq_features r \<subseteq> rq_features r' \<and> A \<subseteq> rq_features r' \<and>
     rq_features r' - rq_features r \<subseteq> (feature_step s)\<^sup>* `` A \<and>
     (\<forall>f \<in> rq_features r' - rq_features r. well_defined s f \<and> feature_step s `` {f} \<subseteq> rq_features r') \<and>
     rq_pairs r' = rq_pairs r \<union> C \<union> (\<Union>f \<in> rq_features r' - rq_features r. \<Union>(fv_pairs ` values_of s f))"

definition rejected :: "('p, 'b, 's) summary \<Rightarrow> string set \<Rightarrow> requirement_error \<Rightarrow> bool" where
  "rejected s A e \<longleftrightarrow> (case e of
     ReqMissingFeature f \<Rightarrow> f \<in> (feature_step s)\<^sup>* `` A \<and> f \<notin> keys_of s
   | ReqCycle f \<Rightarrow> f \<in> (feature_step s)\<^sup>* `` A \<and> Feature f \<in> values_of s f
   | ReqMissingDependency d \<Rightarrow> False)"

lemma rejected_mono:
  assumes "rejected s A e" and "(feature_step s)\<^sup>* `` A \<subseteq> (feature_step s)\<^sup>* `` B"
  shows "rejected s B e"
  using assms by (cases e) (auto simp: rejected_def)

lemma reach_values:
  "A \<subseteq> \<Union>(fv_features s ` values_of s f) \<Longrightarrow> (feature_step s)\<^sup>* `` A \<subseteq> (feature_step s)\<^sup>* `` {f}"
  by (auto 4 3 simp: feature_step_def intro: converse_rtrancl_into_rtrancl)

lemma grown_refl: "A \<subseteq> rq_features r \<Longrightarrow> grown s A {} r r"
  by (simp add: grown_def)

lemma grown_trans:
  assumes 1: "grown s A C r r1" and 2: "grown s B D r1 r2"
  shows "grown s (A \<union> B) (C \<union> D) r r2"
proof -
  let ?F = "rq_features r" and ?F1 = "rq_features r1" and ?F2 = "rq_features r2"
  let ?c = "\<lambda>X. \<Union>f \<in> X. \<Union>(fv_pairs ` values_of s f)"
  note a = 1 [unfolded grown_def] and b = 2 [unfolded grown_def]
  from a b have sub: "?F \<subseteq> ?F1" "?F1 \<subseteq> ?F2" by simp_all
  then have split: "?F2 - ?F = (?F1 - ?F) \<union> (?F2 - ?F1)" by blast
  have "(feature_step s)\<^sup>* `` (A \<union> B) = (feature_step s)\<^sup>* `` A \<union> (feature_step s)\<^sup>* `` B" by blast
  with a b have "?F2 - ?F \<subseteq> (feature_step s)\<^sup>* `` (A \<union> B)"
    unfolding split by (simp add: le_supI1 le_supI2)
  moreover have "rq_pairs r2 = rq_pairs r \<union> (C \<union> D) \<union> ?c (?F2 - ?F)"
    using a b unfolding split UN_Un by (simp only: Un_ac)
  moreover have "well_defined s f \<and> feature_step s `` {f} \<subseteq> ?F2" if "f \<in> ?F2 - ?F" for f
  proof (cases "f \<in> ?F1 - ?F")
    case True
    then have "well_defined s f \<and> feature_step s `` {f} \<subseteq> ?F1" using a by simp
    then show ?thesis using sub(2) by auto
  next
    case False
    with that have "f \<in> ?F2 - ?F1" by blast
    then show ?thesis using b by simp
  qed
  moreover have "A \<union> B \<subseteq> ?F2" "?F \<subseteq> ?F2"
    using a b sub by auto
  ultimately show ?thesis unfolding grown_def by simp
qed

lemma grown_enter:
  assumes new: "feat \<notin> rq_features r" and get: "map_of (sum_features s) feat = Some fvs"
    and no_loop: "Feature feat \<notin> set fvs"
    and run: "grown s (\<Union>(fv_features s ` set fvs)) (\<Union>(fv_pairs ` set fvs)) (r\<lparr>rq_features := insert feat (rq_features r)\<rparr>) r'"
  shows "grown s {feat} {} r r'"
proof -
  let ?F = "rq_features r" and ?F' = "rq_features r'"
  note a = run [unfolded grown_def, simplified]
  have vals: "values_of s feat = set fvs" using get by (simp add: values_of_def)
  have step: "feature_step s `` {feat} = \<Union>(fv_features s ` set fvs)"
    by (auto simp: feature_step_def vals)
  have key: "feat \<in> keys_of s"
    using get by (force simp: keys_of_def dest: map_of_SomeD)
  have split: "?F' - ?F = insert feat (?F' - insert feat ?F)"
    using a new by blast
  have "(feature_step s)\<^sup>* `` (feature_step s `` {feat}) \<subseteq> (feature_step s)\<^sup>* `` {feat}"
    by (auto intro: converse_rtrancl_into_rtrancl)
  then have "?F' - insert feat ?F \<subseteq> (feature_step s)\<^sup>* `` {feat}"
    using a order_trans unfolding step by metis
  then have "?F' - ?F \<subseteq> (feature_step s)\<^sup>* `` {feat}"
    unfolding split by simp
  moreover have "well_defined s f \<and> feature_step s `` {f} \<subseteq> ?F'" if "f \<in> ?F' - ?F" for f
  proof (cases "f = feat")
    case True
    then show ?thesis using a key no_loop by (auto simp: well_defined_def vals step)
  next
    case False
    with that show ?thesis using a by blast
  qed
  moreover have "rq_pairs (r\<lparr>rq_features := insert feat ?F\<rparr>) = rq_pairs r" by (simp add: rq_pairs_def)
  ultimately show ?thesis
    using a unfolding grown_def split by (simp add: vals Un_ac)
qed

subsection \<open>The recursion computes the closure\<close>

lemma rq_pairs_mem:
  "(d, None) \<in> rq_pairs r \<longleftrightarrow> map_of (rq_deps r) d \<noteq> None"
  "(d, Some f) \<in> rq_pairs r \<longleftrightarrow> f \<in> set (or_default d (rq_deps r))"
  by (simp_all add: rq_pairs_def)

lemma pairs_eqI:
  "(\<And>d. (d, None) \<in> A \<longleftrightarrow> (d, None) \<in> B) \<Longrightarrow> (\<And>d f. (d, Some f) \<in> A \<longleftrightarrow> (d, Some f) \<in> B) \<Longrightarrow> A = B"
  by (metis option.exhaust subset_antisym subrelI)

lemma rq_pairs_dependency:
  "rq_pairs (require_dependency d r) = insert (d, None) (rq_pairs r)"
  by (rule pairs_eqI) (auto simp: rq_pairs_mem require_dependency_def get_hm_insert or_default_def)

lemma rq_pairs_dep_feature:
  "rq_pairs (r\<lparr>rq_deps := hm_insert d (insort_insert f (or_default d (rq_deps r))) (rq_deps r)\<rparr>) =
     insert (d, None) (insert (d, Some f) (rq_pairs r))"
  by (rule pairs_eqI) (auto simp: rq_pairs_mem get_hm_insert or_default_def set_insort_insert)

lemma require_value_owp:
  assumes rf: "\<And>feat. owp False (rf feat r) (grown s {feat} {} r) (rejected s {feat})"
  shows "owp False (require_value rf s fv r) (grown s (fv_features s fv) (fv_pairs fv) r) (rejected s (fv_features s fv))"
proof (cases fv)
  case (Feature f)
  then show ?thesis using rf [of f] by (simp add: require_value_def fv_features_def fv_pairs_def)
next
  case (Dep d)
  have "rq_features (require_dependency d r) = rq_features r" by (simp add: require_dependency_def)
  with Dep show ?thesis
    by (simp add: require_value_def fv_features_def fv_pairs_def grown_def rq_pairs_dependency)
next
  case (DepFeature d f weak)
  let ?g = "\<not> weak \<and> (\<exists>dep \<in> set (sum_dependencies s). name_in_toml dep = d \<and> dep_optional dep) \<and> d \<in> keys_of s"
  have guard: "?g \<longleftrightarrow> \<not> weak \<and> list_ex (\<lambda>dep. name_in_toml dep = d \<and> dep_optional dep) (sum_dependencies s) \<and>
      map_of (sum_features s) d \<noteq> None"
    by (simp add: list_ex_iff keys_of_def map_of_eq_None_iff)
  have feats: "fv_features s fv = (if ?g then {d} else {})" by (simp add: DepFeature fv_features_def)
  have "owp False (if b then rf d r else Ok r) (grown s (if b then {d} else {}) {} r)
      (rejected s (if b then {d} else {}))" for b
    using rf [of d] by (simp add: grown_refl)
  then have first: "owp False (if ?g then rf d r else Ok r) (grown s (fv_features s fv) {} r) (rejected s (fv_features s fv))"
    unfolding feats .
  have next': "grown s {} (fv_pairs fv) r1 (r1\<lparr>rq_deps := hm_insert d (insort_insert f (or_default d (rq_deps r1))) (rq_deps r1)\<rparr>)" for r1
    using rq_pairs_dep_feature [where r = r1 and d = d and f = f] by (auto simp: grown_def DepFeature fv_pairs_def)
  have "owp False (obind (if ?g then rf d r else Ok r)
      (\<lambda>r. Ok (r\<lparr>rq_deps := hm_insert d (insort_insert f (or_default d (rq_deps r))) (rq_deps r)\<rparr>)))
      (grown s (fv_features s fv) (fv_pairs fv) r) (rejected s (fv_features s fv))"
  proof (rule owp_bind, rule owp_mono [OF first], unfold owp.simps)
    fix r1
    assume "grown s (fv_features s fv) {} r r1"
    from grown_trans [OF this next'] show "grown s (fv_features s fv) (fv_pairs fv) r
        (r1\<lparr>rq_deps := hm_insert d (insort_insert f (or_default d (rq_deps r1))) (rq_deps r1)\<rparr>)" by simp
  qed
  then show ?thesis
    unfolding guard by (simp add: DepFeature require_value_def require_dep_feature_def)
qed

lemma ofold_grown:
  assumes "\<And>x r'. x \<in> set xs \<Longrightarrow> rq_features r \<subseteq> rq_features r' \<Longrightarrow>
      owp False (f x r') (grown s (A x) (C x) r') (rejected s (A x))"
  shows "owp False (ofold f xs r) (grown s (\<Union>(A ` set xs)) (\<Union>(C ` set xs)) r) (rejected s (\<Union>(A ` set xs)))"
  using assms
proof (induction xs arbitrary: r)
  case Nil
  then show ?case by (simp add: grown_refl)
next
  case (Cons x xs)
  have "owp False (f x r) (grown s (A x) (C x) r) (rejected s (A x))"
    using Cons.prems by simp
  then have "owp False (f x r) (\<lambda>r1. owp False (ofold f xs r1)
      (grown s (\<Union>(A ` set (x # xs))) (\<Union>(C ` set (x # xs))) r) (rejected s (\<Union>(A ` set (x # xs)))))
      (rejected s (\<Union>(A ` set (x # xs))))"
  proof (rule owp_mono)
    fix r1
    assume r1: "grown s (A x) (C x) r r1"
    then have "rq_features r \<subseteq> rq_features r1" by (simp add: grown_def)
    then have "owp False (ofold f xs r1) (grown s (\<Union>(A ` set xs)) (\<Union>(C ` set xs)) r1) (rejected s (\<Union>(A ` set xs)))"
      using Cons.prems by (intro Cons.IH) (auto intro: order_trans)
    then show "owp False (ofold f xs r1)
      (grown s (\<Union>(A ` set (x # xs))) (\<Union>(C ` set (x # xs))) r) (rejected s (\<Union>(A ` set (x # xs))))"
      by (rule owp_mono) (use grown_trans [OF r1] in \<open>auto elim!: rejected_mono\<close>)
  next
    fix e
    assume "rejected s (A x) e"
    then show "rejected s (\<Union>(A ` set (x # xs))) e"
      by (rule rejected_mono) auto
  qed
  then show ?case by (simp add: owp_bind)
qed

lemma require_feature_owp:
  "card (keys_of s - rq_features r) < n \<Longrightarrow>
     owp False (require_feature n s feat r) (grown s {feat} {} r) (rejected s {feat})"
proof (induction n arbitrary: feat r)
  case (Suc n)
  let ?r = "r\<lparr>rq_features := insert feat (rq_features r)\<rparr>"
  consider (seen) "feat \<in> rq_features r" | (missing) "feat \<notin> rq_features r" "map_of (sum_features s) feat = None"
    | (enter) fvs where "feat \<notin> rq_features r" "map_of (sum_features s) feat = Some fvs"
    by (cases "map_of (sum_features s) feat") auto
  then show ?case
  proof cases
    case seen
    then show ?thesis by (simp add: grown_refl)
  next
    case missing
    then have "feat \<notin> keys_of s" by (simp add: keys_of_def map_of_eq_None_iff)
    with missing show ?thesis by (auto simp: rejected_def)
  next
    case enter
    let ?body = "\<lambda>fv r. if fv = Feature feat then Err (ReqCycle feat) else require_value (require_feature n s) s fv r"
    have key: "feat \<in> keys_of s" using enter by (force simp: keys_of_def dest: map_of_SomeD)
    have vals: "values_of s feat = set fvs" using enter by (simp add: values_of_def)
    have fin: "finite (keys_of s)" by (simp add: keys_of_def)
    have less: "card (keys_of s - rq_features r') < n" if "rq_features ?r \<subseteq> rq_features r'" for r'
    proof -
      have "keys_of s - rq_features r' \<subset> keys_of s - rq_features r" using that key enter(1) by auto
      then have "card (keys_of s - rq_features r') < card (keys_of s - rq_features r)"
        using fin by (intro psubset_card_mono) auto
      then show ?thesis using Suc.prems by simp
    qed
    have val: "owp False (require_value (require_feature n s) s fv r')
        (grown s (fv_features s fv) (fv_pairs fv) r') (rejected s (fv_features s fv))"
      if "rq_features ?r \<subseteq> rq_features r'" for fv r'
      by (rule require_value_owp) (rule Suc.IH [OF less [OF that]])
    have ok: ?thesis if "Feature feat \<notin> set fvs"
    proof -
      have "owp False (ofold ?body fvs ?r) (grown s (\<Union>(fv_features s ` set fvs)) (\<Union>(fv_pairs ` set fvs)) ?r)
          (rejected s (\<Union>(fv_features s ` set fvs)))"
        by (rule ofold_grown) (use that val in \<open>auto\<close>)
      then have "owp False (ofold ?body fvs ?r) (grown s {feat} {} r) (rejected s {feat})"
        by (rule owp_mono)
          (auto intro: grown_enter [OF enter that] elim!: rejected_mono [OF _ reach_values] simp: vals)
      then show ?thesis using enter by simp
    qed
    moreover have ?thesis if cyc: "Feature feat \<in> set fvs"
    proof -
      let ?I = "\<lambda>ys r'. rq_features ?r \<subseteq> rq_features r' \<and> Feature feat \<in> set ys"
      have "owp False (?body fv r') (?I ys) (rejected s {feat})" if "?I (fv # ys) r'" "fv \<in> set fvs" for fv ys r'
      proof (cases "fv = Feature feat")
        case True
        with cyc show ?thesis by (auto simp: rejected_def vals)
      next
        case False
        then have "owp False (?body fv r') (grown s (fv_features s fv) (fv_pairs fv) r') (rejected s (fv_features s fv))"
          using val that(1) by simp
        then show ?thesis
          by (rule owp_mono) (use that False in \<open>auto simp: grown_def vals elim!: rejected_mono [OF _ reach_values]\<close>)
      qed
      then have "owp False (ofold ?body fvs ?r) (?I []) (rejected s {feat})"
        using cyc by (intro owp_ofold [where I = ?I]) auto
      then have "owp False (ofold ?body fvs ?r) (grown s {feat} {} r) (rejected s {feat})"
        by (rule owp_mono) auto
      then show ?thesis using enter by simp
    qed
    ultimately show ?thesis by blast
  qed
qed simp

lemma require_feature_top:
  "owp False (require_feature (feature_depth s) s feat r) (grown s {feat} {} r) (rejected s {feat})"
proof (rule require_feature_owp)
  have "card (keys_of s - rq_features r) \<le> card (keys_of s)"
    by (intro card_mono) (auto simp: keys_of_def)
  also have "\<dots> \<le> length (sum_features s)"
    unfolding keys_of_def by (metis card_length length_map set_map)
  finally show "card (keys_of s - rq_features r) < feature_depth s" by (simp add: feature_depth_def)
qed

definition default_root :: "('p, 'b, 's) summary \<Rightarrow> bool \<Rightarrow> string set" where
  "default_root s d = (if d \<and> ''default'' \<in> keys_of s then {''default''} else {})"

definition roots :: "('p, 'b, 's) summary \<Rightarrow> resolve_opts \<Rightarrow> string set" where
  "roots s opts = (case opt_features opts of
     CliFeatures fvs all d \<Rightarrow> (if all then keys_of s else {}) \<union> \<Union>(fv_features s ` set fvs) \<union> default_root s d
   | DepFeatures fs d \<Rightarrow> set fs \<union> default_root s d)"

definition asked :: "resolve_opts \<Rightarrow> (string \<times> string option) set" where
  "asked opts = (case opt_features opts of
     CliFeatures fvs all d \<Rightarrow> \<Union>(fv_pairs ` set fvs) | DepFeatures fs d \<Rightarrow> {})"

definition enabled :: "('p, 'b, 's) summary \<Rightarrow> resolve_opts \<Rightarrow> string set" where
  "enabled s opts = (feature_step s)\<^sup>* `` roots s opts"

definition demanded :: "('p, 'b, 's) summary \<Rightarrow> resolve_opts \<Rightarrow> (string \<times> string option) set" where
  "demanded s opts = asked opts \<union> (\<Union>f \<in> enabled s opts. \<Union>(fv_pairs ` values_of s f))"

lemma handle_default_owp:
  "owp False (handle_default s d r) (grown s (default_root s d) {} r) (rejected s (default_root s d))"
  using require_feature_top [of s "''default''" r]
  by (simp add: handle_default_def default_root_def keys_of_def map_of_eq_None_iff grown_refl)

lemma owp_grown_bind:
  assumes "owp False x (grown s A C r) (rejected s A)"
    and "\<And>r1. owp False (f r1) (grown s B D r1) (rejected s B)"
  shows "owp False (obind x f) (grown s (A \<union> B) (C \<union> D) r) (rejected s (A \<union> B))"
proof (rule owp_bind, rule owp_mono [OF assms(1)])
  fix r1
  assume "grown s A C r r1"
  with assms(2) [of r1] show "owp False (f r1) (grown s (A \<union> B) (C \<union> D) r) (rejected s (A \<union> B))"
    by (elim owp_mono) (auto intro: grown_trans elim!: rejected_mono)
qed (auto elim!: rejected_mono)

lemma requirements_of_owp:
  "owp False (requirements_of s opts) (grown s (roots s opts) (asked opts) rq_new) (rejected s (roots s opts))"
proof (cases "opt_features opts")
  case (CliFeatures fvs all d)
  have keys: "\<Union>((\<lambda>f. {f}) ` set (map fst (sum_features s))) = keys_of s" by (auto simp: keys_of_def)
  have 1: "owp False (if all then ofold (require_feature (feature_depth s) s) (map fst (sum_features s)) rq_new else Ok rq_new)
      (grown s (if all then keys_of s else {}) {} rq_new) (rejected s (if all then keys_of s else {}))"
    using ofold_grown [of "map fst (sum_features s)" rq_new "require_feature (feature_depth s) s" s "\<lambda>f. {f}" "\<lambda>_. {}"]
      require_feature_top [of s] by (simp only: keys) (simp add: grown_refl)
  have 2: "owp False (ofold (require_value (require_feature (feature_depth s) s) s) fvs r)
      (grown s (\<Union>(fv_features s ` set fvs)) (\<Union>(fv_pairs ` set fvs)) r) (rejected s (\<Union>(fv_features s ` set fvs)))" for r
    by (rule ofold_grown) (rule require_value_owp [OF require_feature_top])
  show ?thesis
    using owp_grown_bind [OF 1 owp_grown_bind [OF 2 handle_default_owp]]
    by (simp add: requirements_of_def CliFeatures roots_def asked_def Un_assoc)
next
  case (DepFeatures fs d)
  have "owp False (ofold (require_feature (feature_depth s) s) fs rq_new)
      (grown s (\<Union>((\<lambda>f. {f}) ` set fs)) (\<Union>((\<lambda>_. {}) ` set fs)) rq_new) (rejected s (\<Union>((\<lambda>f. {f}) ` set fs)))"
    by (rule ofold_grown) (rule require_feature_top)
  then have 1: "owp False (ofold (require_feature (feature_depth s) s) fs rq_new) (grown s (set fs) {} rq_new) (rejected s (set fs))"
    by simp
  show ?thesis
    using owp_grown_bind [OF 1 handle_default_owp]
    by (simp add: requirements_of_def DepFeatures roots_def asked_def)
qed

text \<open>A run that succeeds from nothing has computed the whole closure.\<close>

lemma grown_from_new:
  assumes "grown s A C rq_new r"
  shows "rq_features r = (feature_step s)\<^sup>* `` A" and "\<forall>f \<in> rq_features r. well_defined s f"
    and "rq_pairs r = C \<union> (\<Union>f \<in> rq_features r. \<Union>(fv_pairs ` values_of s f))"
proof -
  note g = assms [unfolded grown_def, simplified rq_new_def, simplified]
  have "g \<in> rq_features r" if "(f, g) \<in> (feature_step s)\<^sup>*" "f \<in> A" for f g
    using that
  proof (induction rule: rtrancl_induct)
    case base
    then show ?case using g by blast
  next
    case (step y z)
    then have "feature_step s `` {y} \<subseteq> rq_features r" using g by simp
    then show ?case using step.hyps(2) by blast
  qed
  then have "(feature_step s)\<^sup>* `` A \<subseteq> rq_features r" by blast
  moreover have "rq_features r \<subseteq> (feature_step s)\<^sup>* `` A" using g by simp
  ultimately show "rq_features r = (feature_step s)\<^sup>* `` A" by simp
  show "\<forall>f \<in> rq_features r. well_defined s f" using g by simp
  show "rq_pairs r = C \<union> (\<Union>f \<in> rq_features r. \<Union>(fv_pairs ` values_of s f))"
    using g by (simp add: rq_pairs_def or_default_def)
qed

lemma requirements_of_cases:
  obtains (ok) r where "requirements_of s opts = Ok r" and "rq_features r = enabled s opts"
      and "\<forall>f \<in> enabled s opts. well_defined s f" and "rq_pairs r = demanded s opts"
    | (err) e where "requirements_of s opts = Err e" and "rejected s (roots s opts) e"
  using requirements_of_owp [of s opts] grown_from_new [of s "roots s opts" "asked opts"]
  by (cases "requirements_of s opts") (auto simp: enabled_def demanded_def)

lemma rejected_not_well_defined:
  "rejected s (roots s opts) e \<Longrightarrow> \<exists>f \<in> enabled s opts. \<not> well_defined s f"
  unfolding rejected_def enabled_def well_defined_def by (cases e) auto

lemma set_fold_insort: "set (fold insort_insert xs ys) = set xs \<union> set ys"
  by (induction xs arbitrary: ys) (auto simp: set_insort_insert)

definition used_deps :: "('p, 'b, 's) summary \<Rightarrow> resolve_opts \<Rightarrow> ('p, 'b, 's) dependency list" where
  "used_deps s opts = filter (\<lambda>d. (is_transitive d \<or> dev_deps opts) \<and>
     (dep_optional d \<longrightarrow> (name_in_toml d, None) \<in> demanded s opts)) (sum_dependencies s)"

lemma resolve_features_spec:
  "case resolve_features parent s opts of
     Ok (fs, deps) \<Rightarrow>
       fs = enabled s opts \<and> (\<forall>f \<in> fs. well_defined s f) \<and> map fst deps = used_deps s opts \<and>
       (\<forall>(d, w) \<in> set deps. set w = set (dep_features d) \<union> {f. (name_in_toml d, Some f) \<in> demanded s opts})
   | Err e \<Rightarrow> (\<exists>f \<in> enabled s opts. \<not> well_defined s f) \<or>
       (parent = None \<and> (\<exists>n. (n, None) \<in> demanded s opts \<and> n \<notin> name_in_toml ` set (used_deps s opts)))
   | _ \<Rightarrow> False"
proof (cases rule: requirements_of_cases [of s opts])
  case (ok r)
  have get: "map_of (rq_deps r) n \<noteq> None \<longleftrightarrow> (n, None) \<in> demanded s opts" for n
    using ok(4) rq_pairs_mem(1) [of n r] by simp
  have wanted: "set (wanted_features r d) = set (dep_features d) \<union> {f. (name_in_toml d, Some f) \<in> demanded s opts}" for d
    using ok(4) rq_pairs_mem(2) [of "name_in_toml d" _ r] by (auto simp: wanted_features_def set_fold_insort)
  have used: "filter (\<lambda>dep. \<not> (dep_optional dep \<and> map_of (rq_deps r) (name_in_toml dep) = None))
      (filter (\<lambda>d. is_transitive d \<or> dev_deps opts) (sum_dependencies s)) = used_deps s opts"
    unfolding used_deps_def filter_filter get [symmetric] by (rule filter_cong) auto
  have key: "n \<in> set (map fst (rq_deps r)) \<longleftrightarrow> (n, None) \<in> demanded s opts" for n
    unfolding get [symmetric] by (simp add: map_of_eq_None_iff)
  have "find (\<lambda>n. n \<notin> set (map name_in_toml (used_deps s opts))) (map fst (rq_deps r)) = Some n \<Longrightarrow>
      (n, None) \<in> demanded s opts \<and> n \<notin> name_in_toml ` set (used_deps s opts)" for n
    unfolding key [symmetric] by (auto simp: find_Some_iff)
  moreover have "resolve_features parent s opts =
      (if parent = None then
         (case find (\<lambda>n. n \<notin> set (map name_in_toml (used_deps s opts))) (map fst (rq_deps r)) of
            Some n \<Rightarrow> Err (into_activate_error parent s (ReqMissingDependency n))
          | None \<Rightarrow> Ok (rq_features r, map (\<lambda>dep. (dep, wanted_features r dep)) (used_deps s opts)))
       else Ok (rq_features r, map (\<lambda>dep. (dep, wanted_features r dep)) (used_deps s opts)))"
    unfolding resolve_features_def build_requirements_def map_err_def ok(1) Let_def outcome.case obind.simps used ..
  ultimately show ?thesis
    using ok(2,3) by (auto simp: comp_def wanted split: option.split)
next
  case (err e)
  then show ?thesis
    using rejected_not_well_defined [of s opts e]
    by (simp add: resolve_features_def build_requirements_def map_err_def)
qed

subsection \<open>Properties\<close>

text \<open>
  C12: resolving the features of a package ends, enables exactly the features reachable from the
  requested ones, selects exactly the dependencies that are required or asked for by an enabled
  feature, each with its own features and those asked for, and fails only when a reachable feature
  is missing or includes itself, or when the command line names a dependency that is not selected.
\<close>

theorem resolve_features_closure:
  "case resolve_features parent s opts of
     Ok (fs, deps) \<Rightarrow>
       fs = enabled s opts \<and> (\<forall>f \<in> fs. well_defined s f) \<and> map fst deps = used_deps s opts \<and>
       (\<forall>(d, w) \<in> set deps. set w = set (dep_features d) \<union> {f. (name_in_toml d, Some f) \<in> demanded s opts})
   | Err e \<Rightarrow> (\<exists>f \<in> enabled s opts. \<not> well_defined s f) \<or>
       (parent = None \<and> (\<exists>n. (n, None) \<in> demanded s opts \<and> n \<notin> name_in_toml ` set (used_deps s opts)))
   | _ \<Rightarrow> False"
  by (rule resolve_features_spec)

definition app_summary :: "(nat, nat, nat) summary" where
  "app_summary = \<lparr>sum_package_id = PackageId ''app'' (Version 1 0 0 None None) 0,
     sum_dependencies = [tls_dep],
     sum_features = [(''default'', [Feature ''log'', DepFeature ''tls'' ''std'' False]), (''log'', []), (''tls'', [Dep ''tls''])],
     sum_checksum = None, sum_links = None, sum_rust_version = None, sum_pubtime = None\<rparr>"

theorem resolve_features_closure_witness:
  "enabled app_summary \<lparr>dev_deps = False, opt_features = DepFeatures [] True\<rparr> = {''default'', ''log'', ''tls''}"
proof -
  have run: "resolve_features (Some (PackageId ''p'' (Version 1 0 0 None None) 0)) app_summary
      \<lparr>dev_deps = False, opt_features = DepFeatures [] True\<rparr> = Ok ({''default'', ''log'', ''tls''}, [(tls_dep, [''std''])])"
    by code_simp
  show ?thesis
    using resolve_features_closure [where parent = "Some (PackageId ''p'' (Version 1 0 0 None None) 0)"
        and s = app_summary and opts = "\<lparr>dev_deps = False, opt_features = DepFeatures [] True\<rparr>"]
    unfolding run outcome.case prod.case by simp
qed

lemma fv_features_key:
  "fv_sound (sum_dependencies s) (sum_features s) fv \<Longrightarrow> g \<in> fv_features s fv \<Longrightarrow> g \<in> keys_of s"
  by (cases fv) (auto simp: fv_features_def fv_sound_def keys_of_def dest: map_of_SomeD split: if_splits
      intro: rev_image_eqI)

lemma fv_pairs_dep: "fv_sound deps fm fv \<Longrightarrow> (n, w) \<in> fv_pairs fv \<Longrightarrow> \<exists>dep \<in> set deps. name_in_toml dep = n"
  by (cases fv) (auto simp: fv_pairs_def fv_sound_def)

lemma reachable_keys:
  assumes step: "\<And>f g. f \<in> keys_of s \<Longrightarrow> (f, g) \<in> feature_step s \<Longrightarrow> g \<in> keys_of s"
    and "roots s opts \<subseteq> keys_of s"
  shows "enabled s opts \<subseteq> keys_of s"
proof -
  have "g \<in> keys_of s" if "(f, g) \<in> (feature_step s)\<^sup>*" "f \<in> keys_of s" for f g
    using that by (induction rule: rtrancl_induct) (auto intro: step)
  with assms(2) show ?thesis unfolding enabled_def by blast
qed

text \<open>
  C30: for a summary built with validation, a request for features it has never meets a missing
  feature: the features resolve, or a feature that directly includes itself is reported; and every
  dependency name that is then asked for is a dependency of the package.
\<close>

theorem validated_features_resolve:
  assumes wf: "om_wf features" and new: "summary_new xs xc pkg deps features links rv = Ok s"
    and has: "\<forall>f \<in> set fs. map_of (sum_features s) f \<noteq> None"
    and opts: "opt_features opts = DepFeatures fs d"
  shows "case resolve_features (Some p) s opts of
      Ok (used, ds) \<Rightarrow> set fs \<subseteq> used \<and> (d \<and> map_of (sum_features s) ''default'' \<noteq> None \<longrightarrow> ''default'' \<in> used) \<and>
        (\<forall>(n, w) \<in> demanded s opts. \<exists>dep \<in> set deps. name_in_toml dep = n)
    | Err e \<Rightarrow> \<exists>f fvs. e = Fatal (CyclicFeature f) \<and> map_of (sum_features s) f = Some fvs \<and> Feature f \<in> set fvs
    | _ \<Rightarrow> False"
proof -
  from new obtain fm where fm: "build_feature_map xs xc features deps = Ok fm"
    and s: "sum_features s = fm" "sum_dependencies s = deps"
    by (auto simp: summary_new_def)
  have sound: "fv_sound deps fm fv" if "fv \<in> values_of s f" for f fv
    using that feature_map_facts [OF wf fm] by (auto simp: values_of_def s split: option.splits)
  have key: "f \<in> keys_of s \<longleftrightarrow> map_of fm f \<noteq> None" for f
    by (simp add: keys_of_def s map_of_eq_None_iff)
  have "g \<in> keys_of s" if "(f, g) \<in> feature_step s" for f g
    using that sound [of _ f] fv_features_key [of s] by (auto simp: feature_step_def s)
  moreover have roots: "roots s opts \<subseteq> keys_of s"
    using has by (auto simp: roots_def opts default_root_def key s)
  ultimately have sub: "enabled s opts \<subseteq> keys_of s" by (intro reachable_keys) auto
  have roots_in: "roots s opts \<subseteq> enabled s opts" by (auto simp: enabled_def)
  have dem: "\<exists>dep \<in> set deps. name_in_toml dep = n" if "(n, w) \<in> demanded s opts" for n w
  proof -
    from that obtain f fv where "fv \<in> values_of s f" "(n, w) \<in> fv_pairs fv"
      by (auto simp: demanded_def asked_def opts)
    then show ?thesis using sound fv_pairs_dep by metis
  qed
  show ?thesis
  proof (cases rule: requirements_of_cases [of s opts])
    case (ok r)
    have "set fs \<subseteq> enabled s opts" "d \<and> map_of (sum_features s) ''default'' \<noteq> None \<longrightarrow> ''default'' \<in> enabled s opts"
      using roots_in by (auto simp: roots_def opts default_root_def key s)
    then show ?thesis
      using ok(2) dem by (auto simp: resolve_features_def build_requirements_def map_err_def ok(1) Let_def)
  next
    case (err e)
    then obtain f where "e = ReqCycle f" "Feature f \<in> values_of s f"
      using sub unfolding rejected_def enabled_def by (cases e) auto
    then show ?thesis
      using err by (auto simp: resolve_features_def build_requirements_def map_err_def into_activate_error_def
          values_of_def split: option.splits)
  qed
qed

definition lib_summary :: "(nat, nat, nat) summary" where
  "lib_summary = \<lparr>sum_package_id = PackageId ''lib'' (Version 1 0 0 None None) 0, sum_dependencies = [tls_dep],
     sum_features = [(''default'', [Feature ''log'', Dep ''tls'']), (''log'', [])],
     sum_checksum = None, sum_links = None, sum_rust_version = None, sum_pubtime = None\<rparr>"

lemma lib_summary_new:
  "summary_new (\<lambda>_. True) (\<lambda>_. True) (PackageId ''lib'' (Version 1 0 0 None None) 0) [tls_dep]
     [(''default'', [''log'', ''dep:tls'']), (''log'', [])] None None = Ok lib_summary"
  by code_simp

theorem validated_features_resolve_witness:
  "fst ` demanded lib_summary \<lparr>dev_deps = False, opt_features = DepFeatures [''log''] True\<rparr> \<subseteq> {''tls''}"
proof -
  let ?opts = "\<lparr>dev_deps = False, opt_features = DepFeatures [''log''] True\<rparr>"
  have has: "\<forall>f \<in> set [''log'']. map_of (sum_features lib_summary) f \<noteq> None" by (simp add: lib_summary_def)
  have opts: "opt_features ?opts = DepFeatures [''log''] True" by simp
  have run: "resolve_features (Some (PackageId ''p'' (Version 1 0 0 None None) 0)) lib_summary ?opts =
      Ok ({''default'', ''log''}, [(tls_dep, [])])"
    by code_simp
  from validated_features_resolve [OF table_ok lib_summary_new has opts,
      where p = "PackageId ''p'' (Version 1 0 0 None None) 0"]
  have "\<forall>(n, w) \<in> demanded lib_summary ?opts. \<exists>dep \<in> set [tls_dep]. name_in_toml dep = n"
    unfolding run by simp
  then show ?thesis by (auto simp: name_in_toml_def tls_dep_def unwrap_or_def)
qed

end
