(* ===== verification/ResolverContext.thy ===== *)
theory ResolverContext
  imports DepCache ConflictCache DepGraph "HOL-Library.Product_Lexorder" "HOL-Library.Multiset"
begin

section \<open>The state of the resolver (src/resolver/context.rs, types.rs)\<close>

text \<open>
  \<open>ResolverContext\<close> is the record \<open>ctx\<close>: what is activated, with which features, which
  package owns a \<open>links\<close> key and which dependency of which parent led to a package. The persistent
  hash maps are association lists; the set of dependencies on an edge of \<open>parents\<close> is a list.

  An \<open>RcVecIter\<close> is represented by the elements it has not yet returned: \<open>peek\<close> is the head,
  \<open>remaining\<close> the list, and a step of \<open>iter\<close> drops the head. The \<open>OrdSet\<close> of pending frames
  is an ordered map from the sort key of \<open>Ord for DepsFrame\<close>, completed by the insertion time,
  to the frame. The insertion time is a \<open>u32\<close>: at \<open>u32::MAX\<close> a push panics in a build with overflow
  checks and starts again from zero otherwise. The context age is a natural number; it grows by one
  with each activation.

  The flag \<open>checks\<close> stands for a build with debug assertions and overflow checks (the two come
  together in the default profiles).

  A Rust function that changes the context and may then fail leaves the changes behind; so
  \<open>flag_activated\<close> and \<open>activate\<close> return the context in every case.
\<close>

subsection \<open>Contexts\<close>

record ('p, 'b, 's) ctx =
  cx_age :: nat
  cx_activations :: "('s activations_key \<times> (('p, 'b, 's) summary \<times> nat)) list"
  cx_features :: "(('p, 'b, 's) package_id \<times> string list) list"
  cx_links :: "(string \<times> ('p, 'b, 's) package_id) list"
  cx_parents :: "(('p, 'b, 's) package_id, ('p, 'b, 's) dependency list) graph"

type_synonym ('p, 'b, 's) conflict_map = "(('p, 'b, 's) package_id \<times> conflict_reason) list"

definition cx_new :: "('p, 'b, 's) ctx" where
  "cx_new = \<lparr>cx_age = 0, cx_activations = [], cx_features = [], cx_links = [], cx_parents = graph_new\<rparr>"

definition patched_key :: "('p, 'b, 's) package_id \<Rightarrow> ('p, 'b, 's) dependency \<Rightarrow> 's activations_key" where
  "patched_key i dep = ActivationsKey (pkg_name i) (semver_compat (pkg_version i)) (dep_source_id dep)"

definition already_has :: "('p, 'b, 's) ctx \<Rightarrow> ('p, 'b, 's) summary \<Rightarrow> resolve_opts \<Rightarrow> bool" where
  "already_has cx s opts =
     (case opt_features opts of
        CliFeatures _ _ _ \<Rightarrow> False
      | DepFeatures features uses_default_features \<Rightarrow>
          let has_default_feature = (map_of (sum_features s) ''default'' \<noteq> None);
              prev = (case map_of (cx_features cx) (sum_package_id s) of None \<Rightarrow> [] | Some f \<Rightarrow> f)
          in list_all (\<lambda>f. f \<in> set prev) features \<and>
             (\<not> uses_default_features \<or> ''default'' \<in> set prev \<or> \<not> has_default_feature))"

definition flag_activated ::
  "bool \<Rightarrow> ('p, 'b, 's) summary \<Rightarrow> resolve_opts \<Rightarrow> (('p, 'b, 's) summary \<times> ('p, 'b, 's) dependency) option \<Rightarrow>
   ('p, 'b, 's) ctx \<Rightarrow> ('p, 'b, 's) ctx \<times> (('p, 'b, 's) activate_error, bool) outcome" where
  "flag_activated checks s opts parent cx =
     (let i = sum_package_id s; age = cx_age cx
      in case map_of (cx_activations cx) (as_activations_key i) of
           Some (other, _) \<Rightarrow>
             if checks \<and> \<not> summary_eq other s then (cx, Panic) else (cx, Ok (already_has cx s opts))
         | None \<Rightarrow>
             (case (case sum_links s of
                      None \<Rightarrow> (cx, None)
                    | Some link \<Rightarrow> (cx\<lparr>cx_links := hm_insert link i (cx_links cx)\<rparr>,
                        if map_of (cx_links cx) link \<noteq> None then Some link else None)) of
                (cx, Some link) \<Rightarrow> (cx, Err (Fatal (DuplicateLinks link)))
              | (cx, None) \<Rightarrow>
                  (let cx = cx\<lparr>cx_activations := hm_insert (as_activations_key i) (s, age) (cx_activations cx)\<rparr>
                   in case parent of
                        None \<Rightarrow> (cx, Ok False)
                      | Some (_, dep) \<Rightarrow>
                          if dep_source_id dep = pkg_source i then (cx, Ok False)
                          else
                            let prev = map_of (cx_activations cx) (patched_key i dep);
                                cx = cx\<lparr>cx_activations := hm_insert (patched_key i dep) (s, age) (cx_activations cx)\<rparr>
                            in case prev of
                                 Some (previous_summary, _) \<Rightarrow>
                                   (cx, Err (Conflict (sum_package_id previous_summary) Semver))
                               | None \<Rightarrow> (cx, Ok False))))"

definition is_active :: "('p, 'b, 's) ctx \<Rightarrow> ('p, 'b, 's) package_id \<Rightarrow> nat option" where
  "is_active cx i =
     (case map_of (cx_activations cx) (as_activations_key i) of
        None \<Rightarrow> None
      | Some (s, l) \<Rightarrow> if sum_package_id s = i then Some l else None)"

fun max_ages :: "('p, 'b, 's) ctx \<Rightarrow> ('p, 'b, 's) package_id list \<Rightarrow> nat \<Rightarrow> nat option" where
  "max_ages cx [] m = Some m"
| "max_ages cx (i # is) m = (case is_active cx i of None \<Rightarrow> None | Some a \<Rightarrow> max_ages cx is (max m a))"

definition is_conflicting ::
  "('p, 'b, 's) ctx \<Rightarrow> ('p, 'b, 's) package_id option \<Rightarrow> ('p, 'b, 's) conflict_map \<Rightarrow> nat option" where
  "is_conflicting cx parent conflicting_activations =
     (case parent of
        None \<Rightarrow> max_ages cx (map fst conflicting_activations) 0
      | Some p \<Rightarrow> (case is_active cx p of
                     None \<Rightarrow> None
                   | Some a \<Rightarrow> max_ages cx (map fst conflicting_activations) (max 0 a)))"

definition copy_edge ::
  "'n::linorder \<Rightarrow> 'n \<times> 'd list \<Rightarrow> ('n, 'd list) graph \<Rightarrow> (unit, ('n, 'd list) graph) outcome" where
  "copy_edge i oe g =
     (case oe of (out, e) \<Rightarrow>
        if (case graph_edge g out i of None \<Rightarrow> [] | Some l \<Rightarrow> l) \<noteq> [] then Panic
        else Ok (graph_link [] (\<lambda>_. e) out i g))"

definition cx_graph ::
  "('p::linorder, 'b::linorder, 's::linorder) ctx \<Rightarrow>
   (unit, (('p, 'b, 's) package_id, ('p, 'b, 's) dependency list) graph) outcome" where
  "cx_graph cx =
     (let g = fold (\<lambda>(_, (r, _)). graph_add (sum_package_id r)) (cx_activations cx) graph_new
      in ofold (\<lambda>i g. ofold (copy_edge i) (graph_edges (cx_parents cx) i) (graph_add i g))
           (graph_iter (cx_parents cx)) g)"

subsection \<open>Pending dependencies\<close>

record ('p, 'b, 's) deps_frame =
  fr_parent :: "('p, 'b, 's) summary"
  fr_just_for_error_messages :: bool
  fr_remaining_siblings :: "('p, 'b, 's) dep_info list"

definition min_candidates :: "('p, 'b, 's) deps_frame \<Rightarrow> nat" where
  "min_candidates f = (case fr_remaining_siblings f of [] \<Rightarrow> 0 | (_, candidates, _) # _ \<Rightarrow> length candidates)"

definition frame_flatten :: "('p, 'b, 's) deps_frame \<Rightarrow> (('p, 'b, 's) package_id \<times> ('p, 'b, 's) dependency) list" where
  "frame_flatten f = map (\<lambda>(d, _, _). (sum_package_id (fr_parent f), d)) (fr_remaining_siblings f)"

definition frame_key :: "('p, 'b, 's) deps_frame \<Rightarrow> nat \<Rightarrow> nat \<times> nat \<times> nat" where
  "frame_key f time = (if fr_just_for_error_messages f then 0 else 1, min_candidates f, time)"

record ('p, 'b, 's) remaining_deps =
  rd_time :: nat
  rd_data :: "((nat \<times> nat \<times> nat) \<times> ('p, 'b, 's) deps_frame) list"

definition rd_new :: "('p, 'b, 's) remaining_deps" where
  "rd_new = \<lparr>rd_time = 0, rd_data = []\<rparr>"

definition rd_push ::
  "bool \<Rightarrow> ('p, 'b, 's) deps_frame \<Rightarrow> ('p, 'b, 's) remaining_deps \<Rightarrow> (unit, ('p, 'b, 's) remaining_deps) outcome" where
  "rd_push checks x rd =
     (let insertion_time = rd_time rd; data = om_insert (frame_key x insertion_time) x (rd_data rd)
      in obind (uadd 32 checks (rd_time rd) 1) (\<lambda>time. Ok \<lparr>rd_time = time, rd_data = data\<rparr>))"

fun pop_frames ::
  "((nat \<times> nat \<times> nat) \<times> ('p, 'b, 's) deps_frame) list \<Rightarrow>
   ((bool \<times> ('p, 'b, 's) summary \<times> ('p, 'b, 's) dep_info) \<times>
    ((nat \<times> nat \<times> nat) \<times> ('p, 'b, 's) deps_frame) list) option" where
  "pop_frames [] = None"
| "pop_frames ((k, f) # data) =
     (case fr_remaining_siblings f of
        [] \<Rightarrow> pop_frames data
      | sibling # rest \<Rightarrow>
          let f' = f\<lparr>fr_remaining_siblings := rest\<rparr>
          in Some ((fr_just_for_error_messages f, fr_parent f, sibling),
               om_insert (frame_key f' (snd (snd k))) f' data))"

definition pop_most_constrained ::
  "('p, 'b, 's) remaining_deps \<Rightarrow>
   (bool \<times> ('p, 'b, 's) summary \<times> ('p, 'b, 's) dep_info) option \<times> ('p, 'b, 's) remaining_deps" where
  "pop_most_constrained rd =
     (case pop_frames (rd_data rd) of
        None \<Rightarrow> (None, rd\<lparr>rd_data := []\<rparr>)
      | Some (x, data) \<Rightarrow> (Some x, rd\<lparr>rd_data := data\<rparr>))"

definition rd_iter ::
  "('p, 'b, 's) remaining_deps \<Rightarrow> (('p, 'b, 's) package_id \<times> ('p, 'b, 's) dependency) list" where
  "rd_iter rd = concat (map (\<lambda>(_, f). frame_flatten f) (rd_data rd))"

subsection \<open>Resolver versions\<close>

datatype resolve_behavior = V1 | V2 | V3

definition from_manifest :: "string \<Rightarrow> (string, resolve_behavior) outcome" where
  "from_manifest resolver =
     (if resolver = ''1'' then Ok V1 else if resolver = ''2'' then Ok V2
      else if resolver = ''3'' then Ok V3 else Err resolver)"

fun to_manifest :: "resolve_behavior \<Rightarrow> string" where
  "to_manifest V1 = ''1''"
| "to_manifest V2 = ''2''"
| "to_manifest V3 = ''3''"

subsection \<open>The queue of pending dependencies\<close>

definition frame_pending :: "('p, 'b, 's) deps_frame \<Rightarrow> (('p, 'b, 's) summary \<times> ('p, 'b, 's) dep_info) multiset" where
  "frame_pending f = image_mset (Pair (fr_parent f)) (mset (fr_remaining_siblings f))"

definition data_pending ::
  "((nat \<times> nat \<times> nat) \<times> ('p, 'b, 's) deps_frame) list \<Rightarrow> (('p, 'b, 's) summary \<times> ('p, 'b, 's) dep_info) multiset" where
  "data_pending data = \<Sum>\<^sub># (image_mset (\<lambda>(k, f). frame_pending f) (mset data))"

definition pending :: "('p, 'b, 's) remaining_deps \<Rightarrow> (('p, 'b, 's) summary \<times> ('p, 'b, 's) dep_info) multiset" where
  "pending rd = data_pending (rd_data rd)"

definition data_ok :: "((nat \<times> nat \<times> nat) \<times> ('p, 'b, 's) deps_frame) list \<Rightarrow> nat \<Rightarrow> bool" where
  "data_ok data time \<longleftrightarrow> om_wf data \<and> distinct (map (snd \<circ> snd \<circ> fst) data) \<and>
     (\<forall>(k, f) \<in> set data. k = frame_key f (snd (snd k)) \<and> snd (snd k) < time)"

definition rd_ok :: "('p, 'b, 's) remaining_deps \<Rightarrow> bool" where
  "rd_ok rd \<longleftrightarrow> data_ok (rd_data rd) (rd_time rd)"

lemma mset_om_insert: "k \<notin> fst ` set m \<Longrightarrow> mset (om_insert k v m) = add_mset (k, v) (mset m)"
  by (induction k v m rule: om_insert.induct) auto

lemma data_ok_insert:
  assumes ok: "data_ok data time" and t: "t \<notin> (snd \<circ> snd \<circ> fst) ` set data" and less: "t < time"
  shows "data_ok (om_insert (frame_key f t) f data) time"
    and "data_pending (om_insert (frame_key f t) f data) = frame_pending f + data_pending data"
proof -
  let ?k = "frame_key f t"
  have kt: "snd (snd ?k) = t" by (simp add: frame_key_def)
  have new: "?k \<notin> fst ` set data" using t kt by force
  have m: "mset (om_insert ?k f data) = add_mset (?k, f) (mset data)" by (rule mset_om_insert [OF new])
  then have set: "set (om_insert ?k f data) = insert (?k, f) (set data)"
    by (metis set_mset_add_mset_insert set_mset_mset)
  have "mset (map (snd \<circ> snd \<circ> fst) (om_insert ?k f data)) = mset (map (snd \<circ> snd \<circ> fst) ((?k, f) # data))"
    using m by simp
  then have "distinct (map (snd \<circ> snd \<circ> fst) (om_insert ?k f data)) \<longleftrightarrow> distinct (map (snd \<circ> snd \<circ> fst) ((?k, f) # data))"
    by (rule mset_eq_imp_distinct_iff)
  with ok t less kt show "data_ok (om_insert ?k f data) time"
    by (simp add: data_ok_def om_wf_insert set)
  show "data_pending (om_insert ?k f data) = frame_pending f + data_pending data"
    by (simp add: data_pending_def m)
qed

lemma data_ok_Cons:
  "data_ok ((k, f) # data) time \<Longrightarrow> data_ok data time \<and> snd (snd k) \<notin> (snd \<circ> snd \<circ> fst) ` set data \<and>
     snd (snd k) < time \<and> k = frame_key f (snd (snd k)) \<and> (\<forall>k' \<in> fst ` set data. k < k')"
  by (auto simp: data_ok_def om_wf_Cons)

lemma rd_push_ok:
  assumes ok: "rd_ok rd" and fits: "rd_time rd + 1 < 2 ^ 32"
  obtains rd' where "rd_push checks f rd = Ok rd'" and "rd_ok rd'" and "pending rd' = frame_pending f + pending rd"
    and "rd_time rd' = rd_time rd + 1"
proof -
  have fresh: "rd_time rd \<notin> (snd \<circ> snd \<circ> fst) ` set (rd_data rd)"
    using ok by (force simp: rd_ok_def data_ok_def)
  have "data_ok (rd_data rd) (rd_time rd + 1)"
    using ok by (force simp: rd_ok_def data_ok_def)
  note ins = data_ok_insert [OF this fresh, of f]
  let ?rd = "\<lparr>rd_time = rd_time rd + 1, rd_data = om_insert (frame_key f (rd_time rd)) f (rd_data rd)\<rparr>"
  show thesis
  proof (rule that)
    show "rd_push checks f rd = Ok ?rd" using fits by (simp add: rd_push_def)
    show "rd_ok ?rd" using ins(1) by (simp add: rd_ok_def)
    show "pending ?rd = frame_pending f + pending rd" using ins(2) by (simp add: pending_def)
  qed simp
qed

lemma pop_time: "rd_time (snd (pop_most_constrained rd)) = rd_time rd"
  by (simp add: pop_most_constrained_def split: option.split prod.split)

lemma rd_ok_new [simp]: "rd_ok rd_new"
  by (simp add: rd_ok_def rd_new_def data_ok_def)

lemma pending_new [simp]: "pending rd_new = {#}"
  by (simp add: pending_def rd_new_def data_pending_def)

lemma data_pending_Cons: "data_pending ((k, f) # data) = frame_pending f + data_pending data"
  by (simp add: data_pending_def)

text \<open>The popped sibling comes first in the order that \<open>Ord for DepsFrame\<close> defines.\<close>

definition first_in_order :: "bool \<Rightarrow> ('p, 'b, 's) dep_info \<Rightarrow> ('p, 'b, 's) deps_frame \<Rightarrow> bool" where
  "first_in_order jem info f \<longleftrightarrow> fr_remaining_siblings f = [] \<or>
     (fr_just_for_error_messages f \<longrightarrow> jem) \<and>
     (jem = fr_just_for_error_messages f \<longrightarrow> length (fst (snd info)) \<le> min_candidates f)"

lemma frame_key_first:
  assumes "frame_key f t \<le> frame_key g u" and "fr_remaining_siblings f = info # rest"
  shows "first_in_order (fr_just_for_error_messages f) info g"
  using assms by (cases info) (auto simp: frame_key_def first_in_order_def min_candidates_def less_eq_prod_def less_prod_def
      split: if_splits list.splits)

lemma pop_frames_spec:
  assumes "data_ok data time"
  shows "case pop_frames data of
      None \<Rightarrow> data_pending data = {#}
    | Some ((jem, parent, info), data') \<Rightarrow>
        data_ok data' time \<and> data_pending data = add_mset (parent, info) (data_pending data') \<and>
        (\<forall>(k, f) \<in> set data. first_in_order jem info f)"
  using assms
proof (induction data rule: pop_frames.induct)
  case 1
  then show ?case by (simp add: data_pending_def)
next
  case (2 k f data)
  note ok = data_ok_Cons [OF 2(2)]
  show ?case
  proof (cases "fr_remaining_siblings f")
    case Nil
    then have "frame_pending f = {#}" by (simp add: frame_pending_def)
    with 2(1) [OF Nil] ok Nil show ?thesis
      by (auto simp: data_pending_Cons first_in_order_def split: option.splits)
  next
    case (Cons info rest)
    let ?f = "f\<lparr>fr_remaining_siblings := rest\<rparr>"
    have "data_ok (om_insert (frame_key ?f (snd (snd k))) ?f data) time"
      and pend: "data_pending (om_insert (frame_key ?f (snd (snd k))) ?f data) = frame_pending ?f + data_pending data"
      using data_ok_insert [of data time "snd (snd k)" ?f] ok by blast+
    moreover have "data_pending ((k, f) # data) =
        add_mset (fr_parent f, info) (data_pending (om_insert (frame_key ?f (snd (snd k))) ?f data))"
      unfolding pend data_pending_Cons by (simp add: frame_pending_def Cons)
    moreover have "\<forall>(k', g) \<in> set ((k, f) # data). first_in_order (fr_just_for_error_messages f) info g"
    proof (rule ballI)
      fix x
      assume x: "x \<in> set ((k, f) # data)"
      obtain k' g where kg: "x = (k', g)" by (cases x)
      with x have that: "(k', g) \<in> set ((k, f) # data)" by simp
      have "k \<le> k'" using that ok by (auto simp: rev_image_eqI intro: less_imp_le)
      moreover have "k = frame_key f (snd (snd k))" using ok by blast
      moreover have "k' = frame_key g (snd (snd k'))" using that 2(2) by (auto simp: data_ok_def)
      ultimately have "first_in_order (fr_just_for_error_messages f) info g" using frame_key_first [OF _ Cons] by metis
      then show "case x of (k', g) \<Rightarrow> first_in_order (fr_just_for_error_messages f) info g" by (simp add: kg)
    qed
    ultimately show ?thesis by (simp add: Cons Let_def)
  qed
qed

lemma pop_spec:
  assumes "rd_ok rd"
  shows "case pop_most_constrained rd of
      (None, rd') \<Rightarrow> pending rd = {#} \<and> rd_ok rd' \<and> pending rd' = {#}
    | (Some (jem, parent, info), rd') \<Rightarrow>
        rd_ok rd' \<and> pending rd = add_mset (parent, info) (pending rd') \<and>
        (\<forall>(k, f) \<in> set (rd_data rd). first_in_order jem info f)"
  using pop_frames_spec [of "rd_data rd" "rd_time rd"] assms
  by (auto simp: pop_most_constrained_def rd_ok_def pending_def data_pending_def data_ok_def split: option.splits)

subsection \<open>The resolution graph\<close>

lemma graph_fold_inner:
  assumes "graph_wf g" and "distinct (map fst es)" and "\<forall>p \<in> set (map fst es). graph_edge g p i = None"
  shows "\<exists>g'. ofold (copy_edge i) es g = Ok g' \<and> graph_wf g' \<and>
    (\<forall>p c. graph_edge g' p c = (if c = i \<and> map_of es p \<noteq> None then map_of es p else graph_edge g p c)) \<and>
    (\<forall>n. graph_contains g n \<longrightarrow> graph_contains g' n)"
  using assms
proof (induction es arbitrary: g)
  case (Cons oe es)
  obtain out e where oe: "oe = (out, e)" by (cases oe)
  let ?g = "graph_link [] (\<lambda>_. e) out i g"
  have none: "graph_edge g out i = None" using Cons.prems(3) oe by simp
  have edge: "graph_edge ?g p c = (if p = out \<and> c = i then Some e else graph_edge g p c)" for p c
    using graph_edge_link [OF Cons.prems(1)] by simp
  have wf: "graph_wf ?g" using Cons.prems(1) by (rule graph_wf_link)
  have "\<forall>p \<in> set (map fst es). graph_edge ?g p i = None"
    using Cons.prems(2,3) by (auto simp: edge oe)
  with Cons.IH [OF wf] Cons.prems(2) obtain g' where g': "ofold (copy_edge i) es ?g = Ok g'" "graph_wf g'"
    "\<forall>p c. graph_edge g' p c = (if c = i \<and> map_of es p \<noteq> None then map_of es p else graph_edge ?g p c)"
    "\<forall>n. graph_contains ?g n \<longrightarrow> graph_contains g' n" by auto
  have "map_of es out = None" using Cons.prems(2) by (auto simp: oe map_of_eq_None_iff)
  then have "graph_edge g' p c = (if c = i \<and> map_of (oe # es) p \<noteq> None then map_of (oe # es) p else graph_edge g p c)" for p c
    using g'(3) by (auto simp: edge oe)
  moreover have "graph_contains g n \<longrightarrow> graph_contains g' n" for n using g'(4) Cons.prems(1) by simp
  moreover have "ofold (copy_edge i) (oe # es) g = Ok g'" using g'(1) none by (simp add: oe copy_edge_def [of i "(out, e)" g])
  ultimately show ?case using g'(2) by blast
qed simp

lemma graph_fold_outer:
  assumes "graph_wf g" and "graph_wf ps" and "distinct ns" and "\<forall>i \<in> set ns. \<forall>p. graph_edge g p i = None"
  shows "\<exists>g'. ofold (\<lambda>i g. ofold (copy_edge i) (graph_edges ps i) (graph_add i g)) ns g = Ok g' \<and> graph_wf g' \<and>
    (\<forall>p c. graph_edge g' p c = (if c \<in> set ns then graph_edge ps c p else graph_edge g p c)) \<and>
    (\<forall>n. graph_contains g n \<or> n \<in> set ns \<longrightarrow> graph_contains g' n)"
  using assms(1,3,4)
proof (induction ns arbitrary: g)
  case (Cons i ns)
  have wf: "graph_wf (graph_add i g)" using Cons.prems(1) by (rule graph_wf_add)
  have om: "om_wf (graph_edges ps i)" using assms(2) by (rule graph_wf_edges)
  have "\<forall>p \<in> set (map fst (graph_edges ps i)). graph_edge (graph_add i g) p i = None"
    using Cons.prems(1,3) by simp
  from graph_fold_inner [OF wf om_wf_distinct [OF om] this] obtain g1 where g1:
    "ofold (copy_edge i) (graph_edges ps i) (graph_add i g) = Ok g1" "graph_wf g1"
    "\<And>p c. graph_edge g1 p c = (if c = i \<and> graph_edge ps i p \<noteq> None then graph_edge ps i p else graph_edge g p c)"
    "\<And>n. graph_contains (graph_add i g) n \<Longrightarrow> graph_contains g1 n"
    unfolding graph_edges_get [OF assms(2), of i] graph_edge_add [OF Cons.prems(1)] by blast
  have "\<forall>j \<in> set ns. \<forall>p. graph_edge g1 p j = None"
    using Cons.prems(2,3) by (auto simp: g1(3))
  with Cons.IH [OF g1(2)] Cons.prems(2) obtain g' where g': "ofold (\<lambda>i g. ofold (copy_edge i) (graph_edges ps i) (graph_add i g)) ns g1 = Ok g'" "graph_wf g'"
    "\<forall>p c. graph_edge g' p c = (if c \<in> set ns then graph_edge ps c p else graph_edge g1 p c)"
    "\<forall>n. graph_contains g1 n \<or> n \<in> set ns \<longrightarrow> graph_contains g' n" by auto
  have "graph_edge g' p c = (if c \<in> set (i # ns) then graph_edge ps c p else graph_edge g p c)" for p c
    using g'(3) Cons.prems(2,3) by (auto simp: g1(3))
  moreover have "graph_contains g n \<or> n \<in> set (i # ns) \<longrightarrow> graph_contains g' n" for n
    using g'(4) g1(4) Cons.prems(1) by auto
  ultimately show ?case using g'(1,2) g1(1) by (intro exI [of _ g']) simp
qed simp

subsection \<open>Properties\<close>

text \<open>
  C22: building the resolution graph never trips its assertion: the graph has an edge from a
  package to each dependency it resolved to, with exactly the dependencies recorded on the way,
  and every activated package is a node.
\<close>

theorem cx_graph_edges:
  assumes "graph_wf (cx_parents cx)"
  shows "\<exists>g. cx_graph cx = Ok g \<and> graph_wf g \<and> (\<forall>p c. graph_edge g p c = graph_edge (cx_parents cx) c p) \<and>
    (\<forall>k s a. map_of (cx_activations cx) k = Some (s, a) \<longrightarrow> graph_contains g (sum_package_id s))"
proof -
  let ?add = "\<lambda>(_, (r, _)). graph_add (sum_package_id r)"
  have start: "graph_wf h \<Longrightarrow> graph_wf (fold ?add m h) \<and> (\<forall>p c. graph_edge (fold ?add m h) p c = graph_edge h p c) \<and>
      (\<forall>n. graph_contains h n \<longrightarrow> graph_contains (fold ?add m h) n) \<and>
      (\<forall>x \<in> set m. graph_contains (fold ?add m h) (sum_package_id (fst (snd x))))"
    for h :: "(('a, 'b, 'c) package_id, ('a, 'b, 'c) dependency list) graph"
    and m :: "('c activations_key \<times> ('a, 'b, 'c) summary \<times> nat) list"
  proof (induction m arbitrary: h)
    case (Cons x m)
    obtain k s a where x: "x = (k, s, a)" by (cases x)
    from Cons.IH [OF graph_wf_add [OF Cons.prems, of "sum_package_id s"]] show ?case using Cons.prems by (simp add: x)
  qed simp
  define g0 :: "(('a, 'b, 'c) package_id, ('a, 'b, 'c) dependency list) graph"
    where "g0 = fold ?add (cx_activations cx) graph_new"
  note st = start [of graph_new "cx_activations cx", folded g0_def, simplified]
  have g0: "graph_wf g0" "\<And>p c. graph_edge g0 p c = None" using st by simp_all
  have nodes: "graph_contains g0 (sum_package_id s)" if "(k, s, a) \<in> set (cx_activations cx)" for k s a
    using st that by (metis fst_conv snd_conv)
  have dist: "distinct (graph_iter (cx_parents cx))"
    using assms by (simp add: graph_iter_def graph_wf_def om_wf_distinct)
  from graph_fold_outer [OF g0(1) assms dist] g0(2) obtain g where g: "cx_graph cx = Ok g" "graph_wf g"
    "\<And>p c. graph_edge g p c = (if c \<in> set (graph_iter (cx_parents cx)) then graph_edge (cx_parents cx) c p else None)"
    "\<And>n. graph_contains g0 n \<Longrightarrow> graph_contains g n"
    unfolding cx_graph_def Let_def g0_def [symmetric] by auto
  have "graph_edge g p c = graph_edge (cx_parents cx) c p" for p c
    unfolding g(3) graph_contains_iff [symmetric] by (simp add: graph_edge_def graph_contains_def split: option.split)
  then show ?thesis using g(1,2) g(4) nodes by (blast dest: map_of_SomeD)
qed

text \<open>
  A context in which \<open>app\<close> was activated and then \<open>lib\<close> for the dependency \<open>tls\<close> of \<open>app\<close>.
\<close>

definition two_active :: "(nat, nat, nat) ctx" where
  "two_active =
     (let opts = \<lparr>dev_deps = False, opt_features = DepFeatures [] True\<rparr>;
          cx = fst (flag_activated True app_summary opts None cx_new);
          cx = cx\<lparr>cx_age := 1, cx_parents := graph_link [] (List.insert tls_dep) (sum_package_id lib_summary)
                 (sum_package_id app_summary) (cx_parents cx)\<rparr>
      in fst (flag_activated True lib_summary opts (Some (app_summary, tls_dep)) cx))"

theorem cx_graph_edges_witness:
  "\<exists>g. cx_graph two_active = Ok g \<and> graph_wf g \<and>
     graph_edge g (sum_package_id app_summary) (sum_package_id lib_summary) = Some [tls_dep] \<and>
     graph_contains g (sum_package_id app_summary) \<and> graph_contains g (sum_package_id lib_summary)"
proof -
  have parents: "cx_parents two_active = graph_link [] (List.insert tls_dep) (sum_package_id lib_summary)
      (sum_package_id app_summary) graph_new"
    by (simp add: two_active_def flag_activated_def cx_new_def Let_def app_summary_def lib_summary_def tls_dep_def)
  have wf: "graph_wf (cx_parents two_active)" unfolding parents by (simp add: graph_wf_link)
  have edge: "graph_edge (cx_parents two_active) (sum_package_id lib_summary) (sum_package_id app_summary) = Some [tls_dep]"
    unfolding parents by (simp add: graph_edge_link)
  have act: "map_of (cx_activations two_active) (as_activations_key (sum_package_id app_summary)) = Some (app_summary, 0)"
    "map_of (cx_activations two_active) (as_activations_key (sum_package_id lib_summary)) = Some (lib_summary, 1)"
    by code_simp+
  from cx_graph_edges [OF wf] obtain g where g: "cx_graph two_active = Ok g" "graph_wf g"
    "\<forall>p c. graph_edge g p c = graph_edge (cx_parents two_active) c p"
    "\<forall>k s a. map_of (cx_activations two_active) k = Some (s, a) \<longrightarrow> graph_contains g (sum_package_id s)"
    by blast
  have "graph_contains g (sum_package_id app_summary)" using g(4) act(1) by blast
  moreover have "graph_contains g (sum_package_id lib_summary)" using g(4) act(2) by blast
  moreover have "graph_edge g (sum_package_id app_summary) (sum_package_id lib_summary) = Some [tls_dep]"
    using g(3) edge by simp
  ultimately show ?thesis using g(1,2) by blast
qed

text \<open>
  C32: the queue of pending dependencies loses nothing. A push before the insertion time reaches
  \<open>u32::MAX\<close> adds the dependencies of its frame and advances the time, with or without overflow
  checks, and at \<open>u32::MAX\<close> a build with overflow checks panics. A pop removes exactly the dependency
  it returns: one wanted for error messages if there is any, and among equals one with the fewest
  candidates; it reports nothing exactly when nothing is pending.
\<close>

theorem remaining_deps_queue:
  assumes "rd_ok rd"
  shows "(if rd_time rd + 1 < 2 ^ 32
     then \<exists>rd'. rd_push checks f rd = Ok rd' \<and> rd_ok rd' \<and> rd_time rd' = rd_time rd + 1 \<and>
       pending rd' = frame_pending f + pending rd
     else checks \<longrightarrow> rd_push checks f rd = Panic) \<and>
    (case pop_most_constrained rd of
      (None, rd') \<Rightarrow> pending rd = {#}
    | (Some (jem, parent, info), rd') \<Rightarrow>
        rd_ok rd' \<and> rd_time rd' = rd_time rd \<and> pending rd = add_mset (parent, info) (pending rd') \<and>
        (\<forall>(k, f) \<in> set (rd_data rd). first_in_order jem info f))"
proof -
  have over: "checks \<longrightarrow> rd_push checks f rd = Panic" if "\<not> rd_time rd + 1 < 2 ^ 32"
    using that by (simp add: rd_push_def uadd_def)
  have push: "\<exists>rd'. rd_push checks f rd = Ok rd' \<and> rd_ok rd' \<and> rd_time rd' = rd_time rd + 1 \<and>
       pending rd' = frame_pending f + pending rd" if fits: "rd_time rd + 1 < 2 ^ 32"
    by (rule rd_push_ok [OF assms fits]) blast
  have pop: "case pop_most_constrained rd of
      (None, rd') \<Rightarrow> pending rd = {#}
    | (Some (jem, parent, info), rd') \<Rightarrow>
        rd_ok rd' \<and> rd_time rd' = rd_time rd \<and> pending rd = add_mset (parent, info) (pending rd') \<and>
        (\<forall>(k, f) \<in> set (rd_data rd). first_in_order jem info f)"
    using pop_spec [OF assms] pop_time [of rd] by (auto split: prod.splits option.splits)
  show ?thesis
  proof (intro conjI pop)
    show "if rd_time rd + 1 < 2 ^ 32
     then \<exists>rd'. rd_push checks f rd = Ok rd' \<and> rd_ok rd' \<and> rd_time rd' = rd_time rd + 1 \<and>
       pending rd' = frame_pending f + pending rd
     else checks \<longrightarrow> rd_push checks f rd = Panic"
      unfolding if_bool_eq_conj using over push by blast
  qed
qed

text \<open>
  Two frames with one candidate each, told apart by the insertion time only: both stay in the
  queue, and the older one is popped first.
\<close>

definition tls_frame :: "(nat, nat, nat) summary \<Rightarrow> (nat, nat, nat) deps_frame" where
  "tls_frame s = \<lparr>fr_parent = s, fr_just_for_error_messages = False,
     fr_remaining_siblings = [(tls_dep, [lib_summary], [])]\<rparr>"

definition two_frames :: "(nat, nat, nat) remaining_deps" where
  "two_frames = \<lparr>rd_time = 2, rd_data = [((1, 1, 0), tls_frame app_summary), ((1, 1, 1), tls_frame lib_summary)]\<rparr>"

theorem remaining_deps_queue_witness:
  "\<exists>rd. rd_push True (tls_frame app_summary) rd_new = Ok rd \<and>
     rd_push True (tls_frame lib_summary) rd = Ok two_frames \<and>
     pending two_frames = {#(app_summary, tls_dep, [lib_summary], []), (lib_summary, tls_dep, [lib_summary], [])#} \<and>
     fst (pop_most_constrained two_frames) = Some (False, app_summary, tls_dep, [lib_summary], []) \<and>
     pending (snd (pop_most_constrained two_frames)) = {#(lib_summary, tls_dep, [lib_summary], [])#}"
proof -
  let ?rd = "\<lparr>rd_time = 1, rd_data = [((1, 1, 0), tls_frame app_summary)]\<rparr>"
  have run1: "rd_push True (tls_frame app_summary) rd_new = Ok ?rd"
    by (simp add: rd_push_def rd_new_def frame_key_def min_candidates_def tls_frame_def)
  have run2: "rd_push True (tls_frame lib_summary) ?rd = Ok two_frames"
    by (simp add: rd_push_def frame_key_def min_candidates_def tls_frame_def two_frames_def uadd_def)
  have ok1: "rd_ok ?rd" "pending ?rd = {#(app_summary, tls_dep, [lib_summary], [])#}"
    using remaining_deps_queue [OF rd_ok_new, where checks = True and f = "tls_frame app_summary"] run1
    by (simp_all add: frame_pending_def tls_frame_def rd_new_def pending_def data_pending_def)
  have ok2: "rd_ok two_frames"
    "pending two_frames = {#(app_summary, tls_dep, [lib_summary], []), (lib_summary, tls_dep, [lib_summary], [])#}"
    using remaining_deps_queue [OF ok1(1), where checks = True and f = "tls_frame lib_summary"] run2 ok1(2)
    by (simp_all add: frame_pending_def tls_frame_def)
  have pop: "fst (pop_most_constrained two_frames) = Some (False, app_summary, tls_dep, [lib_summary], [])"
    by (simp add: pop_most_constrained_def two_frames_def tls_frame_def Let_def)
  then obtain rd' where rd': "pop_most_constrained two_frames = (Some (False, app_summary, tls_dep, [lib_summary], []), rd')"
    by (metis prod.collapse)
  have "pending (snd (pop_most_constrained two_frames)) = {#(lib_summary, tls_dep, [lib_summary], [])#}"
    using remaining_deps_queue [OF ok2(1)] ok2(2) by (simp add: rd')
  with run1 run2 ok2(2) pop show ?thesis by blast
qed

end
