(* ===== verification/TimeSpan.thy ===== *)
theory TimeSpan
  imports Prelude "HOL-Library.Word" "HOL-Library.Code_Target_Nat"
begin

section \<open>Time spans and the ages of the cache cleaner\<close>

text \<open>
  The model of \<open>src/util/time_span.rs\<close> and of the part of \<open>src/workspace/gc.rs\<close> that turns
  command line options and configuration into maximal ages. A \<open>Duration\<close> is its number of
  seconds, a \<open>u64\<close>: nothing here makes one with a fraction of a second. The product of the
  number and the unit is a plain \<open>u64\<close> multiplication, which panics when the build has overflow
  checks and wraps otherwise; the flag \<open>checks\<close> says which.
\<close>

type_synonym duration = "64 word"

subsection \<open>Parsing (\<open>time_span.rs\<close>)\<close>

definition is_ascii_digit :: "char \<Rightarrow> bool" where
  "is_ascii_digit c \<longleftrightarrow> CHR ''0'' \<le> c \<and> c \<le> CHR ''9''"

definition digits_value :: "string \<Rightarrow> nat" where
  "digits_value ds = foldl (\<lambda>n c. 10 * n + (of_char c - 48)) 0 ds"

text \<open>\<open>str::parse::<u64>\<close> of a string without a sign.\<close>

definition parse_u64 :: "string \<Rightarrow> 64 word option" where
  "parse_u64 s =
     (if s \<noteq> [] \<and> list_all is_ascii_digit s \<and> digits_value s < 2 ^ 64
      then Some (word_of_nat (digits_value s)) else None)"

definition unit_factors :: "(string \<times> nat) list" where
  "unit_factors =
     [(''second'', 1), (''seconds'', 1),
      (''minute'', 60), (''minutes'', 60),
      (''hour'', 60 * 60), (''hours'', 60 * 60),
      (''day'', 24 * 60 * 60), (''days'', 24 * 60 * 60),
      (''week'', 7 * 24 * 60 * 60), (''weeks'', 7 * 24 * 60 * 60),
      (''month'', 2629746), (''months'', 2629746)]"

definition unit_factor :: "string \<Rightarrow> nat option" where
  "unit_factor right = map_of unit_factors right"

text \<open>Multiplication of \<open>u64\<close>, with and without overflow checks.\<close>

definition mul_u64 :: "bool \<Rightarrow> 64 word \<Rightarrow> 64 word \<Rightarrow> (unit, 64 word) outcome" where
  "mul_u64 checks a b = (if checks \<and> \<not> unat a * unat b < 2 ^ 64 then Panic else Ok (a * b))"

definition maybe_parse_time_span :: "bool \<Rightarrow> string \<Rightarrow> (unit, duration option) outcome" where
  "maybe_parse_time_span checks s =
     (let left = takeWhile is_ascii_digit s; right = dropWhile is_ascii_digit s in
      if right = [] then Ok None
      else
        let right = (if hd right = CHR '' '' then tl right else right) in
        case parse_u64 left of
          None \<Rightarrow> Ok None
        | Some count \<Rightarrow>
            (case unit_factor right of
               None \<Rightarrow> Ok None
             | Some factor \<Rightarrow> obind (mul_u64 checks (word_of_nat factor) count) (\<lambda>d. Ok (Some d))))"

fun ok_or_else :: "(unit, 'a option) outcome \<Rightarrow> 'e \<Rightarrow> ('e, 'a) outcome" where
  "ok_or_else (Ok (Some a)) e = Ok a"
| "ok_or_else (Ok None) e = Err e"
| "ok_or_else (Err _) e = Err e"
| "ok_or_else Panic e = Panic"
| "ok_or_else OutOfFuel e = OutOfFuel"

text \<open>The error of \<open>parse_time_span\<close> carries the text that was not understood.\<close>

definition parse_time_span :: "bool \<Rightarrow> string \<Rightarrow> (string, duration) outcome" where
  "parse_time_span checks s = ok_or_else (maybe_parse_time_span checks s) s"

subsection \<open>Cleaning options (\<open>gc.rs\<close>)\<close>

definition DEFAULT_MAX_AGE_EXTRACTED :: string where
  "DEFAULT_MAX_AGE_EXTRACTED = ''1 month''"

definition DEFAULT_MAX_AGE_DOWNLOADED :: string where
  "DEFAULT_MAX_AGE_DOWNLOADED = ''3 months''"

record global_clean_config =
  gcc_max_src_age :: "string option"
  gcc_max_crate_age :: "string option"
  gcc_max_index_age :: "string option"
  gcc_max_git_co_age :: "string option"
  gcc_max_git_db_age :: "string option"

record gc_opts =
  max_src_age :: "duration option"
  max_crate_age :: "duration option"
  max_index_age :: "duration option"
  max_git_co_age :: "duration option"
  max_git_db_age :: "duration option"
  max_src_size :: "64 word option"
  max_crate_size :: "64 word option"
  max_git_size :: "64 word option"
  max_download_size :: "64 word option"

definition is_download_cache_size_set :: "gc_opts \<Rightarrow> bool" where
  "is_download_cache_size_set opts \<longleftrightarrow>
     max_src_size opts \<noteq> None \<or> max_crate_size opts \<noteq> None \<or>
     max_git_size opts \<noteq> None \<or> max_download_size opts \<noteq> None"

definition is_download_cache_opt_set :: "gc_opts \<Rightarrow> bool" where
  "is_download_cache_opt_set opts \<longleftrightarrow>
     max_src_age opts \<noteq> None \<or> max_crate_age opts \<noteq> None \<or> max_index_age opts \<noteq> None \<or>
     max_git_co_age opts \<noteq> None \<or> max_git_db_age opts \<noteq> None \<or>
     max_src_size opts \<noteq> None \<or> max_crate_size opts \<noteq> None \<or>
     max_git_size opts \<noteq> None \<or> max_download_size opts \<noteq> None"

definition maybe_newer_span :: "duration \<Rightarrow> duration option \<Rightarrow> duration" where
  "maybe_newer_span a b = (case b of Some b \<Rightarrow> if b < a then b else a | None \<Rightarrow> a)"

definition set_max_download_age :: "duration \<Rightarrow> gc_opts \<Rightarrow> gc_opts" where
  "set_max_download_age age opts = opts\<lparr>
     max_src_age := Some (maybe_newer_span age (max_src_age opts)),
     max_crate_age := Some (maybe_newer_span age (max_crate_age opts)),
     max_index_age := Some (maybe_newer_span age (max_index_age opts)),
     max_git_co_age := Some (maybe_newer_span age (max_git_co_age opts)),
     max_git_db_age := Some (maybe_newer_span age (max_git_db_age opts))\<rparr>"

text \<open>Errors name the configuration option and its text.\<close>

definition parse_time_span_for_config :: "bool \<Rightarrow> string \<Rightarrow> string \<Rightarrow> (string \<times> string, duration) outcome" where
  "parse_time_span_for_config checks config_name s =
     ok_or_else (maybe_parse_time_span checks s) (config_name, s)"

definition newer_time_span_for_config ::
  "bool \<Rightarrow> duration option \<Rightarrow> string \<Rightarrow> string \<Rightarrow> (string \<times> string, duration option) outcome" where
  "newer_time_span_for_config checks cur_span config_name config_span =
     obind (parse_time_span_for_config checks config_name config_span)
       (\<lambda>config_span. Ok (Some (maybe_newer_span config_span cur_span)))"

definition config_default :: "bool \<Rightarrow> string option \<Rightarrow> string \<Rightarrow> string" where
  "config_default unstable_allowed field dflt =
     (if \<not> unstable_allowed then dflt else case field of None \<Rightarrow> dflt | Some s \<Rightarrow> s)"

text \<open>
  The options after the call; an error drops them in the model, as every caller does.
\<close>

definition update_for_auto_gc_config ::
  "bool \<Rightarrow> global_clean_config \<Rightarrow> bool \<Rightarrow> gc_opts \<Rightarrow> (string \<times> string, gc_opts) outcome" where
  "update_for_auto_gc_config checks config unstable_allowed opts =
     obind (newer_time_span_for_config checks (max_src_age opts) ''gc.auto.max-src-age''
         (config_default unstable_allowed (gcc_max_src_age config) DEFAULT_MAX_AGE_EXTRACTED)) (\<lambda>src.
     obind (newer_time_span_for_config checks (max_crate_age opts) ''gc.auto.max-crate-age''
         (config_default unstable_allowed (gcc_max_crate_age config) DEFAULT_MAX_AGE_DOWNLOADED)) (\<lambda>crate.
     obind (newer_time_span_for_config checks (max_index_age opts) ''gc.auto.max-index-age''
         (config_default unstable_allowed (gcc_max_index_age config) DEFAULT_MAX_AGE_DOWNLOADED)) (\<lambda>index.
     obind (newer_time_span_for_config checks (max_git_co_age opts) ''gc.auto.max-git-co-age''
         (config_default unstable_allowed (gcc_max_git_co_age config) DEFAULT_MAX_AGE_EXTRACTED)) (\<lambda>git_co.
     obind (newer_time_span_for_config checks (max_git_db_age opts) ''gc.auto.max-git-db-age''
         (config_default unstable_allowed (gcc_max_git_db_age config) DEFAULT_MAX_AGE_DOWNLOADED)) (\<lambda>git_db.
       Ok (opts\<lparr>max_src_age := src, max_crate_age := crate, max_index_age := index,
         max_git_co_age := git_co, max_git_db_age := git_db\<rparr>))))))"

definition parse_frequency :: "bool \<Rightarrow> string \<Rightarrow> (string, duration option) outcome" where
  "parse_frequency checks frequency =
     (if frequency = ''always'' then Ok (Some 0)
      else if frequency = ''never'' then Ok None
      else obind (ok_or_else (maybe_parse_time_span checks frequency) frequency) (\<lambda>d. Ok (Some d)))"

subsection \<open>What the parser accepts\<close>

definition span_text :: "string \<Rightarrow> string \<Rightarrow> string \<Rightarrow> bool" where
  "span_text ds sep u \<longleftrightarrow> ds \<noteq> [] \<and> list_all is_ascii_digit ds \<and> (sep = [] \<or> sep = '' '') \<and>
     digits_value ds < 2 ^ 64 \<and> unit_factor u \<noteq> None"

lemma unit_factor_Some:
  assumes "unit_factor u = Some k"
  shows "u \<noteq> []" "\<not> is_ascii_digit (hd u)" "hd u \<noteq> CHR '' ''" "0 < k" "k < 2 ^ 64"
proof -
  have "(u, k) \<in> set unit_factors"
    using assms unfolding unit_factor_def by (rule map_of_SomeD)
  moreover have "list_all (\<lambda>(u, k). u \<noteq> [] \<and> \<not> is_ascii_digit (hd u) \<and> hd u \<noteq> CHR '' '' \<and>
      0 < k \<and> k < 2 ^ 64) unit_factors"
    by code_simp
  ultimately show "u \<noteq> []" "\<not> is_ascii_digit (hd u)" "hd u \<noteq> CHR '' ''" "0 < k" "k < 2 ^ 64"
    by (auto simp: list_all_iff)
qed

lemma split_digits:
  assumes "span_text ds sep u"
  shows "takeWhile is_ascii_digit (ds @ sep @ u) = ds" "dropWhile is_ascii_digit (ds @ sep @ u) = sep @ u"
proof -
  obtain k where u: "unit_factor u = Some k" using assms by (auto simp: span_text_def)
  have sp: "\<not> is_ascii_digit CHR '' ''" by (simp add: is_ascii_digit_def less_eq_char_def)
  have "sep @ u \<noteq> []" "\<not> is_ascii_digit (hd (sep @ u))"
    using unit_factor_Some [OF u] assms sp by (auto simp: span_text_def)
  moreover have "\<forall>c \<in> set ds. is_ascii_digit c"
    using assms by (simp add: span_text_def list_all_iff)
  ultimately show "takeWhile is_ascii_digit (ds @ sep @ u) = ds"
      "dropWhile is_ascii_digit (ds @ sep @ u) = sep @ u"
    by (simp_all add: takeWhile_append2 dropWhile_append2 takeWhile_eq_Nil_iff dropWhile_eq_self_iff)
qed

lemma parse_span_text:
  assumes "span_text ds sep u" and "unit_factor u = Some k"
  shows "maybe_parse_time_span checks (ds @ sep @ u) =
    obind (mul_u64 checks (word_of_nat k) (word_of_nat (digits_value ds))) (\<lambda>d. Ok (Some d))"
proof -
  have "sep @ u \<noteq> []" "(if hd (sep @ u) = CHR '' '' then tl (sep @ u) else sep @ u) = u"
    using assms unit_factor_Some [OF assms(2)] by (auto simp: span_text_def)
  moreover have "parse_u64 ds = Some (word_of_nat (digits_value ds))"
    using assms(1) by (simp add: parse_u64_def span_text_def)
  ultimately show ?thesis
    unfolding maybe_parse_time_span_def split_digits [OF assms(1)] Let_def
    by (simp only: if_False option.case assms(2))
qed

lemma parse_span_text_conv:
  assumes "maybe_parse_time_span checks s \<noteq> Ok None"
  shows "\<exists>ds sep u. s = ds @ sep @ u \<and> span_text ds sep u"
proof -
  let ?l = "takeWhile is_ascii_digit s" and ?r = "dropWhile is_ascii_digit s"
  let ?sep = "if hd ?r = CHR '' '' then '' '' else []"
  let ?u = "if hd ?r = CHR '' '' then tl ?r else ?r"
  have "?r \<noteq> []" "parse_u64 ?l \<noteq> None" "unit_factor ?u \<noteq> None"
    using assms by (auto simp: maybe_parse_time_span_def Let_def split: if_splits option.splits)
  then have "s = ?l @ ?sep @ ?u" "span_text ?l ?sep ?u"
    by (cases ?r; auto simp: span_text_def parse_u64_def split: if_splits; metis takeWhile_dropWhile_id)+
  then show ?thesis by blast
qed

lemma mul_u64_value:
  assumes "k < 2 ^ 64" and "n < 2 ^ 64"
  shows "mul_u64 checks (word_of_nat k) (word_of_nat n) =
    (if k * n < 2 ^ 64 \<or> \<not> checks then Ok (word_of_nat (k * n)) else Panic)"
  using assms by (auto simp: mul_u64_def unat_of_nat)

text \<open>
  C19: A time span is a number below \<open>2 ^ 64\<close>, at most one space and a unit; everything else is
  refused without a panic. The result is the exact number of seconds if that number fits in 64
  bits. Otherwise the multiplication overflows: with overflow checks the parser panics, without
  them it returns the product modulo \<open>2 ^ 64\<close>, a span that can be arbitrarily short.
\<close>

theorem time_span_bounds:
  "(span_text ds sep u \<longrightarrow> maybe_parse_time_span checks (ds @ sep @ u) =
     (let n = the (unit_factor u) * digits_value ds in
      if n < 2 ^ 64 then Ok (Some (word_of_nat n))
      else if checks then Panic else Ok (Some (word_of_nat (n mod 2 ^ 64))))) \<and>
   ((\<nexists>ds sep u. s = ds @ sep @ u \<and> span_text ds sep u) \<longrightarrow> maybe_parse_time_span checks s = Ok None)"
proof (intro conjI impI)
  assume t: "span_text ds sep u"
  then obtain k where k: "unit_factor u = Some k" by (auto simp: span_text_def)
  have n: "digits_value ds < 2 ^ 64" using t by (simp add: span_text_def)
  have wrap: "(word_of_nat (m mod 2 ^ 64) :: 64 word) = word_of_nat m" for m
    by (rule word_unat_eq_iff [THEN iffD2]) (simp add: unat_of_nat)
  show "maybe_parse_time_span checks (ds @ sep @ u) =
     (let n = the (unit_factor u) * digits_value ds in
      if n < 2 ^ 64 then Ok (Some (word_of_nat n))
      else if checks then Panic else Ok (Some (word_of_nat (n mod 2 ^ 64))))"
    unfolding parse_span_text [OF t k] wrap mul_u64_value [OF unit_factor_Some(5) [OF k] n]
    by (simp add: k Let_def)
qed (use parse_span_text_conv in blast)

theorem time_span_bounds_witness:
  "maybe_parse_time_span False ''7014648591047 months'' = Ok (Some (word_of_nat 1932446)) \<and>
   maybe_parse_time_span True ''7014648591047 months'' = Panic"
proof -
  have t: "span_text ''7014648591047'' '' '' ''months''"
    by code_simp
  have u: "unit_factor ''months'' = Some 2629746" "digits_value ''7014648591047'' = 7014648591047"
    by code_simp+
  show ?thesis
    using time_span_bounds [of "''7014648591047''" "'' ''" "''months''" False "[]"]
      time_span_bounds [of "''7014648591047''" "'' ''" "''months''" True "[]"] t
    by (simp add: u Let_def)
qed

text \<open>The ages of the automatic cleaning are the shorter of option and configuration.\<close>

lemma maybe_newer_span_min: "maybe_newer_span a b = (case b of None \<Rightarrow> a | Some b \<Rightarrow> min a b)"
  by (auto simp: maybe_newer_span_def min_def split: option.split)

end
