(* ===== verification/VersionPrefs.thy ===== *)
theory VersionPrefs
  imports DepCache TimeSpan "HOL-Library.Multiset"
begin

section \<open>Version preferences and registry queries (version_prefs.rs, package_id_spec.rs, dep_cache.rs)\<close>

text \<open>
  Which candidates the resolver sees and in which order: \<open>VersionPreferences\<close> with the
  publish-age policy, \<open>PackageIdSpec\<close> matching, and \<open>RegistryQueryerAsync::query\<close>,
  which filters, applies \<open>[replace]\<close> and sorts. Times and durations are integers
  (nanoseconds). The lookups on a source id (\<open>alt_registry_key\<close>, \<open>is_crates_io\<close>,
  \<open>url\<close>, \<open>kind\<close>, \<open>precise_registry_version\<close>), \<open>VersionReq::matches\<close> and the
  checked subtraction of the \<open>jiff\<close> crate are arguments.

  \<open>sort_unstable_by\<close> is an insertion sort by the comparison function: it may order elements
  that compare equal in another way, and the theorems only use that the result is a sorted
  permutation.
\<close>

datatype version_ordering = MaximumVersionsFirst | MinimumVersionsFirst

datatype min_publish_age = Unset | NoLimit | Age int string

fun is_set :: "min_publish_age \<Rightarrow> bool" where
  "is_set Unset = False"
| "is_set NoLimit = True"
| "is_set (Age _ _) = True"

record publish_age_policy =
  invocation_time :: int
  age_global :: min_publish_age
  age_crates_io :: min_publish_age
  per_registry :: "(string \<times> min_publish_age) list"

definition parse_age ::
  "bool \<Rightarrow> string option \<Rightarrow> (string, min_publish_age) outcome" where
  "parse_age checks config =
     (case config of
        None \<Rightarrow> Ok Unset
      | Some c \<Rightarrow>
          if c = ''0'' then Ok NoLimit
          else obind (parse_time_span checks c) (\<lambda>d. Ok (Age (10 ^ 9 * uint d) c)))"

definition policy_for_report ::
  "bool \<Rightarrow> bool \<Rightarrow> int \<Rightarrow> (string option \<times> string option) option \<Rightarrow>
   (string \<times> string option) list option \<Rightarrow> (string, publish_age_policy option) outcome" where
  "policy_for_report checks min_publish_age_flag now registry registries =
     (if \<not> min_publish_age_flag then Ok None
      else
        obind (parse_age checks (Option.bind registry fst)) (\<lambda>global.
        obind (parse_age checks (Option.bind registry snd)) (\<lambda>crates_io.
        obind (ofold (\<lambda>(name, config) acc. obind (parse_age checks config) (\<lambda>limit.
                 Ok (if is_set limit then hm_insert name limit acc else acc)))
               (case registries of None \<Rightarrow> [] | Some rs \<Rightarrow> rs) []) (\<lambda>per.
          if \<not> is_set global \<and> \<not> is_set crates_io \<and> per = [] then Ok None
          else Ok (Some \<lparr>invocation_time = now, age_global = global, age_crates_io = crates_io,
                 per_registry = per\<rparr>)))))"

definition policy_new ::
  "bool \<Rightarrow> bool \<Rightarrow> bool \<Rightarrow> int \<Rightarrow> (string option \<times> string option) option \<Rightarrow>
   (string \<times> string option) list option \<Rightarrow> (string, publish_age_policy option) outcome" where
  "policy_new checks allow_incompatible min_publish_age_flag now registry registries =
     (if allow_incompatible then Ok None
      else policy_for_report checks min_publish_age_flag now registry registries)"

definition min_age ::
  "('s \<Rightarrow> string option) \<Rightarrow> ('s \<Rightarrow> bool) \<Rightarrow> publish_age_policy \<Rightarrow> 's \<Rightarrow> min_publish_age" where
  "min_age alt_registry_key is_crates_io pol source_id =
     (case Option.bind (alt_registry_key source_id) (map_of (per_registry pol)) of
        Some m \<Rightarrow> if is_set m then m
                  else if is_crates_io source_id \<and> is_set (age_crates_io pol) then age_crates_io pol
                  else age_global pol
      | None \<Rightarrow> if is_crates_io source_id \<and> is_set (age_crates_io pol) then age_crates_io pol
                else age_global pol)"

record publish_age_violation =
  vio_age :: int
  vio_config :: string

definition policy_too_new ::
  "(int \<Rightarrow> int \<Rightarrow> int option) \<Rightarrow> ('s \<Rightarrow> string option) \<Rightarrow> ('s \<Rightarrow> bool) \<Rightarrow> publish_age_policy \<Rightarrow>
   ('p, 'b, 's) summary \<Rightarrow> publish_age_violation option" where
  "policy_too_new checked_sub alt_registry_key is_crates_io pol s =
     (case sum_pubtime s of
        None \<Rightarrow> None
      | Some pubtime \<Rightarrow>
          (case min_age alt_registry_key is_crates_io pol (pkg_source (sum_package_id s)) of
             Age m config \<Rightarrow>
               (let publish_age = \<lparr>vio_age = invocation_time pol - pubtime, vio_config = config\<rparr>
                in case checked_sub (invocation_time pol) m of
                     Some max_pubtime \<Rightarrow> if pubtime > max_pubtime then Some publish_age else None
                   | None \<Rightarrow> Some publish_age)
           | _ \<Rightarrow> None))"

record ('p, 'b, 's) version_prefs =
  try_to_use :: "('p, 'b, 's) package_id list"
  prefer_patch_deps :: "(string \<times> ('p, 'b, 's) dependency list) list"
  vp_ordering :: version_ordering
  vp_rust_versions :: "('p, 'b) partial_version list"
  vp_publish_time :: "int option"
  vp_publish_age :: "publish_age_policy option"

definition prefer_package_id :: "('p, 'b, 's) package_id \<Rightarrow> ('p, 'b, 's) version_prefs \<Rightarrow> ('p, 'b, 's) version_prefs" where
  "prefer_package_id i vp = vp\<lparr>try_to_use := List.insert i (try_to_use vp)\<rparr>"

definition prefer_dependency :: "('p, 'b, 's) dependency \<Rightarrow> ('p, 'b, 's) version_prefs \<Rightarrow> ('p, 'b, 's) version_prefs" where
  "prefer_dependency dep vp =
     vp\<lparr>prefer_patch_deps := hm_insert (dep_name dep)
          (List.insert dep (unwrap_or [] (map_of (prefer_patch_deps vp) (dep_name dep)))) (prefer_patch_deps vp)\<rparr>"

definition too_new ::
  "(int \<Rightarrow> int \<Rightarrow> int option) \<Rightarrow> ('s \<Rightarrow> string option) \<Rightarrow> ('s \<Rightarrow> bool) \<Rightarrow> ('p, 'b, 's) version_prefs \<Rightarrow>
   ('p, 'b, 's) summary \<Rightarrow> publish_age_violation option" where
  "too_new checked_sub alt_registry_key is_crates_io vp s =
     Option.bind (vp_publish_age vp) (\<lambda>pol. policy_too_new checked_sub alt_registry_key is_crates_io pol s)"

definition should_prefer ::
  "('p version_req \<Rightarrow> ('p, 'b) version \<Rightarrow> bool) \<Rightarrow> ('p, 'b, 's) version_prefs \<Rightarrow> ('p, 'b, 's) package_id \<Rightarrow> bool" where
  "should_prefer m vp i =
     (i \<in> set (try_to_use vp) \<or>
      (case map_of (prefer_patch_deps vp) (pkg_name i) of
         None \<Rightarrow> False | Some deps \<Rightarrow> list_ex (\<lambda>d. matches_id m d i) deps))"

definition msrv_compat_count ::
  "('p version_req \<Rightarrow> ('p, 'b) version \<Rightarrow> bool) \<Rightarrow> ('p, 'b, 's) version_prefs \<Rightarrow> ('p, 'b, 's) summary \<Rightarrow> nat" where
  "msrv_compat_count m vp s =
     (case sum_rust_version s of
        None \<Rightarrow> length (vp_rust_versions vp)
      | Some rv \<Rightarrow> length (filter (is_compatible_with m rv) (vp_rust_versions vp)))"

text \<open>\<open>not_after a b\<close>: the comparison closure of \<open>sort_summaries\<close> does not return \<open>Greater\<close>.\<close>

definition not_after ::
  "('p version_req \<Rightarrow> ('p::linorder, 'b::linorder) version \<Rightarrow> bool) \<Rightarrow> ('p, 'b, 's) version_prefs \<Rightarrow>
   version_ordering option \<Rightarrow> ('p, 'b, 's) summary \<Rightarrow> ('p, 'b, 's) summary \<Rightarrow> bool" where
  "not_after m vp first_version a b =
     (let prefer_a = should_prefer m vp (sum_package_id a);
          prefer_b = should_prefer m vp (sum_package_id b);
          va = pkg_version (sum_package_id a); vb = pkg_version (sum_package_id b)
      in if prefer_a \<noteq> prefer_b then prefer_a
         else if vp_rust_versions vp \<noteq> [] \<and> msrv_compat_count m vp b \<noteq> msrv_compat_count m vp a
         then msrv_compat_count m vp b < msrv_compat_count m vp a
         else case unwrap_or (vp_ordering vp) first_version of
                MaximumVersionsFirst \<Rightarrow> vb \<le> va
              | MinimumVersionsFirst \<Rightarrow> va \<le> vb)"

fun insort_by :: "('a \<Rightarrow> 'a \<Rightarrow> bool) \<Rightarrow> 'a \<Rightarrow> 'a list \<Rightarrow> 'a list" where
  "insort_by le x [] = [x]"
| "insort_by le x (y # ys) = (if le x y then x # y # ys else y # insort_by le x ys)"

definition sort_by :: "('a \<Rightarrow> 'a \<Rightarrow> bool) \<Rightarrow> 'a list \<Rightarrow> 'a list" where
  "sort_by le xs = foldr (insort_by le) xs []"

definition sort_summaries ::
  "('p version_req \<Rightarrow> ('p::linorder, 'b::linorder) version \<Rightarrow> bool) \<Rightarrow> ('p, 'b, 's) version_prefs \<Rightarrow>
   version_ordering option \<Rightarrow> ('p, 'b, 's) summary list \<Rightarrow> ('p, 'b, 's) summary list" where
  "sort_summaries m vp first_version summaries =
     (let summaries = (case vp_publish_time vp of
            None \<Rightarrow> summaries
          | Some max_publish_time \<Rightarrow>
              filter (\<lambda>s. case sum_pubtime s of None \<Rightarrow> True | Some t \<Rightarrow> t \<le> max_publish_time) summaries);
          sorted = sort_by (not_after m vp first_version) summaries
      in if first_version \<noteq> None \<and> sorted \<noteq> [] then take 1 sorted else sorted)"

subsection \<open>Package id specifications\<close>

record ('p, 'b, 'u, 'k) package_id_spec =
  ps_name :: string
  ps_version :: "('p, 'b) partial_version option"
  ps_url :: "'u option"
  ps_kind :: "'k option"

definition spec_matches ::
  "('s \<Rightarrow> 'u) \<Rightarrow> ('s \<Rightarrow> 'k) \<Rightarrow> ('p, 'b, 'u, 'k) package_id_spec \<Rightarrow> ('p, 'b, 's) package_id \<Rightarrow> bool" where
  "spec_matches url kind spec i =
     (if ps_name spec \<noteq> pkg_name i then False
      else if (case ps_version spec of None \<Rightarrow> False | Some v \<Rightarrow> \<not> pv_matches v (pkg_version i)) then False
      else if (case ps_url spec of None \<Rightarrow> False | Some u \<Rightarrow> u \<noteq> url (pkg_source i)) then False
      else if (case ps_kind spec of None \<Rightarrow> False | Some k \<Rightarrow> k \<noteq> kind (pkg_source i)) then False
      else True)"

datatype ('p, 'b, 's) spec_line = NameAtVersion string "('p, 'b) version" | FullSpec "('p, 'b, 's) package_id"

definition minimize :: "string \<Rightarrow> ('p, 'b, 's) package_id list \<Rightarrow> ('p, 'b, 's) spec_line list" where
  "minimize name ids =
     map (\<lambda>i. if count_list (map pkg_version ids) (pkg_version i) = 1
              then NameAtVersion name (pkg_version i) else FullSpec i) ids"

datatype ('p, 'b, 's) spec_error =
    NoMatch "('p, 'b, 's) spec_line list"
  | Ambiguous "('p, 'b, 's) spec_line list"

definition spec_query ::
  "('s \<Rightarrow> 'u) \<Rightarrow> ('s \<Rightarrow> 'k) \<Rightarrow> ('p, 'b, 'u, 'k) package_id_spec \<Rightarrow> ('p, 'b, 's) package_id list \<Rightarrow>
   (('p, 'b, 's) spec_error, ('p, 'b, 's) package_id) outcome" where
  "spec_query url kind spec all_ids =
     (case filter (spec_matches url kind spec) all_ids of
        [] \<Rightarrow>
          (let just_name = \<lparr>ps_name = ps_name spec, ps_version = None, ps_url = None, ps_kind = None\<rparr>;
               try_spec = (\<lambda>sp. minimize (ps_name spec) (filter (spec_matches url kind sp) all_ids));
               s1 = (if ps_url spec \<noteq> None then try_spec (just_name\<lparr>ps_version := ps_version spec\<rparr>) else []);
               s2 = (if s1 = [] \<and> (case ps_version spec of None \<Rightarrow> False | Some v \<Rightarrow> pv_to_version v \<noteq> None)
                     then try_spec just_name else s1)
           in Err (NoMatch s2))
      | [ret] \<Rightarrow> Ok ret
      | ids \<Rightarrow> Err (Ambiguous (minimize (ps_name spec) ids)))"

subsection \<open>Registry queries\<close>

datatype ('p, 'b, 's) index_summary =
    Candidate "('p, 'b, 's) summary"
  | Yanked "('p, 'b, 's) summary"
  | Offline "('p, 'b, 's) summary"
  | Unsupported "('p, 'b, 's) summary" nat
  | Invalid "('p, 'b, 's) summary"

datatype query_error =
    RegistryFailed
  | NoPackageForOverride string
  | MultiplePackagesForOverride string
  | OverrideVersionMismatch string
  | OverlappingReplacements string

fun accept_index ::
  "(('p, 'b, 's) summary \<Rightarrow> bool) \<Rightarrow> (('p, 'b, 's) package_id \<Rightarrow> bool) \<Rightarrow> (('p, 'b, 's) package_id \<Rightarrow> bool) \<Rightarrow>
   ('p, 'b, 's) index_summary \<Rightarrow> ('p, 'b, 's) summary option" where
  "accept_index is_too_new prefer allow_precise (Candidate s) =
     (if \<not> is_too_new s \<or> prefer (sum_package_id s) then Some s else None)"
| "accept_index is_too_new prefer allow_precise (Yanked s) =
     (if allow_precise (sum_package_id s) \<or> prefer (sum_package_id s) then Some s else None)"
| "accept_index is_too_new prefer allow_precise _ = None"

fun as_candidate :: "('p, 'b, 's) index_summary \<Rightarrow> ('p, 'b, 's) summary option" where
  "as_candidate (Candidate s) = Some s"
| "as_candidate _ = None"

text \<open>One round of the loop over the summaries: \<open>used\<close> is \<open>used_replacements\<close>.\<close>

definition apply_replacement ::
  "(('p, 'b, 's) dependency \<Rightarrow> ('p, 'b, 's) index_summary list option) \<Rightarrow>
   ((('p, 'b, 's) package_id \<Rightarrow> bool) \<times> ('p, 'b, 's) dependency) list \<Rightarrow> ('p, 'b, 's) summary \<Rightarrow>
   (('p, 'b, 's) package_id \<times> ('p, 'b, 's) summary) list \<Rightarrow>
   (query_error, (('p, 'b, 's) package_id \<times> ('p, 'b, 's) summary) list) outcome" where
  "apply_replacement index replacements summary used =
     (case filter (\<lambda>(spec, _). spec (sum_package_id summary)) replacements of
        [] \<Rightarrow> Ok used
      | (spec, dep) # others \<Rightarrow>
          (case index dep of
             None \<Rightarrow> Err RegistryFailed
           | Some answers \<Rightarrow>
               (case List.map_filter as_candidate answers of
                  [] \<Rightarrow> Err (NoPackageForOverride (dep_name dep))
                | s # [] \<Rightarrow>
                    if pkg_name (sum_package_id s) \<noteq> pkg_name (sum_package_id summary) then Panic
                    else if pkg_version (sum_package_id s) \<noteq> pkg_version (sum_package_id summary)
                    then Err (OverrideVersionMismatch (pkg_name (sum_package_id summary)))
                    else if others \<noteq> [] then Err (OverlappingReplacements (pkg_name (sum_package_id summary)))
                    else if pkg_source (sum_package_id s) = pkg_source (sum_package_id summary) then Ok used
                    else Ok (hm_insert (sum_package_id summary) s used)
                | _ \<Rightarrow> Err (MultiplePackagesForOverride (dep_name dep)))))"

definition registry_query ::
  "('p version_req \<Rightarrow> ('p::linorder, 'b::linorder) version \<Rightarrow> bool) \<Rightarrow> (('p, 'b, 's) summary \<Rightarrow> bool) \<Rightarrow>
   (('p, 'b, 's) package_id \<Rightarrow> bool) \<Rightarrow> (('p, 'b, 's) dependency \<Rightarrow> ('p, 'b, 's) index_summary list option) \<Rightarrow>
   ((('p, 'b, 's) package_id \<Rightarrow> bool) \<times> ('p, 'b, 's) dependency) list \<Rightarrow> ('p, 'b, 's) version_prefs \<Rightarrow>
   ('p, 'b, 's) dependency \<Rightarrow> version_ordering option \<Rightarrow> (('p, 'b, 's) package_id \<times> ('p, 'b, 's) summary) list \<Rightarrow>
   (query_error, ('p, 'b, 's) summary list \<times> (('p, 'b, 's) package_id \<times> ('p, 'b, 's) summary) list) outcome" where
  "registry_query m is_too_new allow_precise index replacements vp dep first_version used =
     (case index dep of
        None \<Rightarrow> Err RegistryFailed
      | Some answers \<Rightarrow>
          let summaries = List.map_filter (accept_index is_too_new (should_prefer m vp) allow_precise) answers
          in obind (ofold (apply_replacement index replacements) summaries used) (\<lambda>used.
               Ok (sort_summaries m vp first_version summaries, used)))"

subsection \<open>Sorting\<close>

lemma mset_sort_by [simp]: "mset (sort_by le xs) = mset xs"
proof -
  have "mset (insort_by le x ys) = add_mset x (mset ys)" for x ys by (induction ys) auto
  then show ?thesis unfolding sort_by_def by (induction xs) auto
qed

lemma set_sort_by [simp]: "set (sort_by le xs) = set xs"
  by (metis mset_sort_by set_mset_mset)

lemma sorted_sort_by:
  assumes total: "\<And>x y. le x y \<or> le y x" and trans: "\<And>x y z. le x y \<Longrightarrow> le y z \<Longrightarrow> le x z"
  shows "sorted_wrt le (sort_by le xs)"
proof -
  have set: "set (insort_by le x ys) = insert x (set ys)" for x ys by (induction ys) auto
  have "sorted_wrt le ys \<Longrightarrow> sorted_wrt le (insort_by le x ys)" for x ys
  proof (induction ys)
    case (Cons y ys)
    then show ?case using total [of x y] by (auto simp: set intro: trans)
  qed simp
  then show ?thesis unfolding sort_by_def by (induction xs) auto
qed

lemma not_after_total: "not_after m vp fv x y \<or> not_after m vp fv y x"
  by (cases "unwrap_or (vp_ordering vp) fv") (auto simp: not_after_def Let_def)

lemma not_after_trans: "not_after m vp fv x y \<Longrightarrow> not_after m vp fv y z \<Longrightarrow> not_after m vp fv x z"
  by (cases "unwrap_or (vp_ordering vp) fv") (auto simp: not_after_def Let_def split: if_splits)

lemma sort_summaries_set:
  "set (sort_summaries m vp fv xs) \<subseteq> set xs"
  by (auto simp: sort_summaries_def Let_def dest!: in_set_takeD split: option.splits)

subsection \<open>Properties\<close>

definition published :: "('p, 'b, 's) version_prefs \<Rightarrow> ('p, 'b, 's) summary \<Rightarrow> bool" where
  "published vp s \<longleftrightarrow> (\<forall>limit t. vp_publish_time vp = Some limit \<and> sum_pubtime s = Some t \<longrightarrow> t \<le> limit)"

text \<open>
  The order that sorting promises, without the code's comparison: \<open>supports\<close> are the positions
  of the workspace's Rust versions that a summary can be built with (all of them when it names no
  Rust version), and of two summaries the one ahead is preferred if the other one is; if both or
  neither are preferred, it supports at least as many Rust versions, and if it supports equally
  many, its version is not older (not newer, for minimal versions).
\<close>

definition supports ::
  "('p version_req \<Rightarrow> ('p, 'b) version \<Rightarrow> bool) \<Rightarrow> ('p, 'b, 's) version_prefs \<Rightarrow> ('p, 'b, 's) summary \<Rightarrow> nat set" where
  "supports m vp s =
     {i. i < length (vp_rust_versions vp) \<and>
         (\<forall>rv. sum_rust_version s = Some rv \<longrightarrow> is_compatible_with m rv (vp_rust_versions vp ! i))}"

lemma card_supports: "card (supports m vp s) = msrv_compat_count m vp s"
proof (cases "sum_rust_version s")
  case None
  then show ?thesis by (simp add: supports_def msrv_compat_count_def)
next
  case (Some rv)
  then show ?thesis by (simp add: supports_def msrv_compat_count_def length_filter_conv_card)
qed

definition ahead ::
  "('p version_req \<Rightarrow> ('p::linorder, 'b::linorder) version \<Rightarrow> bool) \<Rightarrow> ('p, 'b, 's) version_prefs \<Rightarrow>
   version_ordering \<Rightarrow> ('p, 'b, 's) summary \<Rightarrow> ('p, 'b, 's) summary \<Rightarrow> bool" where
  "ahead m vp vo a b \<longleftrightarrow>
     (should_prefer m vp (sum_package_id b) \<longrightarrow> should_prefer m vp (sum_package_id a)) \<and>
     (should_prefer m vp (sum_package_id a) = should_prefer m vp (sum_package_id b) \<longrightarrow>
        card (supports m vp b) \<le> card (supports m vp a) \<and>
        (card (supports m vp a) = card (supports m vp b) \<longrightarrow>
           (vo = MaximumVersionsFirst \<longrightarrow> pkg_version (sum_package_id b) \<le> pkg_version (sum_package_id a)) \<and>
           (vo = MinimumVersionsFirst \<longrightarrow> pkg_version (sum_package_id a) \<le> pkg_version (sum_package_id b))))"

lemma msrv_count_empty: "vp_rust_versions vp = [] \<Longrightarrow> msrv_compat_count m vp s = 0"
  by (simp add: msrv_compat_count_def split: option.split)

lemma not_after_ahead: "not_after m vp fv a b \<Longrightarrow> ahead m vp (unwrap_or (vp_ordering vp) fv) a b"
  by (cases "unwrap_or (vp_ordering vp) fv")
    (auto simp: not_after_def ahead_def card_supports msrv_count_empty Let_def split: if_splits)

text \<open>
  C33: sorting keeps exactly the versions published in time, puts preferred packages first, then
  those that support more of the workspace's Rust versions, then the newest or the oldest as
  configured; when a caller asks for one ordering only the best of these versions remains.
\<close>

theorem sort_summaries_sorted:
  "case fv of
     None \<Rightarrow> mset (sort_summaries m vp fv xs) = mset (filter (published vp) xs) \<and>
       sorted_wrt (ahead m vp (vp_ordering vp)) (sort_summaries m vp fv xs)
   | Some vo \<Rightarrow> (sort_summaries m vp fv xs = [] \<longleftrightarrow> filter (published vp) xs = []) \<and>
       (\<forall>a \<in> set (sort_summaries m vp fv xs). sort_summaries m vp fv xs = [a] \<and> a \<in> set xs \<and> published vp a \<and>
         (\<forall>b \<in> set xs. published vp b \<longrightarrow> ahead m vp vo a b))"
proof -
  define ys where "ys = sort_by (not_after m vp fv) (filter (published vp) xs)"
  have kept: "(case vp_publish_time vp of None \<Rightarrow> xs | Some limit \<Rightarrow>
      filter (\<lambda>s. case sum_pubtime s of None \<Rightarrow> True | Some t \<Rightarrow> t \<le> limit) xs) = filter (published vp) xs"
    by (cases "vp_publish_time vp") (auto simp: published_def intro!: filter_cong split: option.split)
  have eq: "sort_summaries m vp fv xs = (if fv \<noteq> None \<and> ys \<noteq> [] then take 1 ys else ys)"
    unfolding sort_summaries_def kept ys_def Let_def ..
  have sorted: "sorted_wrt (not_after m vp fv) ys"
    unfolding ys_def by (rule sorted_sort_by [OF not_after_total not_after_trans])
  show ?thesis
  proof (cases fv)
    case None
    have "sorted_wrt (ahead m vp (unwrap_or (vp_ordering vp) fv)) ys"
      by (rule sorted_wrt_mono_rel [OF _ sorted]) (rule not_after_ahead)
    then show ?thesis using None eq by (simp add: ys_def unwrap_or_def)
  next
    case (Some ord)
    have mem: "b \<in> set ys \<longleftrightarrow> b \<in> set xs \<and> published vp b" for b by (auto simp: ys_def)
    have nil: "ys = [] \<longleftrightarrow> filter (published vp) xs = []"
      unfolding ys_def by (metis mset_sort_by mset_zero_iff)
    show ?thesis
    proof (cases ys)
      case Nil
      with Some eq nil show ?thesis by simp
    next
      case (Cons a zs)
      have "not_after m vp fv a b" if "b \<in> set xs" "published vp b" for b
        using that mem [of b] sorted not_after_total [of m vp fv a a] by (auto simp: Cons)
      then have "ahead m vp ord a b" if "b \<in> set xs" "published vp b" for b
        using that not_after_ahead [of m vp fv a b] Some by (simp add: unwrap_or_def)
      with Some eq nil Cons mem [of a] show ?thesis by simp
    qed
  qed
qed

definition no_prefs :: "(nat, nat, nat) version_prefs" where
  "no_prefs = \<lparr>try_to_use = [], prefer_patch_deps = [], vp_ordering = MaximumVersionsFirst, vp_rust_versions = [],
     vp_publish_time = None, vp_publish_age = None\<rparr>"

definition lib_at :: "nat \<Rightarrow> nat \<Rightarrow> rust_version option \<Rightarrow> (nat, nat, nat) summary" where
  "lib_at major minor rv =
     lib_summary\<lparr>sum_package_id := PackageId ''lib'' (Version major minor 0 None None) 0, sum_rust_version := rv\<rparr>"

definition locked_prefs :: "(nat, nat, nat) version_prefs" where
  "locked_prefs = no_prefs\<lparr>try_to_use := [PackageId ''lib'' (Version 0 9 0 None None) 0],
     vp_rust_versions := [\<lparr>pv_major = 1, pv_minor = Some 70, pv_patch = None, pv_pre = None, pv_build = None\<rparr>]\<rparr>"

definition caret_match :: "nat version_req \<Rightarrow> (nat, nat) version \<Rightarrow> bool" where
  "caret_match req v \<longleftrightarrow> matches_prerelease False 0 req v = (Ok True :: (unit, bool) outcome)"

lemma lib_caret:
  "caret_match (pv_to_caret_req \<lparr>pv_major = 1, pv_minor = Some 80, pv_patch = Some 0, pv_pre = None, pv_build = None\<rparr>)
     (Version 1 70 0 None None) = False"
  "caret_match (pv_to_caret_req \<lparr>pv_major = 1, pv_minor = Some 60, pv_patch = Some 0, pv_pre = None, pv_build = None\<rparr>)
     (Version 1 70 0 None None) = True"
  by (simp_all add: caret_match_def pv_to_caret_req_def matches_prerelease_def matches_prerelease_impl_def
      matches_caret_prerelease_def matches_exact_def matches_greater_def fill_partial_req_def caret_upper_def
      bump_major_def matches_less_def Let_def)

text \<open>
  The locked version comes first, then the newest version that builds with the workspace's Rust
  version, then the older one that does, and the newest of all, which needs a newer compiler, last.
\<close>

theorem sort_summaries_sorted_witness:
  "sort_summaries caret_match locked_prefs None
     [lib_at 1 0 None, lib_at 2 0 (Some (rv_new 1 80 0)), lib_at 0 9 None, lib_at 1 5 (Some (rv_new 1 60 0))] =
     [lib_at 0 9 None, lib_at 1 5 (Some (rv_new 1 60 0)), lib_at 1 0 None, lib_at 2 0 (Some (rv_new 1 80 0))] \<and>
   sorted_wrt (ahead caret_match locked_prefs MaximumVersionsFirst)
     [lib_at 0 9 None, lib_at 1 5 (Some (rv_new 1 60 0)), lib_at 1 0 None, lib_at 2 0 (Some (rv_new 1 80 0))]"
proof -
  let ?xs = "[lib_at 1 0 None, lib_at 2 0 (Some (rv_new 1 80 0)), lib_at 0 9 None, lib_at 1 5 (Some (rv_new 1 60 0))]"
  have run: "sort_summaries caret_match locked_prefs None ?xs =
      [lib_at 0 9 None, lib_at 1 5 (Some (rv_new 1 60 0)), lib_at 1 0 None, lib_at 2 0 (Some (rv_new 1 80 0))]"
    by (simp add: sort_summaries_def sort_by_def not_after_def locked_prefs_def no_prefs_def lib_at_def should_prefer_def
      msrv_compat_count_def is_compatible_with_def rv_new_def rv_to_partial_def unwrap_or_def lib_caret [unfolded One_nat_def]
      less_eq_version_def ver_point_def)
  have "vp_ordering locked_prefs = MaximumVersionsFirst" by (simp add: locked_prefs_def no_prefs_def)
  with sort_summaries_sorted [where fv = None and m = caret_match and vp = locked_prefs and xs = ?xs] run
  show ?thesis by simp
qed

text \<open>
  under the documented behaviour of checked time arithmetic, a version is too new exactly
  when its publication time is known, an age limit applies to its registry, and it was published
  less than that age ago; a limit that reaches before the first representable time blocks
  every dated version.
\<close>

theorem too_new_iff:
  assumes some: "\<And>t d u. checked_sub t d = Some u \<Longrightarrow> u = t - d"
    and none: "\<And>t d. checked_sub t d = None \<Longrightarrow> t - d < first_time"
    and dated: "\<And>t. sum_pubtime s = Some t \<Longrightarrow> first_time \<le> t"
  shows "policy_too_new checked_sub key crates_io pol s \<noteq> None \<longleftrightarrow>
    (\<exists>t limit config. sum_pubtime s = Some t \<and>
       min_age key crates_io pol (pkg_source (sum_package_id s)) = Age limit config \<and>
       invocation_time pol - t < limit)"
proof (cases "sum_pubtime s")
  case (Some t)
  show ?thesis
  proof (cases "min_age key crates_io pol (pkg_source (sum_package_id s))")
    case (Age limit config)
    show ?thesis
      using Some Age some [of "invocation_time pol" limit] none [of "invocation_time pol" limit] dated [OF Some]
      by (cases "checked_sub (invocation_time pol) limit") (auto simp: policy_too_new_def Let_def)
  qed (simp_all add: policy_too_new_def Some)
qed (simp add: policy_too_new_def)

theorem too_new_iff_witness:
  "policy_too_new (\<lambda>t d. if t - d < 0 then None else Some (t - d)) (\<lambda>_. None) (\<lambda>_. True)
     \<lparr>invocation_time = 100, age_global = NoLimit, age_crates_io = Age 30 ''30 seconds'', per_registry = []\<rparr>
     (lib_summary\<lparr>sum_pubtime := Some 80\<rparr>) \<noteq> None"
proof -
  let ?pol = "\<lparr>invocation_time = 100, age_global = NoLimit, age_crates_io = Age 30 ''30 seconds'', per_registry = []\<rparr>"
  have "(\<exists>t limit config. sum_pubtime (lib_summary\<lparr>sum_pubtime := Some 80\<rparr>) = Some t \<and>
       min_age (\<lambda>_. None) (\<lambda>_. True) ?pol (pkg_source (sum_package_id (lib_summary\<lparr>sum_pubtime := Some 80\<rparr>))) =
         Age limit config \<and> invocation_time ?pol - t < limit)"
    by (simp add: min_age_def)
  then show ?thesis
    by (subst too_new_iff [where first_time = 0]) (auto split: if_splits)
qed

text \<open>
  whatever a query returns was offered by the index: an available version that is old enough
  or preferred, or a yanked one that is preferred or was named precisely; offline, unsupported
  and invalid entries never become candidates.
\<close>

theorem registry_query_sound:
  assumes "registry_query m is_too_new precise index replacements vp dep fv used = Ok (cs, used')" and "s \<in> set cs"
  shows "\<exists>answers. index dep = Some answers \<and>
    (Candidate s \<in> set answers \<and> (\<not> is_too_new s \<or> should_prefer m vp (sum_package_id s)) \<or>
     Yanked s \<in> set answers \<and> (precise (sum_package_id s) \<or> should_prefer m vp (sum_package_id s)))"
proof -
  from assms(1) obtain answers where ans: "index dep = Some answers"
    and cs: "cs = sort_summaries m vp fv
      (List.map_filter (accept_index is_too_new (should_prefer m vp) precise) answers)"
    by (auto simp: registry_query_def Let_def split: option.splits)
  have "s \<in> set (List.map_filter (accept_index is_too_new (should_prefer m vp) precise) answers)"
    using assms(2) sort_summaries_set unfolding cs by blast
  then obtain a where a: "a \<in> set answers" "accept_index is_too_new (should_prefer m vp) precise a = Some s"
    by (auto simp: List.map_filter_def)
  from a(2) have "(a = Candidate s \<and> (\<not> is_too_new s \<or> should_prefer m vp (sum_package_id s))) \<or>
     (a = Yanked s \<and> (precise (sum_package_id s) \<or> should_prefer m vp (sum_package_id s)))"
    by (cases a) (auto split: if_splits)
  with a(1) ans show ?thesis by blast
qed

theorem registry_query_sound_witness:
  "\<exists>answers. Some [Candidate lib_summary, Yanked app_summary] = Some answers \<and> Candidate lib_summary \<in> set answers"
proof -
  have "registry_query (\<lambda>_ _. True) (\<lambda>_. False) (\<lambda>_. False) (\<lambda>_. Some [Candidate lib_summary, Yanked app_summary]) []
      no_prefs tls_dep None [] = Ok ([lib_summary], [])"
    by code_simp
  from registry_query_sound [OF this, of lib_summary] show ?thesis
    by (auto simp: lib_summary_def app_summary_def)
qed

end
