(* ===== verification/Resolver.thy ===== *)
theory Resolver
  imports ResolverContext VersionPrefs
begin

section \<open>The dependency resolver (src/resolver/mod.rs)\<close>

text \<open>
  \<open>activate_deps_loop\<close> as a state machine. Its local variables are the records \<open>search\<close> (what
  the outer loop keeps) and \<open>attempt\<close> (what the inner loop adds for the dependency at hand);
  \<open>resolver_step\<close> is one round of the outer loop (\<open>Pick\<close>) or of the inner one (\<open>Attempt\<close>).
  The backtrack stack has its top at the head of the list. \<open>RemainingCandidates\<close> is the pair of
  the candidates not yet looked at and the stashed one. Progress output and timing are left out.
  Of the debug assertions, that of \<open>flag_activated\<close> runs when \<open>checks\<close> is set; the others (on the
  conflict cache and in \<open>find_candidate\<close>) are left out.

  The registry is a record of functions: the answers to a query once they are ready, and the
  summary that \<open>[replace]\<close> substitutes for a package.
\<close>

record ('p, 'b, 's) registry =
  reg_query :: "version_ordering option \<Rightarrow> ('p, 'b, 's) dependency \<Rightarrow> ('p, 'b, 's) summary list option"
  reg_replacement :: "('p, 'b, 's) package_id \<Rightarrow> ('p, 'b, 's) summary option"

type_synonym ('p, 'b, 's) conflicts_cache =
  "(('p, 'b, 's) dependency, ('p, 'b, 's) package_id, conflict_reason) conflict_cache"

subsection \<open>Activation\<close>

definition record_features ::
  "('p, 'b, 's) package_id \<Rightarrow> string set \<Rightarrow> ('p, 'b, 's) ctx \<Rightarrow> ('p, 'b, 's) ctx" where
  "record_features i used cx =
     cx\<lparr>cx_features := hm_insert i
          (sorted_list_of_set (set (unwrap_or [] (map_of (cx_features cx) i)) \<union> used)) (cx_features cx)\<rparr>"

definition activate_deps ::
  "('p, 'b, 's) registry \<Rightarrow> ('p, 'b, 's) package_id option \<Rightarrow> ('p, 'b, 's) summary \<Rightarrow> version_ordering option \<Rightarrow>
   resolve_opts \<Rightarrow> ('p, 'b, 's) ctx \<Rightarrow>
   ('p, 'b, 's) ctx \<times> (('p, 'b, 's) activate_error, ('p, 'b, 's) deps_frame option) outcome" where
  "activate_deps reg parent candidate first_version opts cx =
     (case build_deps (reg_query reg first_version) parent candidate opts of
        Ok (used_features, deps) \<Rightarrow>
          (if used_features \<noteq> {} then record_features (sum_package_id candidate) used_features cx else cx,
           Ok (Some \<lparr>fr_parent = candidate, fr_just_for_error_messages = False, fr_remaining_siblings = deps\<rparr>))
      | Err e \<Rightarrow> (cx, Err e)
      | Panic \<Rightarrow> (cx, Panic)
      | OutOfFuel \<Rightarrow> (cx, OutOfFuel))"

definition add_parent ::
  "(('p, 'b, 's) summary \<times> ('p, 'b, 's) dependency) option \<Rightarrow> ('p::linorder, 'b::linorder, 's::linorder) package_id \<Rightarrow>
   ('p, 'b, 's) ctx \<Rightarrow> ('p, 'b, 's) ctx" where
  "add_parent parent i cx =
     (case parent of
        None \<Rightarrow> cx
      | Some (p, dep) \<Rightarrow>
          cx\<lparr>cx_parents := graph_link [] (List.insert dep) i (sum_package_id p) (cx_parents cx)\<rparr>)"

definition activate ::
  "bool \<Rightarrow> ('p::linorder, 'b::linorder, 's::linorder) registry \<Rightarrow> (('p, 'b, 's) summary \<times> ('p, 'b, 's) dependency) option \<Rightarrow>
   ('p, 'b, 's) summary \<Rightarrow> version_ordering option \<Rightarrow> resolve_opts \<Rightarrow> ('p, 'b, 's) ctx \<Rightarrow>
   ('p, 'b, 's) ctx \<times> (('p, 'b, 's) activate_error, ('p, 'b, 's) deps_frame option) outcome" where
  "activate checks reg parent candidate first_version opts cx =
     (let parent_id = map_option (\<lambda>(p, _). sum_package_id p) parent;
          cx = add_parent parent (sum_package_id candidate) (cx\<lparr>cx_age := cx_age cx + 1\<rparr>)
      in case flag_activated checks candidate opts parent cx of
           (cx, Ok activated) \<Rightarrow>
             (case reg_replacement reg (sum_package_id candidate) of
                Some replace \<Rightarrow>
                  (case flag_activated checks replace opts None cx of
                     (cx, Ok b) \<Rightarrow> if b \<and> activated then (cx, Ok None)
                                   else activate_deps reg parent_id replace first_version opts cx
                   | (cx, Err e) \<Rightarrow> (cx, Err e)
                   | (cx, Panic) \<Rightarrow> (cx, Panic)
                   | (cx, OutOfFuel) \<Rightarrow> (cx, OutOfFuel))
              | None \<Rightarrow> if activated then (cx, Ok None)
                        else activate_deps reg parent_id candidate first_version opts cx)
         | (cx, Err e) \<Rightarrow> (cx, Err e)
         | (cx, Panic) \<Rightarrow> (cx, Panic)
         | (cx, OutOfFuel) \<Rightarrow> (cx, OutOfFuel))"

subsection \<open>Candidates and backtracking\<close>

definition or_insert_reason ::
  "('p::linorder, 'b::linorder, 's::linorder) package_id \<Rightarrow> conflict_reason \<Rightarrow> ('p, 'b, 's) conflict_map \<Rightarrow>
   ('p, 'b, 's) conflict_map" where
  "or_insert_reason i r m = (case map_of m i of None \<Rightarrow> om_insert i r m | Some _ \<Rightarrow> m)"

definition semver_clash :: "('p, 'b, 's) ctx \<Rightarrow> ('p, 'b, 's) summary \<Rightarrow> ('p, 'b, 's) package_id option" where
  "semver_clash cx b =
     (case map_of (cx_activations cx) (as_activations_key (sum_package_id b)) of
        Some (a, _) \<Rightarrow> if \<not> summary_eq a b then Some (sum_package_id a) else None
      | None \<Rightarrow> None)"

definition links_clash :: "('p, 'b, 's) ctx \<Rightarrow> ('p, 'b, 's) summary \<Rightarrow> (string \<times> ('p, 'b, 's) package_id) option" where
  "links_clash cx b =
     (case sum_links b of
        None \<Rightarrow> None
      | Some link \<Rightarrow>
          (case map_of (cx_links cx) link of
             None \<Rightarrow> None
           | Some a \<Rightarrow> if a \<noteq> sum_package_id b then Some (link, a) else None))"

fun cand_next ::
  "('p::linorder, 'b::linorder, 's::linorder) ctx \<Rightarrow> ('p, 'b, 's) summary list \<Rightarrow> ('p, 'b, 's) summary option \<Rightarrow>
   ('p, 'b, 's) conflict_map \<Rightarrow>
   (('p, 'b, 's) summary \<times> bool) option \<times> ('p, 'b, 's) summary list \<times> ('p, 'b, 's) summary option \<times>
   ('p, 'b, 's) conflict_map" where
  "cand_next cx [] has_another con = (map_option (\<lambda>r. (r, False)) has_another, [], None, con)"
| "cand_next cx (b # bs) has_another con =
     (case semver_clash cx b of
        Some a \<Rightarrow> cand_next cx bs has_another (or_insert_reason a Semver con)
      | None \<Rightarrow>
          (case links_clash cx b of
             Some (link, a) \<Rightarrow> cand_next cx bs has_another (or_insert_reason a (Links link) con)
           | None \<Rightarrow>
               (case has_another of
                  Some r \<Rightarrow> (Some (r, True), bs, Some b, con)
                | None \<Rightarrow> cand_next cx bs (Some b) con)))"

record ('p, 'b, 's) backtrack_frame =
  bf_context :: "('p, 'b, 's) ctx"
  bf_remaining_deps :: "('p, 'b, 's) remaining_deps"
  bf_candidates :: "('p, 'b, 's) summary list"
  bf_another :: "('p, 'b, 's) summary option"
  bf_parent :: "('p, 'b, 's) summary"
  bf_dep :: "('p, 'b, 's) dependency"
  bf_features :: "string list"
  bf_conflicts :: "('p, 'b, 's) conflict_map"

fun pop_until ::
  "nat \<Rightarrow> ('p, 'b, 's) backtrack_frame list \<Rightarrow> ('p, 'b, 's) backtrack_frame list \<times> ('p, 'b, 's) backtrack_frame option" where
  "pop_until age [] = ([], None)"
| "pop_until age (f # st) = (if age \<le> cx_age (bf_context f) then pop_until age st else (st, Some f))"

definition find_candidate ::
  "('p::linorder, 'b::linorder, 's::linorder) ctx \<Rightarrow> ('p, 'b, 's) backtrack_frame list \<Rightarrow> ('p, 'b, 's) summary \<Rightarrow>
   bool \<Rightarrow> ('p, 'b, 's) conflict_map \<Rightarrow>
   (unit, ('p, 'b, 's) backtrack_frame list \<times> (('p, 'b, 's) summary \<times> bool \<times> ('p, 'b, 's) backtrack_frame) option) outcome" where
  "find_candidate cx stack parent backtracked con =
     (let age = (if \<not> backtracked then is_conflicting cx (Some (sum_package_id parent)) con else None);
          (stack, new_frame) = (case age of
              Some a \<Rightarrow> pop_until a stack
            | None \<Rightarrow> (case stack of [] \<Rightarrow> ([], None) | f # st \<Rightarrow> (st, Some f)))
      in case new_frame of
           None \<Rightarrow> Ok (stack, None)
         | Some frame \<Rightarrow>
             (case cand_next (bf_context frame) (bf_candidates frame) (bf_another frame) (bf_conflicts frame) of
                (None, _) \<Rightarrow> Panic
              | (Some (candidate, has_another), bs, another, con) \<Rightarrow>
                  Ok (stack, Some (candidate, has_another,
                    frame\<lparr>bf_candidates := bs, bf_another := another, bf_conflicts := con\<rparr>))))"

subsection \<open>Generalising a conflict\<close>

fun scmax :: "'a::linorder option \<Rightarrow> 'a option list \<Rightarrow> 'a option" where
  "scmax out [] = out"
| "scmax out (None # is) = None"
| "scmax out (Some i # is) = scmax (Some (case out of None \<Rightarrow> i | Some m \<Rightarrow> max m i)) is"

definition shortcircuit_max :: "'a::linorder option list \<Rightarrow> 'a option" where
  "shortcircuit_max is = scmax None is"

fun collect_options :: "'a option list \<Rightarrow> 'a list option" where
  "collect_options [] = Some []"
| "collect_options (None # xs) = None"
| "collect_options (Some x # xs) = map_option (Cons x) (collect_options xs)"

definition substitute_parent ::
  "('p::linorder, 'b::linorder, 's::linorder) package_id \<Rightarrow> conflict_reason \<Rightarrow>
   (('p, 'b, 's) package_id \<times> ('p, 'b, 's) conflict_map) list \<Rightarrow> ('p, 'b, 's) conflict_map \<Rightarrow> ('p, 'b, 's) conflict_map" where
  "substitute_parent critical_parent reason others con =
     (let con = fold (\<lambda>(_, other). fold (\<lambda>(i, re). om_insert i re) other) others con;
          con = fold (\<lambda>(other_id, _). om_remove other_id) others con
      in om_insert critical_parent reason con)"

definition imagined_conflict ::
  "('p::linorder, 'b::linorder, 's::linorder) ctx \<Rightarrow> ('p, 'b, 's) conflicts_cache \<Rightarrow> ('p, 'b, 's) dependency \<Rightarrow> nat \<Rightarrow>
   ('p, 'b, 's) summary \<Rightarrow> (('p, 'b, 's) package_id \<times> ('p, 'b, 's) conflict_map) option" where
  "imagined_conflict cx cache dep critical_age other =
     map_option (Pair (sum_package_id other))
       (cache_find cache dep
          (\<lambda>i. if i = sum_package_id other then Some critical_age else is_active cx i)
          (Some (sum_package_id other)) critical_age)"

fun generalize_deps ::
  "('p::linorder, 'b::linorder, 's::linorder) registry \<Rightarrow> ('p, 'b, 's) ctx \<Rightarrow> ('p, 'b, 's) conflicts_cache \<Rightarrow>
   ('p, 'b, 's) dependency \<Rightarrow> ('p, 'b, 's) conflict_map \<Rightarrow> nat \<Rightarrow> conflict_reason \<Rightarrow> ('p, 'b, 's) package_id \<Rightarrow>
   ('p, 'b, 's) dependency list \<Rightarrow> (unit, ('p, 'b, 's) conflict_map option) outcome" where
  "generalize_deps reg cx cache dep con critical_age reason p [] = Ok None"
| "generalize_deps reg cx cache dep con critical_age reason p (d # ds) =
     (case reg_query reg None d of
        None \<Rightarrow> Panic
      | Some candidates \<Rightarrow>
          (case collect_options (map (imagined_conflict cx cache dep critical_age) (rev candidates)) of
             Some others \<Rightarrow> Ok (Some (substitute_parent p reason others con))
           | None \<Rightarrow> generalize_deps reg cx cache dep con critical_age reason p ds))"

fun generalize_parents ::
  "('p::linorder, 'b::linorder, 's::linorder) registry \<Rightarrow> ('p, 'b, 's) ctx \<Rightarrow> ('p, 'b, 's) conflicts_cache \<Rightarrow>
   ('p, 'b, 's) dependency \<Rightarrow> ('p, 'b, 's) conflict_map \<Rightarrow> nat \<Rightarrow> conflict_reason \<Rightarrow>
   (('p, 'b, 's) package_id \<times> ('p, 'b, 's) dependency list) list \<Rightarrow> (unit, ('p, 'b, 's) conflict_map option) outcome" where
  "generalize_parents reg cx cache dep con critical_age reason [] = Ok None"
| "generalize_parents reg cx cache dep con critical_age reason ((p, deps) # ps) =
     (case is_active cx p of
        None \<Rightarrow> Panic
      | Some a \<Rightarrow>
          if a < critical_age then
            (case generalize_deps reg cx cache dep con critical_age reason p deps of
               Ok None \<Rightarrow> generalize_parents reg cx cache dep con critical_age reason ps
             | r \<Rightarrow> r)
          else generalize_parents reg cx cache dep con critical_age reason ps)"

definition generalize_conflicting ::
  "('p::linorder, 'b::linorder, 's::linorder) registry \<Rightarrow> ('p, 'b, 's) ctx \<Rightarrow> ('p, 'b, 's) conflicts_cache \<Rightarrow>
   ('p, 'b, 's) summary \<Rightarrow> ('p, 'b, 's) dependency \<Rightarrow> ('p, 'b, 's) conflict_map \<Rightarrow>
   (unit, ('p, 'b, 's) conflict_map option \<times> ('p, 'b, 's) conflicts_cache) outcome" where
  "generalize_conflicting reg cx cache parent dep con =
     (case shortcircuit_max (map (\<lambda>c. map_option (\<lambda>a. (a, c)) (is_active cx c)) (map fst con)) of
        None \<Rightarrow> Ok (None, cache)
      | Some (critical_age, critical_id) \<Rightarrow>
          (case map_of con critical_id of
             None \<Rightarrow> Panic
           | Some reason \<Rightarrow>
               if is_path_from_to (cx_parents cx) (sum_package_id parent) critical_id then Ok (None, cache)
               else
                 obind (generalize_parents reg cx cache dep con critical_age reason
                     (graph_edges (cx_parents cx) critical_id)) (\<lambda>r.
                   case r of
                     None \<Rightarrow> Ok (None, cache)
                   | Some c \<Rightarrow> Ok (Some c, cache_insert dep c cache))))"

subsection \<open>The two loops\<close>

record ('p, 'b, 's) search =
  se_ctx :: "('p, 'b, 's) ctx"
  se_stack :: "('p, 'b, 's) backtrack_frame list"
  se_remaining :: "('p, 'b, 's) remaining_deps"
  se_cache :: "('p, 'b, 's) conflicts_cache"

record ('p, 'b, 's) attempt =
  at_search :: "('p, 'b, 's) search"
  at_just_for_errors :: bool
  at_parent :: "('p, 'b, 's) summary"
  at_dep :: "('p, 'b, 's) dependency"
  at_features :: "string list"
  at_candidates :: "('p, 'b, 's) summary list"
  at_another :: "('p, 'b, 's) summary option"
  at_conflicts :: "('p, 'b, 's) conflict_map"
  at_backtracked :: bool

datatype ('p, 'b, 's) resolve_error =
    ActivationError "('p, 'b, 's) summary" "('p, 'b, 's) dependency" "('p, 'b, 's) conflict_map"
  | FatalError fatal_error

datatype ('p, 'b, 's) rstate =
    Pick "('p, 'b, 's) search"
  | Attempt "('p, 'b, 's) attempt"
  | Done "('p, 'b, 's) ctx"
  | Failed "('p, 'b, 's) resolve_error"
  | Panicked

definition usize_max :: nat where
  "usize_max = 2 ^ 64 - 1"

definition pick_step :: "('p::linorder, 'b::linorder, 's::linorder) search \<Rightarrow> ('p, 'b, 's) rstate" where
  "pick_step se =
     (case pop_most_constrained (se_remaining se) of
        (None, _) \<Rightarrow> Done (se_ctx se)
      | (Some (just_for_errors, parent, (dep, candidates, features)), remaining) \<Rightarrow>
          Attempt \<lparr>at_search = se\<lparr>se_remaining := remaining\<rparr>,
            at_just_for_errors = (just_for_errors \<and>
              conflicting (se_cache se) usize_max (is_active (se_ctx se)) dep \<noteq> None),
            at_parent = parent, at_dep = dep, at_features = features,
            at_candidates = candidates, at_another = None, at_conflicts = [], at_backtracked = False\<rparr>)"

text \<open>The candidates are exhausted: remember why, and go back to a frame that may help.\<close>

definition learn_conflict ::
  "('p::linorder, 'b::linorder, 's::linorder) registry \<Rightarrow> ('p, 'b, 's) attempt \<Rightarrow>
   (unit, ('p, 'b, 's) conflict_map option \<times> ('p, 'b, 's) conflicts_cache) outcome" where
  "learn_conflict reg at =
     (let se = at_search at
      in if \<not> at_just_for_errors at \<and> \<not> at_backtracked at
         then generalize_conflicting reg (se_ctx se) (cache_insert (at_dep at) (at_conflicts at) (se_cache se))
                (at_parent at) (at_dep at) (at_conflicts at)
         else Ok (None, se_cache se))"

definition restore ::
  "('p, 'b, 's) backtrack_frame \<Rightarrow> ('p, 'b, 's) backtrack_frame list \<Rightarrow> ('p, 'b, 's) conflicts_cache \<Rightarrow>
   ('p, 'b, 's) attempt \<Rightarrow> ('p, 'b, 's) attempt" where
  "restore frame stack cache at =
     \<lparr>at_search = \<lparr>se_ctx = bf_context frame, se_stack = stack, se_remaining = bf_remaining_deps frame, se_cache = cache\<rparr>,
      at_just_for_errors = at_just_for_errors at, at_parent = bf_parent frame, at_dep = bf_dep frame,
      at_features = bf_features frame, at_candidates = bf_candidates frame, at_another = bf_another frame,
      at_conflicts = bf_conflicts frame, at_backtracked = True\<rparr>"

definition choose_candidate ::
  "('p::linorder, 'b::linorder, 's::linorder) registry \<Rightarrow> ('p, 'b, 's) attempt \<Rightarrow>
   (('p, 'b, 's) resolve_error, ('p, 'b, 's) summary \<times> bool \<times> ('p, 'b, 's) attempt) outcome" where
  "choose_candidate reg at =
     (let se = at_search at
      in case cand_next (se_ctx se) (at_candidates at) (at_another at) (at_conflicts at) of
           (Some (candidate, has_another), bs, another, con) \<Rightarrow>
             Ok (candidate, has_another, at\<lparr>at_candidates := bs, at_another := another, at_conflicts := con\<rparr>)
         | (None, bs, another, con) \<Rightarrow>
             (let at = at\<lparr>at_candidates := bs, at_another := another, at_conflicts := con\<rparr>
              in case learn_conflict reg at of
                   Ok (general, cache) \<Rightarrow>
                     (case find_candidate (se_ctx se) (se_stack se) (at_parent at) (at_backtracked at) (unwrap_or con general) of
                        Ok (stack, Some (candidate, has_another, frame)) \<Rightarrow>
                          Ok (candidate, has_another, restore frame stack cache at)
                      | Ok (stack, None) \<Rightarrow> Err (ActivationError (at_parent at) (at_dep at) con)
                      | _ \<Rightarrow> Panic)
                 | _ \<Rightarrow> Panic))"

text \<open>After a successful activation: is the new frame already known to fail?\<close>

definition extend_conflicts ::
  "('p::linorder, 'b::linorder, 's::linorder) package_id \<Rightarrow> ('p, 'b, 's) conflict_map \<Rightarrow> ('p, 'b, 's) conflict_map \<Rightarrow>
   ('p, 'b, 's) conflict_map" where
  "extend_conflicts pid extra con = fold (\<lambda>(p, r) m. if p = pid then m else om_insert p r m) extra con"

fun find_map :: "('a \<Rightarrow> 'b option) \<Rightarrow> 'a list \<Rightarrow> 'b option" where
  "find_map f [] = None"
| "find_map f (x # xs) = (case f x of Some y \<Rightarrow> Some y | None \<Rightarrow> find_map f xs)"

definition past_conflict ::
  "('p::linorder, 'b::linorder, 's::linorder) attempt \<Rightarrow> ('p, 'b, 's) ctx \<Rightarrow> ('p, 'b, 's) package_id \<Rightarrow>
   ('p, 'b, 's) deps_frame \<Rightarrow> (unit, bool \<times> ('p, 'b, 's) conflict_map) outcome" where
  "past_conflict at cx pid frame =
     (let cache = se_cache (at_search at); con = at_conflicts at
      in if at_just_for_errors at then Ok (True, con)
         else case find_map (\<lambda>(new_dep, _, _). conflicting cache usize_max (is_active cx) new_dep)
                     (fr_remaining_siblings frame) of
                Some extra \<Rightarrow> Ok (True, extend_conflicts pid extra con)
              | None \<Rightarrow>
                  (case dependencies_conflicting_with cache pid of
                     None \<Rightarrow> Ok (False, con)
                   | Some bad_deps \<Rightarrow>
                       (case find_map (\<lambda>(other_parent, other_dep).
                              if other_dep \<in> set bad_deps
                              then map_option (Pair other_parent)
                                     (find_conflicting cache usize_max (is_active cx) other_dep (Some pid))
                              else None) (rd_iter (se_remaining (at_search at))) of
                          None \<Rightarrow> Ok (False, con)
                        | Some (other_parent, conflict) \<Rightarrow>
                            (case map_of conflict pid of
                               None \<Rightarrow> Panic
                             | Some rel \<Rightarrow> Ok (True, om_insert other_parent rel (extend_conflicts pid conflict con))))))"

definition backtrack_point :: "('p, 'b, 's) attempt \<Rightarrow> ('p, 'b, 's) backtrack_frame" where
  "backtrack_point at =
     \<lparr>bf_context = se_ctx (at_search at), bf_remaining_deps = se_remaining (at_search at),
      bf_candidates = at_candidates at, bf_another = at_another at, bf_parent = at_parent at,
      bf_dep = at_dep at, bf_features = at_features at, bf_conflicts = at_conflicts at\<rparr>"

definition activated_state ::
  "('p, 'b, 's) attempt \<Rightarrow> bool \<Rightarrow> ('p, 'b, 's) ctx \<Rightarrow> ('p, 'b, 's) backtrack_frame list \<Rightarrow>
   ('p, 'b, 's) remaining_deps \<Rightarrow> ('p, 'b, 's) rstate" where
  "activated_state at has_another cx stack remaining =
     Pick ((at_search at)\<lparr>se_ctx := cx, se_remaining := remaining,
       se_stack := (if has_another then backtrack_point at # stack else stack)\<rparr>)"

definition retry_state ::
  "('p, 'b, 's) attempt \<Rightarrow> bool \<Rightarrow> ('p, 'b, 's) ctx \<Rightarrow> ('p, 'b, 's) conflict_map \<Rightarrow> ('p, 'b, 's) rstate" where
  "retry_state at has_another cx con =
     Attempt (at\<lparr>at_search := (at_search at)\<lparr>se_ctx := (if has_another then se_ctx (at_search at) else cx)\<rparr>,
       at_conflicts := con\<rparr>)"

definition activated_frame ::
  "bool \<Rightarrow> ('p::linorder, 'b::linorder, 's::linorder) attempt \<Rightarrow> bool \<Rightarrow> ('p, 'b, 's) package_id \<Rightarrow> ('p, 'b, 's) ctx \<Rightarrow>
   ('p, 'b, 's) deps_frame \<Rightarrow> ('p, 'b, 's) rstate" where
  "activated_frame checks at has_another pid cx frame =
     (let se = at_search at
      in case past_conflict at cx pid frame of
           Ok (has_past_conflicting_dep, con) \<Rightarrow>
             (case (if has_past_conflicting_dep \<and> \<not> has_another
                    then if at_just_for_errors at then Ok True
                         else (case find_candidate cx (se_stack se) (at_parent at) (at_backtracked at) con of
                                 Ok (_, r) \<Rightarrow> Ok (r = None)
                               | _ \<Rightarrow> Panic)
                    else Ok False :: (unit, bool) outcome) of
                Ok activate_for_error_message \<Rightarrow>
                  if \<not> has_past_conflicting_dep \<or> activate_for_error_message
                  then (case rd_push checks (frame\<lparr>fr_just_for_error_messages := has_past_conflicting_dep\<rparr>) (se_remaining se) of
                          Ok remaining \<Rightarrow>
                            activated_state at has_another cx
                              (if activate_for_error_message then [] else se_stack se) remaining
                        | _ \<Rightarrow> Panicked)
                  else retry_state at has_another cx con
              | _ \<Rightarrow> Panicked)
         | _ \<Rightarrow> Panicked)"

definition dep_opts :: "('p, 'b, 's) attempt \<Rightarrow> resolve_opts" where
  "dep_opts at = \<lparr>dev_deps = False, opt_features = DepFeatures (at_features at) (dep_default_features (at_dep at))\<rparr>"

definition try_candidate ::
  "bool \<Rightarrow> ('p::linorder, 'b::linorder, 's::linorder) registry \<Rightarrow> ('p, 'b, 's) attempt \<Rightarrow> ('p, 'b, 's) summary \<Rightarrow> bool \<Rightarrow>
   ('p, 'b, 's) rstate" where
  "try_candidate checks reg at candidate has_another =
     (case activate checks reg (Some (at_parent at, at_dep at)) candidate None (dep_opts at) (se_ctx (at_search at)) of
        (cx, Ok (Some frame)) \<Rightarrow> activated_frame checks at has_another (sum_package_id candidate) cx frame
      | (cx, Ok None) \<Rightarrow>
          activated_state at has_another cx (se_stack (at_search at)) (se_remaining (at_search at))
      | (cx, Err (Fatal e)) \<Rightarrow> Failed (FatalError e)
      | (cx, Err (Conflict i reason)) \<Rightarrow> retry_state at has_another cx (om_insert i reason (at_conflicts at))
      | _ \<Rightarrow> Panicked)"

definition attempt_step ::
  "bool \<Rightarrow> ('p::linorder, 'b::linorder, 's::linorder) registry \<Rightarrow> ('p, 'b, 's) attempt \<Rightarrow> ('p, 'b, 's) rstate" where
  "attempt_step checks reg at =
     (case choose_candidate reg at of
        Ok (candidate, has_another, at) \<Rightarrow>
          if at_just_for_errors at \<and> \<not> at_backtracked at \<and> has_another then Attempt at
          else try_candidate checks reg at candidate has_another
      | Err e \<Rightarrow> Failed e
      | _ \<Rightarrow> Panicked)"

fun resolver_step ::
  "bool \<Rightarrow> ('p::linorder, 'b::linorder, 's::linorder) registry \<Rightarrow> ('p, 'b, 's) rstate \<Rightarrow> ('p, 'b, 's) rstate" where
  "resolver_step checks reg (Pick se) = pick_step se"
| "resolver_step checks reg (Attempt at) = attempt_step checks reg at"
| "resolver_step checks reg st = st"

fun activate_roots ::
  "bool \<Rightarrow> ('p::linorder, 'b::linorder, 's::linorder) registry \<Rightarrow> version_ordering option \<Rightarrow>
   (('p, 'b, 's) summary \<times> resolve_opts) list \<Rightarrow> ('p, 'b, 's) ctx \<Rightarrow> ('p, 'b, 's) remaining_deps \<Rightarrow>
   ('p, 'b, 's) conflicts_cache \<Rightarrow> ('p, 'b, 's) rstate" where
  "activate_roots checks reg first_version [] cx remaining cache =
     Pick \<lparr>se_ctx = cx, se_stack = [], se_remaining = remaining, se_cache = cache\<rparr>"
| "activate_roots checks reg first_version ((s, opts) # summaries) cx remaining cache =
     (case activate checks reg None s first_version opts cx of
        (cx, Ok (Some frame)) \<Rightarrow>
          (case rd_push checks frame remaining of
             Ok remaining \<Rightarrow> activate_roots checks reg first_version summaries cx remaining cache
           | _ \<Rightarrow> Panicked)
      | (cx, Ok None) \<Rightarrow> activate_roots checks reg first_version summaries cx remaining cache
      | (cx, Err (Fatal e)) \<Rightarrow> Failed (FatalError e)
      | _ \<Rightarrow> Panicked)"

definition resolver_init ::
  "bool \<Rightarrow> ('p::linorder, 'b::linorder, 's::linorder) registry \<Rightarrow> version_ordering option \<Rightarrow>
   (('p, 'b, 's) summary \<times> resolve_opts) list \<Rightarrow> ('p, 'b, 's) conflicts_cache \<Rightarrow> ('p, 'b, 's) rstate" where
  "resolver_init checks reg first_version summaries cache = activate_roots checks reg first_version summaries cx_new rd_new cache"

fun resolver_run ::
  "nat \<Rightarrow> bool \<Rightarrow> ('p::linorder, 'b::linorder, 's::linorder) registry \<Rightarrow> ('p, 'b, 's) rstate \<Rightarrow> ('p, 'b, 's) rstate" where
  "resolver_run 0 checks reg st = st"
| "resolver_run (Suc n) checks reg st = resolver_run n checks reg (resolver_step checks reg st)"

end
