(* ===== verification/ResolverSound.thy ===== *)
theory ResolverSound
  imports Resolver "HOL-Library.Code_Target_Nat"
begin

section \<open>Soundness of the resolver\<close>

text \<open>
  Whatever context the resolver returns is a valid resolution: one package per name, source and
  semver-compatible range, one package per \<open>links\<close> key, and every dependency that the enabled
  features of an activated package ask for is fulfilled by an activated candidate that has the
  requested features, or whose replacement has them. \<open>good\<close> is the invariant of a context and the multiset of pending
  dependencies; \<open>state_ok\<close> lifts it to the states of the two loops and to the backtrack
  stack. A failed attempt without a backtrack frame leaves a context that is not \<open>good\<close>; then no
  candidate is left and the next step replaces the context or fails, which is the second disjunct
  of \<open>state_ok\<close>.
\<close>

subsection \<open>Valid contexts\<close>

definition active :: "('p, 'b, 's) ctx \<Rightarrow> ('p, 'b, 's) summary \<Rightarrow> bool" where
  "active cx s \<longleftrightarrow> (\<exists>a. map_of (cx_activations cx) (as_activations_key (sum_package_id s)) = Some (s, a))"

definition feats :: "('p, 'b, 's) ctx \<Rightarrow> ('p, 'b, 's) summary \<Rightarrow> string set" where
  "feats cx s = set (unwrap_or [] (map_of (cx_features cx) (sum_package_id s)))"

definition dep_edge ::
  "('p, 'b, 's) ctx \<Rightarrow> ('p, 'b, 's) summary \<Rightarrow> ('p, 'b, 's) summary \<Rightarrow> ('p, 'b, 's) dependency \<Rightarrow> bool" where
  "dep_edge cx c p d \<longleftrightarrow>
     (\<exists>l. graph_edge (cx_parents cx) (sum_package_id c) (sum_package_id p) = Some l \<and> d \<in> set l)"

text \<open>
  \<open>slot_of\<close>: the keys under which a package can be stored, its own or that of a dependency whose
  source a \<open>[patch]\<close> redirected to it. \<open>target\<close>: the package that is built for a candidate, its
  \<open>[replace]\<close> replacement if it has one.
\<close>

definition slot_of :: "('p, 'b, 's) registry \<Rightarrow> 's activations_key \<Rightarrow> ('p, 'b, 's) summary \<Rightarrow> bool" where
  "slot_of reg k s \<longleftrightarrow> k = as_activations_key (sum_package_id s) \<or>
     (\<exists>fv d cs. reg_query reg fv d = Some cs \<and> s \<in> set cs \<and> k = patched_key (sum_package_id s) d)"

definition target :: "('p, 'b, 's) registry \<Rightarrow> ('p, 'b, 's) summary \<Rightarrow> ('p, 'b, 's) summary" where
  "target reg s = unwrap_or s (reg_replacement reg (sum_package_id s))"

definition acts_ok :: "('p, 'b, 's) registry \<Rightarrow> ('p, 'b, 's) summary set \<Rightarrow> ('p, 'b, 's) ctx \<Rightarrow> bool" where
  "acts_ok reg U cx \<longleftrightarrow> (\<forall>k s a. map_of (cx_activations cx) k = Some (s, a) \<longrightarrow> s \<in> U \<and> active cx s \<and> slot_of reg k s)"

definition links_ok :: "('p, 'b, 's) ctx \<Rightarrow> bool" where
  "links_ok cx \<longleftrightarrow>
     (\<forall>l i. map_of (cx_links cx) l = Some i \<longrightarrow> (\<exists>s. active cx s \<and> sum_package_id s = i)) \<and>
     (\<forall>s l. active cx s \<longrightarrow> sum_links s = Some l \<longrightarrow> map_of (cx_links cx) l = Some (sum_package_id s))"

definition feats_ok :: "('p, 'b, 's) ctx \<Rightarrow> bool" where
  "feats_ok cx \<longleftrightarrow> (\<forall>i fs. map_of (cx_features cx) i = Some fs \<longrightarrow> (\<exists>s. active cx s \<and> sum_package_id s = i))"

definition ctx_ok ::
  "('p::linorder, 'b::linorder, 's::linorder) registry \<Rightarrow> ('p, 'b, 's) summary set \<Rightarrow> ('p, 'b, 's) ctx \<Rightarrow> bool" where
  "ctx_ok reg U cx \<longleftrightarrow> acts_ok reg U cx \<and> links_ok cx \<and> feats_ok cx \<and> graph_wf (cx_parents cx)"

text \<open>
  \<open>U\<close> holds the packages the registry knows, one for each id: what it answers and what replaces
  them. A replacement is not replaced itself, and nothing else claims its slot: no other package of
  \<open>U\<close> has its name, source and semver range, and no patched dependency leads to another package
  there. (The code activates a replacement without looking for a conflict, so a package that
  already holds its slot would silently stay in its place, or trip the debug assertion.)
\<close>

definition registry_ok :: "('p, 'b, 's) registry \<Rightarrow> ('p, 'b, 's) summary set \<Rightarrow> bool" where
  "registry_ok reg U \<longleftrightarrow> inj_on sum_package_id U \<and>
     (\<forall>fv d cs. reg_query reg fv d = Some cs \<longrightarrow> set cs \<subseteq> U) \<and>
     (\<forall>i r. reg_replacement reg i = Some r \<longrightarrow> r \<in> U \<and> reg_replacement reg (sum_package_id r) = None \<and>
        (\<forall>s \<in> U. slot_of reg (as_activations_key (sum_package_id r)) s \<longrightarrow> s = r))"

lemma registry_okD:
  assumes "registry_ok reg U"
  shows "inj_on sum_package_id U" and "reg_query reg fv d = Some cs \<Longrightarrow> set cs \<subseteq> U"
    and "s \<in> U \<Longrightarrow> target reg s \<in> U" and "target reg (target reg s) = target reg s"
    and "reg_replacement reg i = Some r \<Longrightarrow> s \<in> U \<Longrightarrow> slot_of reg (as_activations_key (sum_package_id r)) s \<Longrightarrow> s = r"
  using assms unfolding registry_ok_def target_def unwrap_or_def by (auto split: option.splits)

definition extends :: "('p, 'b, 's) ctx \<Rightarrow> ('p, 'b, 's) ctx \<Rightarrow> bool" where
  "extends cx cx' \<longleftrightarrow> (\<forall>s. active cx s \<longrightarrow> active cx' s) \<and> (\<forall>s. feats cx s \<subseteq> feats cx' s) \<and>
     (\<forall>c p d. dep_edge cx c p d \<longrightarrow> dep_edge cx' c p d)"

lemma extends_refl: "extends cx cx"
  by (simp add: extends_def)

lemma extendsD:
  assumes "extends cx cx'"
  shows "active cx s \<Longrightarrow> active cx' s" and "feats cx s \<subseteq> feats cx' s" and "dep_edge cx c p d \<Longrightarrow> dep_edge cx' c p d"
  using assms by (simp_all add: extends_def)

lemma extends_trans: "extends cx cx1 \<Longrightarrow> extends cx1 cx2 \<Longrightarrow> extends cx cx2"
  unfolding extends_def by blast

lemma active_cong: "cx_activations cx = cx_activations cx' \<Longrightarrow> active cx s = active cx' s"
  by (simp add: active_def)

lemma feats_cong: "cx_features cx = cx_features cx' \<Longrightarrow> feats cx s = feats cx' s"
  by (simp add: feats_def)

lemma dep_edge_cong: "cx_parents cx = cx_parents cx' \<Longrightarrow> dep_edge cx c p d = dep_edge cx' c p d"
  by (simp add: dep_edge_def)

lemma active_same_key:
  "active cx s \<Longrightarrow> active cx t \<Longrightarrow>
   as_activations_key (sum_package_id s) = as_activations_key (sum_package_id t) \<Longrightarrow> s = t"
  unfolding active_def by (metis option.inject prod.inject)

subsection \<open>Flagging a package\<close>

lemma flag_activated_occupied:
  assumes ok: "ctx_ok reg U cx" and inj: "inj_on sum_package_id U" and c: "c \<in> U"
    and clash: "semver_clash cx c = None"
    and occ: "map_of (cx_activations cx) (as_activations_key (sum_package_id c)) \<noteq> None"
  shows "active cx c" and "flag_activated checks c opts parent cx = (cx, Ok (already_has cx c opts))"
proof -
  from occ obtain a l where get: "map_of (cx_activations cx) (as_activations_key (sum_package_id c)) = Some (a, l)" by auto
  then have "sum_package_id a = sum_package_id c"
    using clash by (auto simp: semver_clash_def summary_eq_def split: if_splits)
  moreover have "a \<in> U" using ok get unfolding ctx_ok_def acts_ok_def by blast
  ultimately have "a = c" using inj c by (auto dest: inj_onD)
  with get show "active cx c" by (auto simp: active_def)
  show "flag_activated checks c opts parent cx = (cx, Ok (already_has cx c opts))"
    using get \<open>a = c\<close> by (simp add: flag_activated_def Let_def summary_eq_def)
qed

definition with_links :: "('p, 'b, 's) summary \<Rightarrow> ('p, 'b, 's) ctx \<Rightarrow> ('p, 'b, 's) ctx" where
  "with_links c cx = (case sum_links c of None \<Rightarrow> cx
     | Some l \<Rightarrow> cx\<lparr>cx_links := hm_insert l (sum_package_id c) (cx_links cx)\<rparr>)"

definition with_slots ::
  "('p, 'b, 's) summary \<Rightarrow> 's activations_key list \<Rightarrow> ('p, 'b, 's) ctx \<Rightarrow> ('p, 'b, 's) ctx" where
  "with_slots c ks cx = cx\<lparr>cx_activations := fold (\<lambda>k. hm_insert k (c, cx_age cx)) ks (cx_activations cx)\<rparr>"

lemma with_links_simps [simp]:
  "cx_activations (with_links c cx) = cx_activations cx" "cx_age (with_links c cx) = cx_age cx"
  "cx_features (with_links c cx) = cx_features cx" "cx_parents (with_links c cx) = cx_parents cx"
  by (simp_all add: with_links_def split: option.split)

text \<open>A candidate was offered by the registry for the dependency it is activated for.\<close>

definition offered ::
  "('p, 'b, 's) registry \<Rightarrow> (('p, 'b, 's) summary \<times> ('p, 'b, 's) dependency) option \<Rightarrow> ('p, 'b, 's) summary \<Rightarrow> bool" where
  "offered reg parent c \<longleftrightarrow> (\<forall>p d. parent = Some (p, d) \<longrightarrow> (\<exists>fv cs. reg_query reg fv d = Some cs \<and> c \<in> set cs))"

text \<open>A successful first activation takes its own slot, and that of the patched source.\<close>

lemma flag_activated_vacant:
  assumes vac: "map_of (cx_activations cx) (as_activations_key (sum_package_id c)) = None"
    and offered: "offered reg parent c"
    and run: "flag_activated checks c opts parent cx = (cx', Ok b)"
  obtains ks where "\<not> b" and "cx' = with_slots c ks (with_links c cx)"
    and "as_activations_key (sum_package_id c) \<in> set ks" and "\<forall>k \<in> set ks. map_of (cx_activations cx) k = None \<and> slot_of reg k c"
    and "\<forall>l. sum_links c = Some l \<longrightarrow> map_of (cx_links cx) l = None"
proof -
  let ?k = "as_activations_key (sum_package_id c)"
  have links: "\<forall>l. sum_links c = Some l \<longrightarrow> map_of (cx_links cx) l = None"
    using vac run by (auto simp: flag_activated_def Let_def split: option.splits if_splits)
  have own: "slot_of reg ?k c" by (simp add: slot_of_def)
  have lk: "(case sum_links c of None \<Rightarrow> (cx, None) | Some link \<Rightarrow>
       (cx\<lparr>cx_links := hm_insert link (sum_package_id c) (cx_links cx)\<rparr>,
        if map_of (cx_links cx) link \<noteq> None then Some link else None)) = (with_links c cx, None)"
    using links by (cases "sum_links c") (auto simp: with_links_def)
  note run' = run [unfolded flag_activated_def Let_def vac option.case lk prod.case]
  show thesis
  proof (cases "\<exists>p d. parent = Some (p, d) \<and> dep_source_id d \<noteq> pkg_source (sum_package_id c)")
    case False
    then have "cx' = with_slots c [?k] (with_links c cx)" "\<not> b"
      using run' by (auto simp: with_slots_def split: option.splits if_splits)
    then show thesis using that [of "[?k]"] vac own links by simp
  next
    case True
    then obtain p d where d: "parent = Some (p, d)" "dep_source_id d \<noteq> pkg_source (sum_package_id c)" by blast
    have ne: "patched_key (sum_package_id c) d \<noteq> ?k" using d(2) by (simp add: patched_key_def as_activations_key_def)
    have slot: "slot_of reg (patched_key (sum_package_id c) d) c"
      using offered d(1) unfolding slot_of_def offered_def by blast
    have "map_of (cx_activations cx) (patched_key (sum_package_id c) d) = None"
      "cx' = with_slots c [?k, patched_key (sum_package_id c) d] (with_links c cx)" "\<not> b"
      using run' d ne by (auto simp: with_slots_def get_hm_insert split: option.splits if_splits prod.splits)
    then show thesis using that [of "[?k, patched_key (sum_package_id c) d]"] vac own slot links by simp
  qed
qed

lemma get_fold_insert:
  "map_of (fold (\<lambda>k. hm_insert k v) ks m) k = (if k \<in> set ks then Some v else map_of m k)"
  by (induction ks arbitrary: m) (auto simp: get_hm_insert)

lemma get_with_slots:
  "map_of (cx_activations (with_slots c ks cx)) k = (if k \<in> set ks then Some (c, cx_age cx) else map_of (cx_activations cx) k)"
  by (simp add: with_slots_def get_fold_insert)

lemma active_with_slots:
  assumes "as_activations_key (sum_package_id c) \<in> set ks" and "\<forall>k \<in> set ks. map_of (cx_activations cx) k = None"
  shows "active (with_slots c ks cx) s \<longleftrightarrow> active cx s \<or> s = c"
  using assms by (auto simp: active_def get_with_slots)

lemma ctx_ok_flag:
  assumes ok: "ctx_ok reg U cx" and c: "c \<in> U"
    and ks: "as_activations_key (sum_package_id c) \<in> set ks" "\<forall>k \<in> set ks. map_of (cx_activations cx) k = None \<and> slot_of reg k c"
    and links: "\<forall>l. sum_links c = Some l \<longrightarrow> map_of (cx_links cx) l = None"
  shows "ctx_ok reg U (with_slots c ks (with_links c cx))"
proof -
  let ?cx = "with_slots c ks (with_links c cx)"
  have act: "active ?cx s \<longleftrightarrow> active cx s \<or> s = c" for s
    using active_with_slots [of c ks "with_links c cx" s] ks
    by (simp add: active_cong [of "with_links c cx" cx])
  have same: "cx_features ?cx = cx_features cx" "cx_parents ?cx = cx_parents cx"
    "cx_links ?cx = cx_links (with_links c cx)"
    by (simp_all add: with_slots_def)
  have "acts_ok reg U ?cx"
    using ok c ks unfolding acts_ok_def act get_with_slots ctx_ok_def
    by (auto split: if_splits)
  moreover have "links_ok ?cx"
  proof -
    have old: "\<And>l i. map_of (cx_links cx) l = Some i \<Longrightarrow> \<exists>s. active cx s \<and> sum_package_id s = i"
      "\<And>s l. active cx s \<Longrightarrow> sum_links s = Some l \<Longrightarrow> map_of (cx_links cx) l = Some (sum_package_id s)"
      using ok unfolding ctx_ok_def links_ok_def by blast+
    have get: "map_of (cx_links (with_links c cx)) l =
        (if sum_links c = Some l then Some (sum_package_id c) else map_of (cx_links cx) l)" for l
      by (auto simp: with_links_def get_hm_insert split: option.split)
    show ?thesis
      unfolding links_ok_def act same get using old links by (metis option.distinct(1) option.inject)
  qed
  moreover have "feats_ok ?cx"
    using ok unfolding feats_ok_def act ctx_ok_def same by blast
  ultimately show ?thesis using ok by (simp add: ctx_ok_def same)
qed

lemma extends_flag:
  assumes "as_activations_key (sum_package_id c) \<in> set ks" and "\<forall>k \<in> set ks. map_of (cx_activations cx) k = None"
  shows "extends cx (with_slots c ks (with_links c cx))"
proof -
  have "active (with_slots c ks (with_links c cx)) s \<longleftrightarrow> active cx s \<or> s = c" for s
    using active_with_slots [of c ks "with_links c cx" s] assms
    by (simp add: active_cong [of "with_links c cx" cx])
  then show ?thesis by (auto simp: extends_def feats_def dep_edge_def with_slots_def)
qed

subsection \<open>Obligations\<close>

definition pairs_of :: "('p, 'b, 's) summary \<Rightarrow> string set \<Rightarrow> (string \<times> string option) set" where
  "pairs_of s F = (\<Union>f \<in> F. \<Union>(fv_pairs ` values_of s f))"

definition wanted :: "(string \<times> string option) set \<Rightarrow> ('p, 'b, 's) dependency \<Rightarrow> string option \<Rightarrow> bool" where
  "wanted Q d x \<longleftrightarrow> (dep_optional d \<longrightarrow> (name_in_toml d, None) \<in> Q) \<and>
     (case x of None \<Rightarrow> True | Some f \<Rightarrow> f \<in> set (dep_features d) \<or> (name_in_toml d, Some f) \<in> Q)"

definition met :: "('p, 'b, 's) registry \<Rightarrow> ('p, 'b, 's) ctx \<Rightarrow> ('p, 'b, 's) summary \<times> ('p, 'b, 's) dep_info \<Rightarrow> bool" where
  "met reg cx ob = (case ob of (p, d, cs, w) \<Rightarrow>
     \<exists>c \<in> set cs. active cx c \<and> dep_edge cx c p d \<and> active cx (target reg c) \<and> set w \<subseteq> feats cx (target reg c) \<and>
       (dep_default_features d \<and> ''default'' \<in> keys_of (target reg c) \<longrightarrow> ''default'' \<in> feats cx (target reg c)))"

definition covered ::
  "('p, 'b, 's) registry \<Rightarrow> ('p, 'b, 's) ctx \<Rightarrow> (('p, 'b, 's) summary \<times> ('p, 'b, 's) dep_info) multiset \<Rightarrow>
   ('p, 'b, 's) summary \<Rightarrow> ('p, 'b, 's) dependency \<Rightarrow> string option \<Rightarrow> bool" where
  "covered reg cx P s d x \<longleftrightarrow> (\<exists>fv cs w. reg_query reg fv d = Some cs \<and> set_option x \<subseteq> set w \<and>
     (met reg cx (s, d, cs, w) \<or> (s, d, cs, w) \<in># P))"

definition complete ::
  "('p, 'b, 's) registry \<Rightarrow> ('p, 'b, 's) ctx \<Rightarrow> (('p, 'b, 's) summary \<times> ('p, 'b, 's) dep_info) multiset \<Rightarrow>
   ('p, 'b, 's) summary \<Rightarrow> bool" where
  "complete reg cx P s \<longleftrightarrow>
     (\<forall>f \<in> feats cx s. well_defined s f \<and> feature_step s `` {f} \<subseteq> feats cx s) \<and>
     (\<forall>d x. d \<in> set (sum_dependencies s) \<longrightarrow> is_transitive d \<longrightarrow> wanted (pairs_of s (feats cx s)) d x \<longrightarrow>
        covered reg cx P s d x)"

definition served ::
  "('p, 'b, 's) registry \<Rightarrow> ('p, 'b, 's) ctx \<Rightarrow> (('p, 'b, 's) summary \<times> ('p, 'b, 's) dep_info) multiset \<Rightarrow>
   ('p, 'b, 's) summary \<times> resolve_opts \<Rightarrow> bool" where
  "served reg cx P r = (case r of (s, opts) \<Rightarrow> let t = target reg s in
     active cx s \<and> active cx t \<and> enabled t opts \<subseteq> feats cx t \<and>
     (\<forall>d x. d \<in> set (sum_dependencies t) \<longrightarrow> is_transitive d \<or> dev_deps opts \<longrightarrow> wanted (demanded t opts) d x \<longrightarrow>
        covered reg cx P t d x))"

definition good ::
  "('p::linorder, 'b::linorder, 's::linorder) registry \<Rightarrow> ('p, 'b, 's) summary set \<Rightarrow>
   (('p, 'b, 's) summary \<times> resolve_opts) set \<Rightarrow> ('p, 'b, 's) ctx \<Rightarrow>
   (('p, 'b, 's) summary \<times> ('p, 'b, 's) dep_info) multiset \<Rightarrow> bool" where
  "good reg U R cx P \<longleftrightarrow> ctx_ok reg U cx \<and> 
     (\<forall>s. active cx s \<longrightarrow> active cx (target reg s) \<and> complete reg cx P (target reg s)) \<and> (\<forall>r \<in> R. served reg cx P r)"

lemma met_mono:
  assumes "extends cx cx'" and "met reg cx ob"
  shows "met reg cx' ob"
proof -
  obtain p d cs w where ob: "ob = (p, d, cs, w)" by (cases ob) auto
  from assms(2) obtain c where c: "c \<in> set cs" "active cx c" "dep_edge cx c p d"
    "active cx (target reg c)" "set w \<subseteq> feats cx (target reg c)"
    "dep_default_features d \<and> ''default'' \<in> keys_of (target reg c) \<longrightarrow> ''default'' \<in> feats cx (target reg c)"
    unfolding met_def ob prod.case by blast
  then have "active cx' c" "dep_edge cx' c p d" "active cx' (target reg c)" "set w \<subseteq> feats cx' (target reg c)"
    "dep_default_features d \<and> ''default'' \<in> keys_of (target reg c) \<longrightarrow> ''default'' \<in> feats cx' (target reg c)"
    using extendsD [OF assms(1)] by blast+
  with c(1) show ?thesis unfolding met_def ob prod.case by blast
qed

lemma covered_mono:
  assumes "covered reg cx P s d x" and "extends cx cx'" and "\<And>ob. ob \<in># P \<Longrightarrow> ob \<in># P' \<or> met reg cx' ob"
  shows "covered reg cx' P' s d x"
proof -
  from assms(1) obtain fv cs w where w: "reg_query reg fv d = Some cs" "set_option x \<subseteq> set w"
    and "met reg cx (s, d, cs, w) \<or> (s, d, cs, w) \<in># P"
    unfolding covered_def by blast
  then have "met reg cx' (s, d, cs, w) \<or> (s, d, cs, w) \<in># P'"
    using met_mono [OF assms(2)] assms(3) by blast
  with w show ?thesis unfolding covered_def by blast
qed

lemma complete_mono:
  assumes "complete reg cx P s" and "extends cx cx'" and "\<And>ob. ob \<in># P \<Longrightarrow> ob \<in># P' \<or> met reg cx' ob"
    and "feats cx' s = feats cx s"
  shows "complete reg cx' P' s"
  using assms(1) covered_mono [OF _ assms(2,3)] unfolding complete_def assms(4) by blast

lemma served_mono:
  assumes "served reg cx P r" and "extends cx cx'" and "\<And>ob. ob \<in># P \<Longrightarrow> ob \<in># P' \<or> met reg cx' ob"
  shows "served reg cx' P' r"
proof -
  obtain s opts where r: "r = (s, opts)" by (cases r)
  let ?t = "target reg s"
  have "active cx' s" "active cx' ?t" "enabled ?t opts \<subseteq> feats cx' ?t"
    using assms(1) extendsD(1,2) [OF assms(2)] unfolding served_def r prod.case Let_def by blast+
  moreover have "covered reg cx' P' ?t d x" if "d \<in> set (sum_dependencies ?t)" "is_transitive d \<or> dev_deps opts"
    "wanted (demanded ?t opts) d x" for d x
    using assms(1) that covered_mono [OF _ assms(2,3)] unfolding served_def r Let_def by blast
  ultimately show ?thesis by (simp add: served_def r Let_def)
qed

lemma good_extend:
  assumes "good reg U R cx P" and "ctx_ok reg U cx'" and "extends cx cx'"
    and "\<And>ob. ob \<in># P \<Longrightarrow> ob \<in># P' \<or> met reg cx' ob"
    and "\<And>s. active cx' s \<Longrightarrow> active cx s \<and> feats cx' (target reg s) = feats cx (target reg s) \<or>
      active cx' (target reg s) \<and> complete reg cx' P' (target reg s)"
  shows "good reg U R cx' P'"
proof -
  have "active cx' (target reg s) \<and> complete reg cx' P' (target reg s)" if "active cx' s" for s
  proof (cases "active cx' (target reg s) \<and> complete reg cx' P' (target reg s)")
    case False
    with assms(5) [OF that] have s: "active cx s" "feats cx' (target reg s) = feats cx (target reg s)" by blast+
    then have "active cx (target reg s)" "complete reg cx P (target reg s)" using assms(1) unfolding good_def by blast+
    then show ?thesis using complete_mono [OF _ assms(3,4) s(2)] extendsD(1) [OF assms(3)] by blast
  qed
  moreover have "served reg cx' P' r" if "r \<in> R" for r
    using assms(1) that served_mono [OF _ assms(3,4)] unfolding good_def by blast
  ultimately show ?thesis using assms(2) unfolding good_def by blast
qed

subsection \<open>What a new frame asks for\<close>

lemma build_deps_Ok:
  assumes "build_deps query parent s opts = Ok (used, infos)"
  shows "used = enabled s opts" and "\<forall>f \<in> used. well_defined s f"
    and "\<forall>(d, cs, w) \<in> set infos. query d = Some cs"
    and "d \<in> set (used_deps s opts) \<Longrightarrow> \<exists>cs w. (d, cs, w) \<in> set infos \<and> query d = Some cs \<and>
      set w = set (dep_features d) \<union> {f. (name_in_toml d, Some f) \<in> demanded s opts}"
proof -
  from assms obtain deps infos' where rf: "resolve_features parent s opts = Ok (used, deps)"
    and qs: "ofold (\<lambda>(dep, features) acc. case query dep of
           Some candidates \<Rightarrow> Ok (acc @ [(dep, candidates, features)])
         | None \<Rightarrow> Err (Fatal (QueryFailed (dep_name dep)) :: ('a, 'b, 'c) activate_error)) deps [] = Ok infos'"
    and infos: "infos = sort_key (\<lambda>(_, a, _). length a) infos'"
    by (auto simp: build_deps_def)
  note spec = resolve_features_spec [where parent = parent and s = s and opts = opts, unfolded rf outcome.case prod.case]
  show "used = enabled s opts" "\<forall>f \<in> used. well_defined s f" using spec by blast+
  have all: "ofold (\<lambda>(dep, features) acc. case query dep of
           Some candidates \<Rightarrow> Ok (acc @ [(dep, candidates, features)])
         | None \<Rightarrow> Err (Fatal (QueryFailed (dep_name dep)) :: ('a, 'b, 'c) activate_error)) deps acc = Ok out \<Longrightarrow>
      set acc \<subseteq> set out \<and> (\<forall>(d, w) \<in> set deps. \<exists>cs. (d, cs, w) \<in> set out \<and> query d = Some cs) \<and>
      (\<forall>(d, cs, w) \<in> set out - set acc. query d = Some cs)" for acc out
  proof (induction deps arbitrary: acc)
    case (Cons dw deps)
    obtain d w where dw: "dw = (d, w)" by (cases dw)
    from Cons.prems obtain cs where "query d = Some cs" by (auto simp: dw split: option.splits)
    with Cons.prems Cons.IH [of "acc @ [(d, cs, w)]"] show ?case by (fastforce simp: dw)
  qed simp
  show "\<forall>(d, cs, w) \<in> set infos. query d = Some cs" using all [OF qs] by (auto simp: infos)
  assume "d \<in> set (used_deps s opts)"
  then have "d \<in> fst ` set deps" using spec by (metis set_map)
  then obtain w where w: "(d, w) \<in> set deps" by force
  with all [OF qs] obtain cs where "(d, cs, w) \<in> set infos'" "query d = Some cs" by blast
  moreover have "set w = set (dep_features d) \<union> {f. (name_in_toml d, Some f) \<in> demanded s opts}"
    using spec w by blast
  ultimately show "\<exists>cs w. (d, cs, w) \<in> set infos \<and> query d = Some cs \<and>
      set w = set (dep_features d) \<union> {f. (name_in_toml d, Some f) \<in> demanded s opts}"
    unfolding infos by auto
qed

lemma frame_covers:
  assumes "build_deps (reg_query reg fv) parent s opts = Ok (used, infos)"
    and "d \<in> set (sum_dependencies s)" and "is_transitive d \<or> dev_deps opts" and "wanted (demanded s opts) d x"
    and "\<forall>info \<in> set infos. (s, info) \<in># P"
  shows "covered reg cx P s d x"
proof -
  have "d \<in> set (used_deps s opts)" using assms(2-4) by (auto simp: used_deps_def wanted_def)
  from build_deps_Ok(4) [OF assms(1) this] obtain cs w where
    w: "(d, cs, w) \<in> set infos" "reg_query reg fv d = Some cs"
      "set w = set (dep_features d) \<union> {f. (name_in_toml d, Some f) \<in> demanded s opts}" by blast
  have "set_option x \<subseteq> set w" using assms(4) unfolding w(3) wanted_def by (cases x) simp_all
  moreover have "(s, d, cs, w) \<in># P" using assms(5) w(1) by blast
  ultimately show ?thesis using w(2) unfolding covered_def by (intro exI conjI disjI2)
qed

lemma enabled_closed: "f \<in> enabled s opts \<Longrightarrow> feature_step s `` {f} \<subseteq> enabled s opts"
  by (auto simp: enabled_def intro: rtrancl_into_rtrancl)

lemma pairs_of_enabled: "pairs_of s (enabled s opts) \<subseteq> demanded s opts"
  by (auto simp: pairs_of_def demanded_def)

lemma pairs_of_None: "(n, Some f) \<in> pairs_of s F \<Longrightarrow> (n, None) \<in> pairs_of s F"
proof -
  have "(n, Some f) \<in> fv_pairs fv \<Longrightarrow> (n, None) \<in> fv_pairs fv" for fv by (cases fv) (auto simp: fv_pairs_def)
  then show "(n, Some f) \<in> pairs_of s F \<Longrightarrow> (n, None) \<in> pairs_of s F" unfolding pairs_of_def by blast
qed

lemma wanted_union:
  assumes "wanted (pairs_of s (F \<union> G)) d x"
  shows "wanted (pairs_of s F) d x \<or> wanted (pairs_of s G) d x"
proof -
  have un: "pairs_of s (F \<union> G) = pairs_of s F \<union> pairs_of s G" by (auto simp: pairs_of_def)
  show ?thesis
    using assms pairs_of_None [of "name_in_toml d" _ s F] pairs_of_None [of "name_in_toml d" _ s G]
    unfolding wanted_def un by (cases x) auto
qed

lemma wanted_mono: "wanted Q d x \<Longrightarrow> Q \<subseteq> Q' \<Longrightarrow> wanted Q' d x"
  by (auto simp: wanted_def split: option.splits)

subsection \<open>One activation\<close>

lemma unwrap_or_Some: "unwrap_or d (Some x) = x"
  by (simp add: unwrap_or_def)

lemma feats_record:
  "finite used \<Longrightarrow> feats (record_features i used cx) s = (if sum_package_id s = i then feats cx s \<union> used else feats cx s)"
  by (simp add: feats_def record_features_def get_hm_insert unwrap_or_Some)

lemma finite_enabled: "\<forall>f \<in> enabled s opts. well_defined s f \<Longrightarrow> finite (enabled s opts)"
  by (rule finite_subset [of _ "keys_of s"]) (auto simp: well_defined_def keys_of_def)

lemma activate_deps_Ok:
  assumes ok: "ctx_ok reg U cx" and inj: "inj_on sum_package_id U" and c: "c \<in> U" "active cx c"
    and run: "activate_deps reg parent c fv opts cx = (cx', Ok r)"
  obtains infos where "build_deps (reg_query reg fv) parent c opts = Ok (enabled c opts, infos)"
    and "r = Some \<lparr>fr_parent = c, fr_just_for_error_messages = False, fr_remaining_siblings = infos\<rparr>"
    and "ctx_ok reg U cx'" and "extends cx cx'" and "\<And>s. active cx' s = active cx s"
    and "feats cx' c = feats cx c \<union> enabled c opts" and "\<And>s. active cx s \<Longrightarrow> s \<noteq> c \<Longrightarrow> feats cx' s = feats cx s"
proof -
  from run obtain used infos where b: "build_deps (reg_query reg fv) parent c opts = Ok (used, infos)"
    and r: "r = Some \<lparr>fr_parent = c, fr_just_for_error_messages = False, fr_remaining_siblings = infos\<rparr>"
    and cx': "cx' = (if used \<noteq> {} then record_features (sum_package_id c) used cx else cx)"
    by (auto simp: activate_deps_def split: outcome.splits)
  note used = build_deps_Ok(1,2) [OF b]
  have fin: "finite used" using used finite_enabled [of c opts] by simp
  have same: "cx_activations cx' = cx_activations cx" "cx_parents cx' = cx_parents cx" "cx_links cx' = cx_links cx"
    by (simp_all add: cx' record_features_def)
  have act: "active cx' s = active cx s" for s by (rule active_cong) (rule same)
  have feats: "feats cx' s = (if sum_package_id s = sum_package_id c then feats cx s \<union> used else feats cx s)" for s
    using fin by (auto simp: cx' feats_record)
  have "feats_ok cx'"
    unfolding feats_ok_def act
  proof (intro allI impI)
    fix i fs
    assume i: "map_of (cx_features cx') i = Some fs"
    show "\<exists>s. active cx s \<and> sum_package_id s = i"
    proof (cases "i = sum_package_id c")
      case True
      then show ?thesis using c(2) by blast
    next
      case False
      then have "map_of (cx_features cx) i = Some fs"
        using i by (auto simp: cx' record_features_def get_hm_insert split: if_splits)
      then show ?thesis using ok unfolding ctx_ok_def feats_ok_def by blast
    qed
  qed
  moreover have "acts_ok reg U cx'" "links_ok cx'"
    using ok unfolding ctx_ok_def acts_ok_def links_ok_def act same by blast+
  ultimately have 1: "ctx_ok reg U cx'" using ok by (simp add: ctx_ok_def same)
  have 2: "extends cx cx'" by (auto simp: extends_def act feats dep_edge_def same)
  have 3: "feats cx' s = feats cx s" if "active cx s" "s \<noteq> c" for s
  proof -
    have "s \<in> U" using that(1) ok unfolding ctx_ok_def acts_ok_def active_def by blast
    then have "sum_package_id s \<noteq> sum_package_id c" using that(2) c(1) inj by (auto dest: inj_onD)
    then show ?thesis by (simp add: feats)
  qed
  show thesis
    using that [OF _ r 1 2 act _ 3] b used(1) feats [of c] by simp
qed

lemma complete_new:
  assumes b: "build_deps (reg_query reg fv) parent c opts = Ok (enabled c opts, infos)"
    and F: "feats cx' c = F \<union> enabled c opts"
    and old: "F = {} \<or> complete reg cx P c \<and> feats cx c = F"
    and ext: "extends cx cx'" and P: "\<And>ob. ob \<in># P \<Longrightarrow> ob \<in># P' \<or> met reg cx' ob"
    and frame: "\<forall>info \<in> set infos. (c, info) \<in># P'"
  shows "complete reg cx' P' c"
proof -
  note used = build_deps_Ok(2) [OF b]
  have closed: "well_defined c f \<and> feature_step c `` {f} \<subseteq> feats cx' c" if "f \<in> feats cx' c" for f
  proof (cases "f \<in> enabled c opts")
    case True
    then show ?thesis using used enabled_closed [OF True] F by blast
  next
    case False
    with that F old have "f \<in> feats cx c" "complete reg cx P c" by auto
    then have "well_defined c f \<and> feature_step c `` {f} \<subseteq> feats cx c" unfolding complete_def by blast
    then show ?thesis using extendsD(2) [OF ext] by blast
  qed
  have "covered reg cx' P' c d x"
    if d: "d \<in> set (sum_dependencies c)" "is_transitive d" and w: "wanted (pairs_of c (feats cx' c)) d x" for d x
  proof -
    have new: "covered reg cx' P' c d x" if "wanted (pairs_of c (enabled c opts)) d x"
      using frame_covers [OF b d(1) _ wanted_mono [OF that pairs_of_enabled] frame] d(2) by blast
    from wanted_union [OF w [unfolded F]] show ?thesis
    proof
      assume wF: "wanted (pairs_of c F) d x"
      from old show ?thesis
      proof
        assume "F = {}"
        then have "pairs_of c F \<subseteq> pairs_of c (enabled c opts)" by (simp add: pairs_of_def)
        then show ?thesis using wF by (intro new) (rule wanted_mono)
      next
        assume "complete reg cx P c \<and> feats cx c = F"
        then have "covered reg cx P c d x" using wF d unfolding complete_def by blast
        then show ?thesis by (rule covered_mono [OF _ ext P])
      qed
    qed (rule new)
  qed
  with closed show ?thesis unfolding complete_def by blast
qed

text \<open>Adding the edge to the parent.\<close>

lemma add_parent_simps [simp]:
  "cx_activations (add_parent parent i cx) = cx_activations cx" "cx_features (add_parent parent i cx) = cx_features cx"
  "cx_links (add_parent parent i cx) = cx_links cx" "cx_age (add_parent parent i cx) = cx_age cx"
  by (simp_all add: add_parent_def split: option.split)

lemma dep_edge_add_parent:
  assumes "graph_wf (cx_parents cx)"
  shows "dep_edge cx c p d \<Longrightarrow> dep_edge (add_parent parent i cx) c p d"
    and "dep_edge (add_parent (Some (p, d)) (sum_package_id c) cx) c p d"
    and "graph_wf (cx_parents (add_parent parent i cx))"
  using assms
  by (auto simp: add_parent_def dep_edge_def graph_edge_link graph_wf_link split: option.splits)

definition started ::
  "(('p::linorder, 'b::linorder, 's::linorder) summary \<times> ('p, 'b, 's) dependency) option \<Rightarrow> ('p, 'b, 's) summary \<Rightarrow>
   ('p, 'b, 's) ctx \<Rightarrow> ('p, 'b, 's) ctx" where
  "started parent c cx = add_parent parent (sum_package_id c) (cx\<lparr>cx_age := cx_age cx + 1\<rparr>)"

lemma started_simps [simp]:
  "cx_activations (started parent c cx) = cx_activations cx" "cx_features (started parent c cx) = cx_features cx"
  "cx_links (started parent c cx) = cx_links cx" "cx_age (started parent c cx) = cx_age cx + 1"
  "active (started parent c cx) = active cx" "feats (started parent c cx) = feats cx"
  by (simp_all add: started_def active_def feats_def fun_eq_iff)

lemma started_ok:
  assumes "ctx_ok reg U cx"
  shows "ctx_ok reg U (started parent c cx)" and "extends cx (started parent c cx)"
    and "parent = Some (p, d) \<Longrightarrow> dep_edge (started parent c cx) c p d"
proof -
  have wf: "graph_wf (cx_parents (cx\<lparr>cx_age := cx_age cx + 1\<rparr>))" using assms by (simp add: ctx_ok_def)
  note edge = dep_edge_add_parent [OF wf]
  have "graph_wf (cx_parents (started parent c cx))" unfolding started_def by (rule edge(3))
  then show "ctx_ok reg U (started parent c cx)"
    using assms by (simp add: ctx_ok_def acts_ok_def links_ok_def feats_ok_def)
  have "dep_edge (started parent c cx) c' p' d'" if "dep_edge cx c' p' d'" for c' p' d'
    unfolding started_def using that by (intro edge(1)) (simp add: dep_edge_def)
  then show "extends cx (started parent c cx)" by (simp add: extends_def)
  show "parent = Some (p, d) \<Longrightarrow> dep_edge (started parent c cx) c p d"
    unfolding started_def using edge(2) by blast
qed

text \<open>What flagging gives, whether the package was active before or not.\<close>

lemma flag_Ok:
  assumes ok: "ctx_ok reg U cx" and inj: "inj_on sum_package_id U" and c: "c \<in> U" and clash: "semver_clash cx c = None"
    and offered: "offered reg parent c"
    and run: "flag_activated checks c opts parent cx = (cx', Ok b)"
  shows "ctx_ok reg U cx'" and "extends cx cx'" and "active cx' c" and "\<And>s. active cx' s \<Longrightarrow> active cx s \<or> s = c"
    and "feats cx' = feats cx" and "b \<Longrightarrow> already_has cx' c opts \<and> active cx c" and "\<not> active cx c \<Longrightarrow> feats cx c = {}"
proof -
  have "ctx_ok reg U cx' \<and> extends cx cx' \<and> active cx' c \<and> (\<forall>s. active cx' s \<longrightarrow> active cx s \<or> s = c) \<and>
     feats cx' = feats cx \<and> (b \<longrightarrow> already_has cx' c opts \<and> active cx c)"
  proof (cases "map_of (cx_activations cx) (as_activations_key (sum_package_id c))")
    case None
    from flag_activated_vacant [OF None offered run] obtain ks where ks: "\<not> b" "cx' = with_slots c ks (with_links c cx)"
      "as_activations_key (sum_package_id c) \<in> set ks" "\<forall>k \<in> set ks. map_of (cx_activations cx) k = None \<and> slot_of reg k c"
      "\<forall>l. sum_links c = Some l \<longrightarrow> map_of (cx_links cx) l = None" by blast
    have "active cx' s \<longleftrightarrow> active cx s \<or> s = c" for s
      using active_with_slots [of c ks "with_links c cx" s] ks by (simp add: active_cong [of "with_links c cx" cx])
    moreover have "feats cx' = feats cx" by (simp add: ks(2) feats_def with_slots_def fun_eq_iff)
    moreover have "extends cx cx'" unfolding ks(2) using ks(3,4) by (intro extends_flag) auto
    ultimately show ?thesis using ctx_ok_flag [OF ok c ks(3-5)] ks(1,2) by simp
  next
    case (Some a)
    then have occ: "map_of (cx_activations cx) (as_activations_key (sum_package_id c)) \<noteq> None" by simp
    note f = flag_activated_occupied [OF ok inj c clash occ]
    show ?thesis using f(1) run ok unfolding f(2) by (auto simp: extends_refl)
  qed
  then show "ctx_ok reg U cx'" "extends cx cx'" "active cx' c" "\<And>s. active cx' s \<Longrightarrow> active cx s \<or> s = c"
    "feats cx' = feats cx" "b \<Longrightarrow> already_has cx' c opts \<and> active cx c" by blast+
  assume not: "\<not> active cx c"
  have "map_of (cx_features cx) (sum_package_id c) = None"
  proof (rule ccontr)
    assume "map_of (cx_features cx) (sum_package_id c) \<noteq> None"
    then obtain s where s: "active cx s" "sum_package_id s = sum_package_id c"
      using ok unfolding ctx_ok_def feats_ok_def by blast
    then have "s \<in> U" using ok unfolding ctx_ok_def acts_ok_def active_def by blast
    with s c inj have "s = c" by (auto dest: inj_onD)
    with s not show False by simp
  qed
  then show "feats cx c = {}" by (simp add: feats_def unwrap_or_def)
qed

lemma already_has_met:
  assumes "already_has cx c opts" and "opt_features opts = DepFeatures w (dep_default_features d)"
    and "active cx e" and "dep_edge cx e p d" and "e \<in> set cs" and "target reg e = c" and "active cx c"
  shows "met reg cx (p, d, cs, w)"
proof -
  have "set w \<subseteq> feats cx c" "dep_default_features d \<and> ''default'' \<in> keys_of c \<longrightarrow> ''default'' \<in> feats cx c"
    using assms(1,2) by (auto simp: already_has_def Let_def feats_def unwrap_or_def list_all_iff keys_of_def
        map_of_eq_None_iff)
  with assms(3-7) show ?thesis unfolding met_def prod.case by blast
qed

definition frame_of :: "('p, 'b, 's) deps_frame option \<Rightarrow> (('p, 'b, 's) summary \<times> ('p, 'b, 's) dep_info) multiset" where
  "frame_of r = (case r of None \<Rightarrow> {#} | Some f \<Rightarrow> frame_pending f)"

definition asked_by ::
  "('p, 'b, 's) registry \<Rightarrow> (('p, 'b, 's) summary \<times> ('p, 'b, 's) dependency) option \<Rightarrow> ('p, 'b, 's) summary \<Rightarrow> resolve_opts \<Rightarrow>
   (('p, 'b, 's) summary \<times> ('p, 'b, 's) dep_info) multiset \<Rightarrow> bool" where
  "asked_by reg parent c opts Q = (case parent of
     None \<Rightarrow> Q = {#} \<and> (\<exists>fs a d. opt_features opts = CliFeatures fs a d)
   | Some (p, d) \<Rightarrow> \<exists>fv cs w. Q = {#(p, d, cs, w)#} \<and> reg_query reg fv d = Some cs \<and> c \<in> set cs \<and>
       opt_features opts = DepFeatures w (dep_default_features d))"

lemma requested_enabled:
  assumes "opt_features opts = DepFeatures w u"
  shows "set w \<subseteq> enabled c opts" and "u \<and> ''default'' \<in> keys_of c \<longrightarrow> ''default'' \<in> enabled c opts"
  using assms by (auto simp: enabled_def roots_def default_root_def)

text \<open>The package is flagged and its frame was built: the new context is good.\<close>

lemma activate_deps_good:
  assumes reg: "registry_ok reg U" and g: "good reg U R cx (Q + P)" and ok: "ctx_ok reg U cx2" and ext: "extends cx cx2"
    and t: "t = target reg c" "t \<in> U" and act2: "active cx2 c" "active cx2 t"
    and new: "\<forall>s. active cx2 s \<longrightarrow> active cx s \<or> s = c \<or> s = t"
    and feats2: "feats cx2 = feats cx" and fresh: "\<not> active cx t \<longrightarrow> feats cx t = {}"
    and asked: "asked_by reg parent c opts Q" and edge: "\<And>p d. parent = Some (p, d) \<Longrightarrow> dep_edge cx2 c p d"
    and run: "activate_deps reg pid t fv opts cx2 = (cx', Ok r)"
  shows "extends cx cx' \<and> good reg U R cx' (frame_of r + P) \<and> served reg cx' (frame_of r + P) (c, opts)"
proof -
  note regD = registry_okD [OF reg]
  from activate_deps_Ok [OF ok regD(1) t(2) act2(2) run] obtain infos where
    b: "build_deps (reg_query reg fv) pid t opts = Ok (enabled t opts, infos)"
    and r: "r = Some \<lparr>fr_parent = t, fr_just_for_error_messages = False, fr_remaining_siblings = infos\<rparr>"
    and ok': "ctx_ok reg U cx'" and ext': "extends cx2 cx'" and act: "\<And>s. active cx' s = active cx2 s"
    and ft: "feats cx' t = feats cx2 t \<union> enabled t opts"
    and fo: "\<And>s. active cx2 s \<Longrightarrow> s \<noteq> t \<Longrightarrow> feats cx' s = feats cx2 s"
    by blast
  let ?P = "frame_of r + P"
  have tt: "target reg t = t" using regD(4) [of c] by (simp add: t(1))
  have extends: "extends cx cx'" using ext ext' by (rule extends_trans)
  have frame: "\<forall>info \<in> set infos. (t, info) \<in># ?P" by (simp add: r frame_of_def frame_pending_def)
  have P: "ob \<in># ?P \<or> met reg cx' ob" if "ob \<in># Q + P" for ob
  proof (cases "ob \<in># P")
    case False
    with that have Q: "ob \<in># Q" by simp
    then obtain p d cs w where par: "parent = Some (p, d)" "ob = (p, d, cs, w)" "c \<in> set cs"
      "opt_features opts = DepFeatures w (dep_default_features d)"
      using asked by (auto simp: asked_by_def split: option.splits)
    have "dep_edge cx' c p d" using edge [OF par(1)] extendsD(3) [OF ext'] by blast
    then have "met reg cx' ob"
      unfolding met_def par(2) prod.case t(1) [symmetric]
      by (intro bexI [of _ c] conjI) (use par(3) act2 requested_enabled [OF par(4), of t] in \<open>auto simp: act ft t(1) [symmetric]\<close>)
    then show ?thesis ..
  qed simp
  have old: "active cx s \<Longrightarrow> active cx (target reg s) \<and> complete reg cx (Q + P) (target reg s)" for s
    using g unfolding good_def by blast
  have "feats cx t = {} \<or> complete reg cx (Q + P) t \<and> feats cx t = feats cx t"
    using fresh old [of t] by (auto simp: tt)
  from complete_new [OF b _ this extends P frame] ft have comp: "complete reg cx' ?P t" by (simp add: feats2)
  have good: "good reg U R cx' ?P"
  proof (rule good_extend [OF g ok' extends P])
    fix s
    assume "active cx' s"
    then consider "active cx s" "target reg s \<noteq> t" | "target reg s = t"
      using new tt unfolding act t(1) by blast
    then show "active cx s \<and> feats cx' (target reg s) = feats cx (target reg s) \<or>
      active cx' (target reg s) \<and> complete reg cx' ?P (target reg s)"
    proof cases
      case 1
      then have "active cx2 (target reg s)" using old extendsD(1) [OF ext] by blast
      with 1 fo show ?thesis by (simp add: feats2)
    next
      case 2
      then show ?thesis using comp act2(2) by (simp add: act)
    qed
  qed
  have "served reg cx' ?P (c, opts)"
    unfolding served_def prod.case Let_def act t(1) [symmetric] ft
    by (intro conjI allI impI frame_covers [OF b _ _ _ frame]) (use act2 in simp_all)
  with good show ?thesis using extends by blast
qed

text \<open>
  Flagging a candidate and its replacement: both are active afterwards, and nothing else changed.
  The slot of the replacement is free or its own, since nothing else may claim it.
\<close>

lemma replacement_no_clash:
  assumes reg: "registry_ok reg U" and ok: "ctx_ok reg U cx" and r: "reg_replacement reg i = Some t"
  shows "semver_clash cx t = None"
proof (cases "map_of (cx_activations cx) (as_activations_key (sum_package_id t))")
  case (Some sa)
  obtain s a where sa: "sa = (s, a)" by (cases sa)
  have "s \<in> U" "slot_of reg (as_activations_key (sum_package_id t)) s"
    using ok Some unfolding ctx_ok_def acts_ok_def sa by blast+
  then have "s = t" using registry_okD(5) [OF reg r] by blast
  with Some sa show ?thesis by (simp add: semver_clash_def summary_eq_def)
qed (simp add: semver_clash_def)

lemma flag_both:
  assumes reg: "registry_ok reg U" and ok: "ctx_ok reg U cx" and c: "c \<in> U" "semver_clash cx c = None"
    and offered: "offered reg parent c"
    and run: "activate checks reg parent c fv opts cx = (cx', Ok r)"
  obtains cx2 b where "ctx_ok reg U cx2" and "extends (started parent c cx) cx2"
    and "active cx2 c" and "active cx2 (target reg c)"
    and "\<forall>s. active cx2 s \<longrightarrow> active cx s \<or> s = c \<or> s = target reg c" and "feats cx2 = feats cx"
    and "\<not> active cx (target reg c) \<longrightarrow> feats cx (target reg c) = {}"
    and "b \<longrightarrow> already_has cx2 (target reg c) opts \<and> active cx c"
    and "if b then cx' = cx2 \<and> r = None else \<exists>pid. activate_deps reg pid (target reg c) fv opts cx2 = (cx', Ok r)"
proof -
  let ?cx1 = "started parent c cx"
  note st = started_ok [OF ok, where parent = parent and c = c]
  have clash: "semver_clash ?cx1 c = None" using c(2) by (simp add: semver_clash_def)
  obtain cx2 b1 where flag: "flag_activated checks c opts parent ?cx1 = (cx2, Ok b1)"
    using run by (auto simp: activate_def Let_def started_def split: prod.splits outcome.splits if_splits)
  note f = flag_Ok [OF st(1) registry_okD(1) [OF reg] c(1) clash offered flag, unfolded started_simps]
  note run' = run [unfolded activate_def Let_def, folded started_def, unfolded flag prod.case outcome.case]
  show thesis
  proof (cases "reg_replacement reg (sum_package_id c)")
    case None
    then have tc: "target reg c = c" by (simp add: target_def unwrap_or_def)
    have rest: "if b1 then cx' = cx2 \<and> r = None else \<exists>pid. activate_deps reg pid (target reg c) fv opts cx2 = (cx', Ok r)"
      unfolding tc using run' by (auto simp: None split: if_splits)
    have new: "\<forall>s. active cx2 s \<longrightarrow> active cx s \<or> s = c \<or> s = target reg c" using f(4) by blast
    have "active cx2 (target reg c)" "\<not> active cx (target reg c) \<longrightarrow> feats cx (target reg c) = {}"
      "b1 \<longrightarrow> already_has cx2 (target reg c) opts \<and> active cx c"
      using f(3,6,7) unfolding tc by blast+
    then show thesis using that [OF f(1,2,3) _ new f(5)] rest by blast
  next
    case (Some t)
    then have tc: "target reg c = t" by (simp add: target_def unwrap_or_def)
    obtain cx3 b2 where flag2: "flag_activated checks t opts None cx2 = (cx3, Ok b2)"
      using run' by (auto simp: Some split: prod.splits outcome.splits)
    have tU: "t \<in> U" using registry_okD(3) [OF reg c(1)] by (simp add: tc)
    have off: "offered reg None t" by (simp add: offered_def)
    note h = flag_Ok [OF f(1) registry_okD(1) [OF reg] tU replacement_no_clash [OF reg f(1) Some] off flag2]
    have rest: "if b2 \<and> b1 then cx' = cx3 \<and> r = None else \<exists>pid. activate_deps reg pid t fv opts cx3 = (cx', Ok r)"
      using run' by (auto simp: Some flag2 split: if_splits)
    have new: "\<forall>s. active cx3 s \<longrightarrow> active cx s \<or> s = c \<or> s = target reg c"
      using h(4) f(4) tc by blast
    have fresh: "feats cx t = {}" if "\<not> active cx t"
    proof (cases "t = c")
      case False
      then have "\<not> active cx2 t" using f(4) that by blast
      then show ?thesis using h(7) f(5) by simp
    qed (use f(7) that in simp)
    show thesis
      by (rule that [OF h(1) extends_trans [OF f(2) h(2)] _ _ new, of "b2 \<and> b1"])
        (use extendsD(1) [OF h(2) f(3)] f(5,6) h(3,5,6) fresh rest in \<open>auto simp: tc\<close>)
  qed
qed

lemma activate_good:
  assumes reg: "registry_ok reg U" and g: "good reg U R cx (Q + P)" and c: "c \<in> U" "semver_clash cx c = None"
    and asked: "asked_by reg parent c opts Q" and run: "activate checks reg parent c fv opts cx = (cx', Ok r)"
  shows "extends cx cx' \<and> good reg U R cx' (frame_of r + P) \<and>
    (parent = None \<longrightarrow> served reg cx' (frame_of r + P) (c, opts))"
proof -
  let ?t = "target reg c"
  have ok: "ctx_ok reg U cx" using g by (simp add: good_def)
  have offered: "offered reg parent c" using asked unfolding asked_by_def offered_def by auto blast
  obtain cx2 b where f: "ctx_ok reg U cx2" "extends (started parent c cx) cx2" "active cx2 c" "active cx2 ?t"
    "\<forall>s. active cx2 s \<longrightarrow> active cx s \<or> s = c \<or> s = ?t" "feats cx2 = feats cx"
    "\<not> active cx ?t \<longrightarrow> feats cx ?t = {}" "b \<longrightarrow> already_has cx2 ?t opts \<and> active cx c"
    "if b then cx' = cx2 \<and> r = None else \<exists>pid. activate_deps reg pid ?t fv opts cx2 = (cx', Ok r)"
    by (rule flag_both [OF reg ok c offered run])
  note st = started_ok [OF ok, where parent = parent and c = c]
  have ext: "extends cx cx2" using st(2) f(2) by (rule extends_trans)
  have edge: "dep_edge cx2 c p d" if "parent = Some (p, d)" for p d
    using st(3) [OF that] extendsD(3) [OF f(2)] by blast
  show ?thesis
  proof (cases b)
    case True
    with f(9) have r: "cx' = cx2" "r = None" by simp_all
    from f(8) True have had: "already_has cx2 ?t opts" "active cx c" by blast+
    then obtain p d cs w where par: "parent = Some (p, d)" "Q = {#(p, d, cs, w)#}" "c \<in> set cs"
      "opt_features opts = DepFeatures w (dep_default_features d)"
      using asked by (auto simp: asked_by_def already_has_def split: option.splits)
    have met: "met reg cx2 (p, d, cs, w)"
      by (rule already_has_met [OF had(1) par(4) f(3) edge [OF par(1)] par(3) refl f(4)])
    have "active cx ?t" using g had(2) unfolding good_def by blast
    then have "active cx s" if "active cx2 s" for s using f(5) that had(2) by blast
    then have "good reg U R cx2 P"
      by (intro good_extend [OF g f(1) ext]) (use met f(6) in \<open>auto simp: par(2)\<close>)
    with ext show ?thesis by (simp add: r frame_of_def par(1))
  next
    case False
    with f(9) obtain pid where "activate_deps reg pid ?t fv opts cx2 = (cx', Ok r)" by auto
    from activate_deps_good [OF reg g f(1) ext refl registry_okD(3) [OF reg c(1)] f(3,4,5,6,7) asked edge this]
    show ?thesis by blast
  qed
qed

subsection \<open>The invariant of the loops\<close>

text \<open>
  \<open>N\<close> bounds the frames pushed so far, and with them the insertion times in use.
\<close>

definition pend_ok :: "('p, 'b, 's) registry \<Rightarrow> ('p, 'b, 's) summary set \<Rightarrow> (('p, 'b, 's) summary \<times> ('p, 'b, 's) dep_info) multiset \<Rightarrow> bool" where
  "pend_ok reg U P \<longleftrightarrow> (\<forall>p d cs w. (p, d, cs, w) \<in># P \<longrightarrow> set cs \<subseteq> U \<and> (\<exists>fv. reg_query reg fv d = Some cs))"

definition rd_upto :: "nat \<Rightarrow> ('p, 'b, 's) remaining_deps \<Rightarrow> bool" where
  "rd_upto N rd \<longleftrightarrow> rd_ok rd \<and> rd_time rd \<le> N"

definition point_with ::
  "nat \<Rightarrow> ('p::linorder, 'b::linorder, 's::linorder) registry \<Rightarrow> ('p, 'b, 's) summary set \<Rightarrow>
   (('p, 'b, 's) summary \<times> resolve_opts) set \<Rightarrow> ('p, 'b, 's) summary list \<Rightarrow> ('p, 'b, 's) backtrack_frame \<Rightarrow> bool" where
  "point_with N reg U R cs f \<longleftrightarrow>
     rd_upto N (bf_remaining_deps f) \<and> pend_ok reg U (pending (bf_remaining_deps f)) \<and>
     good reg U R (bf_context f) ({#(bf_parent f, bf_dep f, cs, bf_features f)#} + pending (bf_remaining_deps f)) \<and>
     set cs \<subseteq> U \<and> (\<exists>fv. reg_query reg fv (bf_dep f) = Some cs) \<and> set (bf_candidates f) \<union> set_option (bf_another f) \<subseteq> set cs \<and>
     (\<forall>r. bf_another f = Some r \<longrightarrow> semver_clash (bf_context f) r = None)"

definition frame_ok ::
  "nat \<Rightarrow> ('p::linorder, 'b::linorder, 's::linorder) registry \<Rightarrow> ('p, 'b, 's) summary set \<Rightarrow>
   (('p, 'b, 's) summary \<times> resolve_opts) set \<Rightarrow> ('p, 'b, 's) backtrack_frame \<Rightarrow> bool" where
  "frame_ok N reg U R f \<longleftrightarrow> (\<exists>cs. point_with N reg U R cs f) \<and> bf_another f \<noteq> None"

fun state_ok ::
  "nat \<Rightarrow> ('p::linorder, 'b::linorder, 's::linorder) registry \<Rightarrow> ('p, 'b, 's) summary set \<Rightarrow>
   (('p, 'b, 's) summary \<times> resolve_opts) set \<Rightarrow> ('p, 'b, 's) rstate \<Rightarrow> bool" where
  "state_ok N reg U R (Pick se) \<longleftrightarrow>
     rd_upto N (se_remaining se) \<and> pend_ok reg U (pending (se_remaining se)) \<and>
     good reg U R (se_ctx se) (pending (se_remaining se)) \<and> (\<forall>f \<in> set (se_stack se). frame_ok N reg U R f)"
| "state_ok N reg U R (Attempt at) \<longleftrightarrow>
     (\<forall>f \<in> set (se_stack (at_search at)). frame_ok N reg U R f) \<and>
     ((\<exists>cs. point_with N reg U R cs (backtrack_point at)) \<or> at_candidates at = [] \<and> at_another at = None)"
| "state_ok N reg U R (Done cx) \<longleftrightarrow> good reg U R cx {#}"
| "state_ok N reg U R (Failed e) \<longleftrightarrow> True"
| "state_ok N reg U R Panicked \<longleftrightarrow> True"

lemma rd_upto_mono: "rd_upto N rd \<Longrightarrow> N \<le> M \<Longrightarrow> rd_upto M rd"
  by (simp add: rd_upto_def)

lemma point_with_mono: "point_with N reg U R cs f \<Longrightarrow> N \<le> M \<Longrightarrow> point_with M reg U R cs f"
  using rd_upto_mono by (auto simp: point_with_def)

lemma frame_ok_mono: "frame_ok N reg U R f \<Longrightarrow> N \<le> M \<Longrightarrow> frame_ok M reg U R f"
  unfolding frame_ok_def using point_with_mono by blast

lemma state_ok_mono: "state_ok N reg U R st \<Longrightarrow> N \<le> M \<Longrightarrow> state_ok M reg U R st"
  using rd_upto_mono point_with_mono frame_ok_mono by (cases st) (simp_all, blast+)

lemma cand_next_spec:
  assumes "cand_next cx bs an con = (res, bs', an', con')" and "\<forall>r. an = Some r \<longrightarrow> semver_clash cx r = None"
  shows "case res of
      None \<Rightarrow> an = None \<and> bs' = [] \<and> an' = None
    | Some (r, many) \<Rightarrow> semver_clash cx r = None \<and> r \<in> set bs \<union> set_option an \<and>
        set bs' \<union> set_option an' \<subseteq> set bs \<union> set_option an \<and> (\<forall>r. an' = Some r \<longrightarrow> semver_clash cx r = None) \<and>
        (if many then an' \<noteq> None else bs' = [] \<and> an' = None)"
  using assms
proof (induction cx bs an con rule: cand_next.induct)
  case (1 cx an con)
  then show ?case by (cases an) auto
next
  case (2 cx b bs an con)
  consider (semver) a where "semver_clash cx b = Some a"
    | (links) l a where "semver_clash cx b = None" "links_clash cx b = Some (l, a)"
    | (stash) "semver_clash cx b = None" "links_clash cx b = None" "an = None"
    | (take) r where "semver_clash cx b = None" "links_clash cx b = None" "an = Some r"
    by (cases "semver_clash cx b"; cases "links_clash cx b"; cases an) auto
  then show ?case
  proof cases
    case semver
    with 2(3) [OF semver] 2(4,5) show ?thesis by (auto split: option.splits)
  next
    case links
    with 2(2) [OF links(1) links(2) refl] 2(4,5) show ?thesis by (auto split: option.splits)
  next
    case stash
    with 2(1) [OF stash] 2(4) show ?thesis by (auto split: option.splits)
  next
    case take
    with 2(4,5) show ?thesis by auto
  qed
qed

lemma pop_until_subset: "pop_until age st = (st', fr) \<Longrightarrow> set st' \<union> set_option fr \<subseteq> set st"
  by (induction age st rule: pop_until.induct) (auto split: if_splits)

definition chosen ::
  "nat \<Rightarrow> ('p::linorder, 'b::linorder, 's::linorder) registry \<Rightarrow> ('p, 'b, 's) summary set \<Rightarrow>
   (('p, 'b, 's) summary \<times> resolve_opts) set \<Rightarrow> ('p, 'b, 's) summary \<Rightarrow> bool \<Rightarrow> ('p, 'b, 's) backtrack_frame \<Rightarrow> bool" where
  "chosen N reg U R c many f \<longleftrightarrow> (\<exists>cs. point_with N reg U R cs f \<and> c \<in> set cs) \<and> semver_clash (bf_context f) c = None \<and>
     (if many then bf_another f \<noteq> None else bf_candidates f = [] \<and> bf_another f = None)"

lemma chosen_next:
  assumes f: "point_with N reg U R cs f"
    and run: "cand_next (bf_context f) (bf_candidates f) (bf_another f) con = (Some (c, many), bs, an, con')"
  shows "chosen N reg U R c many (f\<lparr>bf_candidates := bs, bf_another := an, bf_conflicts := con'\<rparr>)"
proof -
  have stash: "\<forall>r. bf_another f = Some r \<longrightarrow> semver_clash (bf_context f) r = None"
    and sub: "set (bf_candidates f) \<union> set_option (bf_another f) \<subseteq> set cs"
    using f by (simp_all add: point_with_def)
  note n = cand_next_spec [OF run stash, unfolded option.case prod.case]
  have "point_with N reg U R cs (f\<lparr>bf_candidates := bs, bf_another := an, bf_conflicts := con'\<rparr>)"
    using f n sub unfolding point_with_def by auto
  moreover have "c \<in> set cs" using n sub by blast
  ultimately show ?thesis using n unfolding chosen_def by auto
qed

lemma find_candidate_spec:
  assumes "\<forall>f \<in> set stack. frame_ok N reg U R f"
    and "find_candidate cx stack parent backtracked con = Ok (stack', Some (c, many, f'))"
  shows "set stack' \<subseteq> set stack \<and> chosen N reg U R c many f'"
proof -
  define age where "age = (if \<not> backtracked then is_conflicting cx (Some (sum_package_id parent)) con else None)"
  obtain st fr where popped: "(case age of Some a \<Rightarrow> pop_until a stack
      | None \<Rightarrow> (case stack of [] \<Rightarrow> ([], None) | f # st \<Rightarrow> (st, Some f))) = (st, fr)" by fastforce
  have sub: "set st \<union> set_option fr \<subseteq> set stack"
    using popped pop_until_subset by (auto split: option.splits list.splits) blast+
  note run = assms(2) [unfolded find_candidate_def Let_def age_def [symmetric] popped prod.case]
  from run obtain f where fr: "fr = Some f" by (cases fr) auto
  obtain res bs an con' where n: "cand_next (bf_context f) (bf_candidates f) (bf_another f) (bf_conflicts f) = (res, bs, an, con')"
    by (metis prod_cases4)
  from run have res: "res = Some (c, many)" and st: "stack' = st"
    and f': "f' = f\<lparr>bf_candidates := bs, bf_another := an, bf_conflicts := con'\<rparr>"
    unfolding fr option.case n by (auto split: option.splits)
  have "frame_ok N reg U R f" using sub assms(1) by (auto simp: fr)
  then obtain cs where "point_with N reg U R cs f" by (auto simp: frame_ok_def)
  from chosen_next [OF this n [unfolded res]] sub show ?thesis by (simp add: st f')
qed

lemma choose_candidate_spec:
  assumes at: "state_ok N reg U R (Attempt at)" and run: "choose_candidate reg at = Ok (c, many, at')"
  shows "(\<forall>f \<in> set (se_stack (at_search at')). frame_ok N reg U R f) \<and> chosen N reg U R c many (backtrack_point at')"
proof -
  let ?se = "at_search at"
  have stack: "\<forall>f \<in> set (se_stack ?se). frame_ok N reg U R f" using at by simp
  obtain res bs an con where n: "cand_next (se_ctx ?se) (at_candidates at) (at_another at) (at_conflicts at) = (res, bs, an, con)"
    by (metis prod_cases4)
  show ?thesis
  proof (cases res)
    case (Some cm)
    obtain c' m' where cm: "cm = (c', m')" by (cases cm)
    have c: "c' = c" "m' = many" and at': "at' = at\<lparr>at_candidates := bs, at_another := an, at_conflicts := con\<rparr>"
      using run by (simp_all add: choose_candidate_def Let_def n Some cm)
    have "\<not> (at_candidates at = [] \<and> at_another at = None)" using n Some by auto
    then obtain cs where cs: "point_with N reg U R cs (backtrack_point at)" using at by auto
    have eq: "backtrack_point at' = (backtrack_point at)\<lparr>bf_candidates := bs, bf_another := an, bf_conflicts := con\<rparr>"
      by (simp add: backtrack_point_def at')
    have "chosen N reg U R c many (backtrack_point at')"
      unfolding eq by (rule chosen_next [OF cs, where con = "at_conflicts at"]) (simp add: backtrack_point_def n Some cm c)
    with stack show ?thesis by (simp add: at')
  next
    case None
    define at1 where "at1 = at\<lparr>at_candidates := bs, at_another := an, at_conflicts := con\<rparr>"
    obtain gen cache where learn: "learn_conflict reg at1 = Ok (gen, cache)"
      using run by (auto simp: choose_candidate_def Let_def n None at1_def split: outcome.splits)
    obtain stack' f' where fc: "find_candidate (se_ctx ?se) (se_stack ?se) (at_parent at1) (at_backtracked at1) (unwrap_or con gen) =
        Ok (stack', Some (c, many, f'))" and at': "at' = restore f' stack' cache at1"
      using run learn by (auto simp: choose_candidate_def Let_def n None at1_def split: outcome.splits option.splits)
    have "backtrack_point at' = f'" by (simp add: at' restore_def backtrack_point_def)
    with find_candidate_spec [OF stack fc] stack show ?thesis by (auto simp: at' restore_def)
  qed
qed

lemma frame_of_pend_ok:
  assumes reg: "registry_ok reg U" and run: "activate checks reg parent c fv opts cx = (cx', Ok r)" and "pend_ok reg U P"
  shows "pend_ok reg U (frame_of r + P)"
proof (cases r)
  case None
  then show ?thesis using assms(3) by (simp add: frame_of_def)
next
  case (Some f)
  have deps: "pend_ok reg U (frame_pending f)" if "activate_deps reg pid t fv opts cx2 = (cx', Ok (Some f))" for pid t cx2
  proof -
    from that obtain used infos where b: "build_deps (reg_query reg fv) pid t opts = Ok (used, infos)"
      and f: "f = \<lparr>fr_parent = t, fr_just_for_error_messages = False, fr_remaining_siblings = infos\<rparr>"
      by (auto simp: activate_deps_def split: outcome.splits)
    have "set cs \<subseteq> U \<and> (\<exists>fv. reg_query reg fv d = Some cs)" if "(d, cs, w) \<in> set infos" for d cs w
      using build_deps_Ok(3) [OF b] that registry_okD(2) [OF reg] by blast
    then show ?thesis by (auto simp: pend_ok_def f frame_pending_def)
  qed
  have "\<exists>pid t cx2. activate_deps reg pid t fv opts cx2 = (cx', Ok (Some f))"
    using run unfolding Some by (auto simp: activate_def Let_def split: prod.splits outcome.splits if_splits option.splits)
  then have "pend_ok reg U (frame_pending f)" using deps by blast
  with assms(3) show ?thesis unfolding frame_of_def Some option.case pend_ok_def union_iff by blast
qed

lemma activated_state_ok:
  assumes "\<forall>f \<in> set stack. frame_ok N reg U R f" and "many \<Longrightarrow> frame_ok N reg U R (backtrack_point at)"
    and "rd_upto N rem" and "pend_ok reg U (pending rem)" and "good reg U R cx (pending rem)"
  shows "state_ok N reg U R (activated_state at many cx stack rem)"
  using assms by (auto simp: activated_state_def)

lemma retry_state_ok:
  assumes "\<forall>f \<in> set (se_stack (at_search at)). frame_ok N reg U R f" and "chosen N reg U R c many (backtrack_point at)"
  shows "state_ok N reg U R (retry_state at many cx con)"
proof (cases many)
  case True
  obtain cs where "point_with N reg U R cs (backtrack_point at)" using assms(2) by (auto simp: chosen_def)
  then have "point_with N reg U R cs (backtrack_point (at\<lparr>at_search := (at_search at)\<lparr>se_ctx := se_ctx (at_search at)\<rparr>, at_conflicts := con\<rparr>))"
    by (simp add: point_with_def backtrack_point_def)
  with assms(1) True show ?thesis by (auto simp: retry_state_def)
next
  case False
  with assms show ?thesis by (auto simp: retry_state_def chosen_def backtrack_point_def)
qed

lemma try_push:
  assumes stack: "\<forall>f \<in> set (se_stack (at_search at)). frame_ok N reg U R f"
    and frame: "many \<Longrightarrow> frame_ok N reg U R (backtrack_point at)"
    and rem: "rd_upto N rem" and fits: "Suc N < 2 ^ 32" and st: "set st \<subseteq> set (se_stack (at_search at))"
    and pend: "pend_ok reg U (frame_pending f + pending rem)" and g: "good reg U R cx (frame_pending f + pending rem)"
  shows "state_ok (Suc N) reg U R (case rd_push checks f rem of
    Ok remaining \<Rightarrow> activated_state at many cx st remaining | _ \<Rightarrow> Panicked)"
proof -
  have "rd_ok rem" "rd_time rem + 1 < 2 ^ 32" using rem fits by (auto simp: rd_upto_def)
  then obtain rem' where push: "rd_push checks f rem = Ok rem'" "rd_ok rem'" "pending rem' = frame_pending f + pending rem"
    "rd_time rem' = rd_time rem + 1" by (rule rd_push_ok)
  have "rd_upto (Suc N) rem'" using push(2,4) rem by (simp add: rd_upto_def)
  moreover have "\<forall>b \<in> set st. frame_ok (Suc N) reg U R b" "many \<Longrightarrow> frame_ok (Suc N) reg U R (backtrack_point at)"
    using stack frame st frame_ok_mono [of N reg U R _ "Suc N"] by auto
  ultimately have "state_ok (Suc N) reg U R (activated_state at many cx st rem')"
    using pend g by (intro activated_state_ok) (simp_all add: push(3))
  then show ?thesis by (simp add: push(1))
qed

lemma try_candidate_ok:
  assumes reg: "registry_ok reg U" and stack: "\<forall>f \<in> set (se_stack (at_search at)). frame_ok N reg U R f"
    and ch: "chosen N reg U R c many (backtrack_point at)" and fits: "Suc N < 2 ^ 32"
  shows "state_ok (Suc N) reg U R (try_candidate checks reg at c many)"
proof -
  let ?rem = "se_remaining (at_search at)" and ?cx = "se_ctx (at_search at)"
  obtain cs where pt: "point_with N reg U R cs (backtrack_point at)" "c \<in> set cs"
    and clash: "semver_clash ?cx c = None" using ch by (auto simp: chosen_def backtrack_point_def)
  have rem: "rd_upto N ?rem" "pend_ok reg U (pending ?rem)" "set cs \<subseteq> U"
    and query: "\<exists>fv. reg_query reg fv (at_dep at) = Some cs"
    and g: "good reg U R ?cx ({#(at_parent at, at_dep at, cs, at_features at)#} + pending ?rem)"
    using pt(1) by (simp_all add: point_with_def backtrack_point_def)
  have frame: "many \<Longrightarrow> frame_ok N reg U R (backtrack_point at)" using ch by (auto simp: chosen_def frame_ok_def)
  have asked: "asked_by reg (Some (at_parent at, at_dep at)) c (dep_opts at) {#(at_parent at, at_dep at, cs, at_features at)#}"
    using pt(2) query by (auto simp: asked_by_def dep_opts_def)
  have cU: "c \<in> U" using pt(2) rem(3) by blast
  obtain cx' res where run: "activate checks reg (Some (at_parent at, at_dep at)) c None (dep_opts at) ?cx = (cx', res)" by fastforce
  have up: "state_ok N reg U R st \<Longrightarrow> state_ok (Suc N) reg U R st" for st
    by (erule state_ok_mono) simp
  note retry = up [OF retry_state_ok [OF stack ch]]
  show ?thesis
  proof (cases res)
    case (Ok r)
    note run' = run [unfolded Ok]
    have g': "good reg U R cx' (frame_of r + pending ?rem)" "pend_ok reg U (frame_of r + pending ?rem)"
      using activate_good [OF reg g cU clash asked run'] frame_of_pend_ok [OF reg run' rem(2)] by blast+
    show ?thesis
    proof (cases r)
      case None
      then show ?thesis
        using up [OF activated_state_ok [OF stack frame rem(1,2)]] g' by (simp add: try_candidate_def run' frame_of_def)
    next
      case (Some f)
      have "state_ok (Suc N) reg U R (case rd_push checks (f\<lparr>fr_just_for_error_messages := j\<rparr>) ?rem of
            Ok remaining \<Rightarrow> activated_state at many cx' st remaining | _ \<Rightarrow> Panicked)"
        if "set st \<subseteq> set (se_stack (at_search at))" for st j
        using try_push [OF stack frame rem(1) fits that,
          where f = "f\<lparr>fr_just_for_error_messages := j\<rparr>" and cx = cx' and checks = checks] g'
        by (simp add: frame_of_def Some frame_pending_def)
      then show ?thesis
        using retry by (auto simp: try_candidate_def run' Some activated_frame_def Let_def split: outcome.splits prod.splits)
    qed
  next
    case (Err e)
    with retry show ?thesis by (cases e) (simp_all add: try_candidate_def run)
  qed (simp_all add: try_candidate_def run)
qed

lemma resolver_step_ok:
  assumes reg: "registry_ok reg U" and ok: "state_ok N reg U R st" and fits: "Suc N < 2 ^ 32"
  shows "state_ok (Suc N) reg U R (resolver_step checks reg st)"
proof (cases st)
  case (Pick se)
  have "rd_ok (se_remaining se)" using ok Pick by (simp add: rd_upto_def)
  note pop = pop_spec [OF this]
  obtain x rem where x: "pop_most_constrained (se_remaining se) = (x, rem)" by fastforce
  show ?thesis
  proof (cases x)
    case None
    with pop ok show ?thesis by (simp add: Pick pick_step_def x)
  next
    case (Some y)
    obtain jem parent dep cs w where y: "y = (jem, parent, dep, cs, w)" by (metis prod_cases5)
    have p: "rd_ok rem" "pending (se_remaining se) = add_mset (parent, dep, cs, w) (pending rem)"
      using pop by (simp_all add: x Some y)
    have rem: "rd_upto N rem" using ok pop_time [of "se_remaining se"] p(1) by (simp add: Pick x rd_upto_def)
    have "pend_ok reg U (pending rem)" "set cs \<subseteq> U" "\<exists>fv. reg_query reg fv dep = Some cs"
      using ok by (auto simp: Pick p(2) pend_ok_def)
    then have "state_ok N reg U R (resolver_step checks reg st)"
      using ok p(2) rem by (auto simp: Pick pick_step_def x Some y point_with_def backtrack_point_def)
    then show ?thesis by (rule state_ok_mono) simp
  qed
next
  case (Attempt at)
  show ?thesis
  proof (cases "choose_candidate reg at")
    case (Ok cma)
    obtain c many at' where cma: "cma = (c, many, at')" by (cases cma) auto
    note ch = choose_candidate_spec [OF ok [unfolded Attempt] Ok [unfolded cma]]
    then have "state_ok N reg U R (Attempt at')" by (auto simp: chosen_def)
    then have "state_ok (Suc N) reg U R (Attempt at')" by (rule state_ok_mono) simp
    with ch try_candidate_ok [OF reg _ _ fits, of at' R c many] show ?thesis
      by (auto simp: Attempt attempt_step_def Ok cma simp del: state_ok.simps)
  qed (simp_all add: Attempt attempt_step_def)
qed (use ok in simp_all)

lemma resolver_run_ok:
  assumes "registry_ok reg U"
  shows "state_ok N reg U R st \<Longrightarrow> N + n < 2 ^ 32 \<Longrightarrow> state_ok (N + n) reg U R (resolver_run n checks reg st)"
proof (induction n arbitrary: N st)
  case (Suc n)
  have "state_ok (Suc N) reg U R (resolver_step checks reg st)"
    using Suc.prems by (intro resolver_step_ok [OF assms]) simp_all
  from Suc.IH [OF this] Suc.prems(2) show ?case by simp
qed simp

subsection \<open>The initial activations\<close>

definition roots_ok :: "('p, 'b, 's) summary set \<Rightarrow> (('p, 'b, 's) summary \<times> resolve_opts) list \<Rightarrow> bool" where
  "roots_ok U rs \<longleftrightarrow> (\<forall>(s, opts) \<in> set rs. s \<in> U \<and> (\<exists>fs a d. opt_features opts = CliFeatures fs a d) \<and>
     (\<forall>(t, _) \<in> set rs. as_activations_key (sum_package_id s) = as_activations_key (sum_package_id t) \<longrightarrow> s = t))"

definition own_slots :: "('p, 'b, 's) summary set \<Rightarrow> ('p, 'b, 's) ctx \<Rightarrow> bool" where
  "own_slots S cx \<longleftrightarrow>
     (\<forall>k s a. map_of (cx_activations cx) k = Some (s, a) \<longrightarrow> s \<in> S \<and> k = as_activations_key (sum_package_id s))"

lemma activations_activate_deps:
  "cx_activations (fst (activate_deps reg pid c fv opts cx)) = cx_activations cx"
  by (auto simp: activate_deps_def record_features_def split: outcome.split)

lemma own_slots_flag:
  assumes slots: "own_slots S cx" and c: "c \<in> S" and flag: "flag_activated checks c opts None cx = (cx2, Ok b)"
  shows "own_slots S cx2"
proof -
  have "cx_activations cx2 = cx_activations cx \<or>
      (\<exists>a. cx_activations cx2 = hm_insert (as_activations_key (sum_package_id c)) (c, a) (cx_activations cx))"
    using flag by (auto simp: flag_activated_def Let_def split: option.splits if_splits)
  then have get: "map_of (cx_activations cx2) k = Some (s, a) \<Longrightarrow>
      map_of (cx_activations cx) k = Some (s, a) \<or> s = c \<and> k = as_activations_key (sum_package_id c)" for k s a
    by (auto simp: get_hm_insert split: if_splits)
  show ?thesis unfolding own_slots_def using get slots [unfolded own_slots_def] c by blast
qed

lemma own_slots_activate:
  assumes slots: "own_slots S cx" and c: "c \<in> S" and rep: "\<And>i r. reg_replacement reg i = Some r \<Longrightarrow> r \<in> S"
    and run: "activate checks reg None c fv opts cx = (cx', Ok r)"
  shows "own_slots S cx'"
proof -
  have deps: "cx_activations cx3 = cx_activations cx2" if "activate_deps reg pid t fv opts cx2 = (cx3, Ok r)" for pid t cx2 cx3
    using activations_activate_deps [of reg pid t fv opts cx2] that by simp
  obtain cx2 b where flag: "flag_activated checks c opts None (started None c cx) = (cx2, Ok b)"
    using run by (auto simp: activate_def Let_def started_def split: prod.splits outcome.splits if_splits)
  have cx2: "own_slots S cx2" by (rule own_slots_flag [OF _ c flag]) (use slots in \<open>simp add: own_slots_def\<close>)
  note run' = run [unfolded activate_def Let_def, folded started_def, unfolded flag prod.case outcome.case]
  show ?thesis
  proof (cases "reg_replacement reg (sum_package_id c)")
    case None
    then have "cx_activations cx' = cx_activations cx2" using run' deps by (auto split: if_splits)
    with cx2 show ?thesis by (simp add: own_slots_def)
  next
    case (Some t)
    obtain cx3 b2 where flag2: "flag_activated checks t opts None cx2 = (cx3, Ok b2)"
      using run' by (auto simp: Some split: prod.splits outcome.splits)
    have "own_slots S cx3" by (rule own_slots_flag [OF cx2 rep [OF Some] flag2])
    moreover have "cx_activations cx' = cx_activations cx3" using run' deps by (auto simp: Some flag2 split: if_splits)
    ultimately show ?thesis by (simp add: own_slots_def)
  qed
qed

lemma own_slots_clash:
  assumes slots: "own_slots (fst ` set rs \<union> {r. \<exists>i. reg_replacement reg i = Some r}) cx" and reg: "registry_ok reg U"
    and rs: "roots_ok U rs" and c: "(c, opts) \<in> set rs"
  shows "semver_clash cx c = None"
proof (cases "map_of (cx_activations cx) (as_activations_key (sum_package_id c))")
  case (Some sa)
  obtain s a where sa: "sa = (s, a)" by (cases sa)
  have key: "as_activations_key (sum_package_id c) = as_activations_key (sum_package_id s)"
    and "s \<in> fst ` set rs \<or> (\<exists>i. reg_replacement reg i = Some s)"
    using slots Some sa unfolding own_slots_def by blast+
  then have "c = s"
  proof (elim disjE exE)
    assume "s \<in> fst ` set rs"
    then obtain o' where "(s, o') \<in> set rs" by auto
    with key c rs show ?thesis unfolding roots_ok_def by blast
  next
    fix i
    assume rep: "reg_replacement reg i = Some s"
    have "slot_of reg (as_activations_key (sum_package_id s)) c" unfolding slot_of_def key by blast
    moreover have "c \<in> U" using c rs unfolding roots_ok_def by blast
    ultimately show ?thesis using registry_okD(5) [OF reg rep] by blast
  qed
  with Some sa show ?thesis by (simp add: semver_clash_def summary_eq_def)
qed (simp add: semver_clash_def)

lemma push_frame:
  assumes "rd_upto N rem" and "Suc N < 2 ^ 32"
  obtains rem' where "pending rem' = frame_of r + pending rem" and "rd_upto (Suc N) rem'"
    and "case r of None \<Rightarrow> rem' = rem | Some f \<Rightarrow> rd_push checks f rem = Ok rem'"
proof (cases r)
  case None
  then show thesis using that [of rem] assms(1) by (simp add: frame_of_def rd_upto_def)
next
  case (Some f)
  have "rd_ok rem" "rd_time rem + 1 < 2 ^ 32" using assms by (auto simp: rd_upto_def)
  then obtain rem' where "rd_push checks f rem = Ok rem'" "rd_ok rem'" "pending rem' = frame_pending f + pending rem"
    "rd_time rem' = rd_time rem + 1" by (rule rd_push_ok)
  then show thesis using that [of rem'] assms(1) by (simp add: frame_of_def rd_upto_def Some)
qed

lemma activate_roots_ok:
  assumes reg: "registry_ok reg U" and rs: "roots_ok U rs"
    and "set todo \<subseteq> set rs" and "good reg U R cx (pending rem)" and "rd_upto N rem" and "pend_ok reg U (pending rem)"
    and "own_slots (fst ` set rs \<union> {r. \<exists>i. reg_replacement reg i = Some r}) cx" and "N + length todo < 2 ^ 32"
  shows "state_ok (N + length todo) reg U (R \<union> set todo) (activate_roots checks reg fv todo cx rem cache)"
  using assms(3-)
proof (induction todo arbitrary: N R cx rem)
  case (Cons so todo)
  obtain c opts where so: "so = (c, opts)" by (cases so)
  have c: "(c, opts) \<in> set rs" "c \<in> U" and cli: "\<exists>fs a d. opt_features opts = CliFeatures fs a d"
    using Cons.prems(1) rs by (auto simp: so roots_ok_def)
  have asked: "asked_by reg None c opts {#}" using cli by (simp add: asked_by_def)
  have g: "good reg U R cx ({#} + pending rem)" using Cons.prems(2) by simp
  obtain cx' res where run: "activate checks reg None c fv opts cx = (cx', res)" by fastforce
  show ?case
  proof (cases res)
    case (Ok r)
    note run' = run [unfolded Ok]
    note a = activate_good [OF reg g c(2) own_slots_clash [OF Cons.prems(5) reg rs c(1)] asked run']
    obtain rem' where rem': "pending rem' = frame_of r + pending rem" "rd_upto (Suc N) rem'"
      and push: "case r of None \<Rightarrow> rem' = rem | Some f \<Rightarrow> rd_push checks f rem = Ok rem'"
      by (rule push_frame [OF Cons.prems(3)]) (use Cons.prems(6) in simp)
    have "good reg U (insert so R) cx' (pending rem')"
      using a unfolding rem' good_def so by simp
    moreover have "pend_ok reg U (pending rem')"
      unfolding rem' by (rule frame_of_pend_ok [OF reg run' Cons.prems(4)])
    moreover have "own_slots (fst ` set rs \<union> {r. \<exists>i. reg_replacement reg i = Some r}) cx'"
      by (rule own_slots_activate [OF Cons.prems(5) _ _ run']) (use c(1) in force)+
    ultimately have "state_ok (Suc N + length todo) reg U (insert so R \<union> set todo) (activate_roots checks reg fv todo cx' rem' cache)"
      using Cons.prems(1,6) rem'(2) by (intro Cons.IH) simp_all
    then show ?thesis
      using push by (simp add: so run' insert_commute split: option.splits del: state_ok.simps)
  next
    case (Err e)
    then show ?thesis by (cases e) (simp_all add: so run)
  qed (simp_all add: so run)
qed simp

lemma resolver_init_ok:
  assumes "registry_ok reg U" and "roots_ok U rs" and "length rs < 2 ^ 32"
  shows "state_ok (length rs) reg U (set rs) (resolver_init checks reg fv rs cache)"
proof -
  have "good reg U {} cx_new (pending rd_new)"
    by (simp add: good_def ctx_ok_def acts_ok_def links_ok_def feats_ok_def active_def cx_new_def)
  moreover have "own_slots (fst ` set rs \<union> {r. \<exists>i. reg_replacement reg i = Some r}) cx_new"
    by (simp add: own_slots_def cx_new_def)
  moreover have "rd_upto 0 rd_new" by (simp add: rd_upto_def rd_new_def rd_ok_def data_ok_def)
  ultimately have "state_ok (0 + length rs) reg U ({} \<union> set rs) (activate_roots checks reg fv rs cx_new rd_new cache)"
    using assms(3) by (intro activate_roots_ok [OF assms(1,2)]) (simp_all add: pend_ok_def)
  then show ?thesis by (simp add: resolver_init_def)
qed

subsection \<open>Properties\<close>

text \<open>
  \<open>resolved\<close>: the package is stored in the activations, under whatever key; these are the nodes of
  the resolution graph. \<open>fulfilled\<close>: an activated candidate of the dependency is linked to the parent,
  and the package that is built for it is activated with the features asked for.
\<close>

definition resolved :: "('p, 'b, 's) ctx \<Rightarrow> ('p, 'b, 's) summary \<Rightarrow> bool" where
  "resolved cx s \<longleftrightarrow> (\<exists>k a. map_of (cx_activations cx) k = Some (s, a))"

definition fulfilled ::
  "('p, 'b, 's) registry \<Rightarrow> ('p, 'b, 's) ctx \<Rightarrow> ('p, 'b, 's) summary \<Rightarrow> ('p, 'b, 's) dependency \<Rightarrow> string option \<Rightarrow> bool" where
  "fulfilled reg cx s d x \<longleftrightarrow> (\<exists>fv cs c. reg_query reg fv d = Some cs \<and> c \<in> set cs \<and> active cx c \<and> dep_edge cx c s d \<and>
     active cx (target reg c) \<and> set_option x \<subseteq> feats cx (target reg c) \<and>
     (dep_default_features d \<and> ''default'' \<in> keys_of (target reg c) \<longrightarrow> ''default'' \<in> feats cx (target reg c)))"

lemma covered_fulfilled: "covered reg cx {#} s d x \<Longrightarrow> fulfilled reg cx s d x"
  unfolding covered_def fulfilled_def met_def by (fastforce split: prod.splits)

text \<open>
  C1: every resolution the resolver returns is valid, whatever path of choices and backtracking
  led to it and whatever the conflict cache holds, with and without debug assertions. Of two
  packages stored in the resolution, under their own source or for a patched one, no two have the
  same name, source and semver-compatible range, and no two the same \<open>links\<close> key. The requested
  features of the root packages are enabled. A package that \<open>[replace]\<close> replaces comes with its
  replacement; the features of every other package are closed under its feature table, and every
  dependency of it that is required or asked for, and every feature asked of it, is provided by an
  activated candidate of that dependency, linked to its parent, or by the replacement of the
  candidate. The registry answers with one summary for each id and nothing but a replacement
  claims the replacement's slot (\<open>registry_ok\<close>); the roots and the rounds of the search stay below
  \<open>2 ^ 32\<close>, so that the insertion times of the pending frames do not wrap around.
\<close>

theorem resolver_sound:
  assumes reg: "registry_ok reg U" and rs: "roots_ok U rs" and fits: "length rs + n < 2 ^ 32"
    and run: "resolver_run n checks reg (resolver_init checks reg fv rs cache) = Done cx"
  shows "(\<forall>s t. resolved cx s \<longrightarrow> resolved cx t \<longrightarrow>
      (pkg_name (sum_package_id s) = pkg_name (sum_package_id t) \<and> pkg_source (sum_package_id s) = pkg_source (sum_package_id t) \<and>
       semver_compat (pkg_version (sum_package_id s)) = semver_compat (pkg_version (sum_package_id t))) \<or>
      (sum_links s \<noteq> None \<and> sum_links s = sum_links t) \<longrightarrow> s = t) \<and>
    (\<forall>(s, opts) \<in> set rs. let t = target reg s in active cx s \<and> active cx t \<and> enabled t opts \<subseteq> feats cx t \<and>
      (\<forall>d \<in> set (sum_dependencies t). \<forall>x. is_transitive d \<or> dev_deps opts \<longrightarrow> wanted (demanded t opts) d x \<longrightarrow>
         fulfilled reg cx t d x)) \<and>
    (\<forall>s. resolved cx s \<longrightarrow> (case reg_replacement reg (sum_package_id s) of
        Some r \<Rightarrow> active cx r
      | None \<Rightarrow>
          (\<forall>f \<in> feats cx s. well_defined s f \<and> feature_step s `` {f} \<subseteq> feats cx s) \<and>
          (\<forall>d \<in> set (sum_dependencies s). \<forall>x. is_transitive d \<longrightarrow> wanted (pairs_of s (feats cx s)) d x \<longrightarrow>
             fulfilled reg cx s d x)))"
proof -
  have g: "good reg U (set rs) cx {#}"
    using resolver_run_ok [OF reg resolver_init_ok [OF reg rs, of checks fv cache] fits, of checks] fits by (simp add: run)
  have ok: "ctx_ok reg U cx" using g by (simp add: good_def)
  have active: "active cx s" if "resolved cx s" for s
    using ok that unfolding ctx_ok_def acts_ok_def resolved_def by blast
  have unique: "s = t" if act: "active cx s" "active cx t"
    and eq: "as_activations_key (sum_package_id s) = as_activations_key (sum_package_id t) \<or>
      (sum_links s \<noteq> None \<and> sum_links s = sum_links t)" for s t
    using eq
  proof
    assume "sum_links s \<noteq> None \<and> sum_links s = sum_links t"
    then obtain l where "sum_links s = Some l" "sum_links t = Some l" by (metis not_None_eq)
    then have "sum_package_id s = sum_package_id t"
      using act ok unfolding ctx_ok_def links_ok_def by (metis option.inject)
    then show ?thesis using active_same_key [OF act] by simp
  qed (rule active_same_key [OF act])
  have roots: "let t = target reg s in active cx s \<and> active cx t \<and> enabled t opts \<subseteq> feats cx t \<and>
      (\<forall>d \<in> set (sum_dependencies t). \<forall>x. is_transitive d \<or> dev_deps opts \<longrightarrow> wanted (demanded t opts) d x \<longrightarrow>
         fulfilled reg cx t d x)" if "(s, opts) \<in> set rs" for s opts
  proof -
    have "served reg cx {#} (s, opts)" using g that unfolding good_def by blast
    then show ?thesis using covered_fulfilled [of reg cx "target reg s"] unfolding served_def prod.case Let_def by blast
  qed
  have all: "case reg_replacement reg (sum_package_id s) of
        Some r \<Rightarrow> active cx r
      | None \<Rightarrow>
          (\<forall>f \<in> feats cx s. well_defined s f \<and> feature_step s `` {f} \<subseteq> feats cx s) \<and>
          (\<forall>d \<in> set (sum_dependencies s). \<forall>x. is_transitive d \<longrightarrow> wanted (pairs_of s (feats cx s)) d x \<longrightarrow>
             fulfilled reg cx s d x)" if "resolved cx s" for s
  proof -
    have "active cx (target reg s)" "complete reg cx {#} (target reg s)"
      using g active [OF that] unfolding good_def by blast+
    then show ?thesis
      using covered_fulfilled [of reg cx s] unfolding complete_def target_def unwrap_or_def
      by (cases "reg_replacement reg (sum_package_id s)") simp_all
  qed
  show ?thesis using unique active roots all by (intro conjI allI impI) (auto simp: as_activations_key_def)
qed

text \<open>
  A registry where the newest \<open>a\<close> cannot be used: \<open>app\<close> depends on \<open>a\<close> and \<open>b\<close>,
  and \<open>b\<close> accepts only the older \<open>a\<close>, which \<open>[replace]\<close> replaces by a package of another source.
  The replacement depends on \<open>c\<close>, which the replaced package does not need.
\<close>

definition ex_dep :: "string \<Rightarrow> (nat, nat) opt_version_req \<Rightarrow> (nat, nat, nat) dependency" where
  "ex_dep n r = tls_dep\<lparr>dep_name := n, dep_req := r, dep_optional := False\<rparr>"

definition ex_summary :: "string \<Rightarrow> nat \<Rightarrow> nat \<Rightarrow> (nat, nat, nat) dependency list \<Rightarrow> (nat, nat, nat) summary" where
  "ex_summary n minor src deps = \<lparr>sum_package_id = PackageId n (Version 1 minor 0 None None) src, sum_dependencies = deps,
     sum_features = [(''default'', [])], sum_checksum = None, sum_links = None, sum_rust_version = None, sum_pubtime = None\<rparr>"

definition ex_a :: "nat \<Rightarrow> (nat, nat, nat) summary" where
  "ex_a minor = ex_summary ''a'' minor 0 []"

definition ex_b :: "(nat, nat, nat) summary" where
  "ex_b = ex_summary ''b'' 0 0 [ex_dep ''a'' (Req [])]"

definition ex_c :: "(nat, nat, nat) summary" where
  "ex_c = ex_summary ''c'' 0 0 []"

definition ex_app :: "(nat, nat, nat) summary" where
  "ex_app = ex_summary ''app'' 0 0 [ex_dep ''a'' AnyReq, ex_dep ''b'' AnyReq]"

definition ex_replacement :: "(nat, nat, nat) summary" where
  "ex_replacement = ex_summary ''a'' 0 1 [ex_dep ''c'' AnyReq]"

definition ex_reg :: "(nat, nat, nat) registry" where
  "ex_reg = \<lparr>reg_query = (\<lambda>_ d. Some (if dep_source_id d \<noteq> 0 then [] else if dep_name d = ''b'' then [ex_b] else if dep_name d = ''c'' then [ex_c]
       else if dep_name d = ''a'' then (if dep_req d = AnyReq then [ex_a 1, ex_a 0] else [ex_a 0]) else [])),
     reg_replacement = (\<lambda>i. if i = sum_package_id (ex_a 0) then Some ex_replacement else None)\<rparr>"

definition ex_roots :: "((nat, nat, nat) summary \<times> resolve_opts) list" where
  "ex_roots = [(ex_app, \<lparr>dev_deps = True, opt_features = CliFeatures [] False True\<rparr>)]"

definition ex_known :: "(nat, nat, nat) summary set" where
  "ex_known = {ex_a 0, ex_a 1, ex_b, ex_c, ex_app, ex_replacement}"

fun done_with :: "('p, 'b, 's) rstate \<Rightarrow> ('p, 'b, 's) package_id \<Rightarrow> bool" where
  "done_with (Done cx) i = (is_active cx i \<noteq> None)"
| "done_with _ i = False"

lemma ex_run: "done_with (resolver_run 14 True ex_reg (resolver_init True ex_reg None ex_roots cache_new)) (sum_package_id (ex_a 0))"
  by code_simp

lemma ex_registry_ok: "registry_ok ex_reg ex_known"
proof -
  have inj: "inj_on sum_package_id ex_known"
    by (simp add: ex_known_def ex_a_def ex_b_def ex_c_def ex_app_def ex_replacement_def ex_summary_def)
  have query: "set cs \<subseteq> ex_known \<and> (cs \<noteq> [] \<longrightarrow> dep_source_id d = 0)" if "reg_query ex_reg fv d = Some cs" for fv d cs
    using that by (auto simp: ex_reg_def ex_known_def split: if_splits)
  have own: "s = ex_replacement" if "s \<in> ex_known" "as_activations_key (sum_package_id s) = as_activations_key (sum_package_id ex_replacement)" for s
    using that by (auto simp: ex_known_def as_activations_key_def ex_a_def ex_b_def ex_c_def ex_app_def ex_replacement_def ex_summary_def)
  have slot: "s = ex_replacement" if "s \<in> ex_known" "slot_of ex_reg (as_activations_key (sum_package_id ex_replacement)) s" for s
    using that own query
    by (fastforce simp: slot_of_def patched_key_def as_activations_key_def ex_replacement_def ex_summary_def)
  have rep: "r = ex_replacement" if "reg_replacement ex_reg i = Some r" for i r
    using that by (simp add: ex_reg_def split: if_splits)
  have "ex_replacement \<in> ex_known" "reg_replacement ex_reg (sum_package_id ex_replacement) = None"
    by (simp_all add: ex_known_def ex_reg_def ex_replacement_def ex_a_def ex_summary_def)
  with inj query slot rep show ?thesis unfolding registry_ok_def by blast
qed

lemma ex_roots_ok: "roots_ok ex_known ex_roots"
  by (auto simp: roots_ok_def ex_roots_def ex_known_def)

theorem resolver_sound_witness:
  "\<exists>cx. resolver_run 14 True ex_reg (resolver_init True ex_reg None ex_roots cache_new) = Done cx \<and>
     active cx ex_app \<and> fulfilled ex_reg cx ex_app (ex_dep ''b'' AnyReq) None \<and>
     active cx ex_replacement \<and> fulfilled ex_reg cx ex_replacement (ex_dep ''c'' AnyReq) None"
proof -
  obtain cx where cx: "resolver_run 14 True ex_reg (resolver_init True ex_reg None ex_roots cache_new) = Done cx"
    and a: "is_active cx (sum_package_id (ex_a 0)) \<noteq> None"
    using ex_run by (cases "resolver_run 14 True ex_reg (resolver_init True ex_reg None ex_roots cache_new)") auto
  have fits: "length ex_roots + 14 < 2 ^ 32" by (simp add: ex_roots_def)
  note sound = resolver_sound [OF ex_registry_ok ex_roots_ok fits cx]
  have root: "(ex_app, \<lparr>dev_deps = True, opt_features = CliFeatures [] False True\<rparr>) \<in> set ex_roots"
    by (simp add: ex_roots_def)
  have app: "target ex_reg ex_app = ex_app"
    by (simp add: target_def ex_reg_def ex_app_def ex_a_def ex_summary_def unwrap_or_def)
  have dep: "ex_dep ''b'' AnyReq \<in> set (sum_dependencies ex_app)" "ex_dep ''c'' AnyReq \<in> set (sum_dependencies ex_replacement)"
    by (simp_all add: ex_app_def ex_replacement_def ex_summary_def)
  have want: "is_transitive (ex_dep n AnyReq)" "wanted Q (ex_dep n AnyReq) None" for Q n
    by (simp_all add: ex_dep_def tls_dep_def is_transitive_def wanted_def)
  note roots = sound [THEN conjunct2, THEN conjunct1, THEN bspec, OF root, unfolded prod.case Let_def app]
  note all = sound [THEN conjunct2, THEN conjunct2, THEN spec, THEN mp]
  have 1: "active cx ex_app \<and> fulfilled ex_reg cx ex_app (ex_dep ''b'' AnyReq) None"
    using roots dep(1) want by blast
  obtain s a' where s: "map_of (cx_activations cx) (as_activations_key (sum_package_id (ex_a 0))) = Some (s, a')"
    "sum_package_id s = sum_package_id (ex_a 0)"
    using a by (auto simp: is_active_def split: option.splits if_splits)
  have rep: "reg_replacement ex_reg (sum_package_id s) = Some ex_replacement"
    "reg_replacement ex_reg (sum_package_id ex_replacement) = None"
    by (simp_all add: s(2)) (simp_all add: ex_reg_def ex_replacement_def ex_a_def ex_summary_def)
  have "resolved cx s" using s(1) unfolding resolved_def by blast
  from all [OF this] have 2: "active cx ex_replacement" unfolding rep(1) option.case .
  then have "resolved cx ex_replacement" unfolding resolved_def active_def by blast
  from all [OF this] have "fulfilled ex_reg cx ex_replacement (ex_dep ''c'' AnyReq) None"
    unfolding rep(2) option.case using dep(2) want by blast
  with cx 1 2 show ?thesis by blast
qed

end
