(* ===== verification/Lto.thy ===== *)
theory Lto
  imports Prelude
begin

section \<open>Link-time optimisation settings of the unit graph\<close>

text \<open>
  The model of \<open>src/compiler/lto.rs\<close>, with the parts of \<open>compiler/rustc_crate_type.rs\<close>,
  \<open>workspace/manifest.rs\<close> and \<open>workspace/profiles.rs\<close> it reads. \<open>generate\<close> walks the unit
  graph from the root units and pushes what each unit needs of its dependencies (object code,
  bitcode, both) down the edges; a unit reached a second time with a new requirement has the two
  merged and its dependencies visited again.

  The walk is a recursion over a mutable map, so the model has a depth bound; the depth
  \<open>3 * length g + 1\<close> is proved to be enough for every unit graph, also a cyclic one, because
  every call that recurses raises the value of a unit in an order of height three. The result is
  characterised as the least assignment that meets the requirement of every root and every edge.
\<close>

subsection \<open>Crate types, targets and profiles\<close>

datatype rustc_crate_type = Bin | Lib | Rlib | Dylib | Cdylib | Staticlib | ProcMacro | Other string

fun can_lto :: "rustc_crate_type \<Rightarrow> bool" where
  "can_lto Bin = True"
| "can_lto Staticlib = True"
| "can_lto Cdylib = True"
| "can_lto _ = False"

fun is_dynamic :: "rustc_crate_type \<Rightarrow> bool" where
  "is_dynamic Dylib = True"
| "is_dynamic Cdylib = True"
| "is_dynamic ProcMacro = True"
| "is_dynamic _ = False"

datatype target_kind = TkLib "rustc_crate_type list" | TkBin | TkTest | TkBench
  | TkExampleLib "rustc_crate_type list" | TkExampleBin | TkCustomBuild

fun rustc_crate_types :: "target_kind \<Rightarrow> rustc_crate_type list" where
  "rustc_crate_types (TkLib kinds) = kinds"
| "rustc_crate_types (TkExampleLib kinds) = kinds"
| "rustc_crate_types _ = [Bin]"

datatype profile_lto = PlOff | PlBool bool | PlNamed string

datatype compile_mode = MTest | MBuild | MCheck bool | MDoc | MDoctest | MDocscrape | MRunCustomBuild

text \<open>
  A unit: the fields that the LTO computation reads, and one field for the rest of
  \<open>UnitInner\<close>, which only the equality of units sees.
\<close>

record 'r cunit =
  u_target_kind :: target_kind
  u_for_host :: bool
  u_profile_lto :: profile_lto
  u_mode :: compile_mode
  u_rest :: 'r

text \<open>The unit graph, with the \<open>unit\<close> field of every \<open>UnitDep\<close>.\<close>

type_synonym 'r unit_graph = "('r cunit \<times> 'r cunit list) list"

subsection \<open>The settings and how they are merged\<close>

datatype lto = Run "string option" | Off | OnlyBitcode | ObjectAndBitcode | OnlyObject

type_synonym 'r lto_map = "('r cunit \<times> lto) list"

definition needs_object :: "rustc_crate_type list \<Rightarrow> bool" where
  "needs_object crate_types = list_ex (\<lambda>k. can_lto k \<or> is_dynamic k) crate_types"

definition lto_when_needs_object :: "rustc_crate_type list \<Rightarrow> lto" where
  "lto_when_needs_object crate_types =
     (if list_all (\<lambda>ct. ct = Dylib) crate_types then OnlyObject else ObjectAndBitcode)"

text \<open>The crate types \<open>calculate\<close> works with, and its test that all of them support LTO.\<close>

definition lto_crate_types :: "'r cunit \<Rightarrow> rustc_crate_type list" where
  "lto_crate_types u = (case u_mode u of
       MTest \<Rightarrow> [Bin]
     | MDoctest \<Rightarrow> [Bin]
     | _ \<Rightarrow> rustc_crate_types (u_target_kind u))"

definition all_lto_types :: "'r cunit \<Rightarrow> bool" where
  "all_lto_types u = list_all can_lto (lto_crate_types u)"

text \<open>The setting from the profile and what the parent requires, before any merging.\<close>

fun profile_setting :: "profile_lto \<Rightarrow> lto" where
  "profile_setting (PlNamed s) = Run (Some s)"
| "profile_setting PlOff = Off"
| "profile_setting (PlBool True) = Run None"
| "profile_setting (PlBool False) = OnlyObject"

fun inherited_setting :: "rustc_crate_type list \<Rightarrow> lto \<Rightarrow> bool \<Rightarrow> lto" where
  "inherited_setting cts (Run _) False = OnlyBitcode"
| "inherited_setting cts (Run _) True = lto_when_needs_object cts"
| "inherited_setting cts OnlyBitcode True = lto_when_needs_object cts"
| "inherited_setting cts Off _ = Off"
| "inherited_setting cts parent_lto _ = parent_lto"

definition unit_lto :: "'r cunit \<Rightarrow> lto \<Rightarrow> lto" where
  "unit_lto u parent_lto =
     (if u_for_host u then OnlyObject
      else if all_lto_types u then profile_setting (u_profile_lto u)
      else inherited_setting (lto_crate_types u) parent_lto (needs_object (lto_crate_types u)))"

fun merge_lto :: "lto \<Rightarrow> lto \<Rightarrow> lto" where
  "merge_lto OnlyBitcode OnlyBitcode = OnlyBitcode"
| "merge_lto OnlyObject OnlyObject = OnlyObject"
| "merge_lto (Run s) _ = Run s"
| "merge_lto _ (Run s) = Run s"
| "merge_lto Off _ = Off"
| "merge_lto _ Off = Off"
| "merge_lto ObjectAndBitcode _ = ObjectAndBitcode"
| "merge_lto _ ObjectAndBitcode = ObjectAndBitcode"
| "merge_lto OnlyObject OnlyBitcode = ObjectAndBitcode"
| "merge_lto OnlyBitcode OnlyObject = ObjectAndBitcode"

subsection \<open>The walk\<close>

fun calculate ::
  "nat \<Rightarrow> 'r unit_graph \<Rightarrow> 'r cunit \<Rightarrow> lto \<Rightarrow> 'r lto_map \<Rightarrow> (unit, 'r lto_map) outcome"
and visit_deps ::
  "nat \<Rightarrow> 'r unit_graph \<Rightarrow> 'r cunit \<Rightarrow> lto \<Rightarrow> 'r lto_map \<Rightarrow> (unit, 'r lto_map) outcome" where
  "calculate 0 g u parent_lto m = OutOfFuel"
| "calculate (Suc n) g u parent_lto m =
     (let lto = unit_lto u parent_lto in
      case map_of m u of
        None \<Rightarrow> visit_deps n g u lto (hm_insert u lto m)
      | Some old \<Rightarrow>
          (let result = merge_lto lto old in
           if result = old then Ok m
           else visit_deps n g u result (hm_insert u result m)))"
| "visit_deps n g u merged_lto m =
     (case map_of g u of
        None \<Rightarrow> Panic
      | Some deps \<Rightarrow> ofold (\<lambda>dep. calculate n g dep merged_lto) deps m)"

definition root_lto :: "'r cunit \<Rightarrow> lto" where
  "root_lto u = (case u_profile_lto u of
       PlBool False \<Rightarrow> OnlyObject
     | PlOff \<Rightarrow> Off
     | _ \<Rightarrow>
        (let crate_types = rustc_crate_types (u_target_kind u) in
         if u_for_host u then OnlyObject
         else if needs_object crate_types then lto_when_needs_object crate_types
         else OnlyBitcode))"

definition generate_lto :: "'r unit_graph \<Rightarrow> 'r cunit list \<Rightarrow> (unit, 'r lto_map) outcome" where
  "generate_lto g us =
     ofold (\<lambda>u. calculate (3 * length g + 1) g u (root_lto u)) us []"

subsection \<open>Values that only rise\<close>

text \<open>
  A table whose entries are only ever replaced by their join with a new requirement. The laws are
  those of a join semilattice of bounded height, asked of the values that key \<open>k\<close> may hold.
  \<open>covered_by\<close> says that an entry already covers a requirement, \<open>slack\<close> is how far the whole table can
  still rise.
\<close>

definition covered_by :: "('v \<Rightarrow> 'v \<Rightarrow> 'v) \<Rightarrow> ('k \<rightharpoonup> 'v) \<Rightarrow> 'k \<Rightarrow> 'v \<Rightarrow> bool" where
  "covered_by join m k x \<longleftrightarrow> (\<exists>y. m k = Some y \<and> join x y = y)"

definition raised :: "('v \<Rightarrow> 'v \<Rightarrow> 'v) \<Rightarrow> ('k \<rightharpoonup> 'v) \<Rightarrow> 'k \<Rightarrow> 'v \<Rightarrow> 'v" where
  "raised join m k x = (case m k of None \<Rightarrow> x | Some y \<Rightarrow> join x y)"

definition slack :: "('v \<Rightarrow> nat) \<Rightarrow> nat \<Rightarrow> 'k set \<Rightarrow> ('k \<rightharpoonup> 'v) \<Rightarrow> nat" where
  "slack rank height K m = (\<Sum>k\<in>K. height - (case m k of None \<Rightarrow> 0 | Some y \<Rightarrow> rank y))"

definition typed :: "('k \<Rightarrow> 'v \<Rightarrow> bool) \<Rightarrow> ('k \<rightharpoonup> 'v) \<Rightarrow> bool" where
  "typed ok m \<longleftrightarrow> (\<forall>k x. m k = Some x \<longrightarrow> ok k x)"

lemma typedD: "typed ok m \<Longrightarrow> m k = Some x \<Longrightarrow> ok k x"
  by (simp add: typed_def)

locale ranked_join =
  fixes ok :: "'k \<Rightarrow> 'v \<Rightarrow> bool" and join :: "'v \<Rightarrow> 'v \<Rightarrow> 'v"
    and rank :: "'v \<Rightarrow> nat" and height :: nat
  assumes ok_join: "ok k x \<Longrightarrow> ok k y \<Longrightarrow> ok k (join x y)"
    and rank_range: "0 < rank x \<and> rank x \<le> height"
    and rank_join: "ok k x \<Longrightarrow> ok k y \<Longrightarrow> join x y \<noteq> y \<Longrightarrow> rank y < rank (join x y)"
    and join_idem: "join x x = x"
    and join_absorb: "ok k x \<Longrightarrow> ok k y \<Longrightarrow> join x (join x y) = join x y"
    and join_keep: "ok k x \<Longrightarrow> ok k y \<Longrightarrow> ok k z \<Longrightarrow> join x y = y \<Longrightarrow> join x (join z y) = join z y"
    and join_least: "ok k x \<Longrightarrow> ok k y \<Longrightarrow> ok k z \<Longrightarrow> join x z = z \<Longrightarrow> join y z = z \<Longrightarrow>
      join (join x y) z = z"
begin

lemma raised_ok: "typed ok m \<Longrightarrow> ok k x \<Longrightarrow> ok k (raised join m k x)"
  by (auto simp: raised_def intro: ok_join dest: typedD split: option.split)

lemma typed_raise: "typed ok m \<Longrightarrow> ok k x \<Longrightarrow> typed ok (m(k \<mapsto> raised join m k x))"
  using raised_ok [of m k x] by (auto simp: typed_def)

lemma met_raise: "typed ok m \<Longrightarrow> ok k x \<Longrightarrow> covered_by join (m(k \<mapsto> raised join m k x)) k x"
  by (auto simp: covered_by_def raised_def join_idem intro: join_absorb dest: typedD split: option.split)

lemma met_raise_mono:
  assumes "typed ok m" and "ok k x" and "ok j z" and "covered_by join m j z"
  shows "covered_by join (m(k \<mapsto> raised join m k x)) j z"
proof (cases "j = k")
  case True
  with assms obtain y where "m k = Some y" "join z y = y"
    by (auto simp: covered_by_def)
  with True assms show ?thesis
    by (auto simp: covered_by_def raised_def intro: join_keep dest: typedD)
qed (use assms in \<open>simp add: covered_by_def\<close>)

lemma slack_raise:
  assumes "finite K" and "k \<in> K" and "typed ok m" and "ok k x" and "m k \<noteq> Some (raised join m k x)"
  shows "slack rank height K (m(k \<mapsto> raised join m k x)) < slack rank height K m"
  unfolding slack_def
proof (rule sum_strict_mono_ex1)
  let ?h = "\<lambda>m j. height - (case m j of None \<Rightarrow> 0 | Some y \<Rightarrow> rank y)"
  have k: "?h (m(k \<mapsto> raised join m k x)) k < ?h m k"
  proof (cases "m k")
    case None
    then show ?thesis using rank_range [of x] by (simp add: raised_def)
  next
    case (Some y)
    then have "rank y < rank (join x y)"
      using assms by (intro rank_join) (auto simp: raised_def dest: typedD)
    then show ?thesis using Some rank_range [of "join x y"] by (simp add: raised_def)
  qed
  then show "\<forall>j\<in>K. ?h (m(k \<mapsto> raised join m k x)) j \<le> ?h m j"
    by auto
  from k assms(2) show "\<exists>j\<in>K. ?h (m(k \<mapsto> raised join m k x)) j < ?h m j"
    by blast
qed (rule assms(1))

lemma slack_bound: "finite K \<Longrightarrow> slack rank height K m \<le> height * card K"
  using sum_bounded_above [of K "\<lambda>k. height - (case m k of None \<Rightarrow> 0 | Some y \<Rightarrow> rank y)" height]
  by (simp add: slack_def mult.commute)

end

text \<open>
  The values a unit may have in the map: a host unit and a unit whose crate types all support
  LTO have one, every other unit any setting but \<open>Run\<close>.
\<close>

definition lto_ok :: "'r cunit \<Rightarrow> lto \<Rightarrow> bool" where
  "lto_ok u x \<longleftrightarrow>
     (if u_for_host u then x = OnlyObject
      else if all_lto_types u then x = profile_setting (u_profile_lto u)
      else \<forall>s. x \<noteq> Run s)"

fun lto_rank :: "lto \<Rightarrow> nat" where
  "lto_rank Off = 3"
| "lto_rank ObjectAndBitcode = 2"
| "lto_rank _ = 1"

lemma merge_lto_same [simp]: "merge_lto x x = x"
  by (cases x) auto

abbreviation unrun :: "lto set" where
  "unrun \<equiv> {Off, OnlyBitcode, ObjectAndBitcode, OnlyObject}"

lemma unrun_iff: "(\<forall>s. z \<noteq> Run s) \<longleftrightarrow> z \<in> unrun"
  by (cases z) auto

lemma lto_ok_pair:
  assumes "lto_ok u x" and "lto_ok u y"
  shows "x = y \<or> x \<in> unrun \<and> y \<in> unrun"
  using assms unfolding lto_ok_def unrun_iff by presburger

lemma lto_ok_merge:
  assumes "lto_ok u x" and "lto_ok u y"
  shows "lto_ok u (merge_lto x y)"
proof -
  have "merge_lto x y \<in> unrun" if "x \<in> unrun" "y \<in> unrun"
    using that by auto
  then show ?thesis
    using assms unfolding lto_ok_def unrun_iff by (auto split: if_split_asm)
qed

interpretation ltoj: ranked_join lto_ok merge_lto lto_rank 3
proof
  fix u :: "'r cunit" and x y z :: lto
  show "0 < lto_rank x \<and> lto_rank x \<le> 3"
    by (cases x) auto
  show "merge_lto x x = x" by simp
  assume x: "lto_ok u x" and y: "lto_ok u y"
  note xy = lto_ok_pair [OF x y]
  from x y show "lto_ok u (merge_lto x y)" by (rule lto_ok_merge)
  from xy show "merge_lto x (merge_lto x y) = merge_lto x y"
    by auto
  from xy show "lto_rank y < lto_rank (merge_lto x y)" if "merge_lto x y \<noteq> y"
    using that by auto
  assume z: "lto_ok u z"
  note yz = lto_ok_pair [OF y z]
  from xy yz show "merge_lto x (merge_lto z y) = merge_lto z y" if "merge_lto x y = y"
    using that by auto
  from xy yz show "merge_lto (merge_lto x y) z = z" if "merge_lto x z = z" "merge_lto y z = z"
    using that by auto
qed

lemma inherited_not_run: "inherited_setting cts p b \<noteq> Run s"
  by (cases p; cases b) (auto simp: lto_when_needs_object_def)

lemma unit_lto_ok: "lto_ok u (unit_lto u p)"
  by (simp add: lto_ok_def unit_lto_def inherited_not_run)

subsection \<open>The walk ends and settles every edge\<close>

definition units_closed :: "'r unit_graph \<Rightarrow> bool" where
  "units_closed g \<longleftrightarrow> list_all (\<lambda>(u, ds). list_all (\<lambda>d. map_of g d \<noteq> None) ds) g"

abbreviation lto_met :: "'r lto_map \<Rightarrow> 'r cunit \<Rightarrow> lto \<Rightarrow> bool" where
  "lto_met m \<equiv> covered_by merge_lto (map_of m)"

abbreviation lto_slack :: "'r unit_graph \<Rightarrow> 'r lto_map \<Rightarrow> nat" where
  "lto_slack g m \<equiv> slack lto_rank 3 (fst ` set g) (map_of m)"

text \<open>The edges whose requirement the map does not meet yet.\<close>

definition unmet :: "'r unit_graph \<Rightarrow> 'r lto_map \<Rightarrow> ('r cunit \<times> 'r cunit) set" where
  "unmet g m = {(u, d). \<exists>x ds. map_of m u = Some x \<and> map_of g u = Some ds \<and> d \<in> set ds \<and>
     \<not> lto_met m d (unit_lto d x)}"

definition settles :: "'r unit_graph \<Rightarrow> 'r lto_map \<Rightarrow> 'r lto_map \<Rightarrow> bool" where
  "settles g m m' \<longleftrightarrow> typed lto_ok (map_of m') \<and> lto_slack g m' \<le> lto_slack g m \<and>
     (\<forall>j z. lto_ok j z \<longrightarrow> lto_met m j z \<longrightarrow> lto_met m' j z) \<and>
     unmet g m' \<subseteq> unmet g m \<and>
     (\<forall>w. map_of m' w \<noteq> map_of m w \<longrightarrow> unmet g m' `` {w} = {})"

lemma settles_refl: "typed lto_ok (map_of m) \<Longrightarrow> settles g m m"
  by (simp add: settles_def)

lemma settlesD_unmet: "settles g m m' \<Longrightarrow> unmet g m' \<subseteq> unmet g m"
  by (simp add: settles_def)

lemma settles_trans: "settles g m m' \<Longrightarrow> settles g m' m'' \<Longrightarrow> settles g m m''"
proof -
  assume 1: "settles g m m'" and 2: "settles g m' m''"
  have "unmet g m'' `` {w} = {}" if "map_of m'' w \<noteq> map_of m w" for w
  proof (cases "map_of m'' w = map_of m' w")
    case True
    with 1 that have "unmet g m' `` {w} = {}" by (simp add: settles_def)
    moreover have "unmet g m'' \<subseteq> unmet g m'" using 2 by (simp add: settles_def)
    ultimately show ?thesis by blast
  qed (use 2 in \<open>simp add: settles_def\<close>)
  moreover have "unmet g m'' \<subseteq> unmet g m"
    using settlesD_unmet [OF 1] settlesD_unmet [OF 2] by (rule order_trans [rotated])
  ultimately show ?thesis
    using 1 2 by (simp add: settles_def)
qed

lemma settlesD:
  assumes "settles g m m'"
  shows "typed lto_ok (map_of m')" "lto_slack g m' \<le> lto_slack g m" "unmet g m' \<subseteq> unmet g m"
    "lto_ok j z \<Longrightarrow> lto_met m j z \<Longrightarrow> lto_met m' j z"
    "map_of m' w = map_of m w \<or> unmet g m' `` {w} = {}"
  using assms by (auto simp: settles_def)

lemma units_closedD:
  assumes "units_closed g" and "map_of g u = Some ds" and "d \<in> set ds"
  shows "\<exists>ds'. map_of g d = Some ds'"
  using assms(1) map_of_SomeD [OF assms(2)] assms(3)
  by (fastforce simp: units_closed_def list_all_iff)

text \<open>
  The loop over the dependencies of \<open>u\<close>, after its value was raised from \<open>m\<close> to \<open>v\<close>: the
  only edges that can be newly unmet are those of \<open>u\<close> that the loop has still to visit.
\<close>

definition visiting :: "'r unit_graph \<Rightarrow> 'r cunit \<Rightarrow> lto \<Rightarrow> 'r lto_map \<Rightarrow> 'r lto_map \<Rightarrow>
    'r cunit list \<Rightarrow> 'r lto_map \<Rightarrow> bool" where
  "visiting g u v m m1 ds s \<longleftrightarrow> typed lto_ok (map_of s) \<and> lto_slack g s \<le> lto_slack g m1 \<and>
     (\<forall>j z. lto_ok j z \<longrightarrow> lto_met m1 j z \<longrightarrow> lto_met s j z) \<and>
     unmet g s \<subseteq> {(w, d). (w, d) \<in> unmet g m \<and> w \<noteq> u} \<union> {u} \<times> set ds \<and>
     (\<forall>w. w \<noteq> u \<longrightarrow> map_of s w \<noteq> map_of m w \<longrightarrow> unmet g s `` {w} = {}) \<and>
     (map_of s u = Some v \<or> unmet g s `` {u} = {})"

lemma visiting_step:
  assumes inv: "visiting g u v m m1 (d # ds) s" and "settles g s s'" and "lto_met s' d (unit_lto d v)"
  shows "visiting g u v m m1 ds s'"
proof -
  note st = settlesD [OF assms(2)]
  have keep: "map_of s' u = Some v \<or> unmet g s' `` {u} = {}"
  proof (cases "map_of s' u = map_of s u")
    case True
    have "map_of s u = Some v \<or> unmet g s `` {u} = {}"
      using inv by (simp add: visiting_def)
    with True st(3) show ?thesis by fastforce
  qed (use st(5) [of u] in simp)
  then have "(u, d) \<notin> unmet g s'"
    using assms(3) by (auto simp: unmet_def)
  moreover have "unmet g s' \<subseteq> {(w, d). (w, d) \<in> unmet g m \<and> w \<noteq> u} \<union> {u} \<times> set (d # ds)"
    using order_trans [OF st(3)] inv by (simp add: visiting_def)
  ultimately have unm: "unmet g s' \<subseteq> {(w, d). (w, d) \<in> unmet g m \<and> w \<noteq> u} \<union> {u} \<times> set ds"
    by auto
  have chg: "unmet g s' `` {w} = {}" if "w \<noteq> u" "map_of s' w \<noteq> map_of m w" for w
  proof (cases "map_of s' w = map_of s w")
    case True
    with inv that have "unmet g s `` {w} = {}" by (simp add: visiting_def)
    with st(3) show ?thesis by blast
  qed (use st(5) [of w] in simp)
  have "lto_slack g s' \<le> lto_slack g m1"
    using inv st(2) by (simp add: visiting_def)
  moreover have "lto_met s' j z" if "lto_ok j z" "lto_met m1 j z" for j z
    using inv st(4) that by (simp add: visiting_def)
  ultimately show ?thesis
    using st(1) keep unm chg by (simp add: visiting_def)
qed

lemma visiting_start:
  assumes m: "typed lto_ok (map_of m)" and x: "lto_ok u x" and g: "map_of g u = Some ds"
    and v: "v = raised merge_lto (map_of m) u x" and m1: "m1 = hm_insert u v m"
  shows "visiting g u v m m1 ds m1"
proof -
  have m1': "map_of m1 = (map_of m)(u \<mapsto> v)"
    by (simp add: m1 get_hm_insert)
  have mono: "lto_met m1 j z" if "lto_ok j z" "lto_met m j z" for j z
    using ltoj.met_raise_mono [OF m x that] by (simp add: m1' v)
  have "unmet g m1 \<subseteq> {(w, d). (w, d) \<in> unmet g m \<and> w \<noteq> u} \<union> {u} \<times> set ds"
  proof (rule subrelI)
    fix w d
    assume "(w, d) \<in> unmet g m1"
    then obtain y es where wd: "map_of m1 w = Some y" "map_of g w = Some es" "d \<in> set es"
      "\<not> lto_met m1 d (unit_lto d y)"
      by (auto simp: unmet_def)
    show "(w, d) \<in> {(w, d). (w, d) \<in> unmet g m \<and> w \<noteq> u} \<union> {u} \<times> set ds"
    proof (cases "w = u")
      case False
      with wd mono [OF unit_lto_ok] show ?thesis by (auto simp: unmet_def m1')
    qed (use wd g in simp)
  qed
  moreover have "typed lto_ok (map_of m1)"
    using ltoj.typed_raise [OF m x] by (simp add: m1' v)
  ultimately show ?thesis
    by (simp add: visiting_def m1')
qed

lemma visiting_end:
  assumes inv: "visiting g u v m m1 [] s" and m: "typed lto_ok (map_of m)" and x: "lto_ok u x"
    and v: "v = raised merge_lto (map_of m) u x" and m1: "m1 = hm_insert u v m"
    and slack: "lto_slack g m1 \<le> lto_slack g m"
  shows "settles g m s \<and> lto_met s u x"
proof -
  have m1': "map_of m1 = (map_of m)(u \<mapsto> v)"
    by (simp add: m1 get_hm_insert)
  have "lto_met s j z" if "lto_ok j z" "lto_met m j z" for j z
    using inv ltoj.met_raise_mono [OF m x that] that by (simp add: visiting_def m1' v)
  moreover have "lto_met s u x"
    using inv ltoj.met_raise [OF m x] x by (simp add: visiting_def m1' v)
  moreover have "unmet g s `` {w} = {}" if "map_of s w \<noteq> map_of m w" for w
    using inv that by (cases "w = u") (auto simp: visiting_def)
  moreover have "unmet g s \<subseteq> unmet g m" "lto_slack g s \<le> lto_slack g m" "typed lto_ok (map_of s)"
    using inv slack by (auto simp: visiting_def)
  ultimately show ?thesis
    by (simp add: settles_def)
qed

lemma calculate_settles:
  assumes "\<not> units_closed g \<Longrightarrow> pn" and "map_of g u = None \<Longrightarrow> pn" and "typed lto_ok (map_of m)"
    and "lto_slack g m < n"
  shows "owp pn (calculate n g u p m) (\<lambda>m'. settles g m m' \<and> lto_met m' u (unit_lto u p)) (\<lambda>_. False)"
  using assms(2-)
proof (induction n arbitrary: u p m)
  case 0
  then show ?case by simp
next
  case (Suc n)
  let ?x = "unit_lto u p"
  let ?v = "raised merge_lto (map_of m) u ?x"
  let ?m1 = "hm_insert u ?v m"
  show ?case
  proof (cases "map_of m u = Some ?v")
    case True
    then have "calculate (Suc n) g u p m = Ok m" "lto_met m u ?x"
      by (auto simp: raised_def covered_by_def split: option.splits)
    with Suc.prems show ?thesis by (simp add: settles_refl)
  next
    case raise: False
    then have run: "calculate (Suc n) g u p m = visit_deps n g u ?v ?m1"
      by (auto simp: raised_def Let_def split: option.splits)
    show ?thesis
    proof (cases "map_of g u")
      case None
      then have "calculate (Suc n) g u p m = Panic"
        using run by simp
      with None Suc.prems(1) show ?thesis by simp
    next
      case (Some ds)
      then have run: "calculate (Suc n) g u p m = ofold (\<lambda>d. calculate n g d ?v) ds ?m1"
        using run by simp
      have "u \<in> fst ` set g"
        using Some by (metis map_of_SomeD fst_conv image_eqI)
      then have slack: "lto_slack g ?m1 < lto_slack g m"
        using ltoj.slack_raise [OF _ _ Suc.prems(2) unit_lto_ok raise] by (simp add: get_hm_insert)
      have "owp pn (ofold (\<lambda>d. calculate n g d ?v) ds ?m1) (visiting g u ?v m ?m1 []) (\<lambda>_. False)"
      proof (rule owp_ofold)
        show "visiting g u ?v m ?m1 ds ?m1"
          using Suc.prems Some by (intro visiting_start [OF _ unit_lto_ok]) simp_all
      next
        fix d es s
        assume inv: "visiting g u ?v m ?m1 (d # es) s" and "d \<in> set ds"
        then have "map_of g d = None \<Longrightarrow> pn"
          using units_closedD [OF _ Some] assms(1) by fastforce
        moreover have "typed lto_ok (map_of s)" "lto_slack g s < n"
          using inv slack Suc.prems(3) by (auto simp: visiting_def)
        ultimately show "owp pn (calculate n g d ?v s) (visiting g u ?v m ?m1 es) (\<lambda>_. False)"
          by (rule owp_mono [OF Suc.IH]) (auto intro: visiting_step [OF inv])
      qed
      then show ?thesis
        unfolding run
        by (rule owp_mono)
          (auto dest: visiting_end [OF _ Suc.prems(2) unit_lto_ok refl refl less_imp_le [OF slack]])
    qed
  qed
qed

lemma lto_slack_bound: "lto_slack g m < 3 * length g + 1"
proof -
  have "card (fst ` set g) \<le> length g"
    using card_image_le [of "set g" fst] card_length [of g] by simp
  then show ?thesis
    using ltoj.slack_bound [of "fst ` set g" "map_of m"] by simp
qed

text \<open>The loop over the root units.\<close>

lemma generate_settles:
  assumes "\<not> units_closed g \<Longrightarrow> pn" and "\<not> set us \<subseteq> fst ` set g \<Longrightarrow> pn"
  shows "owp pn (generate_lto g us) (\<lambda>m. settles g [] m \<and>
    (\<forall>u \<in> set us. lto_met m u (unit_lto u (root_lto u)))) (\<lambda>_. False)"
proof -
  define I where "I rest m \<longleftrightarrow> settles g [] m \<and>
    (\<forall>u \<in> set us. u \<in> set rest \<or> lto_met m u (unit_lto u (root_lto u)))" for rest m
  have "owp pn (generate_lto g us) (I []) (\<lambda>_. False)"
    unfolding generate_lto_def
  proof (rule owp_ofold)
    show "I us []"
      by (simp add: I_def settles_refl typed_def)
  next
    fix u rest m
    assume inv: "I (u # rest) m" and "u \<in> set us"
    then have "map_of g u = None \<Longrightarrow> pn"
      using assms(2) by (auto simp: map_of_eq_None_iff)
    moreover have "typed lto_ok (map_of m)"
      using inv by (simp add: I_def settles_def)
    ultimately have "owp pn (calculate (3 * length g + 1) g u (root_lto u) m)
        (\<lambda>m'. settles g m m' \<and> lto_met m' u (unit_lto u (root_lto u))) (\<lambda>_. False)"
      using assms(1) lto_slack_bound [of g m] by (intro calculate_settles)
    then show "owp pn (calculate (3 * length g + 1) g u (root_lto u) m) (I rest) (\<lambda>_. False)"
    proof (rule owp_mono)
      fix m'
      assume "settles g m m' \<and> lto_met m' u (unit_lto u (root_lto u))"
      with inv show "I rest m'"
        unfolding I_def using settles_trans settlesD(4) [OF _ unit_lto_ok] by (metis set_ConsD)
    qed
  qed
  then show ?thesis by (rule owp_mono) (simp_all add: I_def)
qed

subsection \<open>The least assignment\<close>

text \<open>
  What the computation promises: an assignment that covers what every root asks of itself and
  what every unit of the map asks of its dependencies.
\<close>

definition lto_solution :: "'r unit_graph \<Rightarrow> 'r cunit list \<Rightarrow> ('r cunit \<rightharpoonup> lto) \<Rightarrow> bool" where
  "lto_solution g us M \<longleftrightarrow> typed lto_ok M \<and>
     (\<forall>u \<in> set us. covered_by merge_lto M u (unit_lto u (root_lto u))) \<and>
     (\<forall>u x ds d. M u = Some x \<longrightarrow> map_of g u = Some ds \<longrightarrow> d \<in> set ds \<longrightarrow>
        covered_by merge_lto M d (unit_lto d x))"

definition lto_below :: "'r lto_map \<Rightarrow> ('r cunit \<rightharpoonup> lto) \<Rightarrow> bool" where
  "lto_below m M \<longleftrightarrow> (\<forall>u x. map_of m u = Some x \<longrightarrow> covered_by merge_lto M u x)"

lemma lto_belowD:
  assumes "lto_below m M" and "map_of m u = Some x" and "M u = Some y"
  shows "merge_lto x y = y"
proof -
  have "covered_by merge_lto M u x" using assms(1,2) unfolding lto_below_def by blast
  with assms(3) show ?thesis by (simp add: covered_by_def)
qed

lemma merge_trans:
  assumes "lto_ok u x" "lto_ok u y" "lto_ok u z" "merge_lto x y = y" "merge_lto y z = z"
  shows "merge_lto x z = z"
  using lto_ok_pair [OF assms(1,2)] lto_ok_pair [OF assms(2,3)] assms(4,5) by auto

lemma unit_lto_mono:
  assumes "lto_ok u x" and "lto_ok u y" and "merge_lto x y = y"
  shows "merge_lto (unit_lto d x) (unit_lto d y) = unit_lto d y"
proof -
  have "merge_lto (inherited_setting cts x b) (inherited_setting cts y b) = inherited_setting cts y b"
    for cts b
    using lto_ok_pair [OF assms(1,2)] assms(3)
    by (cases b) (auto simp: lto_when_needs_object_def)
  then show ?thesis by (simp add: unit_lto_def)
qed

lemma calculate_below:
  assumes M: "lto_solution g us M" and "calculate n g u p m = Ok m'"
    and "covered_by merge_lto M u (unit_lto u p)" and "typed lto_ok (map_of m) \<and> lto_below m M"
  shows "typed lto_ok (map_of m') \<and> lto_below m' M"
  using assms(2-)
proof (induction n arbitrary: u p m m')
  case 0
  then show ?case by simp
next
  case (Suc n)
  let ?x = "unit_lto u p"
  let ?v = "raised merge_lto (map_of m) u ?x"
  let ?m1 = "hm_insert u ?v m"
  obtain y where y: "M u = Some y" "merge_lto ?x y = y"
    using Suc.prems(2) by (auto simp: covered_by_def)
  have oky: "lto_ok u y"
    using M y(1) by (auto simp: lto_solution_def typed_def)
  have v: "merge_lto ?v y = y"
  proof (cases "map_of m u")
    case None
    with y show ?thesis by (simp add: raised_def)
  next
    case (Some w)
    then have "merge_lto w y = y" "lto_ok u w"
      using Suc.prems(3) Some y(1) lto_belowD [of m M u w y] typedD [of lto_ok "map_of m" u w]
      by blast+
    with Some y oky show ?thesis
      by (simp add: raised_def ltoj.join_least [OF unit_lto_ok])
  qed
  have okv: "lto_ok u ?v"
    using Suc.prems(3) by (simp add: ltoj.raised_ok unit_lto_ok)
  show ?case
  proof (cases "map_of m u = Some ?v")
    case True
    then have "calculate (Suc n) g u p m = Ok m"
      by (auto simp: raised_def split: option.splits)
    with Suc.prems show ?thesis by simp
  next
    case False
    then have "visit_deps n g u ?v ?m1 = Ok m'"
      using Suc.prems(1) by (auto simp: raised_def Let_def split: option.splits)
    then obtain ds where ds: "map_of g u = Some ds"
        "ofold (\<lambda>d. calculate n g d ?v) ds ?m1 = Ok m'"
      by (auto split: option.splits)
    from ds(2) show ?thesis
    proof (rule ofold_Ok_invariant)
      show "typed lto_ok (map_of ?m1) \<and> lto_below ?m1 M"
        using Suc.prems(3) ltoj.typed_raise [OF _ unit_lto_ok, of "map_of m" u p] v y(1)
        by (auto simp: get_hm_insert lto_below_def covered_by_def)
    next
      fix d s s'
      assume "d \<in> set ds" and s: "typed lto_ok (map_of s) \<and> lto_below s M" "calculate n g d ?v s = Ok s'"
      then have "covered_by merge_lto M d (unit_lto d y)"
        using M y(1) ds(1) by (simp add: lto_solution_def)
      then obtain z where z: "M d = Some z" "merge_lto (unit_lto d y) z = z"
        by (auto simp: covered_by_def)
      have "lto_ok d z"
        using M z(1) by (auto simp: lto_solution_def typed_def)
      then have "merge_lto (unit_lto d ?v) z = z"
        using unit_lto_mono [OF okv oky v, of d] z(2)
        by (rule merge_trans [OF unit_lto_ok unit_lto_ok])
      with z(1) have "covered_by merge_lto M d (unit_lto d ?v)"
        by (simp add: covered_by_def)
      from s(2) this s(1) show "typed lto_ok (map_of s') \<and> lto_below s' M"
        by (rule Suc.IH)
    qed
  qed
qed

lemma generate_below:
  assumes "lto_solution g us M" and "generate_lto g us = Ok m"
  shows "lto_below m M"
proof -
  have "typed lto_ok (map_of m) \<and> lto_below m M"
    using assms(2) unfolding generate_lto_def
  proof (rule ofold_Ok_invariant)
    show "typed lto_ok (map_of []) \<and> lto_below [] M"
      by (simp add: typed_def lto_below_def)
  next
    fix u s s'
    assume "u \<in> set us" and s: "typed lto_ok (map_of s) \<and> lto_below s M"
      and run: "calculate (3 * length g + 1) g u (root_lto u) s = Ok s'"
    then have "covered_by merge_lto M u (unit_lto u (root_lto u))"
      using assms(1) by (simp add: lto_solution_def)
    then show "typed lto_ok (map_of s') \<and> lto_below s' M"
      using s by (rule calculate_below [OF assms(1) run])
  qed
  then show ?thesis ..
qed

lemma generate_solution:
  assumes "units_closed g" and "set us \<subseteq> fst ` set g"
  shows "\<exists>m. generate_lto g us = Ok m \<and> lto_solution g us (map_of m)"
proof -
  have "owp False (generate_lto g us) (\<lambda>m. settles g [] m \<and>
      (\<forall>u \<in> set us. lto_met m u (unit_lto u (root_lto u)))) (\<lambda>_. False)"
    using assms by (intro generate_settles) simp_all
  then obtain m where m: "generate_lto g us = Ok m" "settles g [] m"
      "\<forall>u \<in> set us. lto_met m u (unit_lto u (root_lto u))"
    by (auto simp: owp_Ok_iff)
  have "unmet g m = {}" "typed lto_ok (map_of m)"
    using m(2) by (auto simp: settles_def unmet_def)
  with m have "lto_solution g us (map_of m)"
    by (auto simp: lto_solution_def unmet_def)
  with m(1) show ?thesis by blast
qed

subsection \<open>The properties\<close>

text \<open>
  A graph with a shared dependency: the binary \<open>app\<close> runs thin LTO, the test plugin \<open>tool\<close> is
  built for the host, and both depend on the library \<open>util\<close>.
\<close>

definition util_unit :: "string cunit" where
  "util_unit = \<lparr>u_target_kind = TkLib [Lib], u_for_host = False, u_profile_lto = PlNamed ''thin'',
     u_mode = MBuild, u_rest = ''util''\<rparr>"

definition app_unit :: "string cunit" where
  "app_unit = \<lparr>u_target_kind = TkBin, u_for_host = False, u_profile_lto = PlNamed ''thin'',
     u_mode = MBuild, u_rest = ''app''\<rparr>"

definition tool_unit :: "string cunit" where
  "tool_unit = \<lparr>u_target_kind = TkBin, u_for_host = True, u_profile_lto = PlBool False,
     u_mode = MBuild, u_rest = ''tool''\<rparr>"

definition shared_units :: "string unit_graph" where
  "shared_units = [(app_unit, [util_unit]), (tool_unit, [util_unit]), (util_unit, [])]"

lemmas shared_defs = shared_units_def app_unit_def tool_unit_def util_unit_def

lemma shared_closed: "units_closed shared_units" "set [app_unit, tool_unit] \<subseteq> fst ` set shared_units"
  by (simp_all add: units_closed_def shared_defs)

lemma shared_run: "generate_lto shared_units [app_unit, tool_unit] =
    Ok [(app_unit, Run (Some ''thin'')), (util_unit, ObjectAndBitcode), (tool_unit, OnlyObject)]"
  by code_simp

text \<open>
  C8: The computation of the LTO settings ends for every unit graph, whatever its shape (cycles
  included) and whatever the root units: a recursion depth of three times the number of units
  plus one is enough, and it returns no error. It panics only if the graph lacks an entry for a
  root or for a dependency.
\<close>

theorem lto_generate_terminates:
  "generate_lto g us \<noteq> OutOfFuel \<and> generate_lto g us \<noteq> Err () \<and>
   (generate_lto g us = Panic \<longrightarrow> \<not> (units_closed g \<and> set us \<subseteq> fst ` set g))"
  using generate_settles [of g "\<not> (units_closed g \<and> set us \<subseteq> fst ` set g)" us]
  by (cases "generate_lto g us") auto

theorem lto_generate_terminates_witness:
  "generate_lto [(util_unit, [util_unit, app_unit]), (app_unit, [util_unit])] [app_unit] \<noteq> Panic"
  using lto_generate_terminates [of "[(util_unit, [util_unit, app_unit]), (app_unit, [util_unit])]" "[app_unit]"]
  by (simp add: units_closed_def util_unit_def app_unit_def)

text \<open>
  C6: On a unit graph with an entry for every unit it names, \<open>generate\<close> returns the least
  assignment that meets all requirements: each root is assigned at least what its profile and
  crate types ask for, each dependency at least what the setting of its parent asks of it, and
  every other assignment with these two properties is at least as large for every unit of the
  result. The order in which units are visited and revisited has no influence.
\<close>

theorem lto_generate_least:
  assumes "units_closed g" and "set us \<subseteq> fst ` set g"
  shows "\<exists>m. generate_lto g us = Ok m \<and> lto_solution g us (map_of m) \<and>
    (\<forall>M. lto_solution g us M \<longrightarrow> lto_below m M)"
  using generate_solution [OF assms] generate_below by blast

theorem lto_generate_least_witness:
  "\<exists>m. generate_lto shared_units [app_unit, tool_unit] = Ok m \<and>
     (\<forall>M. lto_solution shared_units [app_unit, tool_unit] M \<longrightarrow> lto_below m M)"
  using lto_generate_least [OF shared_closed] by blast

text \<open>
  C37: When a unit runs LTO, every dependency of it that is linked in as a plain library (not a
  host unit, some crate type without LTO support, none that needs object code) is compiled with
  bitcode: its setting is never \<open>OnlyObject\<close>.
\<close>

theorem lto_bitcode_available:
  assumes "units_closed g" and "set us \<subseteq> fst ` set g"
    and "generate_lto g us = Ok m" and "map_of m u = Some (Run s)"
    and "map_of g u = Some ds" and "d \<in> set ds"
    and "\<not> u_for_host d" and "\<not> all_lto_types d" and "\<not> needs_object (lto_crate_types d)"
  shows "\<exists>x. map_of m d = Some x \<and> x \<in> {OnlyBitcode, ObjectAndBitcode, Off}"
proof -
  have "lto_solution g us (map_of m)"
    using generate_solution [OF assms(1,2)] assms(3) by simp
  then have "lto_met m d (unit_lto d (Run s))" "typed lto_ok (map_of m)"
    using assms(4-6) by (auto simp: lto_solution_def)
  then obtain x where x: "map_of m d = Some x" "merge_lto OnlyBitcode x = x" "lto_ok d x"
    using assms(7-9) by (auto simp: covered_by_def unit_lto_def typed_def)
  with assms(7,8) show ?thesis
    by (cases x) (auto simp: lto_ok_def)
qed

theorem lto_bitcode_available_witness:
  "map_of [(app_unit, Run (Some ''thin'')), (util_unit, ObjectAndBitcode), (tool_unit, OnlyObject)]
     util_unit \<in> Some ` {OnlyBitcode, ObjectAndBitcode, Off}"
proof -
  have "map_of [(app_unit, Run (Some ''thin'')), (util_unit, ObjectAndBitcode), (tool_unit, OnlyObject)]
      app_unit = Some (Run (Some ''thin''))"
    by simp
  moreover have "map_of shared_units app_unit = Some [util_unit]"
    by (simp add: shared_units_def)
  moreover have "\<not> u_for_host util_unit" "\<not> all_lto_types util_unit"
      "\<not> needs_object (lto_crate_types util_unit)"
    by (simp_all add: util_unit_def all_lto_types_def lto_crate_types_def needs_object_def)
  ultimately show ?thesis
    using lto_bitcode_available [OF shared_closed shared_run, of app_unit "Some ''thin''" "[util_unit]" util_unit]
    by auto
qed

end
