(* ===== verification/Rustfix.thy ===== *)
theory Rustfix
  imports Prelude "HOL-Library.Word" "HOL-Library.Multiset" "HOL-Library.Sublist"
begin

section \<open>Applying the compiler's suggestions\<close>

text \<open>
  The model of \<open>crates/rustfix\<close>: \<open>replace.rs\<close> (a byte buffer with pending replacements that can
  be committed or rolled back), and from \<open>lib.rs\<close> the collection of suggestions from a
  diagnostic, \<open>CodeFix\<close> and \<open>apply_suggestions\<close>. Text is a list of bytes, as \<open>as_bytes\<close>
  gives it. \<open>partition_point\<close> of a vector is the length of the longest prefix that satisfies
  the predicate; \<open>partitioned\<close> shows that the vector is partitioned wherever it is called, which
  is what its documentation asks for.

  The lemmas show which replacements are accepted (those that touch no existing change), that the
  merged text is the position-by-position reading of the accepted changes, and that a suggestion
  is applied as a whole or not at all.
\<close>

type_synonym byte = "8 word"

subsection \<open>Replacement spans (\<open>replace.rs\<close>)\<close>

record span =
  sp_range :: "nat \<times> nat"
  sp_data :: "byte list"
  sp_committed :: bool

datatype rf_error =
    InvalidRange "nat \<times> nat"
  | DataLengthExceeded "nat \<times> nat" nat
  | AlreadyReplaced "nat \<times> nat" bool
  | Utf8

definition span_new :: "nat \<times> nat \<Rightarrow> byte list \<Rightarrow> span" where
  "span_new rng data = \<lparr>sp_range = rng, sp_data = data, sp_committed = False\<rparr>"

definition span_is_insert :: "span \<Rightarrow> bool" where
  "span_is_insert sp \<longleftrightarrow> fst (sp_range sp) = snd (sp_range sp)"

definition span_eq :: "span \<Rightarrow> span \<Rightarrow> bool" where
  "span_eq a b \<longleftrightarrow> sp_range a = sp_range b \<and> sp_data a = sp_data b"

record rf_data =
  rf_original :: "byte list"
  rf_parts :: "span list"

definition data_new :: "byte list \<Rightarrow> rf_data" where
  "data_new bs = \<lparr>rf_original = bs, rf_parts = []\<rparr>"

definition data_commit :: "rf_data \<Rightarrow> rf_data" where
  "data_commit d = d\<lparr>rf_parts := map (\<lambda>sp. sp\<lparr>sp_committed := True\<rparr>) (rf_parts d)\<rparr>"

definition data_restore :: "rf_data \<Rightarrow> rf_data" where
  "data_restore d = d\<lparr>rf_parts := filter sp_committed (rf_parts d)\<rparr>"

text \<open>\<open>&xs[a..b]\<close>, which panics unless \<open>a \<le> b \<le> len\<close>.\<close>

definition slice :: "nat \<Rightarrow> nat \<Rightarrow> 'a list \<Rightarrow> ('e, 'a list) outcome" where
  "slice a b xs = (if a \<le> b \<and> b \<le> length xs then Ok (take (b - a) (drop a xs)) else Panic)"

definition to_vec :: "rf_data \<Rightarrow> (rf_error, byte list) outcome" where
  "to_vec d =
     obind (ofold (\<lambda>sp (prev_end, acc).
         obind (slice prev_end (fst (sp_range sp)) (rf_original d)) (\<lambda>gap.
           Ok (snd (sp_range sp), acc @ gap @ sp_data sp)))
       (rf_parts d) (0, []))
     (\<lambda>(prev_end, s).
       obind (slice prev_end (length (rf_original d)) (rf_original d)) (\<lambda>tail. Ok (s @ tail)))"

definition partition_point :: "('a \<Rightarrow> bool) \<Rightarrow> 'a list \<Rightarrow> nat" where
  "partition_point P xs = length (takeWhile P xs)"

definition sorts_before :: "nat \<times> nat \<Rightarrow> span \<Rightarrow> bool" where
  "sorts_before rng sp \<longleftrightarrow> fst (sp_range sp) < fst rng \<or>
     fst (sp_range sp) = fst rng \<and> snd (sp_range sp) < snd rng"

definition replace_range :: "nat \<times> nat \<Rightarrow> byte list \<Rightarrow> rf_data \<Rightarrow> rf_error + rf_data" where
  "replace_range rng data d =
     (if fst rng > snd rng then Inl (InvalidRange rng)
      else if snd rng > length (rf_original d)
        then Inl (DataLengthExceeded rng (length (rf_original d)))
      else
        let parts = rf_parts d;
            ins_point = partition_point (sorts_before rng) parts;
            incoming = span_new rng data;
            accept = Inr (d\<lparr>rf_parts := take ins_point parts @ incoming # drop ins_point parts\<rparr>);
            check_after =
              (if ins_point < length parts then
                 let after = parts ! ins_point in
                 if snd rng > fst (sp_range after) \<or> rng = sp_range after
                 then Inl (AlreadyReplaced rng (span_eq incoming after))
                 else accept
               else accept)
        in
        if 0 < ins_point then
          let before = parts ! (ins_point - 1) in
          if fst rng < snd (sp_range before)
          then Inl (AlreadyReplaced rng (span_eq incoming before))
          else check_after
        else check_after)"

subsection \<open>Suggestions (\<open>lib.rs\<close>, \<open>diagnostics.rs\<close>)\<close>

datatype applicability = MachineApplicable | MaybeIncorrect | HasPlaceholders | Unspecified

datatype rf_filter = MachineApplicableOnly | Everything

record diagnostic_span =
  ds_file_name :: string
  ds_byte_start :: nat
  ds_byte_end :: nat
  ds_line_start :: nat
  ds_line_end :: nat
  ds_column_start :: nat
  ds_column_end :: nat
  ds_suggested_replacement :: "byte list option"
  ds_suggestion_applicability :: "applicability option"

datatype diagnostic = Diagnostic (dg_message: string) (dg_code: "string option")
  (dg_spans: "diagnostic_span list") (dg_children: "diagnostic list")

record snippet =
  sn_file_name :: string
  sn_line_range :: "(nat \<times> nat) \<times> (nat \<times> nat)"
  sn_range :: "nat \<times> nat"

record replacement =
  rp_snippet :: snippet
  rp_replacement :: "byte list"

record solution =
  so_message :: string
  so_replacements :: "replacement list"

record suggestion =
  sg_message :: string
  sg_snippets :: "snippet list"
  sg_solutions :: "solution list"

definition span_to_snippet :: "diagnostic_span \<Rightarrow> snippet" where
  "span_to_snippet s = \<lparr>sn_file_name = ds_file_name s,
     sn_line_range = ((ds_line_start s, ds_column_start s), (ds_line_end s, ds_column_end s)),
     sn_range = (ds_byte_start s, ds_byte_end s)\<rparr>"

definition collect_span :: "diagnostic_span \<Rightarrow> replacement option" where
  "collect_span s = map_option
     (\<lambda>r. \<lparr>rp_snippet = span_to_snippet s, rp_replacement = r\<rparr>) (ds_suggested_replacement s)"

fun span_wanted :: "rf_filter \<Rightarrow> applicability option \<Rightarrow> bool" where
  "span_wanted MachineApplicableOnly (Some MachineApplicable) = True"
| "span_wanted MachineApplicableOnly _ = False"
| "span_wanted Everything _ = True"

definition child_solution :: "rf_filter \<Rightarrow> diagnostic \<Rightarrow> solution option" where
  "child_solution flt c =
     (let replacements = List.map_filter collect_span
            (filter (\<lambda>s. span_wanted flt (ds_suggestion_applicability s)) (dg_spans c)) in
      if replacements \<noteq> [] then Some \<lparr>so_message = dg_message c, so_replacements = replacements\<rparr>
      else None)"

definition collect_suggestions ::
  "diagnostic \<Rightarrow> string list \<Rightarrow> rf_filter \<Rightarrow> suggestion option" where
  "collect_suggestions d only flt =
     (if only \<noteq> [] \<and> (case dg_code d of Some c \<Rightarrow> c \<notin> set only | None \<Rightarrow> True) then None
      else
        let solutions = List.map_filter (child_solution flt) (dg_children d) in
        if solutions = [] then None
        else Some \<lparr>sg_message = dg_message d, sg_snippets = map span_to_snippet (dg_spans d),
          sg_solutions = solutions\<rparr>)"

subsection \<open>\<open>CodeFix\<close> and \<open>apply_suggestions\<close> (\<open>lib.rs\<close>)\<close>

record code_fix =
  cf_data :: rf_data
  cf_modified :: bool

definition code_fix_new :: "byte list \<Rightarrow> code_fix" where
  "code_fix_new s = \<lparr>cf_data = data_new s, cf_modified = False\<rparr>"

text \<open>The loop over the replacements of one solution: the first error rolls back and ends it.\<close>

fun replace_all :: "replacement list \<Rightarrow> rf_data \<Rightarrow> rf_data \<times> rf_error option" where
  "replace_all [] d = (d, None)"
| "replace_all (r # rs) d =
     (case replace_range (sn_range (rp_snippet r)) (rp_replacement r) d of
        Inl e \<Rightarrow> (data_restore d, Some e)
      | Inr d' \<Rightarrow> replace_all rs d')"

fun replace_solutions :: "solution list \<Rightarrow> rf_data \<Rightarrow> rf_data \<times> rf_error option" where
  "replace_solutions [] d = (d, None)"
| "replace_solutions (sol # sols) d =
     (case replace_all (so_replacements sol) d of
        (d', Some e) \<Rightarrow> (d', Some e)
      | (d', None) \<Rightarrow> replace_solutions sols d')"

definition finish_apply :: "code_fix \<Rightarrow> rf_data \<times> rf_error option \<Rightarrow> code_fix \<times> rf_error option" where
  "finish_apply f res = (case res of
       (d, Some e) \<Rightarrow> (f\<lparr>cf_data := d\<rparr>, Some e)
     | (d, None) \<Rightarrow> (\<lparr>cf_data = data_commit d, cf_modified = True\<rparr>, None))"

definition code_fix_apply :: "suggestion \<Rightarrow> code_fix \<Rightarrow> code_fix \<times> rf_error option" where
  "code_fix_apply s f = finish_apply f (replace_solutions (sg_solutions s) (cf_data f))"

definition apply_solution :: "solution \<Rightarrow> code_fix \<Rightarrow> code_fix \<times> rf_error option" where
  "apply_solution sol f = finish_apply f (replace_all (so_replacements sol) (cf_data f))"

text \<open>\<open>String::from_utf8\<close>: the well-formed byte sequences of UTF-8.\<close>

definition in_range :: "nat \<Rightarrow> nat \<Rightarrow> byte \<Rightarrow> bool" where
  "in_range a b x \<longleftrightarrow> a \<le> unat x \<and> unat x \<le> b"

fun utf8_valid :: "byte list \<Rightarrow> bool" where
  "utf8_valid [] = True"
| "utf8_valid (b # bs) =
     (if in_range 0x00 0x7F b then utf8_valid bs
      else case bs of [] \<Rightarrow> False
      | c # cs \<Rightarrow>
        if in_range 0xC2 0xDF b then in_range 0x80 0xBF c \<and> utf8_valid cs
        else case cs of [] \<Rightarrow> False
        | e # es \<Rightarrow>
          if in_range 0xE0 0xEF b then
            in_range (if unat b = 0xE0 then 0xA0 else 0x80) (if unat b = 0xED then 0x9F else 0xBF) c \<and>
            in_range 0x80 0xBF e \<and> utf8_valid es
          else case es of [] \<Rightarrow> False
          | f # fs \<Rightarrow>
            in_range 0xF0 0xF4 b \<and>
            in_range (if unat b = 0xF0 then 0x90 else 0x80) (if unat b = 0xF4 then 0x8F else 0xBF) c \<and>
            in_range 0x80 0xBF e \<and> in_range 0x80 0xBF f \<and> utf8_valid fs)"

definition code_fix_finish :: "code_fix \<Rightarrow> (rf_error, byte list) outcome" where
  "code_fix_finish f =
     obind (to_vec (cf_data f)) (\<lambda>bs. if utf8_valid bs then Ok bs else Err Utf8)"

definition apply_or_skip :: "suggestion \<Rightarrow> code_fix \<Rightarrow> (rf_error, code_fix) outcome" where
  "apply_or_skip s f = (case code_fix_apply s f of
       (f', None) \<Rightarrow> Ok f'
     | (f', Some (AlreadyReplaced _ True)) \<Rightarrow> Ok f'
     | (f', Some e) \<Rightarrow> Err e)"

definition apply_suggestions :: "byte list \<Rightarrow> suggestion list \<Rightarrow> (rf_error, byte list) outcome" where
  "apply_suggestions code suggestions =
     obind (ofold apply_or_skip (rev suggestions) (code_fix_new code)) code_fix_finish"

subsection \<open>The invariant and which changes are accepted\<close>

text \<open>
  Two changes conflict if they share a byte, if one is an insertion strictly inside the other, or
  if they have the same range. The parts are kept in order, pairwise without a conflict.
\<close>

definition conflict :: "nat \<times> nat \<Rightarrow> nat \<times> nat \<Rightarrow> bool" where
  "conflict r q \<longleftrightarrow> fst r < snd q \<and> fst q < snd r \<or> r = q"

definition apart :: "nat \<times> nat \<Rightarrow> nat \<times> nat \<Rightarrow> bool" where
  "apart r q \<longleftrightarrow> snd r \<le> fst q \<and> r \<noteq> q"

definition span_in :: "nat \<Rightarrow> nat \<times> nat \<Rightarrow> bool" where
  "span_in n r \<longleftrightarrow> fst r \<le> snd r \<and> snd r \<le> n"

definition spans_ok :: "nat \<Rightarrow> span list \<Rightarrow> bool" where
  "spans_ok n ps \<longleftrightarrow> list_all (\<lambda>p. span_in n (sp_range p)) ps \<and>
     sorted_wrt (\<lambda>p q. apart (sp_range p) (sp_range q)) ps"

definition rf_ok :: "rf_data \<Rightarrow> bool" where
  "rf_ok d \<longleftrightarrow> spans_ok (length (rf_original d)) (rf_parts d)"

lemma apart_no_conflict: "apart r q \<Longrightarrow> \<not> conflict r q \<and> \<not> conflict q r"
  by (auto simp: apart_def conflict_def)

lemma apart_trans:
  assumes "apart r q" "apart q t" "span_in n r" "span_in n q" "span_in n t"
  shows "apart r t"
  using assms by (cases r; cases q; cases t) (auto simp: apart_def span_in_def)

lemma spans_ok_Cons: "spans_ok n (p # ps) \<longleftrightarrow>
    span_in n (sp_range p) \<and> (\<forall>q \<in> set ps. apart (sp_range p) (sp_range q)) \<and> spans_ok n ps"
  by (auto simp: spans_ok_def)

lemma spans_ok_append: "spans_ok n (ps @ qs) \<longleftrightarrow>
    spans_ok n ps \<and> spans_ok n qs \<and> (\<forall>p \<in> set ps. \<forall>q \<in> set qs. apart (sp_range p) (sp_range q))"
  by (auto simp: spans_ok_def sorted_wrt_append)

lemma spans_okD: "spans_ok n ps \<Longrightarrow> p \<in> set ps \<Longrightarrow> span_in n (sp_range p)"
  by (simp add: spans_ok_def list_all_iff)

text \<open>The vector is partitioned at the insertion point.\<close>

lemma sorts_before_apart:
  assumes "apart (sp_range p) (sp_range q)" "span_in n (sp_range p)" "span_in n (sp_range q)"
    and "sorts_before r q"
  shows "sorts_before r p"
  using assms by (cases "sp_range p"; cases "sp_range q"; cases r)
    (auto simp: apart_def span_in_def sorts_before_def)

lemma partitioned:
  "spans_ok n ps \<Longrightarrow> q \<in> set (dropWhile (sorts_before r) ps) \<Longrightarrow> \<not> sorts_before r q"
proof (induction ps)
  case (Cons p ps)
  show ?case
  proof (cases "sorts_before r p")
    case True
    with Cons show ?thesis by (simp add: spans_ok_Cons)
  next
    case False
    with Cons.prems have "q = p \<or> q \<in> set ps" by simp
    with Cons.prems(1) False show ?thesis
      by (metis sorts_before_apart spans_okD spans_ok_Cons)
  qed
qed simp

text \<open>A range against the part before it and the part after it.\<close>

lemma before_cases:
  assumes "span_in n r" "span_in n q" "fst q < fst r \<or> fst q = fst r \<and> snd q < snd r"
  shows "fst r < snd q \<Longrightarrow> conflict r q" and "\<not> fst r < snd q \<Longrightarrow> apart q r"
  using assms by (cases r; cases q; auto simp: conflict_def apart_def span_in_def)+

lemma after_cases:
  assumes "span_in n r" "span_in n q" "\<not> (fst q < fst r \<or> fst q = fst r \<and> snd q < snd r)"
  shows "snd r > fst q \<or> r = q \<Longrightarrow> conflict r q" and "\<not> (snd r > fst q \<or> r = q) \<Longrightarrow> apart r q"
  using assms by (cases r; cases q; auto simp: conflict_def apart_def span_in_def)+

text \<open>
  The whole of \<open>replace_range\<close> over the split of the parts at the insertion point.
\<close>

definition before_after :: "nat \<times> nat \<Rightarrow> span list \<Rightarrow> span list \<Rightarrow> span option" where
  "before_after r xs ys =
     (if xs \<noteq> [] \<and> fst r < snd (sp_range (last xs)) then Some (last xs)
      else if ys \<noteq> [] \<and> (snd r > fst (sp_range (hd ys)) \<or> r = sp_range (hd ys)) then Some (hd ys)
      else None)"

lemma replace_range_split:
  assumes xs: "xs = takeWhile (sorts_before r) (rf_parts d)"
    and ys: "ys = dropWhile (sorts_before r) (rf_parts d)"
    and r: "span_in (length (rf_original d)) r"
  shows "replace_range r bs d = (case before_after r xs ys of
      Some p \<Rightarrow> Inl (AlreadyReplaced r (span_eq (span_new r bs) p))
    | None \<Rightarrow> Inr (d\<lparr>rf_parts := xs @ span_new r bs # ys\<rparr>))"
proof -
  have parts: "rf_parts d = xs @ ys" by (simp add: xs ys)
  have ins: "partition_point (sorts_before r) (xs @ ys) = length xs"
    unfolding partition_point_def parts [symmetric] by (simp add: xs)
  have last: "(xs @ ys) ! (length xs - Suc 0) = last xs" if "xs \<noteq> []"
    using that by (simp add: nth_append last_conv_nth)
  have guards: "\<not> fst r > snd r" "\<not> snd r > length (rf_original d)"
    using r by (auto simp: span_in_def)
  have hd: "(xs @ ys) ! length xs = hd ys" if "ys \<noteq> []"
    using that by (simp add: nth_append hd_conv_nth)
  show ?thesis
    unfolding replace_range_def if_not_P [OF guards(1)] if_not_P [OF guards(2)] Let_def parts ins
    using last hd by (cases "xs = []"; cases "ys = []") (simp_all add: before_after_def)
qed

lemma before_after_spec:
  assumes ok: "spans_ok n (xs @ ys)" and r: "span_in n r"
    and xs: "\<forall>p \<in> set xs. sorts_before r p" and ys: "\<forall>q \<in> set ys. \<not> sorts_before r q"
  shows "case before_after r xs ys of
      Some p \<Rightarrow> p \<in> set (xs @ ys) \<and> conflict r (sp_range p)
    | None \<Rightarrow> (\<forall>p \<in> set xs. apart (sp_range p) r) \<and> (\<forall>q \<in> set ys. apart r (sp_range q))"
proof -
  have oks: "spans_ok n xs" "spans_ok n ys" using ok by (simp_all add: spans_ok_append)
  have x: "(if fst r < snd (sp_range (last xs)) then conflict r (sp_range (last xs))
      else \<forall>p \<in> set xs. apart (sp_range p) r)" if ne: "xs \<noteq> []"
  proof -
    have lst: "span_in n (sp_range (last xs))" "sorts_before r (last xs)"
      using spans_okD [OF oks(1)] xs last_in_set [OF ne] by blast+
    have bl: "apart (sp_range p) (sp_range (last xs))" if "p \<in> set (butlast xs)" for p
      using oks(1) that append_butlast_last_id [OF ne]
      by (metis spans_ok_append list.set_intros(1))
    have "apart (sp_range p) r" if "p \<in> set xs" "apart (sp_range (last xs)) r" for p
    proof (cases "p \<in> set (butlast xs)")
      case True
      then show ?thesis
        using apart_trans [OF bl that(2) _ lst(1) r] spans_okD [OF oks(1) that(1)] by blast
    next
      case False
      then have "p = last xs"
        using that(1) append_butlast_last_id [OF ne]
        by (metis Un_iff empty_iff empty_set set_ConsD set_append)
      with that(2) show ?thesis by simp
    qed
    then show ?thesis
      using before_cases [OF r lst(1) lst(2) [unfolded sorts_before_def]] by simp
  qed
  have y: "(if snd r > fst (sp_range (hd ys)) \<or> r = sp_range (hd ys) then conflict r (sp_range (hd ys))
      else \<forall>q \<in> set ys. apart r (sp_range q))" if ne: "ys \<noteq> []"
  proof -
    obtain q0 qs where q0: "ys = q0 # qs" using ne by (meson neq_Nil_conv)
    have h: "span_in n (sp_range q0)" "\<not> sorts_before r q0"
      using oks(2) ys by (auto simp: q0 spans_ok_Cons)
    have "apart r (sp_range q)" if "apart r (sp_range q0)" "q \<in> set qs" for q
    proof (rule apart_trans [OF that(1) _ r h(1)])
      show "apart (sp_range q0) (sp_range q)" "span_in n (sp_range q)"
        using oks(2) that(2) by (auto simp: q0 spans_ok_Cons intro: spans_okD)
    qed
    then show ?thesis
      using after_cases [OF r h(1) h(2) [unfolded sorts_before_def]] by (simp add: q0)
  qed
  show ?thesis
    using x y last_in_set [of xs] hd_in_set [of ys]
    by (cases "xs = []"; cases "ys = []") (auto simp: before_after_def)
qed

lemma replace_range_Inr:
  assumes "rf_ok d" and "replace_range r bs d = Inr d'"
  obtains xs ys where "rf_parts d = xs @ ys" "d' = d\<lparr>rf_parts := xs @ span_new r bs # ys\<rparr>"
    "rf_ok d'" "span_in (length (rf_original d)) r"
    "\<forall>p \<in> set (rf_parts d). \<not> conflict r (sp_range p)"
proof -
  define xs where "xs = takeWhile (sorts_before r) (rf_parts d)"
  define ys where "ys = dropWhile (sorts_before r) (rf_parts d)"
  have r: "span_in (length (rf_original d)) r"
    using assms(2) by (auto simp: replace_range_def span_in_def split: if_splits)
  have parts: "rf_parts d = xs @ ys" by (simp add: xs_def ys_def)
  have ok: "spans_ok (length (rf_original d)) (xs @ ys)"
    using assms(1) by (simp add: rf_ok_def parts)
  have none: "before_after r xs ys = None" and d': "d' = d\<lparr>rf_parts := xs @ span_new r bs # ys\<rparr>"
    using assms(2) unfolding replace_range_split [OF xs_def ys_def r] by (auto split: option.splits)
  have "\<forall>p \<in> set xs. sorts_before r p"
    by (auto simp: xs_def dest: set_takeWhileD)
  moreover have "\<forall>q \<in> set ys. \<not> sorts_before r q"
    using assms(1) partitioned unfolding ys_def rf_ok_def by blast
  ultimately have sep: "\<forall>p \<in> set xs. apart (sp_range p) r" "\<forall>q \<in> set ys. apart r (sp_range q)"
    using before_after_spec [OF ok r] none by (auto split: option.splits)
  have "rf_ok d'"
    using ok sep r by (auto simp: rf_ok_def d' spans_ok_append spans_ok_Cons span_new_def)
  moreover have "\<forall>p \<in> set (rf_parts d). \<not> conflict r (sp_range p)"
    using sep by (auto simp: parts dest!: bspec dest: apart_no_conflict)
  ultimately show thesis
    using that parts d' r by blast
qed

lemma replace_range_Inl:
  assumes "rf_ok d" and "replace_range r bs d = Inl e"
  shows "if fst r > snd r then e = InvalidRange r
    else if snd r > length (rf_original d) then e = DataLengthExceeded r (length (rf_original d))
    else \<exists>p \<in> set (rf_parts d). conflict r (sp_range p) \<and>
      e = AlreadyReplaced r (sp_range p = r \<and> sp_data p = bs)"
proof (cases "span_in (length (rf_original d)) r")
  case False
  with assms(2) show ?thesis
    by (auto simp: replace_range_def span_in_def)
next
  case r: True
  define xs where "xs = takeWhile (sorts_before r) (rf_parts d)"
  define ys where "ys = dropWhile (sorts_before r) (rf_parts d)"
  have parts: "rf_parts d = xs @ ys" by (simp add: xs_def ys_def)
  have ok: "spans_ok (length (rf_original d)) (xs @ ys)"
    using assms(1) by (simp add: rf_ok_def parts)
  obtain p where p: "before_after r xs ys = Some p" "e = AlreadyReplaced r (span_eq (span_new r bs) p)"
    using assms(2) unfolding replace_range_split [OF xs_def ys_def r] by (auto split: option.splits)
  have "\<forall>p \<in> set xs. sorts_before r p"
    by (auto simp: xs_def dest: set_takeWhileD)
  moreover have "\<forall>q \<in> set ys. \<not> sorts_before r q"
    using assms(1) partitioned unfolding ys_def rf_ok_def by blast
  ultimately have "p \<in> set (rf_parts d)" "conflict r (sp_range p)"
    using before_after_spec [OF ok r] p(1) by (auto simp: parts)
  then show ?thesis
    using r p(2) by (auto simp: span_in_def span_eq_def span_new_def)
qed

subsection \<open>The merged text\<close>

text \<open>
  The text read position by position: at every position of the original, first what is inserted
  there, then the replacement that starts there, then the original byte if no change covers it.
\<close>

definition covers :: "nat \<Rightarrow> span \<Rightarrow> bool" where
  "covers i p \<longleftrightarrow> fst (sp_range p) \<le> i \<and> i < snd (sp_range p)"

definition cell :: "byte list \<Rightarrow> span list \<Rightarrow> nat \<Rightarrow> byte list" where
  "cell orig ps i =
     concat (map sp_data (filter (\<lambda>p. sp_range p = (i, i)) ps)) @
     concat (map sp_data (filter (\<lambda>p. fst (sp_range p) = i \<and> covers i p) ps)) @
     (if i < length orig \<and> \<not> list_ex (covers i) ps then [orig ! i] else [])"

definition render :: "byte list \<Rightarrow> span list \<Rightarrow> byte list" where
  "render orig ps = concat (map (cell orig ps) [0..<Suc (length orig)])"

lemma upt_split: "a \<le> b \<Longrightarrow> b \<le> c \<Longrightarrow> [a..<c] = [a..<b] @ [b..<c]"
  by (metis le_add_diff_inverse upt_add_eq_append)

lemma cell_untouched:
  assumes "\<forall>p \<in> set ps. i < fst (sp_range p)"
  shows "cell orig ps i = (if i < length orig then [orig ! i] else [])"
proof -
  have "filter (\<lambda>p. sp_range p = (i, i)) ps = []" "filter (\<lambda>p. fst (sp_range p) = i \<and> covers i p) ps = []"
    using assms by (fastforce simp: filter_empty_conv)+
  moreover have "\<not> list_ex (covers i) ps"
    using assms by (auto simp: list_ex_iff covers_def)
  ultimately show ?thesis by (simp add: cell_def)
qed

lemma cells_untouched:
  assumes "\<forall>p \<in> set ps. b \<le> fst (sp_range p)" and "b \<le> length orig"
  shows "concat (map (cell orig ps) [a..<b]) = take (b - a) (drop a orig)"
proof -
  have "map (cell orig ps) [a..<b] = map (\<lambda>i. [orig ! i]) [a..<b]"
    using assms by (auto intro!: cell_untouched [THEN trans])
  then have "concat (map (cell orig ps) [a..<b]) = concat (map (\<lambda>i. [orig ! i]) [a..<b])"
    by (rule arg_cong)
  also have "\<dots> = map ((!) orig) [a..<b]"
    by (induction "[a..<b]") simp_all
  also have "\<dots> = take (b - a) (drop a orig)"
    using assms(2) by (intro nth_equalityI) auto
  finally show ?thesis .
qed

lemma cell_below:
  assumes "i \<noteq> fst (sp_range p)" and "\<not> covers i p"
  shows "cell orig (p # ps) i = cell orig ps i"
  using assms by (auto simp: cell_def)

lemma cells_Cons:
  assumes p: "span_in (length orig) (sp_range p)" and ps: "\<forall>q \<in> set ps. apart (sp_range p) (sp_range q)"
    and r: "sp_range p = (s, e)"
  shows "concat (map (cell orig (p # ps)) [s..<Suc (length orig)]) =
    sp_data p @ concat (map (cell orig ps) [e..<Suc (length orig)])"
proof (cases "s = e")
  case True
  then have split: "[s..<Suc (length orig)] = s # [Suc s..<Suc (length orig)]"
    using p by (simp add: span_in_def r upt_conv_Cons)
  have "cell orig (p # ps) s = sp_data p @ cell orig ps s"
    by (simp add: cell_def r True covers_def)
  moreover have "map (cell orig (p # ps)) [Suc s..<Suc (length orig)] =
      map (cell orig ps) [Suc s..<Suc (length orig)]"
    using True by (auto simp: r covers_def intro!: cell_below)
  ultimately show ?thesis
    unfolding True [symmetric] split by (simp only: list.map concat.simps append_assoc)
next
  case False
  with p have se: "s < e" "e \<le> length orig" by (auto simp: span_in_def r)
  have start: "\<forall>q \<in> set ps. e \<le> fst (sp_range q)"
    using ps by (simp add: apart_def r)
  then have none: "\<forall>q \<in> set ps. i < fst (sp_range q)" if "i < e" for i
    using that by fastforce
  have "[s..<Suc (length orig)] = s # [Suc s..<e] @ [e..<Suc (length orig)]"
    using se upt_split [of s e "Suc (length orig)"] by (simp add: upt_conv_Cons del: upt_Suc)
  moreover have "cell orig (p # ps) s = sp_data p"
  proof -
    have "filter (\<lambda>q. sp_range q = (s, s)) ps = []" "filter (\<lambda>q. fst (sp_range q) = s \<and> covers s q) ps = []"
      using none [OF se(1)] by (fastforce simp: filter_empty_conv)+
    with se show ?thesis by (simp add: cell_def r covers_def)
  qed
  moreover have "concat (map (cell orig (p # ps)) [Suc s..<e]) = []"
  proof -
    have "cell orig (p # ps) i = []" if "i \<in> set [Suc s..<e]" for i
    proof -
      have "filter (\<lambda>q. sp_range q = (i, i)) ps = []" "filter (\<lambda>q. fst (sp_range q) = i \<and> covers i q) ps = []"
        using none [of i] that by (fastforce simp: filter_empty_conv)+
      with that show ?thesis by (simp add: cell_def r covers_def)
    qed
    then show ?thesis by simp
  qed
  moreover have "map (cell orig (p # ps)) [e..<Suc (length orig)] = map (cell orig ps) [e..<Suc (length orig)]"
    using se by (auto simp: r covers_def intro!: cell_below)
  ultimately show ?thesis
    by (simp only: list.map concat.simps map_append concat_append append_Nil append_assoc)
qed

lemma to_vec_loop:
  assumes "spans_ok (length orig) ps" and "k \<le> length orig" and "\<forall>p \<in> set ps. k \<le> fst (sp_range p)"
    and F: "F = (\<lambda>sp (prev_end, acc). obind (slice prev_end (fst (sp_range sp)) orig) (\<lambda>gap.
      Ok (snd (sp_range sp), acc @ gap @ sp_data sp)))"
    and G: "G = (\<lambda>(prev_end, s). obind (slice prev_end (length orig) orig) (\<lambda>tail. Ok (s @ tail)))"
  shows "obind (ofold F ps (k, acc)) G =
    Ok (acc @ concat (map (cell orig ps) [k..<Suc (length orig)]))"
  using assms(1-3)
proof (induction ps arbitrary: k acc)
  case Nil
  have "concat (map (cell orig []) [k..<length orig]) = drop k orig"
    using cells_untouched [of "[]" "length orig" orig k] by simp
  moreover have "cell orig [] (length orig) = []"
    by (simp add: cell_untouched)
  ultimately show ?case
    using Nil.prems(2) by (simp add: slice_def G)
next
  case (Cons p ps)
  obtain s e where r: "sp_range p = (s, e)" by (cases "sp_range p")
  have p: "span_in (length orig) (sp_range p)" "\<forall>q \<in> set ps. apart (sp_range p) (sp_range q)" "spans_ok (length orig) ps"
    using Cons.prems(1) by (simp_all add: spans_ok_Cons)
  then have se: "k \<le> s" "s \<le> e" "e \<le> length orig" "\<forall>q \<in> set ps. e \<le> fst (sp_range q)"
    using Cons.prems(3) by (auto simp: span_in_def r apart_def)
  have "\<forall>q \<in> set (p # ps). s \<le> fst (sp_range q)"
    using se by (auto simp: r)
  then have gap: "concat (map (cell orig (p # ps)) [k..<s]) = take (s - k) (drop k orig)"
    using se by (intro cells_untouched) simp_all
  have "[k..<Suc (length orig)] = [k..<s] @ [s..<Suc (length orig)]"
    using se by (intro upt_split) simp_all
  then have cells: "concat (map (cell orig (p # ps)) [k..<Suc (length orig)]) =
      take (s - k) (drop k orig) @ sp_data p @ concat (map (cell orig ps) [e..<Suc (length orig)])"
    by (simp only: map_append concat_append gap cells_Cons [OF p(1,2) r])
  have "F p (k, acc) = Ok (e, acc @ take (s - k) (drop k orig) @ sp_data p)"
    using se by (simp add: F slice_def r)
  then have "obind (ofold F (p # ps) (k, acc)) G =
      obind (ofold F ps (e, acc @ take (s - k) (drop k orig) @ sp_data p)) G"
    by simp
  then show ?case
    unfolding cells by (simp only: Cons.IH [OF p(3) se(3,4)] append_assoc)
qed

lemma to_vec_render: "rf_ok d \<Longrightarrow> to_vec d = Ok (render (rf_original d) (rf_parts d))"
  using to_vec_loop [OF _ _ _ refl refl, of "rf_original d" "rf_parts d" 0 "[]"]
  by (simp add: to_vec_def render_def rf_ok_def del: upt_Suc)

subsection \<open>Histories of the buffer\<close>

datatype rf_op = OpReplace "nat \<times> nat" "byte list" | OpCommit | OpRestore

fun rf_step :: "rf_op \<Rightarrow> rf_data \<Rightarrow> rf_data" where
  "rf_step (OpReplace r bs) d = (case replace_range r bs d of Inl _ \<Rightarrow> d | Inr d' \<Rightarrow> d')"
| "rf_step OpCommit d = data_commit d"
| "rf_step OpRestore d = data_restore d"

lemma rf_ok_new: "rf_ok (data_new bs)"
  by (simp add: rf_ok_def data_new_def spans_ok_def)

lemma rf_ok_commit: "rf_ok d \<Longrightarrow> rf_ok (data_commit d)"
  by (simp add: rf_ok_def data_commit_def spans_ok_def list_all_iff sorted_wrt_map)

lemma rf_ok_restore: "rf_ok d \<Longrightarrow> rf_ok (data_restore d)"
  by (simp add: rf_ok_def data_restore_def spans_ok_def list_all_iff sorted_wrt_filter)

lemma rf_ok_step: "rf_ok d \<Longrightarrow> rf_ok (rf_step op d) \<and> rf_original (rf_step op d) = rf_original d"
proof (cases op)
  case (OpReplace r bs)
  assume "rf_ok d"
  then show ?thesis
    by (auto simp: OpReplace elim: replace_range_Inr split: sum.split)
qed (simp_all add: rf_ok_commit rf_ok_restore, simp_all add: data_commit_def data_restore_def)

lemma rf_ok_steps: "rf_ok d \<Longrightarrow> rf_ok (fold rf_step ops d) \<and>
    rf_original (fold rf_step ops d) = rf_original d"
  by (induction ops arbitrary: d) (auto simp: rf_ok_step)

subsection \<open>Suggestions are applied as a whole\<close>

definition settled :: "rf_data \<Rightarrow> bool" where
  "settled d \<longleftrightarrow> rf_ok d \<and> list_all sp_committed (rf_parts d)"

definition change :: "span \<Rightarrow> (nat \<times> nat) \<times> byte list" where
  "change p = (sp_range p, sp_data p)"

definition requested_of :: "solution \<Rightarrow> ((nat \<times> nat) \<times> byte list) list" where
  "requested_of sol = map (\<lambda>r. (sn_range (rp_snippet r), rp_replacement r)) (so_replacements sol)"

definition requested :: "suggestion \<Rightarrow> ((nat \<times> nat) \<times> byte list) list" where
  "requested s = concat (map requested_of (sg_solutions s))"

text \<open>
  While a suggestion is being applied to \<open>d0\<close>: the committed parts are those of \<open>d0\<close>, and
  the changes asked for so far have been added.
\<close>

definition applying :: "rf_data \<Rightarrow> ((nat \<times> nat) \<times> byte list) list \<Rightarrow> rf_data \<Rightarrow> bool" where
  "applying d0 cs d \<longleftrightarrow> rf_ok d \<and> rf_original d = rf_original d0 \<and>
     filter sp_committed (rf_parts d) = rf_parts d0 \<and>
     mset (map change (rf_parts d)) = mset (map change (rf_parts d0)) + mset cs"

lemma applying_start: "settled d \<Longrightarrow> applying d [] d"
  by (simp add: applying_def settled_def list_all_iff filter_id_conv)

lemma applying_restore: "applying d0 cs d \<Longrightarrow> data_restore d = d0"
  by (cases d; cases d0) (simp add: applying_def data_restore_def)

lemma applying_commit:
  assumes "applying d0 cs d"
  shows "settled (data_commit d) \<and> rf_original (data_commit d) = rf_original d0 \<and>
    mset (map change (rf_parts (data_commit d))) = mset (map change (rf_parts d0)) + mset cs"
proof -
  have "map change (rf_parts (data_commit d)) = map change (rf_parts d)"
    by (simp add: data_commit_def change_def)
  then show ?thesis
    using assms rf_ok_commit [of d]
    by (simp add: applying_def settled_def) (simp add: data_commit_def list_all_iff)
qed

lemma applying_replace:
  assumes "applying d0 cs d" and "replace_range r bs d = Inr d'"
  shows "applying d0 (cs @ [(r, bs)]) d'"
proof -
  obtain xs ys where "rf_parts d = xs @ ys" "d' = d\<lparr>rf_parts := xs @ span_new r bs # ys\<rparr>" "rf_ok d'"
    using replace_range_Inr [OF _ assms(2)] assms(1) unfolding applying_def by blast
  with assms(1) show ?thesis
    by (auto simp: applying_def span_new_def change_def)
qed

lemma replace_all_applying:
  assumes "applying d0 cs d"
  shows "case replace_all rs d of
      (d', None) \<Rightarrow> applying d0 (cs @ map (\<lambda>r. (sn_range (rp_snippet r), rp_replacement r)) rs) d'
    | (d', Some e) \<Rightarrow> d' = d0"
  using assms
proof (induction rs arbitrary: cs d)
  case (Cons r rs)
  show ?case
  proof (cases "replace_range (sn_range (rp_snippet r)) (rp_replacement r) d")
    case (Inl e)
    with Cons.prems show ?thesis by (simp add: applying_restore)
  next
    case (Inr d')
    from Cons.IH [OF applying_replace [OF Cons.prems Inr]] Inr show ?thesis
      by (auto split: prod.splits option.splits)
  qed
qed simp

lemma replace_solutions_applying:
  assumes "applying d0 cs d"
  shows "case replace_solutions sols d of
      (d', None) \<Rightarrow> applying d0 (cs @ concat (map requested_of sols)) d'
    | (d', Some e) \<Rightarrow> d' = d0"
  using assms
proof (induction sols arbitrary: cs d)
  case (Cons sol sols)
  obtain d' res where run: "replace_all (so_replacements sol) d = (d', res)" by fastforce
  show ?case
  proof (cases res)
    case None
    then have "applying d0 (cs @ requested_of sol) d'"
      using replace_all_applying [OF Cons.prems, of "so_replacements sol"] by (simp add: run requested_of_def)
    from Cons.IH [OF this] show ?thesis by (auto simp: run None split: prod.splits option.splits)
  next
    case (Some e)
    then show ?thesis
      using replace_all_applying [OF Cons.prems, of "so_replacements sol"] by (simp add: run)
  qed
qed simp

lemma apply_whole:
  assumes "settled (cf_data f)"
  shows "case code_fix_apply s f of
      (f', None) \<Rightarrow> settled (cf_data f') \<and> rf_original (cf_data f') = rf_original (cf_data f) \<and>
        cf_modified f' \<and> mset (map change (rf_parts (cf_data f'))) =
          mset (map change (rf_parts (cf_data f))) + mset (requested s)
    | (f', Some e) \<Rightarrow> f' = f"
proof -
  obtain d' res where run: "replace_solutions (sg_solutions s) (cf_data f) = (d', res)" by fastforce
  have "case (d', res) of (d', None) \<Rightarrow> applying (cf_data f) (requested s) d' | (d', Some e) \<Rightarrow> d' = cf_data f"
    using replace_solutions_applying [OF applying_start [OF assms], of "sg_solutions s"]
    by (simp add: run requested_def)
  then show ?thesis
    using applying_commit [of "cf_data f" "requested s" d']
    by (cases res) (auto simp: code_fix_apply_def finish_apply_def run)
qed

text \<open>The loop of \<open>apply_suggestions\<close>: the suggestions accepted so far make up the parts.\<close>

definition accepted :: "byte list \<Rightarrow> suggestion list \<Rightarrow> code_fix \<Rightarrow> bool" where
  "accepted code acc f \<longleftrightarrow> settled (cf_data f) \<and> rf_original (cf_data f) = code \<and>
     mset (map change (rf_parts (cf_data f))) = mset (concat (map requested acc))"

lemma apply_loop:
  assumes "accepted code acc f"
  shows "owp False (ofold apply_or_skip ss f)
    (\<lambda>f'. \<exists>later. subseq later ss \<and> accepted code (acc @ later) f') (\<lambda>_. True)"
  using assms
proof (induction ss arbitrary: acc f)
  case Nil
  then show ?case by (auto intro: exI [of _ "[]"])
next
  case (Cons s ss)
  obtain f' res where run: "code_fix_apply s f = (f', res)" by fastforce
  have whole: "settled (cf_data f)" using Cons.prems by (simp add: accepted_def)
  show ?case
  proof (cases res)
    case None
    then have "accepted code (acc @ [s]) f'"
      using apply_whole [OF whole, of s] Cons.prems by (simp add: run accepted_def)
    from Cons.IH [OF this] have "owp False (ofold apply_or_skip ss f')
        (\<lambda>f'. \<exists>later. subseq later (s # ss) \<and> accepted code (acc @ later) f') (\<lambda>_. True)"
      by (rule owp_mono) (force intro: exI [of _ "s # xs" for xs])+
    moreover have "apply_or_skip s f = Ok f'"
      by (simp add: apply_or_skip_def run None)
    ultimately show ?thesis by simp
  next
    case (Some e)
    then have "f' = f"
      using apply_whole [OF whole, of s] by (simp add: run)
    then have "apply_or_skip s f = Ok f \<or> apply_or_skip s f = Err e"
      by (auto simp: apply_or_skip_def run Some split: rf_error.split bool.split)
    moreover have "owp False (ofold apply_or_skip ss f)
        (\<lambda>f'. \<exists>later. subseq later (s # ss) \<and> accepted code (acc @ later) f') (\<lambda>_. True)"
      using Cons.IH [OF Cons.prems] by (rule owp_mono) (auto intro: list_emb_Cons)
    ultimately show ?thesis by auto
  qed
qed

subsection \<open>The properties\<close>


text \<open>
  Ranges whose start comes after their end are the ones that are rejected as invalid; the comment
  of \<open>replace_range\<close> names the opposite condition.
\<close>

theorem replace_range_invalid:
  "replace_range r bs d = Inl (InvalidRange q) \<longleftrightarrow> q = r \<and> snd r < fst r"
  by (auto simp: replace_range_def Let_def split: option.splits if_splits)

definition hello :: "byte list" where
  "hello = map (word_of_nat \<circ> of_char) ''hello world''"


text \<open>
  C10: After any sequence of \<open>replace_range\<close>, \<open>commit\<close> and \<open>restore\<close> calls on a new buffer,
  \<open>to_vec\<close> returns without a panic the position-by-position reading of the original text and
  the recorded changes.
\<close>

theorem data_history_render:
  "to_vec (fold rf_step ops (data_new code)) =
     Ok (render code (rf_parts (fold rf_step ops (data_new code))))"
  using rf_ok_steps [OF rf_ok_new, of ops code] to_vec_render
  by (simp add: data_new_def)

text \<open>
  C25: \<open>CodeFix::apply\<close> is atomic. If all changes of a suggestion are accepted, exactly these
  are added and committed; if one is rejected, the error is returned and the state is the one
  before the call, with none of the earlier changes of the same suggestion left behind.
\<close>

theorem code_fix_apply_atomic:
  assumes "settled (cf_data f)"
  shows "case code_fix_apply s f of
      (f', None) \<Rightarrow> settled (cf_data f') \<and> rf_original (cf_data f') = rf_original (cf_data f) \<and>
        cf_modified f' \<and> mset (map change (rf_parts (cf_data f'))) =
          mset (map change (rf_parts (cf_data f))) + mset (requested s)
    | (f', Some e) \<Rightarrow> f' = f"
  by (rule apply_whole [OF assms])

definition hello_fix :: "suggestion" where
  "hello_fix = \<lparr>sg_message = ''fix'', sg_snippets = [], sg_solutions = [\<lparr>so_message = ''s'',
     so_replacements = [
       \<lparr>rp_snippet = \<lparr>sn_file_name = ''f'', sn_line_range = ((1, 1), (1, 2)), sn_range = (0, 1)\<rparr>,
        rp_replacement = [72]\<rparr>,
       \<lparr>rp_snippet = \<lparr>sn_file_name = ''f'', sn_line_range = ((1, 1), (1, 2)), sn_range = (0, 5)\<rparr>,
        rp_replacement = [88]\<rparr>]\<rparr>]\<rparr>"

theorem code_fix_apply_atomic_witness:
  "code_fix_apply hello_fix (code_fix_new hello) =
     (code_fix_new hello, Some (AlreadyReplaced (0, 5) False))"
proof -
  have "settled (cf_data (code_fix_new hello))"
    by (simp add: settled_def code_fix_new_def rf_ok_new) (simp add: data_new_def)
  from code_fix_apply_atomic [OF this, of hello_fix]
  have "snd (code_fix_apply hello_fix (code_fix_new hello)) = Some e \<Longrightarrow>
      fst (code_fix_apply hello_fix (code_fix_new hello)) = code_fix_new hello" for e
    by (auto split: prod.splits)
  moreover have "snd (code_fix_apply hello_fix (code_fix_new hello)) = Some (AlreadyReplaced (0, 5) False)"
    by code_simp
  ultimately show ?thesis by (metis prod.collapse)
qed

text \<open>
  C9: \<open>apply_suggestions\<close> never panics. The text it returns is valid UTF-8 and is the reading
  of the original code with exactly the changes of some of the suggestions, taken from last to
  first, each of them applied completely, no two changes in conflict.
\<close>

theorem apply_suggestions_whole:
  "case apply_suggestions code ss of
      Ok out \<Rightarrow> utf8_valid out \<and> (\<exists>acc ps. subseq acc (rev ss) \<and> spans_ok (length code) ps \<and>
        mset (map change ps) = mset (concat (map requested acc)) \<and> out = render code ps)
    | Err _ \<Rightarrow> True
    | _ \<Rightarrow> False"
proof -
  have "accepted code [] (code_fix_new code)"
    by (simp add: accepted_def code_fix_new_def settled_def rf_ok_new) (simp add: data_new_def)
  from apply_loop [OF this, of "rev ss"]
  have "owp False (ofold apply_or_skip (rev ss) (code_fix_new code))
      (\<lambda>f. owp False (code_fix_finish f) (\<lambda>out. utf8_valid out \<and>
        (\<exists>acc ps. subseq acc (rev ss) \<and> spans_ok (length code) ps \<and>
          mset (map change ps) = mset (concat (map requested acc)) \<and> out = render code ps)) (\<lambda>_. True)) (\<lambda>_. True)"
  proof (rule owp_mono)
    fix f
    assume "\<exists>later. subseq later (rev ss) \<and> accepted code ([] @ later) f"
    then obtain acc where acc: "subseq acc (rev ss)" "accepted code acc f" by auto
    then have ok: "rf_ok (cf_data f)" "rf_original (cf_data f) = code"
      by (simp_all add: accepted_def settled_def)
    with acc show "owp False (code_fix_finish f) (\<lambda>out. utf8_valid out \<and>
        (\<exists>acc ps. subseq acc (rev ss) \<and> spans_ok (length code) ps \<and>
          mset (map change ps) = mset (concat (map requested acc)) \<and> out = render code ps)) (\<lambda>_. True)"
      by (auto simp: code_fix_finish_def to_vec_render accepted_def rf_ok_def)
  qed simp
  then have "owp False (apply_suggestions code ss) (\<lambda>out. utf8_valid out \<and>
      (\<exists>acc ps. subseq acc (rev ss) \<and> spans_ok (length code) ps \<and>
        mset (map change ps) = mset (concat (map requested acc)) \<and> out = render code ps)) (\<lambda>_. True)"
    unfolding apply_suggestions_def by (rule owp_bind)
  then show ?thesis by (cases "apply_suggestions code ss") simp_all
qed

end
