(* ===== verification/EditDistance.thy ===== *)
theory EditDistance
  imports Names
begin

section \<open>Edit distance and suggestions\<close>

text \<open>
  The model of \<open>src/util/edit_distance.rs\<close>: the distance with its early exits, the stripping
  of common ends and the three rotating rows of the table, and \<open>closest\<close>. Strings are ASCII.
  The specification is an alignment of the two words: the least number of insertions, deletions,
  substitutions and exchanges of neighbours that turns one into the other, where no character is
  edited twice.
\<close>

subsection \<open>The code\<close>

definition to_lowercase :: "string \<Rightarrow> string" where
  "to_lowercase s = map ascii_lower s"

fun strip_front :: "'c list \<Rightarrow> 'c list \<Rightarrow> 'c list \<times> 'c list" where
  "strip_front (x # xs) (y # ys) = (if x \<noteq> y then (x # xs, y # ys) else strip_front xs ys)"
| "strip_front xs ys = (xs, ys)"

function strip_back :: "'c list \<Rightarrow> 'c list \<Rightarrow> 'c list \<times> 'c list" where
  "strip_back a b =
     (if a = [] \<or> b = [] then (a, b)
      else if last a \<noteq> last b then (a, b)
      else strip_back (butlast a) (butlast b))"
  by auto
termination by (relation "measure (\<lambda>(a, b). length a)") (auto simp: length_butlast)

declare strip_back.simps [simp del]

text \<open>One assignment \<open>current[j] = ...\<close> of the inner loop, and the row it fills.\<close>

definition dist_cell ::
  "'c list \<Rightarrow> 'c list \<Rightarrow> nat list \<Rightarrow> nat list \<Rightarrow> nat \<Rightarrow> nat \<Rightarrow> nat list \<Rightarrow> nat" where
  "dist_cell a b prev_prev prev i j current =
     (let substitution_cost = (if a ! (i - 1) = b ! (j - 1) then 0 else 1);
          best = min (prev ! j + 1) (min (current ! (j - 1) + 1) (prev ! (j - 1) + substitution_cost))
      in if i > 1 \<and> j > 1 \<and> a ! (i - 1) = b ! (j - 2) \<and> a ! (i - 2) = b ! (j - 1)
         then min best (prev_prev ! (j - 2) + 1)
         else best)"

definition dist_row :: "'c list \<Rightarrow> 'c list \<Rightarrow> nat list \<Rightarrow> nat list \<Rightarrow> nat \<Rightarrow> nat list \<Rightarrow> nat list" where
  "dist_row a b prev_prev prev i current =
     fold (\<lambda>j current. current[j := dist_cell a b prev_prev prev i j current])
       [1..<Suc (length b)] (current[0 := i])"

definition dist_rows :: "'c list \<Rightarrow> 'c list \<Rightarrow> nat list \<times> nat list \<times> nat list" where
  "dist_rows a b =
     fold (\<lambda>i (prev_prev, prev, current). (prev, dist_row a b prev_prev prev i current, prev_prev))
       [1..<Suc (length a)]
       (replicate (length b + 1) (2 ^ 64 - 1), [0..<length b + 1], replicate (length b + 1) 0)"

definition edit_distance :: "string \<Rightarrow> string \<Rightarrow> nat \<Rightarrow> nat option" where
  "edit_distance a b limit =
     (let a = to_lowercase a; b = to_lowercase b;
          (a, b) = (if length a < length b then (b, a) else (a, b));
          min_dist = length a - length b
      in if min_dist > limit then None
         else
           let (a, b) = strip_front a b; (a, b) = strip_back a b in
           if length b = 0 then Some min_dist
           else
             let distance = fst (snd (dist_rows a b)) ! length b in
             if distance \<le> limit then Some distance else None)"

text \<open>\<open>min_by_key\<close> keeps the first of several minimal elements.\<close>

fun min_by_key :: "('a \<Rightarrow> nat) \<Rightarrow> 'a list \<Rightarrow> 'a option" where
  "min_by_key f [] = None"
| "min_by_key f (x # xs) =
     (case min_by_key f xs of None \<Rightarrow> Some x | Some y \<Rightarrow> if f x \<le> f y then Some x else Some y)"

definition closest :: "string \<Rightarrow> 'a list \<Rightarrow> ('a \<Rightarrow> string) \<Rightarrow> 'a option" where
  "closest choice xs key =
     map_option snd (min_by_key fst
       (List.map_filter (\<lambda>e. map_option (\<lambda>d. (d, e)) (edit_distance choice (key e) 3)) xs))"

subsection \<open>The specification\<close>

inductive align :: "'c list \<Rightarrow> 'c list \<Rightarrow> nat \<Rightarrow> bool" where
  align_Nil: "align [] [] 0"
| align_keep: "align a b n \<Longrightarrow> align (x # a) (x # b) n"
| align_subst: "align a b n \<Longrightarrow> align (x # a) (y # b) (Suc n)"
| align_delete: "align a b n \<Longrightarrow> align (x # a) b (Suc n)"
| align_insert: "align a b n \<Longrightarrow> align a (y # b) (Suc n)"
| align_swap: "align a b n \<Longrightarrow> align (x # y # a) (y # x # b) (Suc n)"

definition is_distance :: "'c list \<Rightarrow> 'c list \<Rightarrow> nat \<Rightarrow> bool" where
  "is_distance a b n \<longleftrightarrow> align a b n \<and> (\<forall>k. align a b k \<longrightarrow> n \<le> k)"

text \<open>The recurrence that the table evaluates.\<close>

fun osa :: "'c list \<Rightarrow> 'c list \<Rightarrow> nat" where
  "osa [] ys = length ys"
| "osa (x # xs) [] = Suc (length xs)"
| "osa (x # xs) (y # ys) =
     (let best = min (osa xs (y # ys) + 1) (min (osa (x # xs) ys + 1) (osa xs ys + (if x = y then 0 else 1)))
      in case (xs, ys) of
           (x' # xs', y' # ys') \<Rightarrow> if x = y' \<and> x' = y then min best (osa xs' ys' + 1) else best
         | _ \<Rightarrow> best)"

lemma osa_Nil2 [simp]: "osa xs [] = length xs"
  by (cases xs) auto

declare osa.simps(3) [simp del]

lemma osa_best: "osa (x # xs) (y # ys) \<le>
    min (osa xs (y # ys) + 1) (min (osa (x # xs) ys + 1) (osa xs ys + (if x = y then 0 else 1)))"
proof -
  have "(case (xs, ys) of
      (x' # xs', y' # ys') \<Rightarrow> if x = y' \<and> x' = y then min best (osa xs' ys' + 1) else best
    | _ \<Rightarrow> best) \<le> best" for best
    by (simp split: list.split)
  then show ?thesis
    unfolding osa.simps(3) [of x xs y ys] Let_def .
qed

lemma osa_delete: "osa (x # xs) ys \<le> osa xs ys + 1"
  using osa_best [of x xs] by (cases ys) auto

lemma osa_insert: "osa xs (y # ys) \<le> osa xs ys + 1"
  using osa_best [of _ _ y ys] by (cases xs) auto

lemma osa_subst: "osa (x # xs) (y # ys) \<le> osa xs ys + (if x = y then 0 else 1)"
  using osa_best [of x xs y ys] by (simp only: min.bounded_iff)

lemma osa_swap: "osa (x # y # xs) (y # x # ys) \<le> osa xs ys + 1"
  unfolding osa.simps(3) [of x "y # xs" y "x # ys"] Let_def by (simp only: prod.case list.case) simp

lemma osa_cases:
  obtains "osa (x # xs) (y # ys) = osa xs (y # ys) + 1"
  | "osa (x # xs) (y # ys) = osa (x # xs) ys + 1"
  | "osa (x # xs) (y # ys) = osa xs ys + (if x = y then 0 else 1)"
  | xs' ys' where "xs = y # xs'" "ys = x # ys'" "osa (x # xs) (y # ys) = osa xs' ys' + 1"
proof -
  let ?best = "min (osa xs (y # ys) + 1) (min (osa (x # xs) ys + 1) (osa xs ys + (if x = y then 0 else 1)))"
  have "osa (x # xs) (y # ys) = ?best \<or>
      (\<exists>xs' ys'. xs = y # xs' \<and> ys = x # ys' \<and> osa (x # xs) (y # ys) = osa xs' ys' + 1)"
  proof -
    have "(case (xs, ys) of
        (x' # xs', y' # ys') \<Rightarrow> if x = y' \<and> x' = y then min best (osa xs' ys' + 1) else best
      | _ \<Rightarrow> best) = v \<Longrightarrow> v = best \<or> (\<exists>xs' ys'. xs = y # xs' \<and> ys = x # ys' \<and> v = osa xs' ys' + 1)" for best v
      by (auto split: list.splits if_splits simp: min_def)
    then show ?thesis
      unfolding osa.simps(3) [of x xs y ys] Let_def by blast
  qed
  moreover have "?best \<in> {osa xs (y # ys) + 1, osa (x # xs) ys + 1, osa xs ys + (if x = y then 0 else 1)}"
    by (simp add: min_def)
  ultimately show thesis
    using that by (metis empty_iff insert_iff)
qed

lemma align_lengths: "align [] ys (length ys)" "align xs [] (length xs)"
proof -
  show "align [] ys (length ys)"
    by (induction ys) (auto intro: align.intros)
  show "align xs [] (length xs)"
    by (induction xs) (auto intro: align.intros)
qed

lemma align_osa: "align xs ys (osa xs ys)"
proof (induction xs ys rule: osa.induct)
  case (3 x xs y ys)
  show ?case
  proof (cases rule: osa_cases [of x xs y ys])
    case 1
    then show ?thesis using 3 by (simp add: align_delete)
  next
    case 2
    then show ?thesis using 3 by (simp add: align_insert)
  next
    case alt: 3
    show ?thesis
      using 3 unfolding alt by (auto intro: align_keep align_subst)
  next
    case (4 xs' ys')
    then have "align xs' ys' (osa xs' ys')" using 3 by auto
    then show ?thesis using 4 by (simp add: align_swap)
  qed
next
  case (2 x xs)
  then show ?case using align_lengths(2) [of "x # xs"] by simp
qed (simp add: align_lengths)

lemma osa_least: "align xs ys n \<Longrightarrow> osa xs ys \<le> n"
proof (induction rule: align.induct)
  case (align_keep a b n x)
  then show ?case using osa_subst [of x a x b] by simp
next
  case (align_subst a b n x y)
  then show ?case using osa_subst [of x a y b] by (simp split: if_splits)
next
  case (align_delete a b n x)
  then show ?case using osa_delete [of x a b] by simp
next
  case (align_insert a b n y)
  then show ?case using osa_insert [of a y b] by simp
next
  case (align_swap a b n x y)
  then show ?case using osa_swap [of x y a b] by simp
qed simp

lemma osa_iff: "osa xs ys = n \<longleftrightarrow> is_distance xs ys n"
  using align_osa osa_least unfolding is_distance_def by (metis le_antisym)

subsection \<open>Symmetry, reversal and common ends\<close>

lemma align_sym: "align a b n \<Longrightarrow> align b a n"
  by (induction rule: align.induct) (auto intro: align.intros)

lemma align_append: "align a b n \<Longrightarrow> align c d m \<Longrightarrow> align (a @ c) (b @ d) (n + m)"
  by (induction rule: align.induct) (auto intro: align.intros)

lemma align_rev: "align a b n \<Longrightarrow> align (rev a) (rev b) n"
proof (induction rule: align.induct)
  case (align_keep a b n x)
  then show ?case
    using align_append [OF align_keep.IH align.align_keep [OF align.align_Nil, of x]] by simp
next
  case (align_subst a b n x y)
  then show ?case
    using align_append [OF align_subst.IH align.align_subst [OF align.align_Nil, of x y]] by simp
next
  case (align_delete a b n x)
  then show ?case
    using align_append [OF align_delete.IH align.align_delete [OF align.align_Nil, of x]] by simp
next
  case (align_insert a b n y)
  then show ?case
    using align_append [OF align_insert.IH align.align_insert [OF align.align_Nil, of y]] by simp
next
  case (align_swap a b n x y)
  then show ?case
    using align_append [OF align_swap.IH align.align_swap [OF align.align_Nil, of y x]] by simp
qed (simp add: align_Nil)

lemma align_length: "align a b n \<Longrightarrow> length a \<le> length b + n \<and> length b \<le> length a + n"
  by (induction rule: align.induct) auto

lemma osa_sym: "osa a b = osa b a"
  by (meson align_osa align_sym le_antisym osa_least)

lemma osa_rev: "osa (rev a) (rev b) = osa a b"
  by (metis align_osa align_rev le_antisym osa_least rev_rev_ident)

lemma osa_length: "length a - length b \<le> osa a b"
  using align_length [OF align_osa [of a b]] by linarith

lemma osa_insert_le: "osa xs ys \<le> osa xs (y # ys) + 1"
proof (induction xs arbitrary: y ys)
  case (Cons x xs)
  show ?case
  proof (cases rule: osa_cases [of x xs y ys])
    case 1
    then show ?thesis using osa_delete [of x xs ys] Cons.IH [of ys y] by simp
  next
    case 3
    then show ?thesis using osa_delete [of x xs ys] by simp
  next
    case (4 xs' ys')
    then show ?thesis
      using osa_subst [of x xs x ys'] osa_delete [of y xs' ys'] by simp
  qed simp
qed simp

lemma osa_delete_le: "osa xs ys \<le> osa (x # xs) ys + 1"
  using osa_insert_le [of ys xs x] by (simp add: osa_sym)

lemma osa_same_front: "osa (c # a) (c # b) = osa a b"
proof (rule le_antisym)
  show "osa (c # a) (c # b) \<le> osa a b"
    using osa_subst [of c a c b] by simp
  show "osa a b \<le> osa (c # a) (c # b)"
  proof (cases rule: osa_cases [of c a c b])
    case 1
    then show ?thesis using osa_insert_le [of a b c] by simp
  next
    case 2
    then show ?thesis using osa_delete_le [of a b c] by simp
  next
    case (4 xs' ys')
    then show ?thesis using osa_subst [of c xs' c ys'] by simp
  qed simp
qed

lemma osa_same_back: "osa (a @ [c]) (b @ [c]) = osa a b"
  using osa_same_front [of c "rev a" "rev b"] osa_rev [of "a @ [c]" "b @ [c]"] by (simp add: osa_rev)

lemma strip_front_osa:
  "strip_front a b = (a', b') \<Longrightarrow> osa a' b' = osa a b \<and> length a' + length b = length a + length b'"
  by (induction a b arbitrary: a' b' rule: strip_front.induct) (auto simp: osa_same_front split: if_splits)

lemma strip_back_osa:
  "strip_back a b = (a', b') \<Longrightarrow> osa a' b' = osa a b \<and> length a' + length b = length a + length b'"
proof (induction a b arbitrary: a' b' rule: strip_back.induct)
  case (1 a b)
  show ?case
  proof (cases "a = [] \<or> b = [] \<or> last a \<noteq> last b")
    case True
    with "1.prems" show ?thesis by (auto simp: strip_back.simps [of a b] split: if_splits)
  next
    case False
    then have ne: "a \<noteq> []" "b \<noteq> []" "last a = last b" by auto
    then have "osa a' b' = osa (butlast a) (butlast b) \<and>
        length a' + length (butlast b) = length (butlast a) + length b'"
      using "1.IH" "1.prems" by (simp add: strip_back.simps [of a b])
    moreover have "osa a b = osa (butlast a) (butlast b)"
      using ne osa_same_back [of "butlast a" "last a" "butlast b"]
      by (metis append_butlast_last_id)
    moreover have "length a = Suc (length (butlast a))" "length b = Suc (length (butlast b))"
      using ne by (metis length_append_singleton append_butlast_last_id)+
    ultimately show ?thesis by linarith
  qed
qed

subsection \<open>The table\<close>

definition dist_at :: "'c list \<Rightarrow> 'c list \<Rightarrow> nat \<Rightarrow> nat \<Rightarrow> nat" where
  "dist_at a b i j = osa (rev (take i a)) (rev (take j b))"

definition true_row :: "'c list \<Rightarrow> 'c list \<Rightarrow> nat \<Rightarrow> nat list" where
  "true_row a b i = map (dist_at a b i) [0..<length b + 1]"

lemma rev_take_Suc: "i < length a \<Longrightarrow> rev (take (Suc i) a) = a ! i # rev (take i a)"
  by (simp add: take_Suc_conv_app_nth)

lemma true_row_nth: "j \<le> length b \<Longrightarrow> true_row a b i ! j = dist_at a b i j"
  by (simp add: true_row_def del: upt_Suc)

lemma dist_at_step:
  assumes "i < length a" and "j < length b"
  shows "dist_at a b (Suc i) (Suc j) =
    (let best = min (dist_at a b i (Suc j) + 1) (min (dist_at a b (Suc i) j + 1)
       (dist_at a b i j + (if a ! i = b ! j then 0 else 1)))
     in if 0 < i \<and> 0 < j \<and> a ! i = b ! (j - 1) \<and> a ! (i - 1) = b ! j
        then min best (dist_at a b (i - 1) (j - 1) + 1) else best)"
proof -
  have step: "dist_at a b (Suc i) (Suc j) =
    (let best = min (dist_at a b i (Suc j) + 1) (min (dist_at a b (Suc i) j + 1)
       (dist_at a b i j + (if a ! i = b ! j then 0 else 1)))
     in case (rev (take i a), rev (take j b)) of
           (x' # xs', y' # ys') \<Rightarrow> if a ! i = y' \<and> x' = b ! j then min best (osa xs' ys' + 1) else best
         | _ \<Rightarrow> best)"
    unfolding dist_at_def rev_take_Suc [OF assms(1)] rev_take_Suc [OF assms(2)] by (rule osa.simps(3))
  show ?thesis
  proof (cases "0 < i \<and> 0 < j")
    case True
    then obtain i' j' where ij: "i = Suc i'" "j = Suc j'" by (metis Suc_pred)
    have "rev (take i a) = a ! i' # rev (take i' a)" "rev (take j b) = b ! j' # rev (take j' b)"
      using assms by (simp_all add: ij rev_take_Suc del: take_Suc)
    then show ?thesis
      unfolding step Let_def by (simp add: ij dist_at_def)
  next
    case False
    then have "rev (take i a) = [] \<or> rev (take j b) = []" by auto
    then have "(case (rev (take i a), rev (take j b)) of
           (x' # xs', y' # ys') \<Rightarrow> if a ! i = y' \<and> x' = b ! j then min best (osa xs' ys' + 1) else best
         | _ \<Rightarrow> best) = best" for best
      by (auto split: list.split)
    then show ?thesis
      unfolding step Let_def using False by auto
  qed
qed

lemma dist_cell_true:
  assumes "1 \<le> i" "i \<le> length a" "1 \<le> j" "j \<le> length b"
    and "prev = true_row a b (i - 1)" and "1 < i \<Longrightarrow> prev_prev = true_row a b (i - 2)"
    and "current ! (j - 1) = dist_at a b i (j - 1)"
  shows "dist_cell a b prev_prev prev i j current = dist_at a b i j"
proof -
  obtain i' j' where ij: "i = Suc i'" "j = Suc j'"
    using assms(1,3) by (metis Suc_pred less_eq_Suc_le One_nat_def)
  have pp: "prev_prev ! (j' - 1) = dist_at a b (i' - 1) (j' - 1)" if "0 < i'"
    using assms(4,6) that by (simp add: ij true_row_nth)
  have "prev ! j = dist_at a b i' (Suc j')" "prev ! j' = dist_at a b i' j'"
    using assms(4,5) by (simp_all add: ij true_row_nth)
  moreover have "i' < length a" "j' < length b" using assms(2,4) by (simp_all add: ij)
  ultimately show ?thesis
    using assms(7) pp unfolding ij dist_at_step [OF \<open>i' < length a\<close> \<open>j' < length b\<close>] dist_cell_def
    by (simp add: Let_def ij numeral_2_eq_2)
qed

lemma dist_row_true:
  assumes "1 \<le> i" "i \<le> length a" "prev = true_row a b (i - 1)" "1 < i \<Longrightarrow> prev_prev = true_row a b (i - 2)"
    and "length current = length b + 1"
  shows "dist_row a b prev_prev prev i current = true_row a b i"
proof -
  let ?f = "\<lambda>j current. current[j := dist_cell a b prev_prev prev i j current]"
  have inv: "length (fold ?f [1..<Suc k] (current[0 := i])) = length b + 1 \<and>
      (\<forall>j \<le> k. fold ?f [1..<Suc k] (current[0 := i]) ! j = dist_at a b i j)" if "k \<le> length b" for k
    using that
  proof (induction k)
    case 0
    then show ?case using assms(2,5) by (simp add: dist_at_def)
  next
    case (Suc k)
    let ?r = "fold ?f [1..<Suc k] (current[0 := i])"
    have r: "length ?r = length b + 1" "\<forall>j \<le> k. ?r ! j = dist_at a b i j"
      using Suc by auto
    have "fold ?f [1..<Suc (Suc k)] (current[0 := i]) = ?r[Suc k := dist_cell a b prev_prev prev i (Suc k) ?r]"
      by simp
    moreover have "dist_cell a b prev_prev prev i (Suc k) ?r = dist_at a b i (Suc k)"
      using assms Suc.prems r by (intro dist_cell_true) auto
    ultimately show ?case
      using r Suc.prems by (auto simp: nth_list_update le_Suc_eq)
  qed
  show ?thesis
    using inv [of "length b"] unfolding dist_row_def
    by (intro nth_equalityI) (simp_all add: true_row_def del: upt_Suc)
qed

lemma dist_rows_true: "fst (snd (dist_rows a b)) ! length b = osa a b"
proof -
  let ?f = "\<lambda>i (prev_prev, prev, current). (prev, dist_row a b prev_prev prev i current, prev_prev)"
  let ?s = "(replicate (length b + 1) (2 ^ 64 - 1), [0..<length b + 1], replicate (length b + 1) 0)"
  have inv: "\<exists>pp cur. fold ?f [1..<Suc k] ?s = (pp, true_row a b k, cur) \<and>
      length pp = length b + 1 \<and> length cur = length b + 1 \<and> (0 < k \<longrightarrow> pp = true_row a b (k - 1))"
    if "k \<le> length a" for k
    using that
  proof (induction k)
    case 0
    have "true_row a b 0 = [0..<length b + 1]"
      by (intro nth_equalityI) (auto simp: true_row_def dist_at_def simp del: upt_Suc)
    then show ?case by simp
  next
    case (Suc k)
    then obtain pp cur where k: "fold ?f [1..<Suc k] ?s = (pp, true_row a b k, cur)"
        "length pp = length b + 1" "length cur = length b + 1" "0 < k \<longrightarrow> pp = true_row a b (k - 1)"
      by auto
    have "fold ?f [1..<Suc (Suc k)] ?s = ?f (Suc k) (fold ?f [1..<Suc k] ?s)"
      by simp
    also have "\<dots> = (true_row a b k, true_row a b (Suc k), pp)"
      using k Suc.prems by (simp add: dist_row_true)
    finally show ?case using k by (simp add: true_row_def)
  qed
  then have "fst (snd (dist_rows a b)) = true_row a b (length a)"
    unfolding dist_rows_def using inv [of "length a"] by auto
  then show ?thesis by (simp add: true_row_nth dist_at_def osa_rev)
qed

subsection \<open>The properties\<close>

lemma edit_distance_osa:
  "edit_distance a b limit =
     (let d = osa (to_lowercase a) (to_lowercase b) in if d \<le> limit then Some d else None)"
proof -
  define x where "x = (if length (to_lowercase a) < length (to_lowercase b) then to_lowercase b else to_lowercase a)"
  define y where "y = (if length (to_lowercase a) < length (to_lowercase b) then to_lowercase a else to_lowercase b)"
  have xy: "(if length (to_lowercase a) < length (to_lowercase b) then (to_lowercase b, to_lowercase a)
      else (to_lowercase a, to_lowercase b)) = (x, y)"
    by (simp add: x_def y_def)
  have osa: "osa (to_lowercase a) (to_lowercase b) = osa x y"
    by (simp add: x_def y_def osa_sym)
  have len: "length y \<le> length x" by (simp add: x_def y_def)
  obtain x1 y1 where f: "strip_front x y = (x1, y1)" by fastforce
  obtain x2 y2 where g: "strip_back x1 y1 = (x2, y2)" by fastforce
  have strip: "osa x2 y2 = osa x y" "length x2 + length y = length x + length y2"
    using strip_front_osa [OF f] strip_back_osa [OF g] by auto
  have "edit_distance a b limit =
      (if length x - length y > limit then None
       else if length y2 = 0 then Some (length x - length y)
       else if osa x y \<le> limit then Some (osa x y) else None)"
    unfolding edit_distance_def Let_def xy prod.case f g dist_rows_true strip(1) ..
  moreover have "osa x y = length x - length y" if "length y2 = 0"
    using strip that len by simp
  ultimately show ?thesis
    using osa_length [of x y] by (simp add: osa Let_def)
qed

text \<open>
  C13: The edit distance is the least number of insertions, deletions, substitutions and exchanges
  of neighbours that aligns the two words, compared in lower case: \<open>edit_distance\<close> returns it
  exactly if it is at most the limit, and nothing exactly if no alignment stays within the limit.
  The early exit on the length difference, the stripping of common prefixes and suffixes, the
  exchange of the two words and the reuse of three row buffers do not change the value.
\<close>

theorem edit_distance_least:
  "(edit_distance a b limit = Some n \<longleftrightarrow>
      is_distance (to_lowercase a) (to_lowercase b) n \<and> n \<le> limit) \<and>
   (edit_distance a b limit = None \<longleftrightarrow>
      \<not> (\<exists>n. align (to_lowercase a) (to_lowercase b) n \<and> n \<le> limit))"
proof
  show "edit_distance a b limit = Some n \<longleftrightarrow>
      is_distance (to_lowercase a) (to_lowercase b) n \<and> n \<le> limit"
    unfolding edit_distance_osa Let_def by (auto simp: osa_iff [symmetric])
  show "edit_distance a b limit = None \<longleftrightarrow>
      \<not> (\<exists>n. align (to_lowercase a) (to_lowercase b) n \<and> n \<le> limit)"
    unfolding edit_distance_osa Let_def
    using align_osa [of "to_lowercase a" "to_lowercase b"] osa_least [of "to_lowercase a" "to_lowercase b"]
    by (auto split: if_splits intro: le_trans)
qed

text \<open>The suggestion is the first of the candidates with the least distance, at most three.\<close>

lemma min_by_key_first:
  "min_by_key f xs = Some x \<Longrightarrow>
     \<exists>ys zs. xs = ys @ x # zs \<and> (\<forall>y \<in> set ys. f x < f y) \<and> (\<forall>z \<in> set zs. f x \<le> f z)"
proof (induction xs arbitrary: x)
  case (Cons a xs)
  show ?case
  proof (cases "min_by_key f xs")
    case None
    then have "xs = []" by (cases xs) (auto split: option.splits if_splits)
    with Cons.prems show ?thesis by (intro exI [of _ "[]"]) simp
  next
    case (Some b)
    then obtain ys zs where b: "xs = ys @ b # zs" "\<forall>y \<in> set ys. f b < f y" "\<forall>z \<in> set zs. f b \<le> f z"
      using Cons.IH by blast
    show ?thesis
    proof (cases "f a \<le> f b")
      case True
      then have "x = a" "\<forall>z \<in> set xs. f a \<le> f z"
        using Cons.prems Some b by fastforce+
      then show ?thesis by (intro exI [of _ "[]"] exI [of _ xs]) simp
    next
      case False
      then have "x = b" using Cons.prems Some by simp
      with False b show ?thesis by (intro exI [of _ "a # ys"] exI [of _ zs]) simp
    qed
  qed
qed simp

lemma closest_nearest:
  assumes "closest choice xs key = Some e"
  shows "\<exists>d. e \<in> set xs \<and> edit_distance choice (key e) 3 = Some d \<and>
    (\<forall>e' \<in> set xs. \<forall>d'. edit_distance choice (key e') 3 = Some d' \<longrightarrow> d \<le> d')"
proof -
  let ?ys = "List.map_filter (\<lambda>e. map_option (\<lambda>d. (d, e)) (edit_distance choice (key e) 3)) xs"
  obtain d where d: "min_by_key fst ?ys = Some (d, e)"
    using assms by (auto simp: closest_def)
  have mem: "(d', e') \<in> set ?ys \<longleftrightarrow> e' \<in> set xs \<and> edit_distance choice (key e') 3 = Some d'" for d' e'
    by (force simp: map_filter_def)
  from min_by_key_first [OF d] have "(d, e) \<in> set ?ys" "\<forall>p \<in> set ?ys. d \<le> fst p"
    by fastforce+
  then have "e \<in> set xs" "edit_distance choice (key e) 3 = Some d"
      "\<And>e' d'. e' \<in> set xs \<Longrightarrow> edit_distance choice (key e') 3 = Some d' \<Longrightarrow> d \<le> d'"
    using mem by fastforce+
  then show ?thesis by blast
qed

end
