(* ===== verification/WorkQueue.thy ===== *)
theory WorkQueue
  imports Prelude
begin

section \<open>The queue shared by worker threads\<close>

text \<open>
  The model of \<open>src/util/queue.rs\<close>, a bounded queue guarded by a mutex with two condition
  variables, as a step relation: one step is what a thread does between taking and giving up the
  lock. A thread that calls \<open>wait_while\<close> or \<open>wait_timeout_while\<close> first tests the condition,
  waits while it holds, and tests it again after every wake-up. \<open>notify_one\<close> wakes one waiting
  thread if there is one, and a woken thread gets the lock at some later step; other threads can
  come first. \<open>push\<close> gives up the lock at the end of the statement that appends the item, so
  its \<open>notify_one\<close> is a second step (\<open>Notifying\<close>); the other operations notify while they
  hold the lock. Wake-ups without a notification and the end of the timeout of \<open>pop\<close> are steps of
  their own. Two history fields record what was put in and taken out.

  The lemmas show that the queue hands out every item once and in order, and that no wake-up is
  lost: threads stay asleep only while their condition holds or enough others are on their way.
\<close>

subsection \<open>Threads and states\<close>

datatype 'a pc = Idle | Notifying | PushWait 'a | PushReady 'a | PopWait | PopReady

record ('t, 'a) queue =
  q_items :: "'a list"
  q_bound :: nat
  q_pc :: "'t \<Rightarrow> 'a pc"
  q_pushed :: "'a list"
  q_popped :: "'a list"

definition queue_new :: "nat \<Rightarrow> ('t, 'a) queue" where
  "queue_new bound = \<lparr>q_items = [], q_bound = bound, q_pc = (\<lambda>_. Idle), q_pushed = [], q_popped = []\<rparr>"

fun push_waiting :: "'a pc \<Rightarrow> bool" where
  "push_waiting (PushWait _) = True"
| "push_waiting _ = False"

fun push_ready :: "'a pc \<Rightarrow> bool" where
  "push_ready (PushReady _) = True"
| "push_ready _ = False"

fun wake :: "'a pc \<Rightarrow> 'a pc" where
  "wake (PushWait x) = PushReady x"
| "wake PopWait = PopReady"
| "wake p = p"

text \<open>\<open>notify_one\<close> on the condition variable whose waiting threads satisfy \<open>W\<close>.\<close>

inductive notify_one :: "('a pc \<Rightarrow> bool) \<Rightarrow> ('t \<Rightarrow> 'a pc) \<Rightarrow> ('t \<Rightarrow> 'a pc) \<Rightarrow> bool"
  for W :: "'a pc \<Rightarrow> bool" where
  notify_nobody: "\<forall>t. \<not> W (f t) \<Longrightarrow> notify_one W f f"
| notify_some: "W (f t) \<Longrightarrow> notify_one W f (f(t := wake (f t)))"

subsection \<open>The steps\<close>

definition put_item :: "'a \<Rightarrow> ('t, 'a) queue \<Rightarrow> ('t, 'a) queue" where
  "put_item x s = s\<lparr>q_items := q_items s @ [x], q_pushed := q_pushed s @ [x]\<rparr>"

inductive queue_step :: "('t, 'a) queue \<Rightarrow> ('t, 'a) queue \<Rightarrow> bool" where
  push: "q_pc s t = Idle \<Longrightarrow>
    queue_step s (put_item x s\<lparr>q_pc := (q_pc s)(t := Notifying)\<rparr>)"
| push_notify: "q_pc s t = Notifying \<Longrightarrow> notify_one ((=) PopWait) ((q_pc s)(t := Idle)) f \<Longrightarrow>
    queue_step s (s\<lparr>q_pc := f\<rparr>)"
| push_bounded_full: "q_pc s t = Idle \<or> q_pc s t = PushReady x \<Longrightarrow> length (q_items s) \<ge> q_bound s \<Longrightarrow>
    queue_step s (s\<lparr>q_pc := (q_pc s)(t := PushWait x)\<rparr>)"
| push_bounded: "q_pc s t = Idle \<or> q_pc s t = PushReady x \<Longrightarrow> \<not> length (q_items s) \<ge> q_bound s \<Longrightarrow>
    notify_one ((=) PopWait) ((q_pc s)(t := Idle)) f \<Longrightarrow>
    queue_step s (put_item x s\<lparr>q_pc := f\<rparr>)"
| pop_empty: "q_pc s t = Idle \<or> q_pc s t = PopReady \<Longrightarrow> q_items s = [] \<Longrightarrow>
    queue_step s (s\<lparr>q_pc := (q_pc s)(t := PopWait)\<rparr>)"
| pop_timed_out: "q_pc s t = Idle \<or> q_pc s t = PopReady \<Longrightarrow> q_items s = [] \<Longrightarrow>
    queue_step s (s\<lparr>q_pc := (q_pc s)(t := Idle)\<rparr>)"
| pop: "q_pc s t = Idle \<or> q_pc s t = PopReady \<Longrightarrow> q_items s = x # xs \<Longrightarrow>
    (if length xs < q_bound s then notify_one push_waiting ((q_pc s)(t := Idle)) f
     else f = (q_pc s)(t := Idle)) \<Longrightarrow>
    queue_step s (s\<lparr>q_items := xs, q_popped := q_popped s @ [x], q_pc := f\<rparr>)"
| try_pop_all: "q_pc s t = Idle \<Longrightarrow>
    queue_step s (s\<lparr>q_items := [], q_popped := q_popped s @ q_items s,
      q_pc := (\<lambda>u. if push_waiting (q_pc s u) then wake (q_pc s u) else q_pc s u)\<rparr>)"
| wake_up: "push_waiting (q_pc s t) \<or> q_pc s t = PopWait \<Longrightarrow>
    queue_step s (s\<lparr>q_pc := (q_pc s)(t := wake (q_pc s t))\<rparr>)"

inductive queue_reach :: "nat \<Rightarrow> ('t, 'a) queue \<Rightarrow> bool" for bound where
  reach_new: "queue_reach bound (queue_new bound)"
| reach_step: "queue_reach bound s \<Longrightarrow> queue_step s s' \<Longrightarrow> queue_reach bound s'"

subsection \<open>Counting threads\<close>

definition count_pc :: "('a pc \<Rightarrow> bool) \<Rightarrow> ('t::finite \<Rightarrow> 'a pc) \<Rightarrow> nat" where
  "count_pc P f = card {t. P (f t)}"

lemma count_pc_upd:
  "count_pc P (f(t := v)) + (if P (f t) then 1 else 0) = count_pc P f + (if P v then 1 else 0)"
proof -
  have upd: "{u. P ((f(t := v)) u)} = ({u. P (f u)} - {t}) \<union> (if P v then {t} else {})"
    by auto
  have "card ({u. P (f u)} - {t}) + (if P (f t) then 1 else 0) = card {u. P (f u)}"
    using card_Suc_Diff1 [of "{u. P (f u)}" t] by auto
  then show ?thesis
    unfolding count_pc_def upd by (subst card_Un_disjoint) auto
qed

lemma count_pc_zero: "count_pc P f = 0 \<longleftrightarrow> (\<forall>t. \<not> P (f t))"
  by (simp add: count_pc_def)

lemma wake_simps [simp]:
  "\<not> push_waiting (wake p)" "wake p \<noteq> PopWait"
  "push_ready (wake p) \<longleftrightarrow> push_ready p \<or> push_waiting p"
  "wake p = PopReady \<longleftrightarrow> p = PopReady \<or> p = PopWait"
  by (cases p; simp)+

text \<open>What a notification does to the kinds of threads that matter.\<close>

lemma notify_pop_counts:
  assumes "notify_one ((=) PopWait) f f'"
  shows "count_pc push_waiting f' = count_pc push_waiting f \<and> count_pc push_ready f' = count_pc push_ready f \<and>
    count_pc ((=) Notifying) f' = count_pc ((=) Notifying) f \<and>
    count_pc ((=) PopWait) f' \<le> count_pc ((=) PopWait) f \<and>
    (count_pc ((=) PopWait) f' = 0 \<or> count_pc ((=) PopReady) f' = Suc (count_pc ((=) PopReady) f))"
  using assms
proof (cases rule: notify_one.cases)
  case (notify_some t)
  then have "f t = PopWait" "f' = f(t := PopReady)" by auto
  then show ?thesis
    using count_pc_upd [of push_waiting f t PopReady] count_pc_upd [of push_ready f t PopReady]
      count_pc_upd [of "(=) PopReady" f t PopReady] count_pc_upd [of "(=) PopWait" f t PopReady]
      count_pc_upd [of "(=) Notifying" f t PopReady] by simp
qed (simp add: count_pc_zero)

lemma notify_push_counts:
  assumes "notify_one push_waiting f f'"
  shows "count_pc ((=) PopWait) f' = count_pc ((=) PopWait) f \<and>
    count_pc ((=) PopReady) f' = count_pc ((=) PopReady) f \<and>
    count_pc ((=) Notifying) f' = count_pc ((=) Notifying) f \<and>
    count_pc push_waiting f' \<le> count_pc push_waiting f \<and>
    (count_pc push_waiting f' = 0 \<or> count_pc push_ready f' = Suc (count_pc push_ready f))"
  using assms
proof (cases rule: notify_one.cases)
  case (notify_some t)
  then obtain x where "f t = PushWait x" "f' = f(t := PushReady x)" by (cases "f t") auto
  then show ?thesis
    using count_pc_upd [of "(=) PopWait" f t "PushReady x"] count_pc_upd [of push_ready f t "PushReady x"]
      count_pc_upd [of "(=) PopReady" f t "PushReady x"] count_pc_upd [of push_waiting f t "PushReady x"]
      count_pc_upd [of "(=) Notifying" f t "PushReady x"] by simp
qed (simp add: count_pc_zero)

subsection \<open>The invariants\<close>

definition awake_enough :: "('t::finite, 'a) queue \<Rightarrow> bool" where
  "awake_enough s \<longleftrightarrow>
     (count_pc push_waiting (q_pc s) = 0 \<or>
        q_bound s \<le> length (q_items s) + count_pc push_ready (q_pc s)) \<and>
     (count_pc ((=) PopWait) (q_pc s) = 0 \<or>
        length (q_items s) \<le> count_pc ((=) PopReady) (q_pc s) + count_pc ((=) Notifying) (q_pc s))"

text \<open>A thread that changes its own place, with the counts before and after.\<close>

lemma counts_upd:
  fixes f :: "'t::finite \<Rightarrow> 'a pc"
  shows "count_pc push_waiting (f(t := v)) + (if push_waiting (f t) then 1 else 0) =
      count_pc push_waiting f + (if push_waiting v then 1 else 0)"
    and "count_pc push_ready (f(t := v)) + (if push_ready (f t) then 1 else 0) =
      count_pc push_ready f + (if push_ready v then 1 else 0)"
    and "count_pc ((=) PopWait) (f(t := v)) + (if PopWait = f t then 1 else 0) =
      count_pc ((=) PopWait) f + (if PopWait = v then 1 else 0)"
    and "count_pc ((=) PopReady) (f(t := v)) + (if PopReady = f t then 1 else 0) =
      count_pc ((=) PopReady) f + (if PopReady = v then 1 else 0)"
    and "count_pc ((=) Notifying) (f(t := v)) + (if Notifying = f t then 1 else 0) =
      count_pc ((=) Notifying) f + (if Notifying = v then 1 else 0)"
  by (rule count_pc_upd)+

lemma awake_enough_step:
  assumes "queue_step s s'" and "awake_enough s"
  shows "awake_enough s'"
  using assms
proof (cases rule: queue_step.cases)
  case (push t x)
  then show ?thesis
    using counts_upd [of "q_pc s" t Notifying] assms(2) by (auto simp: awake_enough_def put_item_def)
next
  case (push_notify t f)
  then show ?thesis
    using counts_upd [of "q_pc s" t Idle] notify_pop_counts [OF push_notify(3)] assms(2)
    by (auto simp: awake_enough_def)
next
  case (push_bounded_full t x)
  then show ?thesis
    using counts_upd [of "q_pc s" t "PushWait x"] assms(2) by (auto simp: awake_enough_def)
next
  case (push_bounded t x f)
  then show ?thesis
    using counts_upd [of "q_pc s" t Idle] notify_pop_counts [OF push_bounded(4)] assms(2)
    by (auto simp: awake_enough_def put_item_def)
next
  case (pop_empty t)
  then show ?thesis
    using counts_upd [of "q_pc s" t PopWait] assms(2) by (auto simp: awake_enough_def)
next
  case (pop_timed_out t)
  then show ?thesis
    using counts_upd [of "q_pc s" t Idle] assms(2) by (auto simp: awake_enough_def)
next
  case (pop t x xs f)
  show ?thesis
  proof (cases "length xs < q_bound s")
    case True
    then have "notify_one push_waiting ((q_pc s)(t := Idle)) f" using pop by simp
    from notify_push_counts [OF this] show ?thesis
      using pop counts_upd [of "q_pc s" t Idle] assms(2) by (auto simp: awake_enough_def)
  next
    case False
    then have "f = (q_pc s)(t := Idle)" using pop by simp
    then show ?thesis
      using pop False counts_upd [of "q_pc s" t Idle] assms(2) by (auto simp: awake_enough_def)
  qed
next
  case (try_pop_all t)
  have "count_pc push_waiting (q_pc s') = 0"
    by (simp add: try_pop_all count_pc_zero)
  then show ?thesis by (simp add: awake_enough_def try_pop_all)
next
  case (wake_up t)
  then show ?thesis
    using counts_upd [of "q_pc s" t "wake (q_pc s t)"] assms(2)
    by (cases "q_pc s t") (auto simp: awake_enough_def)
qed

lemma fifo_step:
  assumes "queue_step s s'" and "q_pushed s = q_popped s @ q_items s"
  shows "q_pushed s' = q_popped s' @ q_items s' \<and> q_bound s' = q_bound s"
  using assms by (cases rule: queue_step.cases) (auto simp: put_item_def)

lemma queue_invariants:
  "queue_reach bound (s :: ('t::finite, 'a) queue) \<Longrightarrow>
     awake_enough s \<and> q_pushed s = q_popped s @ q_items s \<and> q_bound s = bound"
proof (induction rule: queue_reach.induct)
  case reach_new
  then show ?case by (simp add: awake_enough_def queue_new_def count_pc_def)
next
  case (reach_step s s')
  then show ?case using awake_enough_step fifo_step by metis
qed

subsection \<open>The properties\<close>

text \<open>
  C34: In every state that any interleaving of the threads can reach, the items taken out so far
  followed by the items in the queue are the items put in so far: nothing is lost, nothing is
  handed out twice, and the order is kept, with blocking and non-blocking calls mixed.
\<close>

theorem queue_fifo:
  "queue_reach bound (s :: ('t::finite, 'a) queue) \<Longrightarrow> q_pushed s = q_popped s @ q_items s"
  using queue_invariants by blast

text \<open>A run: one item is put in, then a second thread blocks on the full queue.\<close>

definition one_item :: "(bool, nat) queue" where
  "one_item = queue_new 1\<lparr>q_items := [5], q_pushed := [5]\<rparr>"

definition one_blocked :: "(bool, nat) queue" where
  "one_blocked = one_item\<lparr>q_pc := (\<lambda>_. Idle)(True := PushWait 6)\<rparr>"

lemma one_item_reach: "queue_reach 1 one_item"
proof -
  have "notify_one ((=) PopWait) ((q_pc (queue_new 1 :: (bool, nat) queue))(False := Idle)) (\<lambda>_. Idle)"
    using notify_nobody [of "(=) PopWait" "\<lambda>_ :: bool. Idle :: nat pc"] by (simp add: queue_new_def fun_upd_idem)
  then have "queue_step (queue_new 1) (put_item 5 (queue_new 1 :: (bool, nat) queue)\<lparr>q_pc := \<lambda>_. Idle\<rparr>)"
    by (intro queue_step.push_bounded [where t = False and x = 5]) (simp_all add: queue_new_def)
  then have "queue_step (queue_new 1) one_item"
    by (simp add: one_item_def put_item_def queue_new_def)
  then show ?thesis by (rule reach_step [OF reach_new])
qed

lemma one_blocked_reach: "queue_reach 1 one_blocked"
proof -
  have "queue_step one_item (one_item\<lparr>q_pc := (q_pc one_item)(True := PushWait 6)\<rparr>)"
    by (rule queue_step.push_bounded_full) (simp_all add: one_item_def queue_new_def)
  then have "queue_step one_item one_blocked"
    by (simp add: one_blocked_def) (simp add: one_item_def queue_new_def)
  with one_item_reach show ?thesis by (rule reach_step)
qed

theorem queue_fifo_witness: "q_pushed one_blocked = q_popped one_blocked @ q_items one_blocked"
  by (rule queue_fifo [OF one_blocked_reach])

text \<open>
  C14: No wake-up is lost. In every reachable state in which all woken threads have had their turn
  and no notification of \<open>push\<close> is outstanding, a thread blocked in \<open>push_bounded\<close> faces a full queue and a thread blocked in \<open>pop\<close> an empty
  one; with a positive bound, pushing and popping threads are therefore never asleep together.
\<close>

theorem queue_no_lost_wakeup:
  assumes "queue_reach bound (s :: ('t::finite, 'a) queue)"
    and "\<forall>t. \<not> push_ready (q_pc s t) \<and> q_pc s t \<noteq> PopReady \<and> q_pc s t \<noteq> Notifying"
  shows "((\<exists>t x. q_pc s t = PushWait x) \<longrightarrow> bound \<le> length (q_items s)) \<and>
    ((\<exists>t. q_pc s t = PopWait) \<longrightarrow> q_items s = []) \<and>
    (0 < bound \<longrightarrow> \<not> ((\<exists>t x. q_pc s t = PushWait x) \<and> (\<exists>t. q_pc s t = PopWait)))"
proof -
  have inv: "awake_enough s" "q_bound s = bound"
    using queue_invariants [OF assms(1)] by auto
  have "count_pc push_ready (q_pc s) = 0" "count_pc ((=) PopReady) (q_pc s) = 0"
      "count_pc ((=) Notifying) (q_pc s) = 0"
    unfolding count_pc_zero using assms(2) by metis+
  then have counts: "count_pc push_waiting (q_pc s) = 0 \<or> bound \<le> length (q_items s)"
      "count_pc ((=) PopWait) (q_pc s) = 0 \<or> q_items s = []"
    using inv by (auto simp: awake_enough_def)
  have push: "bound \<le> length (q_items s)" if "\<exists>t x. q_pc s t = PushWait x"
    using that counts(1) unfolding count_pc_zero by (metis push_waiting.simps(1))
  have pop: "q_items s = []" if "\<exists>t. q_pc s t = PopWait"
    using that counts(2) unfolding count_pc_zero by metis
  show ?thesis
    using push pop by (intro conjI impI notI) auto
qed

theorem queue_no_lost_wakeup_witness: "1 \<le> length (q_items one_blocked)"
proof -
  have "\<forall>t. \<not> push_ready (q_pc one_blocked t) \<and> q_pc one_blocked t \<noteq> PopReady \<and>
      q_pc one_blocked t \<noteq> Notifying"
    by (simp add: one_blocked_def)
  moreover have "q_pc one_blocked True = PushWait 6"
    by (simp add: one_blocked_def)
  ultimately show ?thesis
    using queue_no_lost_wakeup [OF one_blocked_reach] by blast
qed

end
