(* ===== verification/Resolve.thy ===== *)
theory Resolve
  imports ResolverContext
begin

section \<open>The resolved graph and its cycle check\<close>

text \<open>
  The model of \<open>src/resolver/resolve.rs\<close> and of \<open>check_cycles\<close> in \<open>src/resolver/mod.rs\<close>.
  \<open>Resolve\<close> is a record with the fields of the struct; a \<open>HashSet<Dependency>\<close> on an edge is a
  list. The recursion of \<open>check_cycles\<close> has a depth bound, the number of packages plus two,
  which is shown to be enough; \<open>visited\<close> and \<open>checked\<close> are sets, \<open>path\<close> is the vector that the
  error message is built from.

  The lemmas show that the check accepts exactly the resolutions whose non-development
  dependencies, followed through replacements, are acyclic.
\<close>

subsection \<open>The record and its operations (\<open>resolve.rs\<close>)\<close>

datatype resolve_version = RV1 | RV2 | RV3 | RV4 | RV5

fun rv_index :: "resolve_version \<Rightarrow> nat" where
  "rv_index RV1 = 1"
| "rv_index RV2 = 2"
| "rv_index RV3 = 3"
| "rv_index RV4 = 4"
| "rv_index RV5 = 5"

lemma rv_index_inj: "rv_index a = rv_index b \<longleftrightarrow> a = b"
  by (cases a; cases b) simp_all

instantiation resolve_version :: linorder
begin

definition less_eq_resolve_version :: "resolve_version \<Rightarrow> resolve_version \<Rightarrow> bool" where
  "less_eq_resolve_version a b \<longleftrightarrow> rv_index a \<le> rv_index b"

definition less_resolve_version :: "resolve_version \<Rightarrow> resolve_version \<Rightarrow> bool" where
  "less_resolve_version a b \<longleftrightarrow> rv_index a < rv_index b"

instance
  by standard (auto simp: less_eq_resolve_version_def less_resolve_version_def rv_index_inj)

end

definition rv_default :: resolve_version where
  "rv_default = RV4"

definition rv_max_stable :: resolve_version where
  "rv_max_stable = RV4"

text \<open>The derived order of \<open>RustVersion\<close>: field by field, an absent field first.\<close>

definition option_key :: "nat option \<Rightarrow> nat" where
  "option_key x = (case x of None \<Rightarrow> 0 | Some n \<Rightarrow> Suc n)"

definition rust_version_ge :: "rust_version \<Rightarrow> rust_version \<Rightarrow> bool" where
  "rust_version_ge a b \<longleftrightarrow>
     rv_major a > rv_major b \<or> rv_major a = rv_major b \<and>
       (option_key (rv_minor a) > option_key (rv_minor b) \<or>
        option_key (rv_minor a) = option_key (rv_minor b) \<and>
          option_key (rv_patch a) \<ge> option_key (rv_patch b))"

definition with_rust_version :: "rust_version option \<Rightarrow> resolve_version" where
  "with_rust_version rust_version =
     (case rust_version of
        None \<Rightarrow> rv_default
      | Some rust_version \<Rightarrow>
          let rust = (\<lambda>major minor. \<lparr>rv_major = major, rv_minor = Some minor, rv_patch = None\<rparr>) in
          if rust_version_ge rust_version (rust 1 83) then RV4
          else if rust_version_ge rust_version (rust 1 53) then RV3
          else if rust_version_ge rust_version (rust 1 41) then RV2
          else RV1)"

record ('p, 'b, 's) resolve =
  rs_graph :: "(('p, 'b, 's) package_id, ('p, 'b, 's) dependency list) graph"
  rs_replacements :: "(('p, 'b, 's) package_id \<times> ('p, 'b, 's) package_id) list"
  rs_reverse_replacements :: "(('p, 'b, 's) package_id \<times> ('p, 'b, 's) package_id) list"
  rs_features :: "(('p, 'b, 's) package_id \<times> string list) list"
  rs_checksums :: "(('p, 'b, 's) package_id \<times> string option) list"
  rs_metadata :: "(string \<times> string) list"
  rs_unused_patches :: "('p, 'b, 's) package_id list"
  rs_public_dependencies :: "(('p, 'b, 's) package_id \<times> ('p, 'b, 's) package_id list) list"
  rs_version :: resolve_version
  rs_summaries :: "(('p, 'b, 's) package_id \<times> ('p, 'b, 's) summary) list"

definition public_deps ::
  "(('p, 'b, 's) package_id, ('p, 'b, 's) dependency list) graph \<Rightarrow> ('p, 'b, 's) package_id \<Rightarrow>
   ('p, 'b, 's) package_id list" where
  "public_deps g p =
     map fst (filter (\<lambda>(_, deps). list_ex (\<lambda>d. dep_kind d = Normal \<and> dep_public d) deps) (graph_edges g p))"

definition resolve_new ::
  "(('p, 'b, 's) package_id, ('p, 'b, 's) dependency list) graph \<Rightarrow>
   (('p, 'b, 's) package_id \<times> ('p, 'b, 's) package_id) list \<Rightarrow>
   (('p, 'b, 's) package_id \<times> string list) list \<Rightarrow> (('p, 'b, 's) package_id \<times> string option) list \<Rightarrow>
   (string \<times> string) list \<Rightarrow> ('p, 'b, 's) package_id list \<Rightarrow> resolve_version \<Rightarrow>
   (('p, 'b, 's) package_id \<times> ('p, 'b, 's) summary) list \<Rightarrow> ('p, 'b, 's) resolve" where
  "resolve_new g replacements features checksums metadata unused_patches version summaries =
     \<lparr>rs_graph = g, rs_replacements = replacements,
      rs_reverse_replacements = fold (\<lambda>(p, r). hm_insert r p) replacements [],
      rs_features = features, rs_checksums = checksums, rs_metadata = metadata,
      rs_unused_patches = unused_patches,
      rs_public_dependencies = map (\<lambda>p. (p, public_deps g p)) (graph_iter g),
      rs_version = version, rs_summaries = summaries\<rparr>"

definition register_used_patches ::
  "('p, 'b, 's) summary list \<Rightarrow> ('p, 'b, 's) resolve \<Rightarrow> ('p, 'b, 's) resolve" where
  "register_used_patches patches r =
     r\<lparr>rs_unused_patches := rs_unused_patches r @
        map sum_package_id (filter (\<lambda>s. \<not> graph_contains (rs_graph r) (sum_package_id s)) patches)\<rparr>"

datatype ('p, 'b, 's) checksum_error =
    NotPreviouslyCalculated "('p, 'b, 's) package_id"
  | CouldNotBeCalculated "('p, 'b, 's) package_id"
  | ChecksumChanged "('p, 'b, 's) package_id"

definition merge_checksum ::
  "('p, 'b, 's) resolve \<Rightarrow> ('p, 'b, 's) package_id \<times> string option \<Rightarrow> unit \<Rightarrow>
   (('p, 'b, 's) checksum_error, unit) outcome" where
  "merge_checksum r entry u =
     (case entry of (i, cksum) \<Rightarrow>
        case map_of (rs_checksums r) i of
          None \<Rightarrow> Ok ()
        | Some mine \<Rightarrow>
            if mine = cksum then Ok ()
            else if cksum = None then Err (NotPreviouslyCalculated i)
            else if mine = None then Err (CouldNotBeCalculated i)
            else Err (ChecksumChanged i))"

definition merge_from ::
  "('p, 'b, 's) resolve \<Rightarrow> ('p, 'b, 's) resolve \<Rightarrow> (('p, 'b, 's) checksum_error, ('p, 'b, 's) resolve) outcome" where
  "merge_from previous r =
     obind (ofold (merge_checksum r) (rs_checksums previous) ())
       (\<lambda>_. Ok (r\<lparr>rs_metadata := rs_metadata previous, rs_version := rs_version previous\<rparr>))"

definition rs_contains :: "('p, 'b, 's) resolve \<Rightarrow> ('p, 'b, 's) package_id \<Rightarrow> bool" where
  "rs_contains r i = graph_contains (rs_graph r) i"

definition rs_sort :: "('p, 'b, 's) resolve \<Rightarrow> (unit, ('p, 'b, 's) package_id list) outcome" where
  "rs_sort r = graph_sort (rs_graph r)"

definition rs_iter :: "('p, 'b, 's) resolve \<Rightarrow> ('p, 'b, 's) package_id list" where
  "rs_iter r = graph_iter (rs_graph r)"

definition rs_len :: "('p, 'b, 's) resolve \<Rightarrow> nat" where
  "rs_len r = graph_len (rs_graph r)"

definition rs_replacement :: "('p, 'b, 's) resolve \<Rightarrow> ('p, 'b, 's) package_id \<Rightarrow> ('p, 'b, 's) package_id option" where
  "rs_replacement r i = map_of (rs_replacements r) i"

definition deps_not_replaced ::
  "('p, 'b, 's) resolve \<Rightarrow> ('p, 'b, 's) package_id \<Rightarrow> (('p, 'b, 's) package_id \<times> ('p, 'b, 's) dependency list) list" where
  "deps_not_replaced r i = graph_edges (rs_graph r) i"

definition rs_deps ::
  "('p, 'b, 's) resolve \<Rightarrow> ('p, 'b, 's) package_id \<Rightarrow> (('p, 'b, 's) package_id \<times> ('p, 'b, 's) dependency list) list" where
  "rs_deps r i = map (\<lambda>(d, deps). (unwrap_or d (rs_replacement r d), deps)) (deps_not_replaced r i)"

definition bindeps ::
  "('p, 'b, 's) resolve \<Rightarrow> ('p, 'b, 's) package_id \<Rightarrow> (('p, 'b, 's) package_id \<times> ('p, 'b, 's) dependency) list" where
  "bindeps r i =
     concat (map (\<lambda>(d, deps). map (Pair d) (filter (\<lambda>dep. dep_artifact dep \<noteq> None) deps)) (rs_deps r i))"

definition transitive_deps_not_replaced ::
  "('p, 'b, 's) resolve \<Rightarrow> ('p, 'b, 's) package_id \<Rightarrow> (('p, 'b, 's) package_id \<times> ('p, 'b, 's) dependency) list" where
  "transitive_deps_not_replaced r i =
     List.map_filter (\<lambda>(d, deps). map_option (Pair d) (find is_transitive deps)) (graph_edges (rs_graph r) i)"

definition rs_features_of :: "('p, 'b, 's) resolve \<Rightarrow> ('p, 'b, 's) package_id \<Rightarrow> string list" where
  "rs_features_of r i = unwrap_or [] (map_of (rs_features r) i)"

definition is_public_dep ::
  "('p, 'b, 's) resolve \<Rightarrow> ('p, 'b, 's) package_id \<Rightarrow> ('p, 'b, 's) package_id \<Rightarrow> (unit, bool) outcome" where
  "is_public_dep r i dep =
     (case map_of (rs_public_dependencies r) i of None \<Rightarrow> Panic | Some ps \<Rightarrow> Ok (dep \<in> set ps))"

definition rs_set_checksum :: "('p, 'b, 's) package_id \<Rightarrow> string \<Rightarrow> ('p, 'b, 's) resolve \<Rightarrow> ('p, 'b, 's) resolve" where
  "rs_set_checksum i checksum r = r\<lparr>rs_checksums := hm_insert i (Some checksum) (rs_checksums r)\<rparr>"

definition rs_summary ::
  "('p, 'b, 's) resolve \<Rightarrow> ('p, 'b, 's) package_id \<Rightarrow> (unit, ('p, 'b, 's) summary) outcome" where
  "rs_summary r i = (case map_of (rs_summaries r) i of None \<Rightarrow> Panic | Some s \<Rightarrow> Ok s)"

definition dependencies_listed ::
  "('p, 'b, 's) resolve \<Rightarrow> ('p, 'b, 's) package_id \<Rightarrow> ('p, 'b, 's) package_id \<Rightarrow>
   (unit, ('p, 'b, 's) dependency list) outcome" where
  "dependencies_listed r src dst =
     (case Option.bind (map_of (rs_reverse_replacements r) dst) (graph_edge (rs_graph r) src) of
        Some deps \<Rightarrow> Ok deps
      | None \<Rightarrow>
          (case graph_edge (rs_graph r) src dst of Some ret \<Rightarrow> Ok ret | None \<Rightarrow> Panic))"

text \<open>
  The name under which a package refers to one of its dependencies; \<open>crate_name\<close> is that of the
  library target.
\<close>

definition dash_to_underscore :: "string \<Rightarrow> string" where
  "dash_to_underscore s = map (\<lambda>c. if c = CHR ''-'' then CHR ''_'' else c) s"

definition name_pair :: "string \<Rightarrow> ('p, 'b, 's) dependency \<Rightarrow> string \<times> string option" where
  "name_pair crate_name d = (case dep_explicit_name_in_toml d of
       Some s \<Rightarrow> (dash_to_underscore s, Some s) | None \<Rightarrow> (crate_name, None))"

definition extern_crate_name_and_dep_name ::
  "('p, 'b, 's) resolve \<Rightarrow> ('p, 'b, 's) package_id \<Rightarrow> ('p, 'b, 's) package_id \<Rightarrow> string \<Rightarrow>
   (unit, string \<times> string option) outcome" where
  "extern_crate_name_and_dep_name r src dst crate_name =
     obind (if src = dst then Ok [] else dependencies_listed r src dst) (\<lambda>deps.
       case map (name_pair crate_name) deps of
         [] \<Rightarrow> Ok (crate_name, None)
       | (n, dn) # rest \<Rightarrow> if list_all (\<lambda>(n', _). n' = n) rest then Ok (n, dn) else Err ())"

subsection \<open>The cycle check (\<open>mod.rs\<close>)\<close>

text \<open>
  The error names the package and carries the lines of its text after the first one: each package of
  the path and the dependency of it that the package before satisfies.
\<close>

datatype ('p, 'b, 's) cycle_error =
  CyclicPackage "('p, 'b, 's) package_id" "(('p, 'b, 's) package_id \<times> ('p, 'b, 's) dependency) list"

text \<open>
  \<open>errors::describe_path\<close> takes every dependency but the first out of its \<open>Option\<close>; the lines are
  kept as pairs instead of text.
\<close>

fun describe_lines :: "('i \<times> 'd option) list \<Rightarrow> ('e, ('i \<times> 'd) list) outcome" where
  "describe_lines [] = Ok []"
| "describe_lines ((pkg, None) # pth) = Panic"
| "describe_lines ((pkg, Some dep) # pth) = obind (describe_lines pth) (\<lambda>ls. Ok ((pkg, dep) # ls))"

definition describe_path :: "('i \<times> 'd option) list \<Rightarrow> ('e, ('i \<times> 'd) list) outcome" where
  "describe_path pth = (case pth of [] \<Rightarrow> Ok [] | _ # pth \<Rightarrow> describe_lines pth)"

text \<open>The path backwards from the repeated package, each package with the dependency taken.\<close>

fun describe_cycle ::
  "('p, 'b, 's) resolve \<Rightarrow> ('p, 'b, 's) package_id \<Rightarrow> ('p, 'b, 's) package_id list \<Rightarrow>
   (('p, 'b, 's) package_id \<times> ('p, 'b, 's) dependency option) list" where
  "describe_cycle r child [] = []"
| "describe_cycle r child (parent # ps) =
     (parent, map_option snd (find (\<lambda>(d, _). child = d \<or> Some child = rs_replacement r d)
        (transitive_deps_not_replaced r parent))) # describe_cycle r parent ps"

type_synonym ('p, 'b, 's) cycle_state =
  "('p, 'b, 's) package_id set \<times> ('p, 'b, 's) package_id list \<times> ('p, 'b, 's) package_id set"

fun cycle_visit ::
  "nat \<Rightarrow> ('p, 'b, 's) resolve \<Rightarrow> ('p, 'b, 's) package_id \<Rightarrow> ('p, 'b, 's) cycle_state \<Rightarrow>
   (('p, 'b, 's) cycle_error, ('p, 'b, 's) cycle_state) outcome" where
  "cycle_visit 0 r i st = OutOfFuel"
| "cycle_visit (Suc n) r i (vis, pth, checked) =
     (if i \<in> vis then
        obind (describe_path ((i, None) # describe_cycle r i (rev pth))) (\<lambda>ls. Err (CyclicPackage i ls))
      else
        obind
          (if i \<notin> checked then
             obind (ofold (\<lambda>(dep_id, _) st.
                 obind (cycle_visit n r dep_id st) (\<lambda>st.
                   case rs_replacement r dep_id of
                     Some replace_id \<Rightarrow> cycle_visit n r replace_id st
                   | None \<Rightarrow> Ok st))
               (transitive_deps_not_replaced r i) (insert i vis, pth @ [i], insert i checked))
             (\<lambda>(vis, pth, checked). Ok (vis, butlast pth, checked))
           else Ok (insert i vis, pth, checked))
          (\<lambda>(vis, pth, checked). Ok (vis - {i}, pth, checked)))"

definition check_cycles :: "('p, 'b, 's) resolve \<Rightarrow> (('p, 'b, 's) cycle_error, unit) outcome" where
  "check_cycles r =
     obind (ofold (\<lambda>i (vis, pth, checked).
         if i \<notin> checked then cycle_visit (rs_len r + 2) r i (vis, pth, checked)
         else Ok (vis, pth, checked)) (rs_iter r) ({}, [], {}))
       (\<lambda>_. Ok ())"

subsection \<open>The check finds exactly the cycles\<close>

text \<open>
  The edges the check follows: to every dependency that is not for development only, and to its
  replacement.
\<close>

definition cycle_succs :: "('p, 'b, 's) resolve \<Rightarrow> ('p, 'b, 's) package_id \<Rightarrow> ('p, 'b, 's) package_id list" where
  "cycle_succs r i =
     concat (map (\<lambda>(d, _). d # (case rs_replacement r d of None \<Rightarrow> [] | Some x \<Rightarrow> [x]))
       (transitive_deps_not_replaced r i))"

abbreviation cycle_edges :: "('p, 'b, 's) resolve \<Rightarrow> (('p, 'b, 's) package_id \<times> ('p, 'b, 's) package_id) set" where
  "cycle_edges r \<equiv> reach (cycle_succs r)"

lemma cycle_succs_node: "d \<in> set (cycle_succs r i) \<Longrightarrow> i \<in> set (rs_iter r)"
proof (rule ccontr)
  assume "i \<notin> set (rs_iter r)"
  then have "map_of (rs_graph r) i = None"
    by (simp add: rs_iter_def graph_iter_def map_of_eq_None_iff)
  then have "cycle_succs r i = []"
    by (simp add: cycle_succs_def transitive_deps_not_replaced_def graph_edges_def map_filter_simps)
  moreover assume "d \<in> set (cycle_succs r i)"
  ultimately show False by simp
qed

lemma visit_flat:
  "ofold (\<lambda>(dep_id, _) st. obind (V dep_id st) (\<lambda>st. case rs_replacement r dep_id of
       Some replace_id \<Rightarrow> V replace_id st | None \<Rightarrow> Ok st)) ds st =
   ofold V (concat (map (\<lambda>(d, _). d # (case rs_replacement r d of None \<Rightarrow> [] | Some x \<Rightarrow> [x])) ds)) st"
proof (induction ds arbitrary: st)
  case (Cons p ds)
  obtain d x where p: "p = (d, x)" by (cases p)
  have "(\<lambda>st. ofold V (case rs_replacement r d of None \<Rightarrow> [] | Some x \<Rightarrow> [x]) st) =
      (\<lambda>st. case rs_replacement r d of Some replace_id \<Rightarrow> V replace_id st | None \<Rightarrow> Ok st)"
  proof
    fix st
    show "ofold V (case rs_replacement r d of None \<Rightarrow> [] | Some x \<Rightarrow> [x]) st =
        (case rs_replacement r d of Some replace_id \<Rightarrow> V replace_id st | None \<Rightarrow> Ok st)"
    proof (cases "rs_replacement r d")
      case (Some y)
      then show ?thesis by (cases "V y st") simp_all
    qed simp
  qed
  moreover have "ofold (\<lambda>(dep_id, _) st. obind (V dep_id st) (\<lambda>st. case rs_replacement r dep_id of
       Some replace_id \<Rightarrow> V replace_id st | None \<Rightarrow> Ok st)) ds =
      ofold V (concat (map (\<lambda>(d, _). d # (case rs_replacement r d of None \<Rightarrow> [] | Some x \<Rightarrow> [x])) ds))"
    by (rule ext) (rule Cons.IH)
  ultimately show ?case
    by (cases "V d st") (simp_all add: p ofold_append obind_assoc)
qed simp

text \<open>
  Packages that were checked and left are black, those on the path grey: black packages lead to
  black ones only and lie on no cycle.
\<close>

definition cycle_inv :: "('p, 'b, 's) resolve \<Rightarrow> ('p, 'b, 's) package_id set \<Rightarrow> ('p, 'b, 's) package_id set \<Rightarrow> bool" where
  "cycle_inv r vis chk \<longleftrightarrow> vis \<subseteq> chk \<and>
     (\<forall>b \<in> chk - vis. set (cycle_succs r b) \<subseteq> chk - vis \<and> (b, b) \<notin> (cycle_edges r)\<^sup>+)"

lemma cycle_inv_leave:
  assumes inv: "cycle_inv r (insert i vis) chk" and i: "i \<notin> vis"
    and succs: "set (cycle_succs r i) \<subseteq> chk - insert i vis"
  shows "cycle_inv r vis chk"
proof -
  have closed: "set (cycle_succs r b) \<subseteq> chk - insert i vis" if "b \<in> chk - insert i vis" for b
    using inv that by (simp add: cycle_inv_def)
  have "(i, i) \<notin> (cycle_edges r)\<^sup>+"
  proof
    assume "(i, i) \<in> (cycle_edges r)\<^sup>+"
    then obtain s where s: "s \<in> set (cycle_succs r i)" "(s, i) \<in> (cycle_edges r)\<^sup>*"
      by (auto dest: tranclD)
    then have "i \<in> chk - insert i vis"
      using reach_closed_set [OF s(2), of "chk - insert i vis"] succs closed by blast
    then show False by simp
  qed
  moreover have "chk - vis = insert i (chk - insert i vis)"
    using inv i by (auto simp: cycle_inv_def)
  ultimately show ?thesis
    using inv succs closed by (auto simp: cycle_inv_def)
qed

text \<open>
  \<open>chain_up\<close>: each package of the path is a successor of the next one. \<open>chain_lines\<close>: each line of
  the error names a dependency of its package, not for development only, that the package of the
  line before satisfies, itself or as a replacement.
\<close>

fun chain_up :: "('p, 'b, 's) resolve \<Rightarrow> ('p, 'b, 's) package_id \<Rightarrow> ('p, 'b, 's) package_id list \<Rightarrow> bool" where
  "chain_up r child [] = True"
| "chain_up r child (parent # ps) \<longleftrightarrow> child \<in> set (cycle_succs r parent) \<and> chain_up r parent ps"

fun chain_lines ::
  "('p, 'b, 's) resolve \<Rightarrow> ('p, 'b, 's) package_id \<Rightarrow> (('p, 'b, 's) package_id \<times> ('p, 'b, 's) dependency) list \<Rightarrow> bool" where
  "chain_lines r child [] = True"
| "chain_lines r child ((parent, dep) # ls) \<longleftrightarrow>
     (\<exists>d. (d, dep) \<in> set (transitive_deps_not_replaced r parent) \<and> (child = d \<or> rs_replacement r d = Some child)) \<and>
     chain_lines r parent ls"

definition cycle_found :: "('p, 'b, 's) resolve \<Rightarrow> ('p, 'b, 's) cycle_error \<Rightarrow> bool" where
  "cycle_found r e = (case e of CyclicPackage i ls \<Rightarrow>
     (i, i) \<in> (cycle_edges r)\<^sup>+ \<and> i \<in> fst ` set ls \<and> chain_lines r i ls)"

lemma describe_lines_chain:
  assumes "chain_up r child ps"
  shows "\<exists>ls. describe_lines (describe_cycle r child ps) = (Ok ls :: ('e, _) outcome) \<and> map fst ls = ps \<and> chain_lines r child ls"
  using assms
proof (induction ps arbitrary: child)
  case (Cons parent ps)
  have "\<exists>x \<in> set (transitive_deps_not_replaced r parent). (\<lambda>(d, _). child = d \<or> Some child = rs_replacement r d) x"
    using Cons.prems by (fastforce simp: cycle_succs_def split: option.splits)
  then obtain d dep where f: "find (\<lambda>(d, _). child = d \<or> Some child = rs_replacement r d)
      (transitive_deps_not_replaced r parent) = Some (d, dep)"
    by (metis (no_types, lifting) find_None_iff not_None_eq prod.exhaust)
  then have "(d, dep) \<in> set (transitive_deps_not_replaced r parent)" "child = d \<or> rs_replacement r d = Some child"
    by (auto simp: find_Some_iff in_set_conv_nth)
  moreover obtain ls where "describe_lines (describe_cycle r parent ps) = (Ok ls :: ('e, _) outcome)" "map fst ls = ps" "chain_lines r parent ls"
    using Cons.IH [of parent] Cons.prems by auto
  ultimately show ?case using f by auto
qed simp

lemma chain_up_trancl: "chain_up r child ps \<Longrightarrow> v \<in> set ps \<Longrightarrow> (v, child) \<in> (cycle_edges r)\<^sup>+"
proof (induction ps arbitrary: child)
  case (Cons parent ps)
  then have edge: "(parent, child) \<in> cycle_edges r" by simp
  show ?case
  proof (cases "v = parent")
    case False
    with Cons have "(v, parent) \<in> (cycle_edges r)\<^sup>+" by simp
    then show ?thesis using edge by (rule trancl_into_trancl)
  qed (use edge in blast)
qed simp

lemma cycle_reported:
  assumes "chain_up r i (rev pth)" and "i \<in> set pth"
  shows "owp False (obind (describe_path ((i, None) # describe_cycle r i (rev pth))) (\<lambda>ls. Err (CyclicPackage i ls)))
    Q (cycle_found r)"
proof -
  obtain ls where ls: "describe_lines (describe_cycle r i (rev pth)) = (Ok ls :: (('a, 'b, 'c) cycle_error, _) outcome)"
    "map fst ls = rev pth" "chain_lines r i ls"
    using describe_lines_chain [OF assms(1)] by blast
  then have "i \<in> fst ` set ls" using assms(2) by (metis image_set set_rev)
  with ls chain_up_trancl [OF assms(1), of i] assms(2) show ?thesis
    by (simp add: describe_path_def cycle_found_def)
qed

text \<open>Post-condition of a visit: path and grey set restored, \<open>i\<close> black, the invariant kept.\<close>

definition visit_post ::
  "('p, 'b, 's) resolve \<Rightarrow> ('p, 'b, 's) package_id list \<Rightarrow> ('p, 'b, 's) cycle_state \<Rightarrow> ('p, 'b, 's) cycle_state \<Rightarrow> bool" where
  "visit_post r is st st' \<longleftrightarrow> fst st' = fst st \<and> fst (snd st') = fst (snd st) \<and>
     snd (snd st) \<subseteq> snd (snd st') \<and> set is \<subseteq> snd (snd st') - fst st \<and> cycle_inv r (fst st) (snd (snd st'))"

lemma visit_list:
  assumes step: "\<And>i st. cycle_inv r (fst st) (snd (snd st)) \<Longrightarrow> fst st = vis \<Longrightarrow> fst (snd st) = pth \<Longrightarrow> i \<in> set is \<Longrightarrow>
      owp False (V i st) (visit_post r [i] st) (cycle_found r)"
    and "cycle_inv r vis chk"
  shows "owp False (ofold V is (vis, pth, chk)) (visit_post r is (vis, pth, chk)) (cycle_found r)"
proof -
  define I where "I rest st \<longleftrightarrow> fst st = vis \<and> fst (snd st) = pth \<and> chk \<subseteq> snd (snd st) \<and>
    (\<forall>i \<in> set is. i \<in> set rest \<or> i \<in> snd (snd st) - vis) \<and> cycle_inv r vis (snd (snd st))" for rest st
  have "owp False (ofold V is (vis, pth, chk)) (I []) (cycle_found r)"
  proof (rule owp_ofold)
    show "I is (vis, pth, chk)" using assms(2) by (simp add: I_def)
  next
    fix i rest st
    assume inv: "I (i # rest) st" and "i \<in> set is"
    then have "owp False (V i st) (visit_post r [i] st) (cycle_found r)"
      by (intro step) (simp_all add: I_def)
    then show "owp False (V i st) (I rest) (cycle_found r)"
      using inv by (elim owp_mono) (auto simp: I_def visit_post_def)
  qed
  then show ?thesis
    by (rule owp_mono) (auto simp: I_def visit_post_def)
qed

lemma cycle_visit_spec:
  assumes "cycle_inv r (fst st) (snd (snd st))"
    and "chain_up r i (rev (fst (snd st))) \<and> fst st = set (fst (snd st))" and "card (set (rs_iter r) - fst st) < n"
  shows "owp False (cycle_visit n r i st) (visit_post r [i] st) (cycle_found r)"
  using assms
proof (induction n arbitrary: i st)
  case 0
  then show ?case by simp
next
  case (Suc n)
  obtain vis pth chk where st: "st = (vis, pth, chk)" by (cases st)
  show ?case
  proof (cases "i \<in> vis \<or> i \<in> chk")
    case True
    show ?thesis
    proof (cases "i \<in> vis")
      case True
      with Suc.prems(2) show ?thesis by (simp add: st cycle_reported)
    next
      case False
      with True Suc.prems(1) show ?thesis by (auto simp: st visit_post_def)
    qed
  next
    case False
    then have i: "i \<notin> vis" "i \<notin> chk" by auto
    have "insert i chk - insert i vis = chk - vis" using i by auto
    then have inv: "cycle_inv r (insert i vis) (insert i chk)"
      using Suc.prems(1) by (auto simp: st cycle_inv_def)
    have "owp False (ofold (cycle_visit n r) (cycle_succs r i) (insert i vis, pth @ [i], insert i chk))
        (visit_post r (cycle_succs r i) (insert i vis, pth @ [i], insert i chk)) (cycle_found r)"
    proof (rule visit_list [OF _ inv])
      fix c and s :: "('a, 'b, 'c) cycle_state"
      assume c: "cycle_inv r (fst s) (snd (snd s))" "fst s = insert i vis" "fst (snd s) = pth @ [i]" "c \<in> set (cycle_succs r i)"
      have "i \<in> set (rs_iter r) - vis" using cycle_succs_node [OF c(4)] i by simp
      then have "card (set (rs_iter r) - vis - {i}) < card (set (rs_iter r) - vis)"
        by (intro card_Diff1_less) simp_all
      moreover have "set (rs_iter r) - insert i vis = set (rs_iter r) - vis - {i}" by auto
      ultimately have "card (set (rs_iter r) - insert i vis) < n"
        using Suc.prems(3) by (simp add: st)
      moreover have "chain_up r c (rev (fst (snd s))) \<and> fst s = set (fst (snd s))"
        using Suc.prems(2) c(2-4) by (simp add: st)
      ultimately show "owp False (cycle_visit n r c s) (visit_post r [c] s) (cycle_found r)"
        using Suc.IH [OF c(1)] c(2) by simp
    qed
    then have "owp False (ofold (cycle_visit n r) (cycle_succs r i) (insert i vis, pth @ [i], insert i chk))
        (\<lambda>(v, p, c). visit_post r [i] st (v - {i}, butlast p, c)) (cycle_found r)"
    proof (rule owp_mono)
      fix s
      assume post: "visit_post r (cycle_succs r i) (insert i vis, pth @ [i], insert i chk) s"
      then have "cycle_inv r (insert i vis) (snd (snd s))"
          "set (cycle_succs r i) \<subseteq> snd (snd s) - insert i vis"
        by (simp_all add: visit_post_def)
      then have "cycle_inv r vis (snd (snd s))"
        by (rule cycle_inv_leave [OF _ i(1)])
      with post i show "case s of (v, p, c) \<Rightarrow> visit_post r [i] st (v - {i}, butlast p, c)"
        by (cases s) (auto simp: visit_post_def st)
    qed
    then have "owp False (ofold (cycle_visit n r) (cycle_succs r i) (insert i vis, pth @ [i], insert i chk))
        (\<lambda>s. owp False (case s of (v, p, c) \<Rightarrow> Ok (v - {i}, butlast p, c)) (visit_post r [i] st) (cycle_found r))
        (cycle_found r)"
      by (rule owp_mono) auto
    moreover have "cycle_visit (Suc n) r i st =
        obind (ofold (cycle_visit n r) (cycle_succs r i) (insert i vis, pth @ [i], insert i chk))
          (\<lambda>s. case s of (v, p, c) \<Rightarrow> Ok (v - {i}, butlast p, c))"
      unfolding st cycle_visit.simps visit_flat cycle_succs_def [symmetric]
      using i by (simp add: obind_assoc case_prod_unfold)
    ultimately show ?thesis by (simp only: owp_bind)
  qed
qed

lemma check_cycles_loop:
  "owp False (ofold (\<lambda>i (vis, pth, checked).
      if i \<notin> checked then cycle_visit (rs_len r + 2) r i (vis, pth, checked)
      else Ok (vis, pth, checked)) (rs_iter r) ({}, [], {}))
    (visit_post r (rs_iter r) ({}, [], {})) (cycle_found r)"
proof (rule visit_list)
  fix i and st :: "('a, 'b, 'c) cycle_state"
  assume inv: "cycle_inv r (fst st) (snd (snd st))" and vis: "fst st = {}" and pth: "fst (snd st) = []"
  have "card (set (rs_iter r)) < rs_len r + 2"
    using card_length [of "rs_iter r"] by (simp add: rs_len_def rs_iter_def graph_len_def graph_iter_def)
  then have "owp False (cycle_visit (rs_len r + 2) r i st) (visit_post r [i] st) (cycle_found r)"
    using inv vis pth by (intro cycle_visit_spec) simp_all
  then show "owp False ((\<lambda>(vis, pth, checked).
      if i \<notin> checked then cycle_visit (rs_len r + 2) r i (vis, pth, checked)
      else Ok (vis, pth, checked)) st) (visit_post r [i] st) (cycle_found r)"
    using inv vis by (cases st) (auto simp: visit_post_def)
qed (simp add: cycle_inv_def)

lemma check_cycles_cases:
  "case check_cycles r of Ok _ \<Rightarrow> acyclic (cycle_edges r) | Err e \<Rightarrow> cycle_found r e | _ \<Rightarrow> False"
proof -
  have "acyclic (cycle_edges r)" if "visit_post r (rs_iter r) ({}, [], {}) st" for st
  proof (unfold acyclic_def, intro allI notI)
    fix x
    assume cyc: "(x, x) \<in> (cycle_edges r)\<^sup>+"
    then obtain y where "y \<in> set (cycle_succs r x)"
      by (auto dest: tranclD)
    then have "x \<in> set (rs_iter r)" by (rule cycle_succs_node)
    with that have "x \<in> snd (snd st) - {}" "cycle_inv r {} (snd (snd st))"
      by (auto simp: visit_post_def)
    with cyc show False by (simp add: cycle_inv_def)
  qed
  then have "owp False (check_cycles r) (\<lambda>_. acyclic (cycle_edges r)) (cycle_found r)"
    unfolding check_cycles_def
    by (intro owp_bind owp_mono [OF check_cycles_loop]) auto
  then show ?thesis by (cases "check_cycles r") simp_all
qed

text \<open>
  C5: The cycle check always ends, without a panic, and is exact: it accepts a resolution if and
  only if the dependencies that are not for development only, followed through replacements, form
  no cycle. The package it names in its error lies on one, and the text of the error, which is built
  by unwrapping a dependency for every package on the path, leads from that package back to itself
  (and on to the package the check started from) along dependencies that the package before
  satisfies, itself or as a replacement.
\<close>

theorem check_cycles_exact:
  "(check_cycles r = Ok () \<longleftrightarrow> acyclic (cycle_edges r)) \<and>
   (check_cycles r = Ok () \<or> (\<exists>i ls. check_cycles r = Err (CyclicPackage i ls) \<and> (i, i) \<in> (cycle_edges r)\<^sup>+ \<and>
     i \<in> fst ` set ls \<and> chain_lines r i ls))"
  using check_cycles_cases [of r]
  by (cases "check_cycles r") (auto simp: cycle_found_def acyclic_def split: cycle_error.splits)

text \<open>
  C28: Merging with the previous lock file keeps every checksum: the merge succeeds exactly if no
  package that both resolutions know has a different entry, the error tells the three cases apart,
  and a successful merge only takes over metadata and format version.
\<close>

theorem merge_from_checksums:
  assumes "hm_wf (rs_checksums previous)"
  shows "case merge_from previous r of
      Ok r' \<Rightarrow> r' = r\<lparr>rs_metadata := rs_metadata previous, rs_version := rs_version previous\<rparr> \<and>
        (\<forall>i c c'. map_of (rs_checksums r) i = Some c \<longrightarrow> map_of (rs_checksums previous) i = Some c' \<longrightarrow> c = c')
    | Err (NotPreviouslyCalculated i) \<Rightarrow>
        map_of (rs_checksums previous) i = Some None \<and> (\<exists>c. map_of (rs_checksums r) i = Some (Some c))
    | Err (CouldNotBeCalculated i) \<Rightarrow>
        map_of (rs_checksums r) i = Some None \<and> (\<exists>c. map_of (rs_checksums previous) i = Some (Some c))
    | Err (ChecksumChanged i) \<Rightarrow> (\<exists>c c'. c \<noteq> c' \<and> map_of (rs_checksums r) i = Some (Some c) \<and>
        map_of (rs_checksums previous) i = Some (Some c'))
    | _ \<Rightarrow> False"
proof -
  define bad where "bad e = (case e of
      NotPreviouslyCalculated i \<Rightarrow>
        map_of (rs_checksums previous) i = Some None \<and> (\<exists>c. map_of (rs_checksums r) i = Some (Some c))
    | CouldNotBeCalculated i \<Rightarrow>
        map_of (rs_checksums r) i = Some None \<and> (\<exists>c. map_of (rs_checksums previous) i = Some (Some c))
    | ChecksumChanged i \<Rightarrow> (\<exists>c c'. c \<noteq> c' \<and> map_of (rs_checksums r) i = Some (Some c) \<and>
        map_of (rs_checksums previous) i = Some (Some c')))" for e
  define I where "I rest u \<longleftrightarrow> (\<forall>(i, c') \<in> set (rs_checksums previous). (i, c') \<in> set rest \<or>
      (\<forall>c. map_of (rs_checksums r) i = Some c \<longrightarrow> c = c'))"
    for rest :: "(('a, 'b, 'c) package_id \<times> string option) list" and u :: unit
  have "owp False (ofold (merge_checksum r) (rs_checksums previous) ()) (I []) bad"
  proof (rule owp_ofold)
    show "I (rs_checksums previous) ()" by (auto simp: I_def)
  next
    fix e rest u
    assume inv: "I (e # rest) u" and e: "e \<in> set (rs_checksums previous)"
    obtain i c' where ic: "e = (i, c')" by (cases e)
    have prev: "map_of (rs_checksums previous) i = Some c'"
      using assms e by (simp add: ic hm_wf_def)
    show "owp False (merge_checksum r e u) (I rest) bad"
    proof (cases "\<forall>c. map_of (rs_checksums r) i = Some c \<longrightarrow> c = c'")
      case True
      with inv have "I rest ()" by (auto simp: I_def ic)
      moreover have "merge_checksum r e u = Ok ()"
        using True by (auto simp: merge_checksum_def ic split: option.split)
      ultimately show ?thesis by simp
    next
      case False
      then obtain c where c: "map_of (rs_checksums r) i = Some c" "c \<noteq> c'" by auto
      with prev show ?thesis
        by (cases c; cases c') (simp_all add: merge_checksum_def ic bad_def)
    qed
  qed
  moreover have "\<forall>i c c'. map_of (rs_checksums r) i = Some c \<longrightarrow> map_of (rs_checksums previous) i = Some c' \<longrightarrow> c = c'"
    if "I [] u" for u
    using that by (fastforce simp: I_def dest: map_of_SomeD)
  ultimately show ?thesis
    unfolding merge_from_def
    by (cases "ofold (merge_checksum r) (rs_checksums previous) ()")
      (auto simp: bad_def split: checksum_error.splits)
qed

definition locked_pkg :: "(nat, nat, nat) package_id" where
  "locked_pkg = PackageId ''serde'' (Version 1 0 0 None None) 0"

definition locked_with :: "string option \<Rightarrow> (nat, nat, nat) resolve" where
  "locked_with c = resolve_new [(locked_pkg, [])] [] [] [(locked_pkg, c)] [] [] RV4 []"

theorem merge_from_checksums_witness:
  "merge_from (locked_with (Some ''a'')) (locked_with (Some ''b'')) = Err (ChecksumChanged locked_pkg) \<and>
   (\<exists>c c'. c \<noteq> c' \<and> map_of (rs_checksums (locked_with (Some ''b''))) locked_pkg = Some (Some c) \<and>
      map_of (rs_checksums (locked_with (Some ''a''))) locked_pkg = Some (Some c'))"
proof -
  have "merge_from (locked_with (Some ''a'')) (locked_with (Some ''b'')) = Err (ChecksumChanged locked_pkg)"
    by (simp add: merge_from_def merge_checksum_def locked_with_def resolve_new_def)
  moreover have "hm_wf (rs_checksums (locked_with (Some ''a'')))"
    by (simp add: hm_wf_def locked_with_def resolve_new_def)
  ultimately show ?thesis
    using merge_from_checksums [of "locked_with (Some ''a'')" "locked_with (Some ''b'')"] by simp
qed

end
