(* ===== verification/SourceIds.thy ===== *)
theory SourceIds
  imports Package
begin

section \<open>Source ids (\<open>workspace/source_id.rs\<close>)\<close>

text \<open>
  The models of \<open>SourceKind\<close> and \<open>GitReference\<close> (\<open>cargo-util-schemas/core/source_kind.rs\<close>),
  \<open>CanonicalUrl\<close> (\<open>util/canonical_url.rs\<close>), \<open>IntoUrl\<close> (\<open>util/into_url.rs\<close>) and \<open>SourceId\<close>.

  The \<open>url\<close> crate is the record \<open>url_ops\<close> of the operations the code calls; what the lemmas use of
  it is stated as \<open>url_laws\<close>. A \<open>SourceId\<close> is a pointer into a global cache of \<open>SourceIdInner\<close>
  values. \<open>wrap\<close> is that cache as a state; since an entry never changes, the result of every call
  is determined by the final contents of the cache, and \<open>interned\<close> reads it there. All other
  operations have these contents as their argument \<open>C\<close>.

  The lemmas show that interned ids are equal pointers exactly if kind, precise part and canonical
  URL agree, and that the text of a source id is read back as an equal id with the same git
  revision.
\<close>

subsection \<open>Kinds of sources\<close>

datatype git_reference = Tag string | Branch string | Rev string | DefaultBranch

datatype source_kind =
    GitKind git_reference
  | PathKind
  | RegistryKind
  | SparseRegistryKind
  | LocalRegistryKind
  | DirectoryKind

fun protocol :: "source_kind \<Rightarrow> string option" where
  "protocol PathKind = Some ''path''"
| "protocol (GitKind _) = Some ''git''"
| "protocol RegistryKind = Some ''registry''"
| "protocol SparseRegistryKind = None"
| "protocol LocalRegistryKind = Some ''local-registry''"
| "protocol DirectoryKind = Some ''directory''"

text \<open>The derived order of \<open>GitReference\<close>: by variant, then by the text.\<close>

fun git_reference_key :: "git_reference \<Rightarrow> nat \<times> string" where
  "git_reference_key (Tag s) = (0, s)"
| "git_reference_key (Branch s) = (1, s)"
| "git_reference_key (Rev s) = (2, s)"
| "git_reference_key DefaultBranch = (3, [])"

lemma git_reference_key_inj: "git_reference_key a = git_reference_key b \<Longrightarrow> a = b"
  by (cases a; cases b) simp_all

instantiation git_reference :: linorder
begin

definition less_eq_git_reference :: "git_reference \<Rightarrow> git_reference \<Rightarrow> bool" where
  "less_eq_git_reference a b \<longleftrightarrow> git_reference_key a \<le> git_reference_key b"

definition less_git_reference :: "git_reference \<Rightarrow> git_reference \<Rightarrow> bool" where
  "less_git_reference a b \<longleftrightarrow> git_reference_key a < git_reference_key b"

instance
  by standard
    (auto simp: less_eq_git_reference_def less_git_reference_def less_le_not_le
      intro: git_reference_key_inj order_trans order_antisym)

end

text \<open>The hand-written order of \<open>SourceKind\<close>, clause by clause; \<open>True\<close> means \<open>Less\<close> or \<open>Equal\<close>.\<close>

fun source_kind_le :: "source_kind \<Rightarrow> source_kind \<Rightarrow> bool" where
  "source_kind_le PathKind _ = True"
| "source_kind_le _ PathKind = False"
| "source_kind_le RegistryKind _ = True"
| "source_kind_le _ RegistryKind = False"
| "source_kind_le SparseRegistryKind _ = True"
| "source_kind_le _ SparseRegistryKind = False"
| "source_kind_le LocalRegistryKind _ = True"
| "source_kind_le _ LocalRegistryKind = False"
| "source_kind_le DirectoryKind _ = True"
| "source_kind_le _ DirectoryKind = False"
| "source_kind_le (GitKind a) (GitKind b) = (a \<le> b)"

instantiation source_kind :: linorder
begin

definition less_eq_source_kind :: "source_kind \<Rightarrow> source_kind \<Rightarrow> bool" where
  "less_eq_source_kind a b = source_kind_le a b"

definition less_source_kind :: "source_kind \<Rightarrow> source_kind \<Rightarrow> bool" where
  "less_source_kind a b \<longleftrightarrow> source_kind_le a b \<and> \<not> source_kind_le b a"

instance
proof
  fix x y z :: source_kind
  show "x < y \<longleftrightarrow> x \<le> y \<and> \<not> y \<le> x" by (simp add: less_source_kind_def less_eq_source_kind_def)
  show "x \<le> x" by (cases x) (simp_all add: less_eq_source_kind_def)
  show "x \<le> y \<Longrightarrow> y \<le> z \<Longrightarrow> x \<le> z"
    unfolding less_eq_source_kind_def by (cases x; cases y; cases z) auto
  show "x \<le> y \<Longrightarrow> y \<le> x \<Longrightarrow> x = y"
    unfolding less_eq_source_kind_def by (cases x; cases y) auto
  show "x \<le> y \<or> y \<le> x"
    unfolding less_eq_source_kind_def by (cases x; cases y) auto
qed

end

text \<open>The last of the query parameters that names a reference counts.\<close>

definition query_reference :: "string \<times> string \<Rightarrow> git_reference \<Rightarrow> git_reference" where
  "query_reference kv reference =
     (case kv of (k, v) \<Rightarrow>
        if k = ''branch'' \<or> k = ''ref'' then Branch v
        else if k = ''rev'' then Rev v
        else if k = ''tag'' then Tag v
        else reference)"

definition from_query :: "(string \<times> string) list \<Rightarrow> git_reference" where
  "from_query query_pairs = fold query_reference query_pairs DefaultBranch"

subsection \<open>URLs\<close>

text \<open>The operations of the \<open>url\<close> crate.\<close>

record 'u url_ops =
  url_parse :: "string \<Rightarrow> 'u option"
  url_from_file_path :: "string \<Rightarrow> 'u option"
  url_as_str :: "'u \<Rightarrow> string"
  url_scheme :: "'u \<Rightarrow> string"
  url_host_str :: "'u \<Rightarrow> string option"
  url_path :: "'u \<Rightarrow> string"
  url_after_scheme :: "'u \<Rightarrow> string"
  url_cannot_be_a_base :: "'u \<Rightarrow> bool"
  url_path_segments :: "'u \<Rightarrow> string list option"
  url_pop_if_empty :: "'u \<Rightarrow> 'u"
  url_pop_push :: "string \<Rightarrow> 'u \<Rightarrow> 'u"
  url_set_path :: "string \<Rightarrow> 'u \<Rightarrow> 'u"
  url_query_pairs :: "'u \<Rightarrow> (string \<times> string) list"
  url_fragment :: "'u \<Rightarrow> string option"
  url_drop_fragment :: "'u \<Rightarrow> 'u"
  url_drop_query :: "'u \<Rightarrow> 'u"
  url_byte_serialize :: "string \<Rightarrow> string"

datatype source_error =
    InvalidSource string
  | InvalidUrlText string
  | InvalidPathUrl string
  | CannotBeABase
  | UnsupportedProtocol string
  | InvalidPreciseVersion string

definition into_url :: "'u url_ops \<Rightarrow> string \<Rightarrow> (source_error, 'u) outcome" where
  "into_url U s = (case url_parse U s of Some u \<Rightarrow> Ok u | None \<Rightarrow> Err (InvalidUrlText s))"

definition path_into_url :: "'u url_ops \<Rightarrow> string \<Rightarrow> (source_error, 'u) outcome" where
  "path_into_url U s = (case url_from_file_path U s of Some u \<Rightarrow> Ok u | None \<Rightarrow> Err (InvalidPathUrl s))"

text \<open>
  \<open>CanonicalUrl::new\<close>. The path of a URL is percent-encoded ASCII, so \<open>to_lowercase\<close> is
  \<open>ascii_lower\<close> on it.
\<close>

definition strip_slash :: "'u url_ops \<Rightarrow> 'u \<Rightarrow> (source_error, 'u) outcome" where
  "strip_slash U url =
     (if ends_with ''/'' (url_path U url) then
        (if url_cannot_be_a_base U url then Panic else Ok (url_pop_if_empty U url))
      else Ok url)"

definition fold_github :: "'u url_ops \<Rightarrow> 'u \<Rightarrow> (source_error, 'u) outcome" where
  "fold_github U url =
     (if url_host_str U url = Some ''github.com'' then
        (case url_parse U (''https'' @ url_after_scheme U url) of
           None \<Rightarrow> Panic
         | Some url \<Rightarrow> Ok (url_set_path U (map ascii_lower (url_path U url)) url))
      else Ok url)"

definition chop_git :: "'u url_ops \<Rightarrow> 'u \<Rightarrow> (source_error, 'u) outcome" where
  "chop_git U url =
     (if ends_with ''.git'' (url_path U url) then
        (case url_path_segments U url of
           None \<Rightarrow> Panic
         | Some segments \<Rightarrow>
             if segments = [] \<or> length (last segments) < 4 then Panic
             else Ok (url_pop_push U (take (length (last segments) - 4) (last segments)) url))
      else Ok url)"

definition canonical_url :: "'u url_ops \<Rightarrow> 'u \<Rightarrow> (source_error, 'u) outcome" where
  "canonical_url U url =
     (if url_cannot_be_a_base U url then Err CannotBeABase
      else obind (strip_slash U url) (\<lambda>url.
        if CHR ''+'' \<notin> set (url_scheme U url)
        then obind (fold_github U url) (chop_git U)
        else Ok url))"

subsection \<open>Source ids and their cache\<close>

datatype ('p, 'b) precise =
    PreciseLocked
  | PreciseUpdated string "('p, 'b) version" "('p, 'b) version"
  | GitUrlFragment string

datatype key_of = KeyRegistry string | KeySource string

record ('p, 'b, 'u) source_id_inner =
  si_url :: 'u
  si_canonical_url :: 'u
  si_kind :: source_kind
  si_precise :: "('p, 'b) precise option"
  si_registry_key :: "key_of option"

fun precise_text :: "(('p, 'b) version \<Rightarrow> string) \<Rightarrow> ('p, 'b) precise \<Rightarrow> string" where
  "precise_text show_version PreciseLocked = ''locked''"
| "precise_text show_version (PreciseUpdated name v w) = name @ ''='' @ show_version v @ ''->'' @ show_version w"
| "precise_text show_version (GitUrlFragment s) = s"

text \<open>\<open>PartialEq for SourceIdInner\<close> is equality of these three fields.\<close>

definition inner_key :: "('p, 'b, 'u) source_id_inner \<Rightarrow> source_kind \<times> ('p, 'b) precise option \<times> 'u" where
  "inner_key s = (si_kind s, si_precise s, si_canonical_url s)"

text \<open>What \<open>Eq\<close>, \<open>Ord\<close> and \<open>Hash\<close> of \<open>SourceId\<close> see.\<close>

type_synonym 'u source_key = "source_kind \<times> 'u"

definition source_key :: "('p, 'b, 'u) source_id_inner \<Rightarrow> 'u source_key" where
  "source_key s = (si_kind s, si_canonical_url s)"

definition wrap ::
  "('p, 'b, 'u) source_id_inner \<Rightarrow> ('p, 'b, 'u) source_id_inner list \<Rightarrow>
   ('p, 'b, 'u) source_id_inner \<times> ('p, 'b, 'u) source_id_inner list" where
  "wrap inner cache =
     (case find (\<lambda>i. inner_key i = inner_key inner) cache of
        Some i \<Rightarrow> (i, cache)
      | None \<Rightarrow> (inner, cache @ [inner]))"

definition interned ::
  "('p, 'b, 'u) source_id_inner list \<Rightarrow> ('p, 'b, 'u) source_id_inner \<Rightarrow> ('p, 'b, 'u) source_id_inner" where
  "interned C inner = (case find (\<lambda>i. inner_key i = inner_key inner) C of Some i \<Rightarrow> i | None \<Rightarrow> inner)"

definition source_new ::
  "'u url_ops \<Rightarrow> ('p, 'b, 'u) source_id_inner list \<Rightarrow> source_kind \<Rightarrow> 'u \<Rightarrow> key_of option \<Rightarrow>
   (source_error, ('p, 'b, 'u) source_id_inner) outcome" where
  "source_new U C kind url key =
     (if kind = SparseRegistryKind \<and> \<not> starts_with ''sparse+'' (url_as_str U url) then Panic
      else obind (canonical_url U url) (\<lambda>canonical.
        Ok (interned C \<lparr>si_url = url, si_canonical_url = canonical, si_kind = kind, si_precise = None,
              si_registry_key = key\<rparr>)))"

definition remote_source_kind :: "'u url_ops \<Rightarrow> 'u \<Rightarrow> source_kind" where
  "remote_source_kind U url =
     (if starts_with ''sparse+'' (url_as_str U url) then SparseRegistryKind else RegistryKind)"

definition with_precise ::
  "('p, 'b, 'u) source_id_inner list \<Rightarrow> ('p, 'b) precise option \<Rightarrow> ('p, 'b, 'u) source_id_inner \<Rightarrow>
   ('p, 'b, 'u) source_id_inner" where
  "with_precise C precise s =
     (if si_precise s = precise then s else interned C (s\<lparr>si_precise := precise\<rparr>))"

definition with_git_precise ::
  "('p, 'b, 'u) source_id_inner list \<Rightarrow> string option \<Rightarrow> ('p, 'b, 'u) source_id_inner \<Rightarrow>
   ('p, 'b, 'u) source_id_inner" where
  "with_git_precise C fragment s = with_precise C (map_option GitUrlFragment fragment) s"

definition without_precise ::
  "('p, 'b, 'u) source_id_inner list \<Rightarrow> ('p, 'b, 'u) source_id_inner \<Rightarrow> ('p, 'b, 'u) source_id_inner" where
  "without_precise C s = with_precise C None s"

definition with_locked_precise ::
  "('p, 'b, 'u) source_id_inner list \<Rightarrow> ('p, 'b, 'u) source_id_inner \<Rightarrow> ('p, 'b, 'u) source_id_inner" where
  "with_locked_precise C s = with_precise C (Some PreciseLocked) s"

definition with_precise_from ::
  "('p, 'b, 'u) source_id_inner list \<Rightarrow> ('p, 'b, 'u) source_id_inner \<Rightarrow> ('p, 'b, 'u) source_id_inner \<Rightarrow>
   ('p, 'b, 'u) source_id_inner" where
  "with_precise_from C v s = with_precise C (si_precise v) s"

definition with_precise_registry_version ::
  "(string \<Rightarrow> ('p, 'b) version option) \<Rightarrow> ('p, 'b, 'u) source_id_inner list \<Rightarrow> string \<Rightarrow>
   ('p, 'b) version \<Rightarrow> string \<Rightarrow> ('p, 'b, 'u) source_id_inner \<Rightarrow>
   (source_error, ('p, 'b, 'u) source_id_inner) outcome" where
  "with_precise_registry_version parse_version C name version precise s =
     (case parse_version precise of
        None \<Rightarrow> Err (InvalidPreciseVersion precise)
      | Some v \<Rightarrow> Ok (interned C (s\<lparr>si_precise := Some (PreciseUpdated name version v)\<rparr>)))"

subsection \<open>Constructing source ids\<close>

definition for_path ::
  "'u url_ops \<Rightarrow> ('p, 'b, 'u) source_id_inner list \<Rightarrow> string \<Rightarrow> (source_error, ('p, 'b, 'u) source_id_inner) outcome" where
  "for_path U C p = obind (path_into_url U p) (\<lambda>url. source_new U C PathKind url None)"

definition for_git ::
  "'u url_ops \<Rightarrow> ('p, 'b, 'u) source_id_inner list \<Rightarrow> 'u \<Rightarrow> git_reference \<Rightarrow>
   (source_error, ('p, 'b, 'u) source_id_inner) outcome" where
  "for_git U C url reference = source_new U C (GitKind reference) url None"

definition for_registry ::
  "'u url_ops \<Rightarrow> ('p, 'b, 'u) source_id_inner list \<Rightarrow> 'u \<Rightarrow> (source_error, ('p, 'b, 'u) source_id_inner) outcome" where
  "for_registry U C url = source_new U C (remote_source_kind U url) url None"

definition for_alt_registry ::
  "'u url_ops \<Rightarrow> ('p, 'b, 'u) source_id_inner list \<Rightarrow> 'u \<Rightarrow> string \<Rightarrow>
   (source_error, ('p, 'b, 'u) source_id_inner) outcome" where
  "for_alt_registry U C url key = source_new U C (remote_source_kind U url) url (Some (KeyRegistry key))"

definition for_source_replacement_registry ::
  "'u url_ops \<Rightarrow> ('p, 'b, 'u) source_id_inner list \<Rightarrow> 'u \<Rightarrow> string \<Rightarrow>
   (source_error, ('p, 'b, 'u) source_id_inner) outcome" where
  "for_source_replacement_registry U C url key =
     source_new U C (remote_source_kind U url) url (Some (KeySource key))"

definition for_local_registry ::
  "'u url_ops \<Rightarrow> ('p, 'b, 'u) source_id_inner list \<Rightarrow> string \<Rightarrow> (source_error, ('p, 'b, 'u) source_id_inner) outcome" where
  "for_local_registry U C p = obind (path_into_url U p) (\<lambda>url. source_new U C LocalRegistryKind url None)"

definition for_directory ::
  "'u url_ops \<Rightarrow> ('p, 'b, 'u) source_id_inner list \<Rightarrow> string \<Rightarrow> (source_error, ('p, 'b, 'u) source_id_inner) outcome" where
  "for_directory U C p = obind (path_into_url U p) (\<lambda>url. source_new U C DirectoryKind url None)"

subsection \<open>The text of a source id\<close>

definition from_url ::
  "'u url_ops \<Rightarrow> ('p, 'b, 'u) source_id_inner list \<Rightarrow> string \<Rightarrow>
   (source_error, ('p, 'b, 'u) source_id_inner) outcome" where
  "from_url U C string =
     (case split_once (CHR ''+'') string of
        None \<Rightarrow> Err (InvalidSource string)
      | Some (kind, url) \<Rightarrow>
          if kind = ''git'' then
            obind (into_url U url) (\<lambda>url.
              let reference = from_query (url_query_pairs U url);
                  precise = url_fragment U url
              in obind (for_git U C (url_drop_query U (url_drop_fragment U url)) reference)
                   (\<lambda>s. Ok (with_git_precise C precise s)))
          else if kind = ''registry'' then
            obind (into_url U url) (\<lambda>url.
              obind (source_new U C RegistryKind url None) (\<lambda>s. Ok (with_locked_precise C s)))
          else if kind = ''sparse'' then
            obind (into_url U string) (\<lambda>url.
              obind (source_new U C SparseRegistryKind url None) (\<lambda>s. Ok (with_locked_precise C s)))
          else if kind = ''path'' then
            obind (into_url U url) (\<lambda>url. source_new U C PathKind url None)
          else Err (UnsupportedProtocol kind))"

text \<open>\<open>pretty_ref\<close> with \<open>Display for PrettyRef\<close>: no text for the default branch.\<close>

fun reference_param :: "git_reference \<Rightarrow> (string \<times> string) option" where
  "reference_param (Branch s) = Some (''branch'', s)"
| "reference_param (Tag s) = Some (''tag'', s)"
| "reference_param (Rev s) = Some (''rev'', s)"
| "reference_param DefaultBranch = None"

definition pretty_ref :: "'u url_ops \<Rightarrow> bool \<Rightarrow> git_reference \<Rightarrow> string option" where
  "pretty_ref U url_encoded reference =
     map_option (\<lambda>(k, v). k @ ''='' @ (if url_encoded then url_byte_serialize U v else v))
       (reference_param reference)"

definition opt_text :: "string \<Rightarrow> string option \<Rightarrow> string" where
  "opt_text prefix t = (case t of None \<Rightarrow> [] | Some s \<Rightarrow> prefix @ s)"

definition source_as_url ::
  "'u url_ops \<Rightarrow> (('p, 'b) version \<Rightarrow> string) \<Rightarrow> bool \<Rightarrow> ('p, 'b, 'u) source_id_inner \<Rightarrow> string" where
  "source_as_url U show_version encoded s =
     (case protocol (si_kind s) of Some p \<Rightarrow> p @ ''+'' | None \<Rightarrow> []) @ url_as_str U (si_url s) @
     (case si_kind s of
        GitKind reference \<Rightarrow>
          opt_text ''?'' (pretty_ref U encoded reference) @
          opt_text ''#'' (map_option (precise_text show_version) (si_precise s))
      | _ \<Rightarrow> [])"

subsection \<open>Queries\<close>

definition source_is_path :: "('p, 'b, 'u) source_id_inner \<Rightarrow> bool" where
  "source_is_path s \<longleftrightarrow> si_kind s = PathKind"

definition source_is_registry :: "('p, 'b, 'u) source_id_inner \<Rightarrow> bool" where
  "source_is_registry s \<longleftrightarrow> si_kind s \<in> {RegistryKind, SparseRegistryKind, LocalRegistryKind}"

definition source_is_sparse :: "('p, 'b, 'u) source_id_inner \<Rightarrow> bool" where
  "source_is_sparse s \<longleftrightarrow> si_kind s = SparseRegistryKind"

definition source_is_remote_registry :: "('p, 'b, 'u) source_id_inner \<Rightarrow> bool" where
  "source_is_remote_registry s \<longleftrightarrow> si_kind s \<in> {RegistryKind, SparseRegistryKind}"

definition source_git_reference :: "('p, 'b, 'u) source_id_inner \<Rightarrow> git_reference option" where
  "source_git_reference s = (case si_kind s of GitKind r \<Rightarrow> Some r | _ \<Rightarrow> None)"

definition source_is_git :: "('p, 'b, 'u) source_id_inner \<Rightarrow> bool" where
  "source_is_git s \<longleftrightarrow> source_git_reference s \<noteq> None"

definition has_precise :: "('p, 'b, 'u) source_id_inner \<Rightarrow> bool" where
  "has_precise s \<longleftrightarrow> si_precise s \<noteq> None"

definition has_locked_precise :: "('p, 'b, 'u) source_id_inner \<Rightarrow> bool" where
  "has_locked_precise s \<longleftrightarrow> si_precise s = Some PreciseLocked"

definition precise_registry_version ::
  "string \<Rightarrow> ('p, 'b, 'u) source_id_inner \<Rightarrow> (('p, 'b) version \<times> ('p, 'b) version) option" where
  "precise_registry_version pkg s =
     (case si_precise s of
        Some (PreciseUpdated name v w) \<Rightarrow> if name = pkg then Some (v, w) else None
      | _ \<Rightarrow> None)"

definition precise_git_fragment :: "('p, 'b, 'u) source_id_inner \<Rightarrow> string option" where
  "precise_git_fragment s = (case si_precise s of Some (GitUrlFragment f) \<Rightarrow> Some f | _ \<Rightarrow> None)"

text \<open>\<open>overridden\<close> stands for the environment variable that tests replace the index with.\<close>

definition is_crates_io :: "'u url_ops \<Rightarrow> string option \<Rightarrow> ('p, 'b, 'u) source_id_inner \<Rightarrow> bool" where
  "is_crates_io U overridden s \<longleftrightarrow>
     si_kind s \<in> {RegistryKind, SparseRegistryKind} \<and>
     (url_as_str U (si_url s) = ''https://github.com/rust-lang/crates.io-index'' \<or>
      url_as_str U (si_url s) = ''sparse+https://index.crates.io/'' \<or>
      overridden = Some (url_as_str U (si_url s)))"

fun key_text :: "key_of \<Rightarrow> string" where
  "key_text (KeyRegistry k) = k"
| "key_text (KeySource k) = k"

fun alternative_registry :: "key_of \<Rightarrow> string option" where
  "alternative_registry (KeyRegistry k) = Some k"
| "alternative_registry (KeySource k) = None"

definition alt_registry_key :: "('p, 'b, 'u) source_id_inner \<Rightarrow> string option" where
  "alt_registry_key s = Option.bind (si_registry_key s) alternative_registry"

text \<open>
  \<open>display_registry_name\<close>: the recursive call is on an id without a precise part, so it does not
  recurse again. \<open>url_text\<close> is \<open>url_display\<close>.
\<close>

definition plain_registry_name :: "('u \<Rightarrow> string) \<Rightarrow> ('p, 'b, 'u) source_id_inner \<Rightarrow> string" where
  "plain_registry_name url_text s =
     (case si_registry_key s of Some k \<Rightarrow> key_text k | None \<Rightarrow> url_text (si_url s))"

definition display_registry_name ::
  "('u \<Rightarrow> string) \<Rightarrow> ('p, 'b, 'u) source_id_inner list \<Rightarrow> ('p, 'b, 'u) source_id_inner \<Rightarrow> string" where
  "display_registry_name url_text C s =
     (case si_registry_key s of
        Some k \<Rightarrow> key_text k
      | None \<Rightarrow> if has_precise s then plain_registry_name url_text (without_precise C s) else url_text (si_url s))"

subsection \<open>Interning\<close>

fun wrap_all ::
  "('p, 'b, 'u) source_id_inner list \<Rightarrow> ('p, 'b, 'u) source_id_inner list \<Rightarrow>
   ('p, 'b, 'u) source_id_inner list \<times> ('p, 'b, 'u) source_id_inner list" where
  "wrap_all [] cache = ([], cache)"
| "wrap_all (x # xs) cache =
     (case wrap x cache of (y, cache) \<Rightarrow> case wrap_all xs cache of (ys, cache) \<Rightarrow> (y # ys, cache))"

lemma interned_key [simp]: "inner_key (interned C x) = inner_key x"
  by (auto simp: interned_def find_Some_iff split: option.split)

lemma interned_fields [simp]:
  "si_kind (interned C x) = si_kind x" "si_precise (interned C x) = si_precise x"
  "si_canonical_url (interned C x) = si_canonical_url x"
  using interned_key [of C x] by (simp_all add: inner_key_def)

lemma interned_cong: "inner_key x = inner_key y \<Longrightarrow> inner_key x \<in> inner_key ` set C \<Longrightarrow> interned C x = interned C y"
  by (fastforce simp: interned_def find_None_iff split: option.split)

lemma find_append: "find P (xs @ ys) = (case find P xs of Some x \<Rightarrow> Some x | None \<Rightarrow> find P ys)"
  by (induction xs) auto

lemma find_inner_key:
  "(case find (\<lambda>i. inner_key i = inner_key x) C of
      None \<Rightarrow> inner_key x \<notin> inner_key ` set C
    | Some i \<Rightarrow> inner_key x \<in> inner_key ` set C \<and> i \<in> set C \<and> inner_key i = inner_key x)"
proof (cases "find (\<lambda>i. inner_key i = inner_key x) C")
  case None
  then have "inner_key x \<notin> inner_key ` set C" by (force simp: find_None_iff)
  with None show ?thesis by simp
next
  case (Some i)
  then have "i \<in> set C" "inner_key i = inner_key x" by (auto simp: find_Some_iff)
  with Some show ?thesis by (auto intro: image_eqI [of _ _ i])
qed

lemma wrap_known: "inner_key x \<in> inner_key ` set C \<Longrightarrow> wrap x C = (interned C x, C)"
  using find_inner_key [of x C] by (simp add: wrap_def interned_def split: option.splits)

lemma wrap_fresh: "inner_key x \<notin> inner_key ` set C \<Longrightarrow> wrap x C = (x, C @ [x]) \<and> interned (C @ [x]) x = x"
  using find_inner_key [of x C] by (simp add: wrap_def interned_def find_append split: option.splits)

lemma interned_append: "inner_key x \<in> inner_key ` set C \<Longrightarrow> interned (C @ D) x = interned C x"
  by (fastforce simp: interned_def find_append find_None_iff split: option.split)

lemma wrap_all_grows:
  assumes "wrap_all xs C = (ys, D)" and "distinct (map inner_key C)"
  shows "(\<exists>E. D = C @ E) \<and> distinct (map inner_key D) \<and> ys = map (interned D) xs \<and>
    inner_key ` set xs \<subseteq> inner_key ` set D"
  using assms
proof (induction xs arbitrary: C ys)
  case (Cons x xs)
  obtain y C1 ys1 where w: "wrap x C = (y, C1)" and r: "wrap_all xs C1 = (ys1, D)" and ys: "ys = y # ys1"
    using Cons.prems(1) by (auto split: prod.splits)
  have C1: "(\<exists>E. C1 = C @ E) \<and> distinct (map inner_key C1) \<and> y = interned C1 x \<and> inner_key x \<in> inner_key ` set C1"
  proof (cases "inner_key x \<in> inner_key ` set C")
    case True
    with w Cons.prems(2) show ?thesis by (auto simp: wrap_known)
  next
    case False
    with w wrap_fresh [OF False] Cons.prems(2) show ?thesis by auto
  qed
  then obtain E1 where E1: "C1 = C @ E1" and key: "inner_key x \<in> inner_key ` set C1" and y: "y = interned C1 x"
    by blast
  obtain E where D: "D = C1 @ E" and rest: "distinct (map inner_key D)"
      "ys1 = map (interned D) xs" "inner_key ` set xs \<subseteq> inner_key ` set D"
    using Cons.IH [OF r] C1 by blast
  moreover have "interned D x = y" using interned_append [OF key, of E] y D by simp
  moreover have "inner_key x \<in> inner_key ` set D" using key D by auto
  ultimately show ?case using E1 ys by simp
qed simp

text \<open>
  C35: Interning is sound: after any sequence of calls of \<open>wrap\<close> on an empty cache, the result of
  each call is the one entry of the final cache with its kind, precise part and canonical URL, so
  later calls never change an id, and two results are the same pointer exactly if these three
  agree.
\<close>

theorem source_id_interning:
  assumes "wrap_all xs [] = (ys, C)"
  shows "ys = map (interned C) xs \<and> distinct (map inner_key C) \<and> set ys \<subseteq> set C \<and>
    (\<forall>i < length xs. \<forall>j < length xs. ys ! i = ys ! j \<longleftrightarrow> inner_key (xs ! i) = inner_key (xs ! j))"
proof -
  have C: "distinct (map inner_key C)" "ys = map (interned C) xs" "inner_key ` set xs \<subseteq> inner_key ` set C"
    using wrap_all_grows [OF assms] by auto
  have mem: "interned C x \<in> set C" if "x \<in> set xs" for x
    using find_inner_key [of x C] C(3) that by (auto simp: interned_def split: option.splits)
  have "interned C x = interned C y \<longleftrightarrow> inner_key x = inner_key y" if "x \<in> set xs" for x y
  proof
    assume "interned C x = interned C y"
    then show "inner_key x = inner_key y" by (metis interned_key)
  next
    assume "inner_key x = inner_key y"
    then show "interned C x = interned C y" by (rule interned_cong) (use C(3) that in blast)
  qed
  with C mem show ?thesis by auto
qed

definition git_inner :: "nat \<Rightarrow> string \<Rightarrow> (nat, nat, nat) source_id_inner" where
  "git_inner u key = \<lparr>si_url = u, si_canonical_url = 7, si_kind = GitKind DefaultBranch, si_precise = None,
     si_registry_key = Some (KeyRegistry key)\<rparr>"

theorem source_id_interning_witness:
  "wrap_all [git_inner 1 ''a'', git_inner 2 ''b''] [] =
     ([git_inner 1 ''a'', git_inner 1 ''a''], [git_inner 1 ''a'']) \<and>
   [git_inner 1 ''a'', git_inner 1 ''a''] = map (interned [git_inner 1 ''a'']) [git_inner 1 ''a'', git_inner 2 ''b'']"
proof -
  have "wrap_all [git_inner 1 ''a'', git_inner 2 ''b''] [] =
     ([git_inner 1 ''a'', git_inner 1 ''a''], [git_inner 1 ''a''])"
    by (simp add: wrap_def git_inner_def inner_key_def)
  with source_id_interning [OF this] show ?thesis by blast
qed

subsection \<open>Reading back the text\<close>

text \<open>
  What the code relies on of the \<open>url\<close> crate. A URL serializes to a text that parses to it again,
  also after its query and fragment were removed. A URL without query and fragment can be extended
  by a query parameter whose value went through \<open>byte_serialize\<close> and by an alphanumeric fragment:
  the result parses to a URL with that parameter and fragment, and removing both gives the
  original.
\<close>

definition alnum :: "char \<Rightarrow> bool" where
  "alnum c \<longleftrightarrow> CHR ''0'' \<le> c \<and> c \<le> CHR ''9'' \<or> CHR ''A'' \<le> c \<and> c \<le> CHR ''Z'' \<or> CHR ''a'' \<le> c \<and> c \<le> CHR ''z''"

definition url_known :: "'u url_ops \<Rightarrow> 'u \<Rightarrow> bool" where
  "url_known U u \<longleftrightarrow> url_parse U (url_as_str U u) = Some u"

definition url_plain :: "'u url_ops \<Rightarrow> 'u \<Rightarrow> bool" where
  "url_plain U u \<longleftrightarrow> url_drop_query U (url_drop_fragment U u) = u"

definition param_text :: "'u url_ops \<Rightarrow> string \<times> string \<Rightarrow> string" where
  "param_text U p = (case p of (k, v) \<Rightarrow> k @ ''='' @ url_byte_serialize U v)"

definition url_extends :: "'u url_ops \<Rightarrow> bool" where
  "url_extends U \<longleftrightarrow>
     (\<forall>u p f. url_known U u \<longrightarrow> url_plain U u \<longrightarrow> fst ` set_option p \<subseteq> {''branch'', ''tag'', ''rev''} \<longrightarrow>
        pred_option (list_all alnum) f \<longrightarrow>
        (\<exists>w. url_parse U (url_as_str U u @ opt_text ''?'' (map_option (param_text U) p) @ opt_text ''#'' f) = Some w \<and>
          url_query_pairs U w = (case p of None \<Rightarrow> [] | Some kv \<Rightarrow> [kv]) \<and> url_fragment U w = f \<and>
          url_drop_query U (url_drop_fragment U w) = u))"

text \<open>
  The source ids whose text can be read: a URL that is known to the crate, for git without query
  and fragment of its own, the \<open>sparse+\<close> prefix where the kind asks for it, and as precise part of
  a git source a revision. \<open>encoded\<close> tells the two ways of writing the reference apart.
\<close>

definition source_wf :: "'u url_ops \<Rightarrow> ('p, 'b, 'u) source_id_inner \<Rightarrow> bool" where
  "source_wf U s \<longleftrightarrow>
     url_known U (si_url s) \<and> canonical_url U (si_url s) = Ok (si_canonical_url s) \<and>
     (case si_kind s of
        GitKind _ \<Rightarrow> url_plain U (si_url s)
      | SparseRegistryKind \<Rightarrow> starts_with ''sparse+'' (url_as_str U (si_url s))
      | LocalRegistryKind \<Rightarrow> False
      | DirectoryKind \<Rightarrow> False
      | _ \<Rightarrow> True)"

definition source_readable :: "'u url_ops \<Rightarrow> bool \<Rightarrow> ('p, 'b, 'u) source_id_inner \<Rightarrow> bool" where
  "source_readable U encoded s \<longleftrightarrow> source_wf U s \<and>
     (case si_kind s of
        GitKind r \<Rightarrow>
          (si_precise s = None \<or> (\<exists>f. si_precise s = Some (GitUrlFragment f) \<and> list_all alnum f)) \<and>
          (encoded \<or> (\<forall>k v. reference_param r = Some (k, v) \<longrightarrow> url_byte_serialize U v = v))
      | _ \<Rightarrow> True)"

text \<open>The precise part an id has after it was read.\<close>

definition read_precise :: "('p, 'b, 'u) source_id_inner \<Rightarrow> ('p, 'b) precise option" where
  "read_precise s = (case si_kind s of
       GitKind _ \<Rightarrow> si_precise s | RegistryKind \<Rightarrow> Some PreciseLocked
     | SparseRegistryKind \<Rightarrow> Some PreciseLocked | _ \<Rightarrow> None)"

lemma source_key_with_precise [simp]: "source_key (with_precise C p s) = source_key s"
  by (simp add: with_precise_def source_key_def)

lemma si_precise_with_precise [simp]: "si_precise (with_precise C p s) = p"
  by (simp add: with_precise_def)

lemma source_new_known:
  assumes "canonical_url U url = Ok c" and "kind = SparseRegistryKind \<Longrightarrow> starts_with ''sparse+'' (url_as_str U url)"
  shows "\<exists>s. source_new U C kind url key = Ok s \<and> source_key s = (kind, c) \<and> si_precise s = None"
  using assms by (simp add: source_new_def source_key_def)

lemma from_query_param:
  "from_query (case reference_param r of None \<Rightarrow> [] | Some kv \<Rightarrow> [kv]) = r"
  by (cases r) (simp_all add: from_query_def query_reference_def)

lemma split_protocol: "CHR ''+'' \<notin> set p \<Longrightarrow> split_once (CHR ''+'') (p @ CHR ''+'' # s) = Some (p, s)"
  by (simp add: split_once_Some_iff)

lemma pretty_ref_text:
  assumes "encoded \<or> (\<forall>k v. reference_param r = Some (k, v) \<longrightarrow> url_byte_serialize U v = v)"
  shows "pretty_ref U encoded r = map_option (param_text U) (reference_param r)"
  using assms by (cases "reference_param r") (auto simp: pretty_ref_def param_text_def)

lemma git_text:
  assumes "url_extends U" and "source_readable U encoded s" and kind: "si_kind s = GitKind r"
  obtains t w f where "source_as_url U show_version encoded s = ''git+'' @ t" and "url_parse U t = Some w"
    and "from_query (url_query_pairs U w) = r" and "url_fragment U w = f"
    and "url_drop_query U (url_drop_fragment U w) = si_url s" and "si_precise s = map_option GitUrlFragment f"
proof -
  have wf: "url_known U (si_url s)" "url_plain U (si_url s)"
    using assms(2) kind by (simp_all add: source_readable_def source_wf_def)
  obtain f where f: "si_precise s = map_option GitUrlFragment f" "pred_option (list_all alnum) f"
  proof (cases "si_precise s")
    case None
    then show ?thesis using that [of None] by simp
  next
    case (Some x)
    then obtain f where "x = GitUrlFragment f" "list_all alnum f"
      using assms(2) kind by (auto simp: source_readable_def)
    with Some show ?thesis using that [of "Some f"] by simp
  qed
  let ?t = "url_as_str U (si_url s) @ opt_text ''?'' (map_option (param_text U) (reference_param r)) @ opt_text ''#'' f"
  have "pretty_ref U encoded r = map_option (param_text U) (reference_param r)"
    using assms(2) kind by (intro pretty_ref_text) (simp add: source_readable_def)
  then have "source_as_url U show_version encoded s = ''git+'' @ ?t"
    using f(1) by (cases f) (simp_all add: source_as_url_def kind)
  moreover have "fst ` set_option (reference_param r) \<subseteq> {''branch'', ''tag'', ''rev''}"
    by (cases r) simp_all
  with wf assms(1) f(2) obtain w where w: "url_parse U ?t = Some w"
      "url_query_pairs U w = (case reference_param r of None \<Rightarrow> [] | Some kv \<Rightarrow> [kv])"
      "url_fragment U w = f" "url_drop_query U (url_drop_fragment U w) = si_url s"
    unfolding url_extends_def by meson
  ultimately show ?thesis using that [of ?t w f] f(1) by (simp add: from_query_param)
qed

lemma from_url_git:
  assumes "url_extends U" and "source_readable U encoded s" and kind: "si_kind s = GitKind r"
  shows "\<exists>s'. from_url U C (source_as_url U show_version encoded s) = Ok s' \<and>
    source_key s' = source_key s \<and> si_precise s' = si_precise s"
proof -
  obtain t w f where t: "source_as_url U show_version encoded s = ''git+'' @ t" and w: "url_parse U t = Some w"
      "from_query (url_query_pairs U w) = r" "url_fragment U w = f"
      "url_drop_query U (url_drop_fragment U w) = si_url s" and f: "si_precise s = map_option GitUrlFragment f"
    using git_text [OF assms] by blast
  have wf: "canonical_url U (si_url s) = Ok (si_canonical_url s)"
    using assms(2) by (simp add: source_readable_def source_wf_def)
  obtain s0 where s0: "source_new U C (GitKind r) (si_url s) None = Ok s0" "source_key s0 = source_key s"
    using source_new_known [OF wf, of "GitKind r" C None] kind by (auto simp: source_key_def)
  have split: "split_once (CHR ''+'') (''git+'' @ t) = Some (''git'', t)"
    using split_protocol [of "''git''" t] by simp
  have "from_url U C (''git+'' @ t) = Ok (with_git_precise C f s0)"
    using w s0 by (simp only: from_url_def split) (simp add: into_url_def for_git_def Let_def)
  with s0 t f show ?thesis by (simp add: with_git_precise_def)
qed

lemma from_url_registry:
  assumes "source_wf U s" and "si_kind s = RegistryKind"
  shows "\<exists>s'. from_url U C (''registry+'' @ url_as_str U (si_url s)) = Ok s' \<and>
    source_key s' = source_key s \<and> si_precise s' = Some PreciseLocked"
proof -
  have wf: "url_parse U (url_as_str U (si_url s)) = Some (si_url s)" "canonical_url U (si_url s) = Ok (si_canonical_url s)"
    using assms by (simp_all add: source_wf_def url_known_def)
  obtain s0 where "source_new U C RegistryKind (si_url s) None = Ok s0" "source_key s0 = source_key s"
    using source_new_known [OF wf(2), of RegistryKind C None] assms(2) by (auto simp: source_key_def)
  with wf split_protocol [of "''registry''" "url_as_str U (si_url s)"] show ?thesis
    by (simp add: from_url_def into_url_def with_locked_precise_def)
qed

lemma from_url_sparse:
  assumes "source_wf U s" and "si_kind s = SparseRegistryKind"
  shows "\<exists>s'. from_url U C (url_as_str U (si_url s)) = Ok s' \<and>
    source_key s' = source_key s \<and> si_precise s' = Some PreciseLocked"
proof -
  have wf: "url_parse U (url_as_str U (si_url s)) = Some (si_url s)" "canonical_url U (si_url s) = Ok (si_canonical_url s)"
      "starts_with ''sparse+'' (url_as_str U (si_url s))"
    using assms by (simp_all add: source_wf_def url_known_def)
  obtain s0 where "source_new U C SparseRegistryKind (si_url s) None = Ok s0" "source_key s0 = source_key s"
    using source_new_known [OF wf(2), of SparseRegistryKind C None] wf(3) assms(2) by (auto simp: source_key_def)
  moreover obtain rest where "url_as_str U (si_url s) = ''sparse'' @ CHR ''+'' # rest"
    using wf(3) by (auto simp: starts_with_iff)
  then have "split_once (CHR ''+'') (url_as_str U (si_url s)) = Some (''sparse'', rest)"
    using split_protocol [of "''sparse''" rest] by simp
  ultimately show ?thesis using wf(1)
    by (simp add: from_url_def into_url_def with_locked_precise_def)
qed

lemma from_url_path:
  assumes "source_wf U s" and "si_kind s = PathKind"
  shows "\<exists>s'. from_url U C (''path+'' @ url_as_str U (si_url s)) = Ok s' \<and>
    source_key s' = source_key s \<and> si_precise s' = None"
proof -
  have wf: "url_parse U (url_as_str U (si_url s)) = Some (si_url s)" "canonical_url U (si_url s) = Ok (si_canonical_url s)"
    using assms by (simp_all add: source_wf_def url_known_def)
  with source_new_known [OF wf(2), of PathKind C None] assms(2)
    split_protocol [of "''path''" "url_as_str U (si_url s)"] show ?thesis
    by (auto simp: from_url_def into_url_def source_key_def)
qed

lemma source_id_back:
  assumes "url_extends U" and "source_readable U encoded s"
  shows "\<exists>s'. from_url U C (source_as_url U show_version encoded s) = Ok s' \<and>
    source_key s' = source_key s \<and> si_precise s' = read_precise s"
proof (cases "si_kind s")
  case (GitKind r)
  with from_url_git [OF assms GitKind] show ?thesis by (simp add: read_precise_def)
next
  case RegistryKind
  then show ?thesis using assms(2) from_url_registry [of U s C]
    by (simp add: source_readable_def source_as_url_def read_precise_def)
next
  case SparseRegistryKind
  then show ?thesis using assms(2) from_url_sparse [of U s C]
    by (simp add: source_readable_def source_as_url_def read_precise_def)
next
  case PathKind
  then show ?thesis using assms(2) from_url_path [of U s C]
    by (simp add: source_readable_def source_as_url_def read_precise_def)
qed (use assms(2) in \<open>simp_all add: source_readable_def source_wf_def\<close>)

text \<open>
  C20: The text of a source id, in both spellings, is read back as an equal source id: same kind and
  canonical URL, a git source with the same revision, a registry source marked as locked.
\<close>

theorem source_id_round_trip:
  assumes "url_extends U" and "source_readable U encoded s"
  shows "\<exists>s'. from_url U C (source_as_url U show_version encoded s) = Ok s' \<and>
    source_key s' = source_key s \<and> si_precise s' = read_precise s"
  by (rule source_id_back [OF assms])

text \<open>A small implementation of the operations that satisfies the law, for concrete instances.\<close>

type_synonym split_url = "string \<times> string option \<times> string option"

definition cut :: "char \<Rightarrow> string \<Rightarrow> string \<times> string option" where
  "cut c s = (case split_once c s of None \<Rightarrow> (s, None) | Some (a, b) \<Rightarrow> (a, Some b))"

definition split_parse :: "string \<Rightarrow> split_url option" where
  "split_parse s = (case cut (CHR ''#'') s of (rest, f) \<Rightarrow> case cut (CHR ''?'') rest of (b, q) \<Rightarrow> Some (b, q, f))"

definition split_print :: "split_url \<Rightarrow> string" where
  "split_print u = (case u of (b, q, f) \<Rightarrow> b @ opt_text ''?'' q @ opt_text ''#'' f)"

definition escape :: "string \<Rightarrow> string" where
  "escape v = concat (map (\<lambda>c. if c = CHR ''%'' then ''%25'' else if c = CHR ''#'' then ''%23'' else [c]) v)"

fun unescape :: "string \<Rightarrow> string" where
  "unescape [] = []"
| "unescape (c # s) =
     (if c = CHR ''%'' then
        (if take 2 s = ''25'' then CHR ''%'' # unescape (drop 2 s)
         else if take 2 s = ''23'' then CHR ''#'' # unescape (drop 2 s) else c # unescape s)
      else c # unescape s)"

definition split_urls :: "split_url url_ops" where
  "split_urls = \<lparr>url_parse = split_parse, url_from_file_path = (\<lambda>p. split_parse (''file://'' @ p)),
     url_as_str = split_print, url_scheme = (\<lambda>(b, _). takeWhile (\<lambda>c. c \<noteq> CHR '':'') b),
     url_host_str = (\<lambda>_. None), url_path = fst, url_after_scheme = (\<lambda>(b, _). dropWhile (\<lambda>c. c \<noteq> CHR '':'') b),
     url_cannot_be_a_base = (\<lambda>_. False), url_path_segments = (\<lambda>(b, _). Some [b]), url_pop_if_empty = id,
     url_pop_push = (\<lambda>s (b, qf). (s, qf)), url_set_path = (\<lambda>s (b, qf). (s, qf)),
     url_query_pairs = (\<lambda>(b, q, f). case q of None \<Rightarrow> [] | Some q \<Rightarrow>
        (case split_once (CHR ''='') q of None \<Rightarrow> [(q, [])] | Some (k, v) \<Rightarrow> [(k, unescape v)])),
     url_fragment = (\<lambda>(b, q, f). f), url_drop_fragment = (\<lambda>(b, q, f). (b, q, None)),
     url_drop_query = (\<lambda>(b, q, f). (b, None, f)), url_byte_serialize = escape\<rparr>"

lemma unescape_escape: "unescape (escape v) = v"
  by (induction v) (simp_all add: escape_def numeral_2_eq_2)

lemma escape_safe: "CHR ''#'' \<notin> set (escape v)"
  by (induction v) (auto simp: escape_def)

lemma cut_append: "c \<notin> set a \<Longrightarrow> cut c (a @ opt_text [c] t) = (a, t)"
proof (cases t)
  case None
  assume "c \<notin> set a"
  then have "split_once c a = None" by (simp add: split_once_None_iff)
  with None show ?thesis by (simp add: cut_def opt_text_def)
next
  case (Some b)
  assume "c \<notin> set a"
  then have "split_once c (a @ c # b) = Some (a, b)" by (simp add: split_once_Some_iff)
  with Some show ?thesis by (simp add: cut_def opt_text_def)
qed

lemma split_parse_print:
  assumes "CHR ''#'' \<notin> set b" "CHR ''?'' \<notin> set b" "pred_option (\<lambda>q. CHR ''#'' \<notin> set q) q"
  shows "split_parse (b @ opt_text ''?'' q @ opt_text ''#'' f) = Some (b, q, f)"
proof -
  have "CHR ''#'' \<notin> set (b @ opt_text ''?'' q)"
    using assms by (cases q) (auto simp: opt_text_def)
  from cut_append [OF this, of f] cut_append [OF assms(2), of q] show ?thesis
    by (simp add: split_parse_def)
qed

lemma split_parse_base:
  assumes "split_parse s = Some (b, q, f)"
  shows "CHR ''#'' \<notin> set b \<and> CHR ''?'' \<notin> set b"
proof -
  have cut: "c \<notin> set a \<and> set a \<subseteq> set t" if "cut c t = (a, x)" for c t a x
    using that by (auto simp: cut_def split_once_None_iff split_once_Some_iff split: option.splits)
  obtain r where "cut (CHR ''#'') s = (r, f)" "cut (CHR ''?'') r = (b, q)"
    using assms by (auto simp: split_parse_def split: prod.splits)
  with cut show ?thesis by blast
qed

lemma split_urls_extend: "url_extends split_urls"
  unfolding url_extends_def
proof (intro allI impI)
  fix u :: split_url and p :: "(string \<times> string) option" and f
  assume known: "url_known split_urls u" and plain: "url_plain split_urls u"
    and p: "fst ` set_option p \<subseteq> {''branch'', ''tag'', ''rev''}"
  obtain b where u: "u = (b, None, None)"
    using plain by (cases u) (auto simp: url_plain_def split_urls_def)
  have b: "CHR ''#'' \<notin> set b" "CHR ''?'' \<notin> set b"
    using known split_parse_base by (auto simp: url_known_def split_urls_def u split_print_def)
  let ?q = "map_option (param_text split_urls) p"
  have "pred_option (\<lambda>q. CHR ''#'' \<notin> set q) ?q"
    using p escape_safe by (cases p) (auto simp: param_text_def split_urls_def)
  from split_parse_print [OF b this, of f]
  have "url_parse split_urls (url_as_str split_urls u @ opt_text ''?'' ?q @ opt_text ''#'' f) = Some (b, ?q, f)"
    by (simp add: split_urls_def u split_print_def opt_text_def)
  moreover have "url_query_pairs split_urls (b, ?q, f) = (case p of None \<Rightarrow> [] | Some kv \<Rightarrow> [kv])"
  proof (cases p)
    case (Some kv)
    obtain k v where kv: "kv = (k, v)" by (cases kv)
    then have "CHR ''='' \<notin> set k" using p Some by auto
    then have "split_once (CHR ''='') (k @ CHR ''='' # escape v) = Some (k, escape v)"
      by (simp add: split_once_Some_iff)
    with Some kv show ?thesis by (simp add: split_urls_def param_text_def unescape_escape)
  qed (simp add: split_urls_def)
  moreover have "url_fragment split_urls (b, ?q, f) = f \<and>
      url_drop_query split_urls (url_drop_fragment split_urls (b, ?q, f)) = u"
    by (simp add: split_urls_def u)
  ultimately show "\<exists>w. url_parse split_urls (url_as_str split_urls u @ opt_text ''?'' ?q @ opt_text ''#'' f) = Some w \<and>
      url_query_pairs split_urls w = (case p of None \<Rightarrow> [] | Some kv \<Rightarrow> [kv]) \<and> url_fragment split_urls w = f \<and>
      url_drop_query split_urls (url_drop_fragment split_urls w) = u"
    by blast
qed

definition repo_source :: "(nat, nat, split_url) source_id_inner" where
  "repo_source = \<lparr>si_url = (''https://x.org/a'', None, None), si_canonical_url = (''https://x.org/a'', None, None),
     si_kind = GitKind (Branch ''v#1''), si_precise = Some (GitUrlFragment ''ab12''), si_registry_key = None\<rparr>"

lemma repo_source_readable: "source_readable split_urls True repo_source"
  by (simp add: source_readable_def source_wf_def repo_source_def url_known_def url_plain_def split_urls_def
      split_print_def split_parse_def cut_def opt_text_def canonical_url_def strip_slash_def fold_github_def
      chop_git_def ends_with_def alnum_def less_eq_char_def)

theorem source_id_round_trip_witness:
  "source_as_url split_urls (\<lambda>_. []) True repo_source = ''git+https://x.org/a?branch=v%231#ab12'' \<and>
   (\<exists>s'. from_url split_urls ([] :: (nat, nat, split_url) source_id_inner list) ''git+https://x.org/a?branch=v%231#ab12'' = Ok s' \<and>
      source_key s' = source_key repo_source \<and> si_precise s' = Some (GitUrlFragment ''ab12''))"
proof -
  have "source_as_url split_urls (\<lambda>_. []) True repo_source = ''git+https://x.org/a?branch=v%231#ab12''"
    by (simp add: source_as_url_def repo_source_def split_urls_def split_print_def opt_text_def pretty_ref_def escape_def)
  with source_id_round_trip [OF split_urls_extend repo_source_readable, of "[]" "\<lambda>_. []"] show ?thesis
    by (simp add: read_precise_def repo_source_def)
qed

end
