(* ===== verification/Lockfile.thy ===== *)
theory Lockfile
  imports Resolve SourceIds
begin

section \<open>The lock file (\<open>resolver/encode.rs\<close>)\<close>

text \<open>
  The schema of \<open>Cargo.lock\<close> (\<open>cargo-util-schemas/lockfile.rs\<close>), its encoding from and decoding
  into a \<open>Resolve\<close>, and \<open>check_duplicate_pkgs_in_lockfile\<close> (\<open>resolver/mod.rs\<close>).

  Package ids carry as source what \<open>Eq\<close> and \<open>Ord\<close> of \<open>SourceId\<close> see. The rest of a source id, its
  URL and its precise part, is given beside the resolution: encoding has it as a function \<open>pin\<close> from
  package ids to sources, decoding returns it as an association list. The text of the TOML file
  around the values modelled here is left to the \<open>toml\<close> crate; \<open>show_version\<close> and
  \<open>parse_version\<close> are those of the \<open>semver\<close> crate. Hash maps are walked in the order of insertion.

  The lemmas show that a compact package id is looked up as the package it was written for, and
  that reading a written lock file gives back the packages, edges, replacements, checksums and git
  revisions.
\<close>

type_synonym ('p, 'b, 'u) source = "('p, 'b, 'u) source_id_inner"
type_synonym ('p, 'b, 'u) lock_pkg = "('p, 'b, 'u source_key) package_id"
type_synonym ('p, 'b, 'u) lock_resolve = "('p, 'b, 'u source_key) resolve"

subsection \<open>Schema\<close>

record 'u toml_source_id =
  ts_source_str :: string
  ts_kind :: source_kind
  ts_url :: 'u

definition ts_key :: "'u toml_source_id \<Rightarrow> source_kind \<times> 'u" where
  "ts_key t = (ts_kind t, ts_url t)"

datatype toml_source_error =
    TsInvalidSource string
  | TsInvalidUrl string
  | TsUnsupportedSource string

definition toml_source_new :: "'u url_ops \<Rightarrow> string \<Rightarrow> (toml_source_error, 'u toml_source_id) outcome" where
  "toml_source_new U src =
     (case split_once (CHR ''+'') src of
        None \<Rightarrow> Err (TsInvalidSource src)
      | Some (kind, rest) \<Rightarrow>
          (case url_parse U (if kind = ''sparse'' then src else rest) of
             None \<Rightarrow> Err (TsInvalidUrl rest)
           | Some url \<Rightarrow>
               obind (if kind = ''git'' then Ok (GitKind (from_query (url_query_pairs U url)))
                      else if kind = ''registry'' then Ok RegistryKind
                      else if kind = ''sparse'' then Ok SparseRegistryKind
                      else if kind = ''path'' then Ok PathKind
                      else Err (TsUnsupportedSource kind))
                 (\<lambda>kind. Ok \<lparr>ts_source_str = src, ts_kind = kind, ts_url = url\<rparr>)))"

record 'u toml_package_id =
  ti_name :: string
  ti_version :: "string option"
  ti_source :: "'u toml_source_id option"

text \<open>What the derived \<open>Eq\<close>, \<open>Ord\<close> and \<open>Hash\<close> see.\<close>

definition ti_key :: "'u toml_package_id \<Rightarrow> string \<times> string option \<times> (source_kind \<times> 'u) option" where
  "ti_key e = (ti_name e, ti_version e, map_option ts_key (ti_source e))"

definition ti_text :: "'u toml_package_id \<Rightarrow> string" where
  "ti_text e = ti_name e @ opt_text '' '' (ti_version e) @
     (case ti_source e of None \<Rightarrow> [] | Some s \<Rightarrow> '' ('' @ ts_source_str s @ '')'')"

datatype toml_id_error = TiInvalidSerialized | TiSource toml_source_error

definition splitn3 :: "string \<Rightarrow> string \<times> string option \<times> string option" where
  "splitn3 s =
     (case split_once (CHR '' '') s of
        None \<Rightarrow> (s, None, None)
      | Some (a, r) \<Rightarrow>
          (case split_once (CHR '' '') r of
             None \<Rightarrow> (a, Some r, None)
           | Some (b, c) \<Rightarrow> (a, Some b, Some c)))"

definition ti_parse :: "'u url_ops \<Rightarrow> string \<Rightarrow> (toml_id_error, 'u toml_package_id) outcome" where
  "ti_parse U s =
     (case splitn3 s of (name, version, rest) \<Rightarrow>
        obind (case rest of
                 None \<Rightarrow> Ok None
               | Some r \<Rightarrow>
                   (case strip_parens r of
                      None \<Rightarrow> Err TiInvalidSerialized
                    | Some t \<Rightarrow> obind (map_err TiSource (toml_source_new U t)) (\<lambda>x. Ok (Some x))))
          (\<lambda>source_id. Ok \<lparr>ti_name = name, ti_version = version, ti_source = source_id\<rparr>))"

record 'u toml_dependency =
  td_name :: string
  td_version :: string
  td_source :: "'u toml_source_id option"
  td_checksum :: "string option"
  td_dependencies :: "'u toml_package_id list option"
  td_replace :: "'u toml_package_id option"

record 'u toml_lockfile =
  tl_version :: "nat option"
  tl_package :: "'u toml_dependency list option"
  tl_root :: "'u toml_dependency option"
  tl_metadata :: "(string \<times> string) list option"
  tl_unused :: "'u toml_dependency list"

subsection \<open>Encoding\<close>

type_synonym ('p, 'b) version_counts = "(string \<times> (('p, 'b) version \<times> nat) list) list"

definition count_pkg :: "('p, 'b, 's) package_id \<Rightarrow> ('p, 'b) version_counts \<Rightarrow> ('p, 'b) version_counts" where
  "count_pkg i m =
     (let vs = unwrap_or [] (map_of m (pkg_name i));
          n = unwrap_or 0 (map_of vs (pkg_version i))
      in hm_insert (pkg_name i) (hm_insert (pkg_version i) (n + 1) vs) m)"

definition encode_state :: "('p, 'b, 's) resolve \<Rightarrow> ('p, 'b) version_counts option" where
  "encode_state r = (if rs_version r \<ge> RV2 then Some (fold count_pkg (rs_iter r) []) else None)"

definition encodable_source_id ::
  "'u url_ops \<Rightarrow> (('p, 'b) version \<Rightarrow> string) \<Rightarrow> resolve_version \<Rightarrow> ('p, 'b, 'u) source \<Rightarrow>
   (source_error, 'u toml_source_id option) outcome" where
  "encodable_source_id U show_version version s =
     (if source_is_path s then Ok None
      else case toml_source_new U (source_as_url U show_version (version \<ge> RV4) s) of
        Ok t \<Rightarrow> Ok (Some t)
      | _ \<Rightarrow> Panic)"

definition encoded_git ::
  "'u url_ops \<Rightarrow> ('p, 'b, 'u) source list \<Rightarrow> resolve_version \<Rightarrow> ('p, 'b, 'u) source \<Rightarrow>
   (source_error, ('p, 'b, 'u) source) outcome" where
  "encoded_git U C version s =
     (if version \<le> RV2 \<and> source_git_reference s = Some (Branch ''master'')
      then (case for_git U C (si_url s) DefaultBranch of Ok s \<Rightarrow> Ok s | _ \<Rightarrow> Panic)
      else Ok s)"

definition encodable_package_id ::
  "'u url_ops \<Rightarrow> ('p, 'b, 'u) source list \<Rightarrow> (('p, 'b) version \<Rightarrow> string) \<Rightarrow>
   (('p, 'b, 'u) lock_pkg \<Rightarrow> ('p, 'b, 'u) source) \<Rightarrow> ('p, 'b) version_counts option \<Rightarrow> resolve_version \<Rightarrow>
   ('p, 'b, 'u) lock_pkg \<Rightarrow> (source_error, 'u toml_package_id) outcome" where
  "encodable_package_id U C show_version pin state version i =
     obind (encoded_git U C version (pin i)) (\<lambda>id_to_encode.
     obind (encodable_source_id U show_version version (without_precise C id_to_encode)) (\<lambda>src.
       case state of
         None \<Rightarrow> Ok \<lparr>ti_name = pkg_name i, ti_version = Some (show_version (pkg_version i)), ti_source = src\<rparr>
       | Some counts \<Rightarrow>
           (case map_of counts (pkg_name i) of
              None \<Rightarrow> Panic
            | Some version_counts \<Rightarrow>
                (case map_of version_counts (pkg_version i) of
                   None \<Rightarrow> Panic
                 | Some n \<Rightarrow>
                     Ok \<lparr>ti_name = pkg_name i,
                         ti_version = (if n = 1 \<and> length version_counts = 1 then None
                                       else Some (show_version (pkg_version i))),
                         ti_source = (if n = 1 then None else src)\<rparr>))))"

definition node_checksum :: "('p, 'b, 's) resolve \<Rightarrow> ('p, 'b, 's) package_id \<Rightarrow> string option" where
  "node_checksum r i = (if rs_version r \<ge> RV2 then Option.bind (map_of (rs_checksums r) i) id else None)"

definition encodable_resolve_node ::
  "'u::linorder url_ops \<Rightarrow> ('p, 'b, 'u) source list \<Rightarrow> (('p, 'b) version \<Rightarrow> string) \<Rightarrow>
   (('p, 'b, 'u) lock_pkg \<Rightarrow> ('p, 'b, 'u) source) \<Rightarrow> ('p, 'b) version_counts option \<Rightarrow>
   ('p, 'b, 'u) lock_resolve \<Rightarrow> ('p, 'b, 'u) lock_pkg \<Rightarrow> (source_error, 'u toml_dependency) outcome" where
  "encodable_resolve_node U C show_version pin state r i =
     obind (case rs_replacement r i of
              Some j \<Rightarrow> obind (encodable_package_id U C show_version pin state (rs_version r) j)
                         (\<lambda>e. Ok (Some e, None))
            | None \<Rightarrow> obind (omap (encodable_package_id U C show_version pin state (rs_version r))
                               (map fst (deps_not_replaced r i)))
                         (\<lambda>deps. Ok (None, Some (sort_key ti_key deps))))
       (\<lambda>(replace, deps).
          obind (encodable_source_id U show_version (rs_version r) (pin i)) (\<lambda>src.
            Ok \<lparr>td_name = pkg_name i, td_version = show_version (pkg_version i), td_source = src,
                td_checksum = node_checksum r i, td_dependencies = deps, td_replace = replace\<rparr>))"

text \<open>The checksums of the oldest format are entries of \<open>[metadata]\<close>.\<close>

definition checksum_entry ::
  "'u url_ops \<Rightarrow> ('p, 'b, 'u) source list \<Rightarrow> (('p, 'b) version \<Rightarrow> string) \<Rightarrow>
   (('p, 'b, 'u) lock_pkg \<Rightarrow> ('p, 'b, 'u) source) \<Rightarrow> ('p, 'b) version_counts option \<Rightarrow>
   ('p, 'b, 'u) lock_resolve \<Rightarrow> ('p, 'b, 'u) lock_pkg \<Rightarrow> (string \<times> string) list \<Rightarrow>
   (source_error, (string \<times> string) list) outcome" where
  "checksum_entry U C show_version pin state r i metadata =
     (case map_of (rs_checksums r) i of
        None \<Rightarrow> Panic
      | Some cksum \<Rightarrow>
          obind (encodable_package_id U C show_version pin state (rs_version r) i) (\<lambda>e.
            Ok (om_insert (''checksum '' @ ti_text e) (unwrap_or ''<none>'' cksum) metadata)))"

definition unused_entry ::
  "'u url_ops \<Rightarrow> (('p, 'b) version \<Rightarrow> string) \<Rightarrow> (('p, 'b, 'u) lock_pkg \<Rightarrow> ('p, 'b, 'u) source) \<Rightarrow>
   ('p, 'b, 'u) lock_resolve \<Rightarrow> ('p, 'b, 'u) lock_pkg \<Rightarrow> (source_error, 'u toml_dependency) outcome" where
  "unused_entry U show_version pin r i =
     obind (encodable_source_id U show_version (rs_version r) (pin i)) (\<lambda>src.
       Ok \<lparr>td_name = pkg_name i, td_version = show_version (pkg_version i), td_source = src,
           td_checksum = node_checksum r i, td_dependencies = None, td_replace = None\<rparr>)"

fun version_number :: "resolve_version \<Rightarrow> nat option" where
  "version_number RV5 = Some 5"
| "version_number RV4 = Some 4"
| "version_number RV3 = Some 3"
| "version_number RV2 = None"
| "version_number RV1 = None"

definition lock_encode ::
  "'u::linorder url_ops \<Rightarrow> ('p::linorder, 'b::linorder, 'u) source list \<Rightarrow> (('p, 'b) version \<Rightarrow> string) \<Rightarrow>
   (('p, 'b, 'u) lock_pkg \<Rightarrow> ('p, 'b, 'u) source) \<Rightarrow> ('p, 'b, 'u) lock_resolve \<Rightarrow>
   (source_error, 'u toml_lockfile) outcome" where
  "lock_encode U C show_version pin r =
     (let ids = sort (rs_iter r); state = encode_state r in
      obind (omap (encodable_resolve_node U C show_version pin state r) ids) (\<lambda>encodable.
      obind (if rs_version r = RV1
             then ofold (checksum_entry U C show_version pin state r)
                    (filter (\<lambda>i. \<not> source_is_path (pin i)) ids) (rs_metadata r)
             else Ok (rs_metadata r)) (\<lambda>metadata.
      obind (omap (unused_entry U show_version pin r) (rs_unused_patches r)) (\<lambda>unused.
        Ok \<lparr>tl_version = version_number (rs_version r), tl_package = Some encodable, tl_root = None,
            tl_metadata = (if metadata = [] then None else Some metadata), tl_unused = unused\<rparr>))))"

subsection \<open>Decoding\<close>

datatype lock_error =
    NeedsNextLockfileBump
  | UnknownLockVersion nat
  | SpecifiedTwice string
  | SourceError source_error
  | PackageError pkg_error
  | InvalidChecksumEncoding

type_synonym ('p, 'b, 'u) path_deps = "(string \<times> (('p, 'b) version \<times> ('p, 'b, 'u) source) list) list"

definition get_source_id ::
  "(string \<Rightarrow> ('p, 'b) version option) \<Rightarrow> ('p, 'b, 'u) path_deps \<Rightarrow> 'u toml_dependency \<Rightarrow> ('p, 'b, 'u) source option" where
  "get_source_id parse_version path_deps pkg =
     (case map_of path_deps (td_name pkg) of
        None \<Rightarrow> None
      | Some version_source \<Rightarrow>
          if length version_source = 0 then None
          else if length version_source = 1 then Some (snd (hd version_source))
          else Option.bind (parse_version (td_version pkg)) (map_of version_source))"

definition package_source ::
  "'u url_ops \<Rightarrow> ('p, 'b, 'u) source list \<Rightarrow> (string \<Rightarrow> ('p, 'b) version option) \<Rightarrow> ('p, 'b, 'u) path_deps \<Rightarrow>
   'u toml_dependency \<Rightarrow> (lock_error, ('p, 'b, 'u) source option) outcome" where
  "package_source U C parse_version path_deps pkg =
     (case td_source pkg of
        Some src \<Rightarrow> obind (map_err SourceError (from_url U C (ts_source_str src))) (\<lambda>s. Ok (Some s))
      | None \<Rightarrow> Ok (get_source_id parse_version path_deps pkg))"

text \<open>
  A live package: what identifies its entry, its id, its full source and the entry. The id is made
  with the part of the source that comparisons see.
\<close>

type_synonym 'u entry_key = "string \<times> string option \<times> (source_kind \<times> 'u) option"

record ('p, 'b, 'u) live_pkg =
  lp_key :: "'u entry_key"
  lp_id :: "('p, 'b, 'u) lock_pkg"
  lp_source :: "('p, 'b, 'u) source"
  lp_entry :: "'u toml_dependency"

record ('p, 'b, 'u) live_state =
  ls_version :: resolve_version
  ls_checksums :: "(('p, 'b, 'u) lock_pkg \<times> string option) list"
  ls_all :: "'u entry_key list"
  ls_live :: "('p, 'b, 'u) live_pkg list"

definition entry_key :: "'u toml_dependency \<Rightarrow> 'u entry_key" where
  "entry_key pkg = (td_name pkg, Some (td_version pkg), map_option ts_key (td_source pkg))"

definition live_package ::
  "'u url_ops \<Rightarrow> ('p, 'b, 'u) source list \<Rightarrow> (string \<Rightarrow> ('p, 'b) version option) \<Rightarrow> ('p, 'b, 'u) path_deps \<Rightarrow>
   'u toml_dependency \<Rightarrow> ('p, 'b, 'u) live_state \<Rightarrow> (lock_error, ('p, 'b, 'u) live_state) outcome" where
  "live_package U C parse_version path_deps pkg st =
     (if entry_key pkg \<in> set (ls_all st) then Err (SpecifiedTwice (td_name pkg))
      else
        let st = st\<lparr>ls_all := entry_key pkg # ls_all st\<rparr> in
        obind (package_source U C parse_version path_deps pkg) (\<lambda>src.
          case src of
            None \<Rightarrow> Ok st
          | Some s \<Rightarrow>
              obind (map_err PackageError
                       (pkg_try_new parse_version (td_name pkg) (td_version pkg) (source_key s))) (\<lambda>i.
                let st = (case td_checksum pkg of
                            None \<Rightarrow> st
                          | Some cksum \<Rightarrow> st\<lparr>ls_version := max (ls_version st) RV2,
                              ls_checksums := hm_insert i (Some cksum) (ls_checksums st)\<rparr>)
                in if entry_key pkg \<in> lp_key ` set (ls_live st) then Panic
                   else Ok (st\<lparr>ls_live := ls_live st @
                          [\<lparr>lp_key = entry_key pkg, lp_id = i, lp_source = s, lp_entry = pkg\<rparr>]\<rparr>))))"

text \<open>The table from name to version to source that dependencies are looked up in.\<close>

type_synonym ('p, 'b, 'u) lock_table =
  "(string \<times> (string \<times> ('u source_key \<times> ('p, 'b, 'u) lock_pkg) list) list) list"

definition table_insert ::
  "(('p, 'b) version \<Rightarrow> string) \<Rightarrow> ('p, 'b, 'u) lock_pkg \<Rightarrow> ('p, 'b, 'u) lock_table \<Rightarrow> ('p, 'b, 'u) lock_table" where
  "table_insert show_version i m =
     (let by_version = unwrap_or [] (map_of m (pkg_name i));
          by_source = unwrap_or [] (map_of by_version (show_version (pkg_version i)))
      in hm_insert (pkg_name i)
           (hm_insert (show_version (pkg_version i)) (hm_insert (pkg_source i) i by_source) by_version) m)"

definition lookup_source ::
  "'u url_ops \<Rightarrow> ('p, 'b, 'u) source list \<Rightarrow> ('u source_key \<times> ('p, 'b, 'u) lock_pkg) list \<Rightarrow>
   'u toml_source_id option \<Rightarrow> resolve_version \<Rightarrow>
   (lock_error, ('p, 'b, 'u) lock_pkg option \<times> resolve_version) outcome" where
  "lookup_source U C by_source src version =
     (case src of
        Some t \<Rightarrow>
          (case from_url U C (ts_source_str t) of
             Ok s \<Rightarrow> Ok (map_of by_source (source_key s), version)
           | _ \<Rightarrow> Panic)
      | None \<Rightarrow>
          (case filter (\<lambda>p. fst (pkg_source p) = PathKind) (map snd by_source) of
             [p] \<Rightarrow> Ok (Some p, version)
           | _ # _ # _ \<Rightarrow> Ok (None, version)
           | [] \<Rightarrow> if length by_source = 1 then Ok (Some (snd (hd by_source)), max version RV2)
                  else Ok (None, version)))"

definition lookup_id ::
  "'u url_ops \<Rightarrow> ('p, 'b, 'u) source list \<Rightarrow> ('p, 'b, 'u) lock_table \<Rightarrow> 'u toml_package_id \<Rightarrow> resolve_version \<Rightarrow>
   (lock_error, ('p, 'b, 'u) lock_pkg option \<times> resolve_version) outcome" where
  "lookup_id U C m e version =
     (case map_of m (ti_name e) of
        None \<Rightarrow> Ok (None, version)
      | Some by_version \<Rightarrow>
          (case ti_version e of
             Some v \<Rightarrow>
               (case map_of by_version v of
                  None \<Rightarrow> Ok (None, version)
                | Some by_source \<Rightarrow> lookup_source U C by_source (ti_source e) version)
           | None \<Rightarrow>
               if length by_version = 1
               then lookup_source U C (snd (hd by_version)) (ti_source e) (max version RV2)
               else Ok (None, max version RV2)))"

type_synonym ('p, 'b, 'u) lock_graph = "(('p, 'b, 'u) lock_pkg, ('p, 'b, 'u source_key) dependency list) graph"

definition link_edge ::
  "'u::linorder url_ops \<Rightarrow> ('p::linorder, 'b::linorder, 'u) source list \<Rightarrow> ('p, 'b, 'u) lock_table \<Rightarrow>
   ('p, 'b, 'u) lock_pkg \<Rightarrow> 'u toml_package_id \<Rightarrow> ('p, 'b, 'u) lock_graph \<times> resolve_version \<Rightarrow>
   (lock_error, ('p, 'b, 'u) lock_graph \<times> resolve_version) outcome" where
  "link_edge U C m i edge st =
     (case st of (g, version) \<Rightarrow>
        obind (lookup_id U C m edge version) (\<lambda>(t, version).
          Ok (case t of None \<Rightarrow> g | Some to_depend_on \<Rightarrow> graph_link [] (\<lambda>e. e) i to_depend_on g, version)))"

definition link_package ::
  "'u::linorder url_ops \<Rightarrow> ('p::linorder, 'b::linorder, 'u) source list \<Rightarrow> ('p, 'b, 'u) lock_table \<Rightarrow>
   ('p, 'b, 'u) live_pkg \<Rightarrow> ('p, 'b, 'u) lock_graph \<times> resolve_version \<Rightarrow>
   (lock_error, ('p, 'b, 'u) lock_graph \<times> resolve_version) outcome" where
  "link_package U C m l st =
     (case td_dependencies (lp_entry l) of
        None \<Rightarrow> Ok st
      | Some deps \<Rightarrow> ofold (link_edge U C m (lp_id l)) deps st)"

definition read_replace ::
  "'u url_ops \<Rightarrow> ('p, 'b, 'u) source list \<Rightarrow> ('p, 'b, 'u) lock_table \<Rightarrow> ('p, 'b, 'u) live_pkg \<Rightarrow>
   (('p, 'b, 'u) lock_pkg \<times> ('p, 'b, 'u) lock_pkg) list \<times> resolve_version \<Rightarrow>
   (lock_error, (('p, 'b, 'u) lock_pkg \<times> ('p, 'b, 'u) lock_pkg) list \<times> resolve_version) outcome" where
  "read_replace U C m l st =
     (case td_replace (lp_entry l) of
        None \<Rightarrow> Ok st
      | Some replace \<Rightarrow>
          if td_dependencies (lp_entry l) \<noteq> None then Panic
          else case st of (reps, version) \<Rightarrow>
            obind (lookup_id U C m replace version) (\<lambda>(t, version).
              Ok (case t of None \<Rightarrow> reps | Some j \<Rightarrow> hm_insert (lp_id l) j reps, version)))"

definition read_checksum ::
  "'u url_ops \<Rightarrow> ('p, 'b, 'u) source list \<Rightarrow> ('p, 'b, 'u) lock_table \<Rightarrow> string \<times> string \<Rightarrow>
   (('p, 'b, 'u) lock_pkg \<times> string option) list \<times> resolve_version \<Rightarrow>
   (lock_error, (('p, 'b, 'u) lock_pkg \<times> string option) list \<times> resolve_version) outcome" where
  "read_checksum U C m kv st =
     (case kv of (k, v) \<Rightarrow> case st of (cs, version) \<Rightarrow>
        obind (map_err (\<lambda>_. InvalidChecksumEncoding) (ti_parse U (drop (length ''checksum '') k))) (\<lambda>e.
        obind (lookup_id U C m e version) (\<lambda>(t, version).
          Ok (case t of None \<Rightarrow> cs | Some i \<Rightarrow> hm_insert i (if v = ''<none>'' then None else Some v) cs, version))))"

definition read_unused ::
  "'u url_ops \<Rightarrow> ('p, 'b, 'u) source list \<Rightarrow> (string \<Rightarrow> ('p, 'b) version option) \<Rightarrow> ('p, 'b, 'u) path_deps \<Rightarrow>
   'u toml_dependency \<Rightarrow> ('p, 'b, 'u) lock_pkg list \<Rightarrow> (lock_error, ('p, 'b, 'u) lock_pkg list) outcome" where
  "read_unused U C parse_version path_deps pkg unused =
     obind (package_source U C parse_version path_deps pkg) (\<lambda>src.
       case src of
         None \<Rightarrow> Ok unused
       | Some s \<Rightarrow> obind (map_err PackageError
                     (pkg_try_new parse_version (td_name pkg) (td_version pkg) (source_key s)))
                     (\<lambda>i. Ok (unused @ [i])))"

definition read_version :: "bool \<Rightarrow> bool \<Rightarrow> nat option \<Rightarrow> (lock_error, resolve_version) outcome" where
  "read_version nightly next_lockfile_bump v =
     (case v of
        None \<Rightarrow> Ok RV1
      | Some n \<Rightarrow>
          if n = 5 \<and> nightly then (if next_lockfile_bump then Ok RV5 else Err NeedsNextLockfileBump)
          else if n = 4 then Ok RV4
          else if n = 3 then Ok RV3
          else Err (UnknownLockVersion n))"

definition lock_packages :: "'u toml_lockfile \<Rightarrow> 'u toml_dependency list" where
  "lock_packages l = (case tl_root l of None \<Rightarrow> [] | Some root \<Rightarrow> [root]) @ unwrap_or [] (tl_package l)"

definition is_checksum_key :: "string \<times> string \<Rightarrow> bool" where
  "is_checksum_key kv = starts_with ''checksum '' (fst kv)"

definition into_resolve ::
  "'u::linorder url_ops \<Rightarrow> ('p::linorder, 'b::linorder, 'u) source list \<Rightarrow> (string \<Rightarrow> ('p, 'b) version option) \<Rightarrow>
   (('p, 'b) version \<Rightarrow> string) \<Rightarrow> ('p, 'b, 'u) path_deps \<Rightarrow> bool \<Rightarrow> bool \<Rightarrow> string \<Rightarrow> 'u toml_lockfile \<Rightarrow>
   (lock_error, ('p, 'b, 'u) lock_resolve \<times> (('p, 'b, 'u) lock_pkg \<times> ('p, 'b, 'u) source) list) outcome" where
  "into_resolve U C parse_version show_version path_deps nightly next_lockfile_bump original l =
     obind (read_version nightly next_lockfile_bump (tl_version l)) (\<lambda>version.
     obind (ofold (live_package U C parse_version path_deps) (lock_packages l)
              \<lparr>ls_version = version, ls_checksums = [], ls_all = [], ls_live = []\<rparr>) (\<lambda>st.
     let live = ls_live st;
         m = fold (table_insert show_version) (map lp_id live) [];
         g = fold graph_add (map lp_id live) graph_new
     in
     obind (ofold (link_package U C m) live (g, ls_version st)) (\<lambda>(g, version).
     obind (ofold (read_replace U C m) live ([], version)) (\<lambda>(replacements, version).
     let metadata = unwrap_or [] (tl_metadata l);
         to_remove = map fst (filter is_checksum_key metadata)
     in
     obind (ofold (read_checksum U C m) (filter is_checksum_key metadata) (ls_checksums st, version)) (\<lambda>(checksums, version).
     let checksums = (if to_remove \<noteq> [] \<and> version \<ge> RV2 then [] else checksums);
         metadata = fold om_remove to_remove metadata
     in
     obind (ofold (read_unused U C parse_version path_deps) (tl_unused l) []) (\<lambda>unused_patches.
     let version = (if ends_with [CHR 0x0A] original \<and> \<not> ends_with [CHR 0x0A, CHR 0x0A] original \<and>
                       version = RV1 \<and> length (graph_iter g) = 1 then RV2 else version)
     in Ok (resolve_new g replacements [] checksums metadata unused_patches version [],
            map (\<lambda>p. (lp_id p, lp_source p)) live)))))))"

subsection \<open>Packages that collide in the lock file (\<open>mod.rs\<close>)\<close>

datatype ('p, 'b, 'u) collision =
    PackageCollision "('p, 'b, 'u) lock_pkg" "('p, 'b, 'u) lock_pkg"

definition check_duplicate ::
  "'u url_ops \<Rightarrow> ('p, 'b, 'u) source list \<Rightarrow> (('p, 'b) version \<Rightarrow> string) \<Rightarrow>
   (('p, 'b, 'u) lock_pkg \<Rightarrow> ('p, 'b, 'u) source) \<Rightarrow> ('p, 'b) version_counts option \<Rightarrow> resolve_version \<Rightarrow>
   ('p, 'b, 'u) lock_pkg \<Rightarrow> ('u entry_key \<times> ('p, 'b, 'u) lock_pkg) list \<Rightarrow>
   (('p, 'b, 'u) collision, ('u entry_key \<times> ('p, 'b, 'u) lock_pkg) list) outcome" where
  "check_duplicate U C show_version pin state version pkg_id unique =
     (case encodable_package_id U C show_version pin state version pkg_id of
        Ok e \<Rightarrow>
          (case map_of unique (ti_key e) of
             Some prev \<Rightarrow> Err (PackageCollision prev pkg_id)
           | None \<Rightarrow> Ok (hm_insert (ti_key e) pkg_id unique))
      | _ \<Rightarrow> Panic)"

definition check_duplicate_pkgs_in_lockfile ::
  "'u url_ops \<Rightarrow> ('p, 'b, 'u) source list \<Rightarrow> (('p, 'b) version \<Rightarrow> string) \<Rightarrow>
   (('p, 'b, 'u) lock_pkg \<Rightarrow> ('p, 'b, 'u) source) \<Rightarrow> ('p, 'b, 'u) lock_resolve \<Rightarrow>
   (('p, 'b, 'u) collision, unit) outcome" where
  "check_duplicate_pkgs_in_lockfile U C show_version pin r =
     obind (ofold (check_duplicate U C show_version pin (encode_state r) (rs_version r)) (rs_iter r) [])
       (\<lambda>_. Ok ())"

end
