(* ===== verification/LockRoundTrip.thy ===== *)
theory LockRoundTrip
  imports Lockfile
begin

section \<open>Reading a written lock file\<close>

text \<open>
  The proofs about \<open>Lockfile\<close>: the counts behind the compact package ids, the table they are
  looked up in, and the round trip of a whole resolution for the formats with a version number.
\<close>

lemma unwrap_or_simps [simp]: "unwrap_or d None = d" "unwrap_or d (Some x) = x"
  by (simp_all add: unwrap_or_def)

lemma hm_insert_new: "k \<notin> fst ` set m \<Longrightarrow> hm_insert k v m = m @ [(k, v)]"
  by (induction m) auto

subsection \<open>Counting packages\<close>

definition same_name :: "('p, 'b, 's) package_id list \<Rightarrow> string \<Rightarrow> ('p, 'b, 's) package_id list" where
  "same_name ids n = filter (\<lambda>i. pkg_name i = n) ids"

definition same_version :: "('p, 'b, 's) package_id list \<Rightarrow> string \<Rightarrow> ('p, 'b) version \<Rightarrow> ('p, 'b, 's) package_id list" where
  "same_version ids n v = filter (\<lambda>i. pkg_name i = n \<and> pkg_version i = v) ids"

lemma mem_same_name [simp]: "i \<in> set (same_name ids n) \<longleftrightarrow> i \<in> set ids \<and> pkg_name i = n"
  by (auto simp: same_name_def)

lemma mem_same_version [simp]:
  "i \<in> set (same_version ids n v) \<longleftrightarrow> i \<in> set ids \<and> pkg_name i = n \<and> pkg_version i = v"
  by (auto simp: same_version_def)

definition entry_ok :: "('p, 'b, 's) package_id list \<Rightarrow> string \<Rightarrow> (('p, 'b) version \<times> nat) list \<Rightarrow> bool" where
  "entry_ok ids n vs \<longleftrightarrow> distinct (map fst vs) \<and> fst ` set vs = pkg_version ` set (same_name ids n) \<and>
     (\<forall>v k. map_of vs v = Some k \<longrightarrow> k = length (same_version ids n v))"

definition counts_ok :: "('p, 'b, 's) package_id list \<Rightarrow> ('p, 'b) version_counts \<Rightarrow> bool" where
  "counts_ok ids m \<longleftrightarrow> (\<forall>n. entry_ok ids n (unwrap_or [] (map_of m n)))"

lemma same_version_snoc: "same_version (ids @ [i]) n v =
    same_version ids n v @ (if pkg_name i = n \<and> pkg_version i = v then [i] else [])"
  by (simp add: same_version_def)

lemma same_name_snoc: "same_name (ids @ [i]) n = same_name ids n @ (if pkg_name i = n then [i] else [])"
  by (simp add: same_name_def)

lemma entry_ok_count:
  assumes "entry_ok ids n vs"
  shows "unwrap_or 0 (map_of vs v) = length (same_version ids n v)"
proof (cases "map_of vs v")
  case None
  then have "v \<notin> pkg_version ` set (same_name ids n)"
    using assms by (simp add: entry_ok_def map_of_eq_None_iff)
  then have "same_version ids n v = []" by (auto simp: same_version_def filter_empty_conv)
  with None show ?thesis by simp
next
  case (Some k)
  with assms show ?thesis by (simp add: entry_ok_def)
qed

lemma entry_ok_snoc:
  assumes "entry_ok ids (pkg_name i) vs"
  shows "entry_ok (ids @ [i]) (pkg_name i)
    (hm_insert (pkg_version i) (unwrap_or 0 (map_of vs (pkg_version i)) + 1) vs)"
proof -
  have "distinct (map fst (hm_insert (pkg_version i) k vs))" for k
    using assms hm_wf_insert [of vs] by (simp add: entry_ok_def hm_wf_def)
  with assms entry_ok_count [OF assms] show ?thesis
    by (simp add: entry_ok_def keys_hm_insert get_hm_insert same_name_snoc same_version_snoc)
qed

lemma counts_ok_snoc:
  assumes "counts_ok ids m"
  shows "counts_ok (ids @ [i]) (count_pkg i m)"
  unfolding counts_ok_def
proof
  fix n
  show "entry_ok (ids @ [i]) n (unwrap_or [] (map_of (count_pkg i m) n))"
  proof (cases "n = pkg_name i")
    case True
    with assms entry_ok_snoc [of ids i] show ?thesis
      by (simp add: counts_ok_def count_pkg_def get_hm_insert Let_def)
  next
    case False
    then have "entry_ok (ids @ [i]) n = entry_ok ids n"
      by (intro ext) (simp add: entry_ok_def same_name_snoc same_version_snoc)
    with assms False show ?thesis by (simp add: counts_ok_def count_pkg_def get_hm_insert Let_def)
  qed
qed

lemma counts_ok_fold: "counts_ok ids (fold count_pkg ids [])"
proof (induction ids rule: rev_induct)
  case Nil
  show ?case by (simp add: counts_ok_def entry_ok_def same_name_def)
next
  case (snoc i ids)
  from counts_ok_snoc [OF this] show ?case by simp
qed

lemma card_1_iff_all: "a \<in> S \<Longrightarrow> card S = 1 \<longleftrightarrow> (\<forall>v \<in> S. v = a)"
proof
  assume "a \<in> S" and "card S = 1"
  then show "\<forall>v \<in> S. v = a" by (metis card_1_singletonE singletonD)
next
  assume "a \<in> S" and "\<forall>v \<in> S. v = a"
  then have "S = {a}" by blast
  then show "card S = 1" by simp
qed

lemma length_1_iff_single: "x \<in> set xs \<Longrightarrow> length xs = 1 \<longleftrightarrow> xs = [x]"
  by (cases xs) auto

lemma distinct_singleton: "distinct xs \<Longrightarrow> set xs = {x} \<Longrightarrow> xs = [x]"
  by (cases xs) (auto simp: subset_singleton_iff)

lemma length_1_iff_keys:
  assumes "distinct (map fst vs)" and "a \<in> fst ` set vs"
  shows "length vs = 1 \<longleftrightarrow> (\<forall>v \<in> fst ` set vs. v = a)"
  using card_1_iff_all [OF assms(2)] distinct_card [OF assms(1)] by simp

lemma counts_lookup:
  assumes "i \<in> set ids"
  obtains vs where "map_of (fold count_pkg ids []) (pkg_name i) = Some vs"
    and "map_of vs (pkg_version i) = Some (length (same_version ids (pkg_name i) (pkg_version i)))"
    and "length vs = 1 \<longleftrightarrow> (\<forall>j \<in> set ids. pkg_name j = pkg_name i \<longrightarrow> pkg_version j = pkg_version i)"
proof -
  let ?vs = "unwrap_or [] (map_of (fold count_pkg ids []) (pkg_name i))"
  have ok: "entry_ok ids (pkg_name i) ?vs" using counts_ok_fold [of ids] by (simp add: counts_ok_def)
  have k: "fst ` set ?vs = pkg_version ` set (same_name ids (pkg_name i))" and d: "distinct (map fst ?vs)"
    using ok by (simp_all only: entry_ok_def)
  have mem: "pkg_version i \<in> fst ` set ?vs" using assms by (simp only: k) auto
  then obtain n where n: "map_of ?vs (pkg_version i) = Some n"
    by (metis map_of_eq_None_iff not_None_eq)
  then have vs: "map_of (fold count_pkg ids []) (pkg_name i) = Some ?vs"
    by (cases "map_of (fold count_pkg ids []) (pkg_name i)") simp_all
  have "length ?vs = 1 \<longleftrightarrow> (\<forall>j \<in> set ids. pkg_name j = pkg_name i \<longrightarrow> pkg_version j = pkg_version i)"
    unfolding length_1_iff_keys [OF d mem] by (simp only: k) auto
  moreover have "n = length (same_version ids (pkg_name i) (pkg_version i))"
    using ok n by (simp add: entry_ok_def)
  ultimately show ?thesis using that vs n by blast
qed

subsection \<open>The lookup table\<close>

definition versions_with :: "(('p, 'b) version \<Rightarrow> string) \<Rightarrow> ('p, 'b, 's) package_id list \<Rightarrow> string \<Rightarrow> string \<Rightarrow>
    ('p, 'b, 's) package_id set" where
  "versions_with sv ids n v = {i \<in> set ids. pkg_name i = n \<and> sv (pkg_version i) = v}"

definition sources_ok :: "(('p, 'b) version \<Rightarrow> string) \<Rightarrow> ('p, 'b, 's) package_id list \<Rightarrow> string \<Rightarrow> string \<Rightarrow>
    ('s \<times> ('p, 'b, 's) package_id) list \<Rightarrow> bool" where
  "sources_ok sv ids n v bs \<longleftrightarrow>
     distinct (map fst bs) \<and> set bs = (\<lambda>i. (pkg_source i, i)) ` versions_with sv ids n v"

definition names_ok :: "(('p, 'b) version \<Rightarrow> string) \<Rightarrow> ('p, 'b, 's) package_id list \<Rightarrow> string \<Rightarrow>
    (string \<times> ('s \<times> ('p, 'b, 's) package_id) list) list \<Rightarrow> bool" where
  "names_ok sv ids n bv \<longleftrightarrow>
     distinct (map fst bv) \<and> fst ` set bv = (\<lambda>i. sv (pkg_version i)) ` set (same_name ids n) \<and>
     (\<forall>v. sources_ok sv ids n v (unwrap_or [] (map_of bv v)))"

definition table_ok :: "(('p, 'b) version \<Rightarrow> string) \<Rightarrow> ('p, 'b, 'u) lock_pkg list \<Rightarrow> ('p, 'b, 'u) lock_table \<Rightarrow> bool" where
  "table_ok sv ids m \<longleftrightarrow> (\<forall>n. names_ok sv ids n (unwrap_or [] (map_of m n)))"

lemma versions_with_snoc: "versions_with sv (ids @ [i]) n v =
    versions_with sv ids n v \<union> (if pkg_name i = n \<and> sv (pkg_version i) = v then {i} else {})"
  by (auto simp: versions_with_def)

lemma sources_ok_snoc:
  assumes ok: "sources_ok sv ids (pkg_name i) (sv (pkg_version i)) bs" and i: "i \<notin> set ids"
    and inj: "inj_on sv (pkg_version ` set (ids @ [i]))"
  shows "sources_ok sv (ids @ [i]) (pkg_name i) (sv (pkg_version i)) (hm_insert (pkg_source i) i bs)"
proof -
  have "pkg_source i \<notin> fst ` set bs"
  proof
    assume "pkg_source i \<in> fst ` set bs"
    then obtain j where j: "j \<in> set ids" "pkg_name j = pkg_name i" "sv (pkg_version j) = sv (pkg_version i)"
        "pkg_source j = pkg_source i"
      using ok by (auto simp: sources_ok_def versions_with_def)
    then have "pkg_version j = pkg_version i" by (intro inj_onD [OF inj]) auto
    with j have "j = i" by (intro package_id.expand) simp
    with j i show False by simp
  qed
  then show ?thesis
    using ok by (simp add: sources_ok_def hm_insert_new versions_with_snoc)
qed

lemma names_ok_snoc:
  assumes ok: "names_ok sv ids (pkg_name i) bv" and i: "i \<notin> set ids"
    and inj: "inj_on sv (pkg_version ` set (ids @ [i]))"
  shows "names_ok sv (ids @ [i]) (pkg_name i) (hm_insert (sv (pkg_version i))
    (hm_insert (pkg_source i) i (unwrap_or [] (map_of bv (sv (pkg_version i))))) bv)"
    (is "names_ok _ _ _ ?bv")
proof -
  have "distinct (map fst ?bv)" using ok hm_wf_insert [of bv] by (simp add: names_ok_def hm_wf_def)
  moreover have "sources_ok sv (ids @ [i]) (pkg_name i) v (unwrap_or [] (map_of ?bv v))" for v
  proof (cases "v = sv (pkg_version i)")
    case True
    with ok sources_ok_snoc [OF _ i inj] show ?thesis by (simp add: names_ok_def get_hm_insert)
  next
    case False
    with ok show ?thesis by (simp add: names_ok_def get_hm_insert sources_ok_def versions_with_snoc)
  qed
  ultimately show ?thesis using ok by (simp add: names_ok_def keys_hm_insert same_name_snoc)
qed

lemma table_ok_fold:
  assumes "distinct ids" and "inj_on sv (pkg_version ` set ids)"
  shows "table_ok sv ids (fold (table_insert sv) ids [])"
  using assms
proof (induction ids rule: rev_induct)
  case Nil
  show ?case by (simp add: table_ok_def names_ok_def sources_ok_def same_name_def versions_with_def)
next
  case (snoc i ids)
  let ?m = "fold (table_insert sv) ids []"
  have "inj_on sv (pkg_version ` set ids)" using snoc.prems(2) by (auto intro: inj_on_subset)
  with snoc have ok: "table_ok sv ids ?m" by simp
  have "names_ok sv (ids @ [i]) n (unwrap_or [] (map_of (table_insert sv i ?m) n))" for n
  proof (cases "n = pkg_name i")
    case True
    with ok snoc.prems names_ok_snoc [of sv ids i] show ?thesis
      by (simp add: table_ok_def table_insert_def get_hm_insert Let_def)
  next
    case False
    then have "names_ok sv (ids @ [i]) n = names_ok sv ids n"
      by (intro ext) (simp add: names_ok_def sources_ok_def same_name_snoc versions_with_snoc)
    with ok False show ?thesis by (simp add: table_ok_def table_insert_def get_hm_insert Let_def)
  qed
  then show ?case by (simp add: table_ok_def)
qed

text \<open>What a lookup sees for a package that is in the table.\<close>

lemma table_lookup:
  assumes ok: "table_ok sv ids m" and i: "i \<in> set ids" and inj: "inj_on sv (pkg_version ` set ids)"
  obtains bv bs where "map_of m (pkg_name i) = Some bv" and "map_of bv (sv (pkg_version i)) = Some bs"
    and "distinct (map fst bs)"
    and "set bs = (\<lambda>j. (pkg_source j, j)) ` set (same_version ids (pkg_name i) (pkg_version i))"
    and "length bv = 1 \<longleftrightarrow> (\<forall>j \<in> set ids. pkg_name j = pkg_name i \<longrightarrow> pkg_version j = pkg_version i)"
proof -
  let ?bv = "unwrap_or [] (map_of m (pkg_name i))"
  have n: "names_ok sv ids (pkg_name i) ?bv" using ok by (simp add: table_ok_def)
  have k: "fst ` set ?bv = (\<lambda>i. sv (pkg_version i)) ` set (same_name ids (pkg_name i))" and d: "distinct (map fst ?bv)"
    using n by (simp_all only: names_ok_def)
  have mem: "sv (pkg_version i) \<in> fst ` set ?bv" using i by (simp only: k) auto
  then obtain bs where bs: "map_of ?bv (sv (pkg_version i)) = Some bs"
    by (metis map_of_eq_None_iff not_None_eq)
  then have bv: "map_of m (pkg_name i) = Some ?bv" by (cases "map_of m (pkg_name i)") simp_all
  have same: "sv (pkg_version j) = sv (pkg_version i) \<longleftrightarrow> pkg_version j = pkg_version i" if "j \<in> set ids" for j
    using inj i that by (auto dest: inj_onD)
  have "length ?bv = 1 \<longleftrightarrow> (\<forall>j \<in> set ids. pkg_name j = pkg_name i \<longrightarrow> pkg_version j = pkg_version i)"
    unfolding length_1_iff_keys [OF d mem] using same by (simp only: k) auto
  moreover have "sources_ok sv ids (pkg_name i) (sv (pkg_version i)) bs"
    using n bs by (metis names_ok_def unwrap_or_simps(2))
  moreover have "versions_with sv ids (pkg_name i) (sv (pkg_version i)) = set (same_version ids (pkg_name i) (pkg_version i))"
    using same by (auto simp: versions_with_def)
  ultimately show ?thesis using that bv bs by (simp add: sources_ok_def)
qed

subsection \<open>Sources in the lock file\<close>

definition toml_url_ok :: "'u url_ops \<Rightarrow> ('p, 'b, 'u) source \<Rightarrow> 'u toml_source_id \<Rightarrow> bool" where
  "toml_url_ok U s t \<longleftrightarrow> ts_kind t = si_kind s \<and>
     (case si_kind s of GitKind _ \<Rightarrow> url_drop_query U (url_drop_fragment U (ts_url t)) = si_url s
      | _ \<Rightarrow> ts_url t = si_url s)"

lemma toml_source_git:
  assumes "url_extends U" and "source_readable U encoded s" and kind: "si_kind s = GitKind r"
  shows "\<exists>t. toml_source_new U (source_as_url U show_version encoded s) = Ok t \<and>
    ts_source_str t = source_as_url U show_version encoded s \<and> toml_url_ok U s t"
proof -
  obtain t w f where t: "source_as_url U show_version encoded s = ''git+'' @ t" and w: "url_parse U t = Some w"
      "from_query (url_query_pairs U w) = r" "url_drop_query U (url_drop_fragment U w) = si_url s"
    using git_text [OF assms] by blast
  have split: "split_once (CHR ''+'') (''git+'' @ t) = Some (''git'', t)"
    using split_protocol [of "''git''" t] by simp
  have "toml_source_new U (''git+'' @ t) = Ok \<lparr>ts_source_str = ''git+'' @ t, ts_kind = GitKind r, ts_url = w\<rparr>"
    using w by (simp only: toml_source_new_def split) simp
  with w t kind show ?thesis by (simp add: toml_url_ok_def)
qed

lemma toml_source_registry:
  assumes "source_wf U s" and kind: "si_kind s = RegistryKind"
  shows "\<exists>t. toml_source_new U (''registry+'' @ url_as_str U (si_url s)) = Ok t \<and>
    ts_source_str t = ''registry+'' @ url_as_str U (si_url s) \<and> toml_url_ok U s t"
  using assms split_protocol [of "''registry''" "url_as_str U (si_url s)"]
  by (simp add: toml_source_new_def source_wf_def url_known_def toml_url_ok_def)

lemma toml_source_sparse:
  assumes "source_wf U s" and kind: "si_kind s = SparseRegistryKind"
  shows "\<exists>t. toml_source_new U (url_as_str U (si_url s)) = Ok t \<and>
    ts_source_str t = url_as_str U (si_url s) \<and> toml_url_ok U s t"
proof -
  obtain rest where "url_as_str U (si_url s) = ''sparse'' @ CHR ''+'' # rest"
    using assms by (auto simp: source_wf_def starts_with_iff)
  then have "split_once (CHR ''+'') (url_as_str U (si_url s)) = Some (''sparse'', rest)"
    using split_protocol [of "''sparse''" rest] by simp
  with assms show ?thesis
    by (simp add: toml_source_new_def source_wf_def url_known_def toml_url_ok_def)
qed

lemma toml_source_readable:
  assumes "url_extends U" and "source_readable U encoded s" and "\<not> source_is_path s"
  shows "\<exists>t. toml_source_new U (source_as_url U show_version encoded s) = Ok t \<and>
    ts_source_str t = source_as_url U show_version encoded s \<and> toml_url_ok U s t"
proof (cases "si_kind s")
  case (GitKind r)
  with toml_source_git [OF assms(1,2)] show ?thesis by simp
next
  case RegistryKind
  then show ?thesis using assms(2) toml_source_registry [of U s]
    by (simp add: source_readable_def source_as_url_def)
next
  case SparseRegistryKind
  then show ?thesis using assms(2) toml_source_sparse [of U s]
    by (simp add: source_readable_def source_as_url_def)
qed (use assms in \<open>simp_all add: source_is_path_def source_readable_def source_wf_def\<close>)

lemma toml_url_determines:
  assumes "toml_url_ok U s t" and "toml_url_ok U s' t'" and "ts_key t = ts_key t'"
    and "source_wf U s" and "source_wf U s'"
  shows "source_key s = source_key s'"
proof -
  have kind: "si_kind s = si_kind s'" and url: "ts_url t = ts_url t'"
    using assms(1-3) by (simp_all add: toml_url_ok_def ts_key_def)
  have "si_url s = si_url s'"
    using assms(1,2) kind url by (cases "si_kind s'") (simp_all add: toml_url_ok_def)
  with assms(4,5) kind show ?thesis by (simp add: source_wf_def source_key_def)
qed

text \<open>The source in an entry: none for a path, otherwise one that reads back.\<close>

lemma encodable_source:
  assumes "url_extends U" and "source_readable U (version \<ge> RV4) s"
  shows "\<exists>src. encodable_source_id U sv version s = Ok src \<and>
    (if source_is_path s then src = None
     else \<exists>t. src = Some t \<and> toml_url_ok U s t \<and>
       (\<exists>s'. from_url U C (ts_source_str t) = Ok s' \<and> source_key s' = source_key s \<and>
          si_precise s' = read_precise s))"
proof (cases "source_is_path s")
  case False
  then obtain t where t: "toml_source_new U (source_as_url U sv (version \<ge> RV4) s) = Ok t"
      "ts_source_str t = source_as_url U sv (version \<ge> RV4) s" "toml_url_ok U s t"
    using toml_source_readable [OF assms] by blast
  with False show ?thesis
    using source_id_back [OF assms, where show_version = sv] by (simp add: encodable_source_id_def)
qed (simp add: encodable_source_id_def)

lemma readable_without_precise:
  assumes "\<forall>c \<in> set C. source_wf U c" and "source_readable U encoded s"
  shows "source_readable U encoded (without_precise C s)"
proof (cases "si_precise s = None")
  case True
  with assms show ?thesis by (simp add: without_precise_def with_precise_def)
next
  case False
  let ?s = "interned C (s\<lparr>si_precise := None\<rparr>)"
  have "?s \<in> set C \<or> ?s = s\<lparr>si_precise := None\<rparr>"
    by (auto simp: interned_def find_Some_iff split: option.split)
  moreover have "source_wf U (s\<lparr>si_precise := None\<rparr>)"
    using assms(2) by (cases "si_kind s") (simp_all add: source_readable_def source_wf_def)
  ultimately have "source_wf U ?s" using assms(1) by (metis (no_types))
  then have "source_readable U encoded ?s"
    using assms(2) by (simp add: source_readable_def split: source_kind.splits)
  with False show ?thesis by (simp only: without_precise_def with_precise_def if_False)
qed

subsection \<open>Looking up a compact package id\<close>

text \<open>
  A resolution that can be written: the ids of its graph, its replacements and unused patches have
  known sources and printable versions, the targets of edges and replacements are packages, and
  path packages are known to the workspace.
\<close>

definition pkg_lockable ::
  "'u url_ops \<Rightarrow> (string \<Rightarrow> ('p, 'b) version option) \<Rightarrow> (('p, 'b) version \<Rightarrow> string) \<Rightarrow> ('p, 'b, 'u) path_deps \<Rightarrow>
   (('p, 'b, 'u) lock_pkg \<Rightarrow> ('p, 'b, 'u) source) \<Rightarrow> resolve_version \<Rightarrow> ('p, 'b, 'u) lock_pkg \<Rightarrow> bool" where
  "pkg_lockable U pv sv path_deps pin version i \<longleftrightarrow>
     source_key (pin i) = pkg_source i \<and> source_readable U (version \<ge> RV4) (pin i) \<and>
     pv (sv (pkg_version i)) = Some (pkg_version i) \<and>
     (source_is_path (pin i) \<longrightarrow>
        (\<exists>vs. map_of path_deps (pkg_name i) = Some vs \<and> distinct (map fst vs) \<and>
           map_of vs (pkg_version i) = Some (pin i)))"

definition lockable ::
  "'u::linorder url_ops \<Rightarrow> ('p::linorder, 'b::linorder, 'u) source list \<Rightarrow> (string \<Rightarrow> ('p, 'b) version option) \<Rightarrow>
   (('p, 'b) version \<Rightarrow> string) \<Rightarrow> ('p, 'b, 'u) path_deps \<Rightarrow> (('p, 'b, 'u) lock_pkg \<Rightarrow> ('p, 'b, 'u) source) \<Rightarrow>
   ('p, 'b, 'u) lock_resolve \<Rightarrow> bool" where
  "lockable U C pv sv path_deps pin r \<longleftrightarrow>
     graph_wf (rs_graph r) \<and> graph_closed (rs_graph r) \<and>
     (\<forall>i j. rs_replacement r i = Some j \<longrightarrow> i \<in> set (rs_iter r) \<and> j \<in> set (rs_iter r)) \<and>
     (\<forall>i \<in> set (rs_iter r) \<union> set (rs_unused_patches r). pkg_lockable U pv sv path_deps pin (rs_version r) i) \<and>
     (\<forall>c \<in> set C. source_wf U c) \<and> (\<forall>kv \<in> set (rs_metadata r). \<not> is_checksum_key kv)"

definition path_pkg :: "('p, 'b, 'u) lock_pkg \<Rightarrow> bool" where
  "path_pkg i \<longleftrightarrow> fst (pkg_source i) = PathKind"

lemma path_pkg_iff: "source_key (pin i) = pkg_source i \<Longrightarrow> source_is_path (pin i) \<longleftrightarrow> path_pkg i"
  by (metis fst_conv path_pkg_def source_is_path_def source_key_def)

text \<open>No two path packages of one name and version: what the collision check is for.\<close>

definition paths_unique :: "('p, 'b, 'u) lock_pkg list \<Rightarrow> bool" where
  "paths_unique ids \<longleftrightarrow> (\<forall>i \<in> set ids. \<forall>j \<in> set ids. path_pkg i \<longrightarrow> path_pkg j \<longrightarrow>
     pkg_name i = pkg_name j \<longrightarrow> pkg_version i = pkg_version j \<longrightarrow> i = j)"

lemma lockable_pkg:
  "lockable U C pv sv path_deps pin r \<Longrightarrow> i \<in> set (rs_iter r) \<Longrightarrow> pkg_lockable U pv sv path_deps pin (rs_version r) i"
  by (simp add: lockable_def)

text \<open>
  For writing alone, path packages need not be known to the workspace: two of them may share a name
  and a version, which \<open>lockable\<close> rules out.
\<close>

definition writable ::
  "'u::linorder url_ops \<Rightarrow> ('p::linorder, 'b::linorder, 'u) source list \<Rightarrow> (string \<Rightarrow> ('p, 'b) version option) \<Rightarrow>
   (('p, 'b) version \<Rightarrow> string) \<Rightarrow> (('p, 'b, 'u) lock_pkg \<Rightarrow> ('p, 'b, 'u) source) \<Rightarrow>
   ('p, 'b, 'u) lock_resolve \<Rightarrow> bool" where
  "writable U C pv sv pin r \<longleftrightarrow>
     graph_wf (rs_graph r) \<and> (\<forall>c \<in> set C. source_wf U c) \<and>
     (\<forall>i \<in> set (rs_iter r). source_key (pin i) = pkg_source i \<and> source_readable U (rs_version r \<ge> RV4) (pin i) \<and>
        pv (sv (pkg_version i)) = Some (pkg_version i))"

lemma lockable_writable: "lockable U C pv sv path_deps pin r \<Longrightarrow> writable U C pv sv pin r"
  by (simp add: lockable_def writable_def pkg_lockable_def)

lemma writable_pkg:
  "writable U C pv sv pin r \<Longrightarrow> i \<in> set (rs_iter r) \<Longrightarrow>
   source_key (pin i) = pkg_source i \<and> source_readable U (rs_version r \<ge> RV4) (pin i) \<and>
   pv (sv (pkg_version i)) = Some (pkg_version i)"
  by (simp add: writable_def)

lemma writable_distinct: "writable U C pv sv pin r \<Longrightarrow> distinct (rs_iter r)"
  by (simp add: writable_def graph_wf_def om_wf_distinct rs_iter_def graph_iter_def)

lemma writable_inj: "writable U C pv sv pin r \<Longrightarrow> inj_on sv (pkg_version ` set (rs_iter r))"
proof (rule inj_on_inverseI [where g = "\<lambda>t. the (pv t)"])
  fix v
  assume ok: "writable U C pv sv pin r" and "v \<in> pkg_version ` set (rs_iter r)"
  then obtain i where "i \<in> set (rs_iter r)" "v = pkg_version i" by blast
  with writable_pkg [OF ok] show "the (pv (sv v)) = v" by simp
qed

lemmas lockable_distinct = writable_distinct [OF lockable_writable]
lemmas lockable_inj = writable_inj [OF lockable_writable]

text \<open>The compact id that is written for a package.\<close>

definition toml_names :: "'u url_ops \<Rightarrow> ('p, 'b, 'u) lock_pkg \<Rightarrow> 'u toml_source_id \<Rightarrow> bool" where
  "toml_names U i t \<longleftrightarrow> (\<exists>s :: ('p, 'b, 'u) source. toml_url_ok U s t \<and> source_wf U s \<and> source_key s = pkg_source i)"

lemma encodable_id:
  assumes U: "url_extends U" and ok: "writable U C pv sv pin r" and v: "rs_version r \<ge> RV3"
    and i: "i \<in> set (rs_iter r)"
  obtains e where "encodable_package_id U C sv pin (encode_state r) (rs_version r) i = Ok e"
    and "ti_name e = pkg_name i"
    and "ti_version e = (if \<forall>j \<in> set (rs_iter r). pkg_name j = pkg_name i \<longrightarrow> j = i then None
           else Some (sv (pkg_version i)))"
    and "if same_version (rs_iter r) (pkg_name i) (pkg_version i) = [i] \<or> path_pkg i then ti_source e = None
         else \<exists>t. ti_source e = Some t \<and>
           (\<exists>s. from_url U C (ts_source_str t) = Ok s \<and> source_key s = pkg_source i) \<and>
           toml_names U i t"
proof -
  let ?ids = "rs_iter r"
  have pk: "source_key (pin i) = pkg_source i" "source_readable U (rs_version r \<ge> RV4) (pin i)"
    using writable_pkg [OF ok i] by simp_all
  have gt: "\<not> rs_version r \<le> RV2" and ge2: "RV2 \<le> rs_version r" "RV2 < RV3"
    using v by (auto simp: less_eq_resolve_version_def less_resolve_version_def)
  let ?s = "without_precise C (pin i)"
  have key: "source_key ?s = pkg_source i" using pk by (simp add: without_precise_def)
  have rd: "source_readable U (rs_version r \<ge> RV4) ?s"
    using readable_without_precise [OF _ pk(2)] ok by (simp add: writable_def)
  from encodable_source [OF U rd, of sv C] obtain src where
      src: "encodable_source_id U sv (rs_version r) ?s = Ok src"
      and srck0: "if source_is_path ?s then src = None else \<exists>t. src = Some t \<and> toml_url_ok U ?s t \<and>
         (\<exists>s'. from_url U C (ts_source_str t) = Ok s' \<and> source_key s' = source_key ?s)"
    by (auto split: if_splits)
  have srck: "if source_is_path ?s then src = None else \<exists>t. src = Some t \<and>
         (\<exists>s'. from_url U C (ts_source_str t) = Ok s' \<and> source_key s' = source_key ?s) \<and>
         toml_names U i t"
    using srck0 rd key by (auto simp: source_readable_def toml_names_def split: if_splits)
  obtain vs where vs: "map_of (fold count_pkg ?ids []) (pkg_name i) = Some vs"
      "map_of vs (pkg_version i) = Some (length (same_version ?ids (pkg_name i) (pkg_version i)))"
      "length vs = 1 \<longleftrightarrow> (\<forall>j \<in> set ?ids. pkg_name j = pkg_name i \<longrightarrow> pkg_version j = pkg_version i)"
    using counts_lookup [OF i] by blast
  let ?n = "length (same_version ?ids (pkg_name i) (pkg_version i))"
  have dist: "distinct (same_version ?ids (pkg_name i) (pkg_version i))"
    using writable_distinct [OF ok] by (simp add: same_version_def)
  have n1: "?n = 1 \<longleftrightarrow> same_version ?ids (pkg_name i) (pkg_version i) = [i]"
    by (rule length_1_iff_single) (use i in simp)
  have one: "?n = 1 \<and> length vs = 1 \<longleftrightarrow> (\<forall>j \<in> set ?ids. pkg_name j = pkg_name i \<longrightarrow> j = i)"
  proof
    assume one: "?n = 1 \<and> length vs = 1"
    show "\<forall>j \<in> set ?ids. pkg_name j = pkg_name i \<longrightarrow> j = i"
    proof (intro ballI impI)
      fix j assume "j \<in> set ?ids" "pkg_name j = pkg_name i"
      with one vs(3) have "j \<in> set (same_version ?ids (pkg_name i) (pkg_version i))" by simp
      with one n1 show "j = i" by simp
    qed
  next
    assume all: "\<forall>j \<in> set ?ids. pkg_name j = pkg_name i \<longrightarrow> j = i"
    then have "set (same_version ?ids (pkg_name i) (pkg_version i)) = {i}" using i by auto
    then have "?n = 1" using dist distinct_card by fastforce
    with all vs(3) show "?n = 1 \<and> length vs = 1" by blast
  qed
  let ?e = "\<lparr>ti_name = pkg_name i,
      ti_version = (if ?n = 1 \<and> length vs = 1 then None else Some (sv (pkg_version i))),
      ti_source = (if ?n = 1 then None else src)\<rparr>"
  have path: "source_is_path ?s \<longleftrightarrow> path_pkg i"
    by (metis key fst_conv path_pkg_def source_is_path_def source_key_def)
  show ?thesis
  proof (rule that [of ?e])
    show "encodable_package_id U C sv pin (encode_state r) (rs_version r) i = Ok ?e"
      by (simp add: encodable_package_id_def encoded_git_def gt src encode_state_def ge2 vs)
    show "ti_version ?e = (if \<forall>j \<in> set ?ids. pkg_name j = pkg_name i \<longrightarrow> j = i then None
           else Some (sv (pkg_version i)))"
      by (simp only: toml_package_id.simps one)
    show "if same_version ?ids (pkg_name i) (pkg_version i) = [i] \<or> path_pkg i then ti_source ?e = None
         else \<exists>t. ti_source ?e = Some t \<and>
           (\<exists>s. from_url U C (ts_source_str t) = Ok s \<and> source_key s = pkg_source i) \<and>
           toml_names U i t"
      using srck unfolding toml_package_id.simps n1 path key by (cases "path_pkg i") simp_all
  qed simp
qed

definition enc_id ::
  "'u url_ops \<Rightarrow> ('p, 'b, 'u) source list \<Rightarrow> (('p, 'b) version \<Rightarrow> string) \<Rightarrow> (('p, 'b, 'u) lock_pkg \<Rightarrow> ('p, 'b, 'u) source) \<Rightarrow>
   ('p, 'b, 'u) lock_resolve \<Rightarrow> ('p, 'b, 'u) lock_pkg \<Rightarrow> 'u toml_package_id \<Rightarrow> bool" where
  "enc_id U C sv pin r i e \<longleftrightarrow> encodable_package_id U C sv pin (encode_state r) (rs_version r) i = Ok e"

lemma enc_id_exists:
  assumes "url_extends U" and "writable U C pv sv pin r" and "rs_version r \<ge> RV3" and "i \<in> set (rs_iter r)"
  shows "\<exists>e. enc_id U C sv pin r i e"
  using encodable_id [OF assms] by (metis enc_id_def)

lemma written_id:
  assumes U: "url_extends U" and ok: "writable U C pv sv pin r" and v: "rs_version r \<ge> RV3"
    and i: "i \<in> set (rs_iter r)" and e: "enc_id U C sv pin r i e"
  shows "ti_name e = pkg_name i"
    and "ti_version e = (if \<forall>j \<in> set (rs_iter r). pkg_name j = pkg_name i \<longrightarrow> j = i then None
           else Some (sv (pkg_version i)))"
    and "if same_version (rs_iter r) (pkg_name i) (pkg_version i) = [i] \<or> path_pkg i then ti_source e = None
         else \<exists>t. ti_source e = Some t \<and>
           (\<exists>s. from_url U C (ts_source_str t) = Ok s \<and> source_key s = pkg_source i) \<and>
           toml_names U i t"
  using encodable_id [OF U ok v i] e unfolding enc_id_def by (metis outcome.inject(1))+

text \<open>A package id as it is written in an entry finds the package again, whatever order the table was filled in.\<close>

lemma lookup_written:
  assumes U: "url_extends U" and ok: "lockable U C pv sv path_deps pin r" and v: "rs_version r \<ge> RV3"
    and i: "i \<in> set (rs_iter r)" and paths: "paths_unique (rs_iter r)"
    and xs: "distinct xs" "set xs = set (rs_iter r)"
    and e: "encodable_package_id U C sv pin (encode_state r) (rs_version r) i = Ok e" and w: "w \<ge> RV3"
  shows "lookup_id U C (fold (table_insert sv) xs []) e w = Ok (Some i, w)"
proof -
  let ?ids = "rs_iter r" and ?m = "fold (table_insert sv) xs []"
  have inj: "inj_on sv (pkg_version ` set xs)" using lockable_inj [OF ok] xs(2) by simp
  obtain bv bs where bv: "map_of ?m (pkg_name i) = Some bv" and bs: "map_of bv (sv (pkg_version i)) = Some bs"
      "distinct (map fst bs)" "set bs = (\<lambda>j. (pkg_source j, j)) ` set (same_version xs (pkg_name i) (pkg_version i))"
      and len: "length bv = 1 \<longleftrightarrow> (\<forall>j \<in> set xs. pkg_name j = pkg_name i \<longrightarrow> pkg_version j = pkg_version i)"
    using table_lookup [OF table_ok_fold [OF xs(1) inj] _ inj, of i] i xs(2) by auto
  have name: "ti_name e = pkg_name i"
    and ver: "ti_version e = (if \<forall>j \<in> set ?ids. pkg_name j = pkg_name i \<longrightarrow> j = i then None
           else Some (sv (pkg_version i)))"
    and src: "if same_version ?ids (pkg_name i) (pkg_version i) = [i] \<or> path_pkg i then ti_source e = None
         else \<exists>t. ti_source e = Some t \<and>
           (\<exists>s. from_url U C (ts_source_str t) = Ok s \<and> source_key s = pkg_source i) \<and>
           toml_names U i t"
    by (fact written_id [OF U lockable_writable [OF ok] v i e [folded enc_id_def]])+
  have max: "max w RV2 = w"
    using w by (simp add: max_def less_eq_resolve_version_def)
  have mem: "(pkg_source i, i) \<in> set bs" using bs(3) i xs(2) by auto
  have look: "lookup_source U C bs (ti_source e) w = Ok (Some i, w)"
  proof (cases "path_pkg i")
    case True
    have "filter (\<lambda>p. fst (pkg_source p) = PathKind) (map snd bs) = [i]"
    proof (rule distinct_singleton)
      show "distinct (filter (\<lambda>p. fst (pkg_source p) = PathKind) (map snd bs))"
        using bs(2,3) by (intro distinct_filter) (auto simp: distinct_map inj_on_def)
      show "set (filter (\<lambda>p. fst (pkg_source p) = PathKind) (map snd bs)) = {i}"
      proof -
        have "set (map snd bs) = set (same_version xs (pkg_name i) (pkg_version i))"
          by (simp add: bs(3) image_image)
        with True paths i xs(2) show ?thesis
          by (simp only: set_filter) (auto simp: paths_unique_def path_pkg_def)
      qed
    qed
    with True src show ?thesis by (simp add: lookup_source_def)
  next
    case False
    show ?thesis
    proof (cases "same_version ?ids (pkg_name i) (pkg_version i) = [i]")
      case True
      have "set (same_version xs (pkg_name i) (pkg_version i)) = set (same_version ?ids (pkg_name i) (pkg_version i))"
        by (simp add: same_version_def xs(2))
      with True have "set (same_version xs (pkg_name i) (pkg_version i)) = {i}" by simp
      then have "set bs = {(pkg_source i, i)}" using bs(3) by simp
      then have "bs = [(pkg_source i, i)]"
        using bs(2) by (intro distinct_singleton) (simp_all add: distinct_map)
      with True False src max show ?thesis by (simp add: lookup_source_def path_pkg_def)
    next
      case several: False
      with src False obtain t s where t: "ti_source e = Some t" "from_url U C (ts_source_str t) = Ok s"
          "source_key s = pkg_source i" by auto
      moreover have "map_of bs (pkg_source i) = Some i" using bs(2) mem by simp
      ultimately show ?thesis by (simp add: lookup_source_def)
    qed
  qed
  show ?thesis
  proof (cases "ti_version e")
    case None
    then have all: "\<forall>j \<in> set xs. pkg_name j = pkg_name i \<longrightarrow> j = i" using ver xs(2) by (auto split: if_splits)
    then have "length bv = 1" using len by auto
    then obtain x where "bv = [x]" by (auto simp: length_Suc_conv)
    moreover from this bs(1) have "snd x = bs" by (cases x) (auto split: if_splits)
    ultimately show ?thesis using None look name bv max by (simp add: lookup_id_def)
  next
    case (Some x)
    with ver have "x = sv (pkg_version i)" by (auto split: if_splits)
    with Some look name bv bs(1) show ?thesis by (simp add: lookup_id_def)
  qed
qed

subsection \<open>The entries of the file\<close>

lemma list_all2_left: "list_all2 P xs ys \<Longrightarrow> x \<in> set xs \<Longrightarrow> \<exists>y \<in> set ys. P x y"
  by (induction xs ys rule: list_all2_induct) auto

lemma list_all2_right: "list_all2 P xs ys \<Longrightarrow> y \<in> set ys \<Longrightarrow> \<exists>x \<in> set xs. P x y"
  by (induction xs ys rule: list_all2_induct) auto

text \<open>
  \<open>entry_for r i p\<close>: \<open>p\<close> is the entry of package \<open>i\<close>. The compact ids in it are those of the
  replacement, or of the dependencies.
\<close>

definition dep_targets :: "('p, 'b, 's) resolve \<Rightarrow> ('p, 'b, 's) package_id \<Rightarrow> ('p, 'b, 's) package_id set" where
  "dep_targets r i = set (graph_succs (rs_graph r) i)"

definition entry_for ::
  "'u url_ops \<Rightarrow> ('p, 'b, 'u) source list \<Rightarrow> (('p, 'b) version \<Rightarrow> string) \<Rightarrow> (('p, 'b, 'u) lock_pkg \<Rightarrow> ('p, 'b, 'u) source) \<Rightarrow>
   ('p, 'b, 'u) lock_resolve \<Rightarrow> ('p, 'b, 'u) lock_pkg \<Rightarrow> 'u toml_dependency \<Rightarrow> bool" where
  "entry_for U C sv pin r i p \<longleftrightarrow>
     td_name p = pkg_name i \<and> td_version p = sv (pkg_version i) \<and>
     encodable_source_id U sv (rs_version r) (pin i) = Ok (td_source p) \<and> td_checksum p = node_checksum r i \<and>
     (case rs_replacement r i of
        Some j \<Rightarrow> td_dependencies p = None \<and> (\<exists>e. td_replace p = Some e \<and> enc_id U C sv pin r j e)
      | None \<Rightarrow> td_replace p = None \<and> (\<exists>es. td_dependencies p = Some es \<and>
          (\<forall>d \<in> dep_targets r i. \<exists>e \<in> set es. enc_id U C sv pin r d e) \<and>
          (\<forall>e \<in> set es. \<exists>d \<in> dep_targets r i. enc_id U C sv pin r d e)))"

lemma node_entry:
  assumes U: "url_extends U" and ok: "lockable U C pv sv path_deps pin r" and v: "rs_version r \<ge> RV3"
    and i: "i \<in> set (rs_iter r)"
  shows "\<exists>p. encodable_resolve_node U C sv pin (encode_state r) r i = Ok p \<and> entry_for U C sv pin r i p"
proof -
  let ?enc = "encodable_package_id U C sv pin (encode_state r) (rs_version r)"
  obtain src where src: "encodable_source_id U sv (rs_version r) (pin i) = Ok src"
    using encodable_source [OF U] lockable_pkg [OF ok i] by (metis pkg_lockable_def)
  show ?thesis
  proof (cases "rs_replacement r i")
    case (Some j)
    with ok have "j \<in> set (rs_iter r)" by (auto simp: lockable_def)
    then obtain e where "?enc j = Ok e" using enc_id_exists [OF U lockable_writable [OF ok] v] by (auto simp: enc_id_def)
    with Some src show ?thesis by (simp add: encodable_resolve_node_def entry_for_def enc_id_def)
  next
    case None
    let ?ds = "map fst (deps_not_replaced r i)"
    have ds: "set ?ds = dep_targets r i"
      by (simp add: deps_not_replaced_def dep_targets_def graph_succs_def)
    have "dep_targets r i \<subseteq> set (rs_iter r)"
      using ok i by (simp add: lockable_def graph_closed_def dep_targets_def rs_iter_def)
    then have "\<forall>d \<in> set ?ds. \<exists>e. ?enc d = Ok e \<and> True"
      using enc_id_exists [OF U lockable_writable [OF ok] v] by (auto simp: enc_id_def ds simp del: set_map)
    then obtain es where es: "omap ?enc ?ds = Ok es" "list_all2 (\<lambda>d e. ?enc d = Ok e \<and> True) ?ds es"
      using omap_Ok [of ?ds ?enc "\<lambda>_ _. True"] by blast
    have "\<forall>d \<in> dep_targets r i. \<exists>e \<in> set es. ?enc d = Ok e"
      unfolding ds [symmetric] using list_all2_left [OF es(2)] by simp
    moreover have "\<forall>e \<in> set es. \<exists>d \<in> dep_targets r i. ?enc d = Ok e"
      unfolding ds [symmetric] using list_all2_right [OF es(2)] by simp
    ultimately show ?thesis
      using None src es(1) by (simp add: encodable_resolve_node_def entry_for_def enc_id_def)
  qed
qed

lemma entry_key_inj:
  assumes U: "url_extends U" and ok: "lockable U C pv sv path_deps pin r" and paths: "paths_unique (rs_iter r)"
    and i: "i \<in> set (rs_iter r)" and j: "j \<in> set (rs_iter r)"
    and p: "entry_for U C sv pin r i p" and q: "entry_for U C sv pin r j q" and key: "entry_key p = entry_key q"
  shows "i = j"
proof -
  have name: "pkg_name i = pkg_name j" and "sv (pkg_version i) = sv (pkg_version j)"
    and src: "map_option ts_key (td_source p) = map_option ts_key (td_source q)"
    using p q key by (simp_all add: entry_for_def entry_key_def)
  then have ver: "pkg_version i = pkg_version j"
    using i j by (intro inj_onD [OF lockable_inj [OF ok]]) simp_all
  have pk: "source_key (pin k) = pkg_source k \<and> source_readable U (rs_version r \<ge> RV4) (pin k)"
    if "k \<in> set (rs_iter r)" for k
    using lockable_pkg [OF ok that] by (simp add: pkg_lockable_def)
  have toml: "if path_pkg k then td_source x = None else \<exists>t. td_source x = Some t \<and> toml_url_ok U (pin k) t"
    if "k \<in> set (rs_iter r)" "entry_for U C sv pin r k x" for k x
    using encodable_source [OF U, of "rs_version r" "pin k" sv C] pk [OF that(1)] that(2) path_pkg_iff [of pin k]
    by (auto simp: entry_for_def split: if_splits)
  show ?thesis
  proof (cases "path_pkg i")
    case True
    with toml [OF i p] src have "td_source q = None" by simp
    with toml [OF j q] have "path_pkg j" by (auto split: if_splits)
    with True paths i j name ver show ?thesis by (simp add: paths_unique_def)
  next
    case False
    with toml [OF i p] obtain t where t: "td_source p = Some t" "toml_url_ok U (pin i) t" by auto
    with src obtain t' where t': "td_source q = Some t'" "ts_key t = ts_key t'"
      by (cases "td_source q") simp_all
    with toml [OF j q] have "toml_url_ok U (pin j) t'" by (auto split: if_splits)
    from toml_url_determines [OF t(2) this t'(2)] pk [OF i] pk [OF j]
    have "pkg_source i = pkg_source j" by (simp add: source_readable_def)
    with name ver show ?thesis by (intro package_id.expand) simp
  qed
qed

subsection \<open>Reading the packages\<close>

definition source_for :: "(('p, 'b, 'u) lock_pkg \<Rightarrow> ('p, 'b, 'u) source) \<Rightarrow> ('p, 'b, 'u) lock_pkg \<Rightarrow> ('p, 'b, 'u) source \<Rightarrow> bool" where
  "source_for pin i s \<longleftrightarrow> source_key s = pkg_source i \<and>
     (if path_pkg i then s = pin i else si_precise s = read_precise (pin i))"

lemma path_source_known:
  assumes "map_of path_deps (td_name p) = Some vs" and "distinct (map fst vs)" and "map_of vs v = Some s"
    and "pv (td_version p) = Some v"
  shows "get_source_id pv path_deps p = Some s"
proof (cases "length vs = 1")
  case True
  then obtain x where "vs = [x]" by (auto simp: length_Suc_conv)
  with assms show ?thesis by (cases x) (auto simp: get_source_id_def split: if_splits)
next
  case False
  moreover have "vs \<noteq> []" using assms(3) by auto
  ultimately show ?thesis using assms by (simp add: get_source_id_def)
qed

lemma package_source_for:
  assumes U: "url_extends U" and i: "pkg_lockable U pv sv path_deps pin version i"
    and p: "td_name p = pkg_name i" "td_version p = sv (pkg_version i)"
      "encodable_source_id U sv version (pin i) = Ok (td_source p)"
  shows "\<exists>s. package_source U C pv path_deps p = Ok (Some s) \<and> source_for pin i s"
proof -
  have pk: "source_key (pin i) = pkg_source i" "source_readable U (version \<ge> RV4) (pin i)"
    using i by (simp_all add: pkg_lockable_def)
  note path = path_pkg_iff [of pin i, OF pk(1)]
  show ?thesis
  proof (cases "path_pkg i")
    case True
    with i path obtain vs where vs: "map_of path_deps (td_name p) = Some vs" "distinct (map fst vs)"
        "map_of vs (pkg_version i) = Some (pin i)" "pv (td_version p) = Some (pkg_version i)"
      by (auto simp: pkg_lockable_def p)
    have "td_source p = None" using True path p(3) by (simp add: encodable_source_id_def)
    with path_source_known [of path_deps p vs "pkg_version i" "pin i" pv, OF vs] True pk show ?thesis
      by (simp add: package_source_def source_for_def)
  next
    case False
    with encodable_source [OF U pk(2), of sv C] p(3) path obtain t s where "td_source p = Some t"
        "from_url U C (ts_source_str t) = Ok s" "source_key s = source_key (pin i)" "si_precise s = read_precise (pin i)"
      by auto
    with False pk show ?thesis by (simp add: package_source_def source_for_def map_err_def)
  qed
qed

definition live_for ::
  "'u url_ops \<Rightarrow> ('p, 'b, 'u) source list \<Rightarrow> (('p, 'b) version \<Rightarrow> string) \<Rightarrow> (('p, 'b, 'u) lock_pkg \<Rightarrow> ('p, 'b, 'u) source) \<Rightarrow>
   ('p, 'b, 'u) lock_resolve \<Rightarrow> ('p, 'b, 'u) lock_pkg \<Rightarrow> ('p, 'b, 'u) live_pkg \<Rightarrow> bool" where
  "live_for U C sv pin r i l \<longleftrightarrow>
     lp_id l = i \<and> entry_for U C sv pin r i (lp_entry l) \<and> source_for pin i (lp_source l)"

definition add_checksum :: "('p, 'b, 's) resolve \<Rightarrow> ('p, 'b, 's) package_id \<Rightarrow>
    (('p, 'b, 's) package_id \<times> string option) list \<Rightarrow> (('p, 'b, 's) package_id \<times> string option) list" where
  "add_checksum r i cs = (case node_checksum r i of None \<Rightarrow> cs | Some c \<Rightarrow> hm_insert i (Some c) cs)"

lemma live_package_step:
  assumes U: "url_extends U" and i: "pkg_lockable U pv sv path_deps pin (rs_version r) i"
    and p: "entry_for U C sv pin r i p" and fresh: "entry_key p \<notin> set (ls_all st)"
    and live: "lp_key ` set (ls_live st) \<subseteq> set (ls_all st)" and v: "ls_version st \<ge> RV3"
  shows "\<exists>l. live_package U C pv path_deps p st =
      Ok (st\<lparr>ls_checksums := add_checksum r i (ls_checksums st), ls_all := entry_key p # ls_all st,
             ls_live := ls_live st @ [l]\<rparr>) \<and> live_for U C sv pin r i l \<and> lp_key l = entry_key p"
proof -
  have e: "td_name p = pkg_name i" "td_version p = sv (pkg_version i)"
      "encodable_source_id U sv (rs_version r) (pin i) = Ok (td_source p)" "td_checksum p = node_checksum r i"
    using p by (simp_all add: entry_for_def)
  from package_source_for [OF U i e(1-3), of C] obtain s where s: "package_source U C pv path_deps p = Ok (Some s)"
      "source_for pin i s" by blast
  let ?l = "\<lparr>lp_key = entry_key p, lp_id = i, lp_source = s, lp_entry = p\<rparr>"
  have "pkg_try_new pv (td_name p) (td_version p) (source_key s) = Ok i"
    using i s(2) by (simp add: pkg_try_new_def e pkg_lockable_def source_for_def)
  then have i': "map_err PackageError (pkg_try_new pv (td_name p) (td_version p) (source_key s)) = Ok i" by simp
  have max: "max (ls_version st) RV2 = ls_version st"
    using v by (simp add: max_def less_eq_resolve_version_def)
  have out: "entry_key p \<notin> lp_key ` set (ls_live st)" using fresh live by blast
  have "live_package U C pv path_deps p st =
      Ok (st\<lparr>ls_checksums := add_checksum r i (ls_checksums st), ls_all := entry_key p # ls_all st,
             ls_live := ls_live st @ [?l]\<rparr>)"
    using s(1) i' fresh max out e(4)
    by (cases "node_checksum r i") (simp_all add: live_package_def add_checksum_def Let_def)
  then show ?thesis using p s(2) by (intro exI [of _ ?l]) (simp add: live_for_def)
qed

lemma live_fold:
  assumes U: "url_extends U" and ok: "lockable U C pv sv path_deps pin r" and paths: "paths_unique (rs_iter r)"
    and "list_all2 (entry_for U C sv pin r) xs ps" and "distinct xs" and "set xs \<subseteq> set (rs_iter r)"
    and "\<forall>i \<in> set xs. \<forall>p. entry_for U C sv pin r i p \<longrightarrow> entry_key p \<notin> set (ls_all st)"
    and "lp_key ` set (ls_live st) \<subseteq> set (ls_all st)" and "ls_version st \<ge> RV3"
  shows "\<exists>ls st'. ofold (live_package U C pv path_deps) ps st = Ok st' \<and> ls_version st' = ls_version st \<and>
    ls_checksums st' = fold (add_checksum r) xs (ls_checksums st) \<and> ls_live st' = ls_live st @ ls \<and>
    list_all2 (live_for U C sv pin r) xs ls"
  using assms(4-9)
proof (induction xs ps arbitrary: st rule: list_all2_induct)
  case (Cons i xs p ps)
  have i: "i \<in> set (rs_iter r)" "pkg_lockable U pv sv path_deps pin (rs_version r) i"
    using Cons.prems(2) lockable_pkg [OF ok] by simp_all
  have fresh: "entry_key p \<notin> set (ls_all st)" using Cons.prems(3) Cons.hyps(1) by simp
  obtain l where l: "live_package U C pv path_deps p st =
      Ok (st\<lparr>ls_checksums := add_checksum r i (ls_checksums st), ls_all := entry_key p # ls_all st,
             ls_live := ls_live st @ [l]\<rparr>)" (is "_ = Ok ?st") and lf: "live_for U C sv pin r i l" "lp_key l = entry_key p"
    using live_package_step [OF U i(2) Cons.hyps(1) fresh] Cons.prems by auto
  have other: "entry_key q \<noteq> entry_key p" if "j \<in> set xs" "entry_for U C sv pin r j q" for j q
    using entry_key_inj [OF U ok paths _ i(1) that(2) Cons.hyps(1)] that(1) Cons.prems by auto
  have "\<exists>ls st'. ofold (live_package U C pv path_deps) ps ?st = Ok st' \<and> ls_version st' = ls_version ?st \<and>
    ls_checksums st' = fold (add_checksum r) xs (ls_checksums ?st) \<and> ls_live st' = ls_live ?st @ ls \<and>
    list_all2 (live_for U C sv pin r) xs ls"
  proof (rule Cons.IH)
    show "\<forall>j \<in> set xs. \<forall>q. entry_for U C sv pin r j q \<longrightarrow> entry_key q \<notin> set (ls_all ?st)"
      using Cons.prems(3) other by simp
  qed (use Cons.prems lf in auto)
  then obtain ls st' where "ofold (live_package U C pv path_deps) ps ?st = Ok st'" "ls_version st' = ls_version st"
    "ls_checksums st' = fold (add_checksum r) (i # xs) (ls_checksums st)" "ls_live st' = ls_live st @ l # ls"
    "list_all2 (live_for U C sv pin r) xs ls" by auto
  with l lf(1) show ?case by (intro exI [of _ "l # ls"] exI [of _ st']) simp
qed simp

subsection \<open>Reading the edges\<close>

lemma om_wf_ext:
  assumes a: "om_wf a" and b: "om_wf b" and eq: "map_of a = map_of b"
  shows "a = b"
proof -
  have rep: "map (\<lambda>k. (k, the (map_of m k))) (map fst m) = m" if "om_wf m" for m :: "('a \<times> 'b) list"
    using om_wf_distinct [OF that] by (simp add: comp_def) (rule map_idI, auto)
  have "fst ` set a = fst ` set b" by (metis dom_map_of_conv_image_fst eq)
  with a b have "map fst a = map fst b" by (intro strict_sorted_equal) (simp_all add: om_wf_def)
  with rep [OF a] rep [OF b] eq show ?thesis by metis
qed

lemma graph_ext:
  assumes g: "graph_wf g" and h: "graph_wf h" and nodes: "set (graph_iter g) = set (graph_iter h)"
    and edges: "\<And>n c. graph_edge g n c = graph_edge h n c"
  shows "g = h"
proof (rule om_wf_ext)
  show "om_wf g" "om_wf h" using g h by (simp_all add: graph_wf_def)
  show "map_of g = map_of h"
  proof
    fix n
    have none: "map_of g n = None \<longleftrightarrow> map_of h n = None"
      using nodes by (simp add: graph_iter_def map_of_eq_None_iff)
    have some: "a = b" if "map_of g n = Some a" "map_of h n = Some b" for a b
    proof (rule om_wf_ext)
      show "om_wf a" "om_wf b" using that g h by (simp_all add: graph_wf_get)
      show "map_of a = map_of b" using edges [of n] that by (intro ext) (simp add: graph_edge_def)
    qed
    show "map_of g n = map_of h n"
    proof (cases "map_of g n")
      case (Some a)
      with none obtain b where b: "map_of h n = Some b" by (cases "map_of h n") simp_all
      from some [OF Some b] Some b show ?thesis by simp
    qed (use none in simp)
  qed
qed

text \<open>A graph whose labels are all empty is given by its nodes and edges.\<close>

definition bare :: "('n::linorder, 'e list) graph \<Rightarrow> bool" where
  "bare g \<longleftrightarrow> graph_wf g \<and> (\<forall>n c x. graph_edge g n c = Some x \<longrightarrow> x = [])"

definition edge_set :: "('n, 'e) graph \<Rightarrow> ('n \<times> 'n) set" where
  "edge_set g = {(n, c). graph_edge g n c \<noteq> None}"

lemma bare_edge: "bare g \<Longrightarrow> graph_edge g n c = (if (n, c) \<in> edge_set g then Some [] else None)"
  by (cases "graph_edge g n c") (auto simp: bare_def edge_set_def)

lemma bare_link:
  assumes "bare g" and "i \<in> set (graph_iter g)"
  shows "bare (graph_link [] (\<lambda>e. e) i d g) \<and> edge_set (graph_link [] (\<lambda>e. e) i d g) = insert (i, d) (edge_set g) \<and>
    set (graph_iter (graph_link [] (\<lambda>e. e) i d g)) = set (graph_iter g)"
proof -
  have wf: "graph_wf g" using assms(1) by (simp add: bare_def)
  have "graph_wf (graph_link [] (\<lambda>e. e) i d g)" using wf by (rule graph_wf_link)
  moreover have "x = []" if "graph_edge (graph_link [] (\<lambda>e. e) i d g) n c = Some x" for n c x
    using that assms(1) graph_edge_link [OF wf, of "[]" "\<lambda>e. e" i d n c]
    by (auto simp: bare_def split: if_splits option.splits)
  moreover have "n \<in> set (graph_iter (graph_link [] (\<lambda>e. e) i d g)) \<longleftrightarrow> n \<in> set (graph_iter g)" for n
    using graph_contains_link [OF wf, of "[]" "\<lambda>e. e" i d n] assms(2) by (auto simp: graph_contains_iff)
  ultimately show ?thesis by (auto simp: bare_def edge_set_def graph_edge_link [OF wf])
qed

lemma bare_nodes:
  fixes xs :: "'n::linorder list"
  defines "none \<equiv> graph_new :: ('n, 'e list) graph"
  shows "bare (fold graph_add xs none) \<and> edge_set (fold graph_add xs none) = {} \<and>
   set (graph_iter (fold graph_add xs none)) = set xs"
proof (induction xs rule: rev_induct)
  case Nil
  show ?case by (simp add: bare_def edge_set_def none_def) (simp add: graph_iter_def graph_new_def)
next
  case (snoc x xs)
  then have wf: "graph_wf (fold graph_add xs none)" by (simp add: bare_def)
  have "n \<in> set (graph_iter (graph_add x (fold graph_add xs none))) \<longleftrightarrow>
      n = x \<or> n \<in> set (graph_iter (fold graph_add xs none))" for n
    using graph_contains_add [OF wf, of x n] by (simp add: graph_contains_iff)
  with snoc wf show ?case by (auto simp: bare_def edge_set_def graph_wf_add)
qed

lemma link_edges:
  assumes "\<forall>e \<in> set es. \<exists>d \<in> D. lookup_id U C m e w = Ok (Some d, w)"
    and "\<forall>d \<in> D. d \<notin> X \<longrightarrow> (\<exists>e \<in> set es. lookup_id U C m e w = Ok (Some d, w))"
    and "bare g" and "i \<in> set (graph_iter g)" and "edge_set g = E \<union> {i} \<times> X" and "X \<subseteq> D"
  shows "\<exists>g'. ofold (link_edge U C m i) es (g, w) = Ok (g', w) \<and> bare g' \<and> edge_set g' = E \<union> {i} \<times> D \<and>
    set (graph_iter g') = set (graph_iter g)"
  using assms
proof (induction es arbitrary: g X)
  case (Cons e es)
  obtain d where d: "d \<in> D" "lookup_id U C m e w = Ok (Some d, w)" using Cons.prems(1) by auto
  let ?g = "graph_link [] (\<lambda>e. e) i d g"
  have g: "bare ?g" "edge_set ?g = E \<union> {i} \<times> insert d X" "set (graph_iter ?g) = set (graph_iter g)"
    using bare_link [OF Cons.prems(3,4), of d] Cons.prems(5) by auto
  have "\<exists>g'. ofold (link_edge U C m i) es (?g, w) = Ok (g', w) \<and> bare g' \<and> edge_set g' = E \<union> {i} \<times> D \<and>
    set (graph_iter g') = set (graph_iter ?g)"
  proof (rule Cons.IH)
    show "\<forall>x \<in> D. x \<notin> insert d X \<longrightarrow> (\<exists>e \<in> set es. lookup_id U C m e w = Ok (Some x, w))"
      using Cons.prems(2) d by auto
  qed (use Cons.prems g d in auto)
  moreover have "link_edge U C m i e (g, w) = Ok (?g, w)" using d by (simp add: link_edge_def)
  ultimately show ?case using g(3) by auto
qed auto

definition kept_edges :: "('p, 'b, 's) resolve \<Rightarrow> ('p, 'b, 's) package_id set \<Rightarrow> (('p, 'b, 's) package_id \<times> ('p, 'b, 's) package_id) set" where
  "kept_edges r X = {(i, d). i \<in> X \<and> rs_replacement r i = None \<and> d \<in> dep_targets r i}"

text \<open>\<open>finds\<close>: the table finds every package by its compact id.\<close>

definition finds ::
  "'u url_ops \<Rightarrow> ('p, 'b, 'u) source list \<Rightarrow> (('p, 'b) version \<Rightarrow> string) \<Rightarrow> (('p, 'b, 'u) lock_pkg \<Rightarrow> ('p, 'b, 'u) source) \<Rightarrow>
   ('p, 'b, 'u) lock_resolve \<Rightarrow> ('p, 'b, 'u) lock_table \<Rightarrow> resolve_version \<Rightarrow> bool" where
  "finds U C sv pin r m w \<longleftrightarrow> (\<forall>i \<in> set (rs_iter r). \<forall>e. enc_id U C sv pin r i e \<longrightarrow>
     lookup_id U C m e w = Ok (Some i, w))"

lemma link_package_step:
  assumes ok: "lockable U C pv sv path_deps pin r" and f: "finds U C sv pin r m w"
    and l: "live_for U C sv pin r i l" and i: "i \<in> set (rs_iter r)" "i \<in> set (graph_iter g)" and g: "bare g"
  shows "\<exists>g'. link_package U C m l (g, w) = Ok (g', w) \<and> bare g' \<and> edge_set g' = edge_set g \<union> kept_edges r {i} \<and>
    set (graph_iter g') = set (graph_iter g)"
proof (cases "rs_replacement r i")
  case (Some j)
  with l have "td_dependencies (lp_entry l) = None" by (simp add: live_for_def entry_for_def)
  moreover have "kept_edges r {i} = {}" using Some by (auto simp: kept_edges_def)
  ultimately show ?thesis using g by (simp add: link_package_def)
next
  case None
  let ?D = "dep_targets r i"
  have D: "?D \<subseteq> set (rs_iter r)"
    using ok i by (simp add: lockable_def graph_closed_def dep_targets_def rs_iter_def)
  from l None obtain es where es: "td_dependencies (lp_entry l) = Some es"
      "\<forall>d \<in> ?D. \<exists>e \<in> set es. enc_id U C sv pin r d e" "\<forall>e \<in> set es. \<exists>d \<in> ?D. enc_id U C sv pin r d e"
    by (auto simp: live_for_def entry_for_def)
  have look: "lookup_id U C m e w = Ok (Some d, w)" if "d \<in> ?D" "enc_id U C sv pin r d e" for d e
    using f D that by (auto simp: finds_def)
  have "\<exists>g'. ofold (link_edge U C m i) es (g, w) = Ok (g', w) \<and> bare g' \<and> edge_set g' = edge_set g \<union> {i} \<times> ?D \<and>
      set (graph_iter g') = set (graph_iter g)"
  proof (rule link_edges [where X = "{}"])
    show "\<forall>e \<in> set es. \<exists>d \<in> ?D. lookup_id U C m e w = Ok (Some d, w)" using es(3) look by blast
    show "\<forall>d \<in> ?D. d \<notin> {} \<longrightarrow> (\<exists>e \<in> set es. lookup_id U C m e w = Ok (Some d, w))" using es(2) look by blast
  qed (use g i in auto)
  moreover have "lp_id l = i" using l by (simp add: live_for_def)
  moreover have "{i} \<times> ?D = kept_edges r {i}" using None by (auto simp: kept_edges_def)
  ultimately show ?thesis using es(1) by (simp add: link_package_def)
qed

lemma link_packages:
  assumes ok: "lockable U C pv sv path_deps pin r" and f: "finds U C sv pin r m w"
    and "list_all2 (live_for U C sv pin r) xs ls" and "set xs \<subseteq> set (rs_iter r)" and "set xs \<subseteq> set (graph_iter g)" and "bare g"
  shows "\<exists>g'. ofold (link_package U C m) ls (g, w) = Ok (g', w) \<and> bare g' \<and>
    edge_set g' = edge_set g \<union> kept_edges r (set xs) \<and> set (graph_iter g') = set (graph_iter g)"
  using assms(3-6)
proof (induction xs ls arbitrary: g rule: list_all2_induct)
  case Nil
  then show ?case by (simp add: kept_edges_def)
next
  case (Cons i xs l ls)
  obtain g1 where g1: "link_package U C m l (g, w) = Ok (g1, w)" "bare g1"
      "edge_set g1 = edge_set g \<union> kept_edges r {i}" "set (graph_iter g1) = set (graph_iter g)"
    using link_package_step [OF ok f Cons.hyps(1), of g] Cons.prems by auto
  have "\<exists>g'. ofold (link_package U C m) ls (g1, w) = Ok (g', w) \<and> bare g' \<and>
    edge_set g' = edge_set g1 \<union> kept_edges r (set xs) \<and> set (graph_iter g') = set (graph_iter g1)"
    by (rule Cons.IH) (use Cons.prems g1 in auto)
  moreover have "kept_edges r (set (i # xs)) = kept_edges r {i} \<union> kept_edges r (set xs)"
    by (auto simp: kept_edges_def)
  ultimately show ?case using g1 by auto
qed

lemma read_replaces:
  assumes ok: "lockable U C pv sv path_deps pin r" and f: "finds U C sv pin r m w"
    and "list_all2 (live_for U C sv pin r) xs ls" and "set xs \<subseteq> set (rs_iter r)"
  shows "\<exists>reps'. ofold (read_replace U C m) ls (reps, w) = Ok (reps', w) \<and>
    (\<forall>i. map_of reps' i = (if i \<in> set xs \<and> rs_replacement r i \<noteq> None then rs_replacement r i else map_of reps i))"
  using assms(3,4)
proof (induction xs ls arbitrary: reps rule: list_all2_induct)
  case (Cons i xs l ls)
  let ?reps = "case rs_replacement r i of None \<Rightarrow> reps | Some j \<Rightarrow> hm_insert i j reps"
  have "read_replace U C m l (reps, w) = Ok (?reps, w)"
  proof (cases "rs_replacement r i")
    case None
    with Cons.hyps show ?thesis by (simp add: live_for_def entry_for_def read_replace_def)
  next
    case (Some j)
    with ok have "j \<in> set (rs_iter r)" by (auto simp: lockable_def)
    moreover from Some Cons.hyps obtain e where "td_dependencies (lp_entry l) = None" "td_replace (lp_entry l) = Some e"
        "enc_id U C sv pin r j e" "lp_id l = i"
      by (auto simp: live_for_def entry_for_def)
    ultimately show ?thesis using Some f by (simp add: read_replace_def finds_def)
  qed
  moreover obtain reps' where "ofold (read_replace U C m) ls (?reps, w) = Ok (reps', w)"
      "\<forall>k. map_of reps' k = (if k \<in> set xs \<and> rs_replacement r k \<noteq> None then rs_replacement r k else map_of ?reps k)"
    using Cons.IH [of ?reps] Cons.prems by auto
  ultimately show ?case
    by (intro exI [of _ reps']) (auto simp: get_hm_insert split: option.split)
qed simp

subsection \<open>The collision check\<close>

lemma same_compact_id:
  assumes U: "url_extends U" and ok: "writable U C pv sv pin r" and v: "rs_version r \<ge> RV3"
    and i: "i \<in> set (rs_iter r)" and j: "j \<in> set (rs_iter r)" and ij: "i \<noteq> j"
    and e: "enc_id U C sv pin r i e" and f: "enc_id U C sv pin r j f"
  shows "ti_key e = ti_key f \<longleftrightarrow>
    path_pkg i \<and> path_pkg j \<and> pkg_name i = pkg_name j \<and> pkg_version i = pkg_version j"
proof -
  note we = written_id [OF U ok v i e] and wf = written_id [OF U ok v j f]
  have "ti_key e = ti_key f \<Longrightarrow> pkg_name i = pkg_name j"
    using we(1) wf(1) by (simp add: ti_key_def)
  moreover have "ti_key e = ti_key f \<longleftrightarrow> path_pkg i \<and> path_pkg j \<and> pkg_version i = pkg_version j"
    if name: "pkg_name i = pkg_name j"
  proof -
    have other: "\<not> (\<forall>k \<in> set (rs_iter r). pkg_name k = pkg_name i \<longrightarrow> k = i)"
        "\<not> (\<forall>k \<in> set (rs_iter r). pkg_name k = pkg_name j \<longrightarrow> k = j)"
      using name i j ij by metis+
    have "ti_version e = Some (sv (pkg_version i))" "ti_version f = Some (sv (pkg_version j))"
      by (simp_all only: we(2) wf(2) other if_False)
    moreover have "sv (pkg_version i) = sv (pkg_version j) \<longleftrightarrow> pkg_version i = pkg_version j"
      by (intro inj_on_eq_iff [OF writable_inj [OF ok]] imageI i j)
    ultimately have key: "ti_key e = ti_key f \<longleftrightarrow> pkg_version i = pkg_version j \<and>
        map_option ts_key (ti_source e) = map_option ts_key (ti_source f)"
      using we(1) wf(1) name by (auto simp: ti_key_def)
    have "map_option ts_key (ti_source e) = map_option ts_key (ti_source f) \<longleftrightarrow> path_pkg i \<and> path_pkg j"
      if ver: "pkg_version i = pkg_version j"
    proof -
      let ?same = "same_version (rs_iter r) (pkg_name i) (pkg_version i)"
      have "i \<in> set ?same" "j \<in> set ?same" using i j name ver by simp_all
      then have ne: "?same \<noteq> [i]" "same_version (rs_iter r) (pkg_name j) (pkg_version j) \<noteq> [j]"
        using ij name ver by (metis empty_iff empty_set insert_iff list.simps(15))+
      have src: "if path_pkg i then ti_source e = None else \<exists>t. ti_source e = Some t \<and> toml_names U i t"
          "if path_pkg j then ti_source f = None else \<exists>t. ti_source f = Some t \<and> toml_names U j t"
        using we(3) wf(3) ne by (simp_all split: if_split_asm) blast+
      have det: "pkg_source i = pkg_source j" if "toml_names U i t" "toml_names U j t'" "ts_key t = ts_key t'" for t t'
        using that by (metis toml_names_def toml_url_determines)
      have ne: "pkg_source i \<noteq> pkg_source j" using ij name ver package_id.expand [of i j] by auto
      show ?thesis
      proof (cases "path_pkg i \<or> path_pkg j")
        case True
        with src show ?thesis by (auto split: if_split_asm)
      next
        case False
        with src obtain t t' where "ti_source e = Some t" "toml_names U i t" "ti_source f = Some t'" "toml_names U j t'"
          by auto
        with det ne False show ?thesis by auto
      qed
    qed
    with key show ?thesis by auto
  qed
  ultimately show ?thesis by blast
qed

lemma check_duplicate_fold:
  assumes "\<forall>i \<in> set xs. encodable_package_id U C sv pin st w i = Ok (E i)" and "distinct xs"
  shows "case ofold (check_duplicate U C sv pin st w) xs u of
      Ok u' \<Rightarrow> distinct (map (\<lambda>i. ti_key (E i)) xs) \<and> (\<forall>i \<in> set xs. ti_key (E i) \<notin> fst ` set u)
    | Err (PackageCollision a b) \<Rightarrow> b \<in> set xs \<and> (map_of u (ti_key (E b)) = Some a \<or>
        a \<in> set xs \<and> a \<noteq> b \<and> ti_key (E a) = ti_key (E b))
    | _ \<Rightarrow> False"
  using assms
proof (induction xs arbitrary: u)
  case (Cons i xs)
  have e: "encodable_package_id U C sv pin st w i = Ok (E i)" and i: "i \<notin> set xs" using Cons.prems by simp_all
  show ?case
  proof (cases "map_of u (ti_key (E i))")
    case None
    then have new: "ti_key (E i) \<notin> fst ` set u" by (simp add: map_of_eq_None_iff)
    let ?u = "hm_insert (ti_key (E i)) i u"
    have step: "check_duplicate U C sv pin st w i u = Ok ?u"
      by (simp add: check_duplicate_def e None)
    have IH: "case ofold (check_duplicate U C sv pin st w) xs ?u of
      Ok u' \<Rightarrow> distinct (map (\<lambda>i. ti_key (E i)) xs) \<and> (\<forall>i \<in> set xs. ti_key (E i) \<notin> fst ` set ?u)
    | Err (PackageCollision a b) \<Rightarrow> b \<in> set xs \<and> (map_of ?u (ti_key (E b)) = Some a \<or>
        a \<in> set xs \<and> a \<noteq> b \<and> ti_key (E a) = ti_key (E b))
    | _ \<Rightarrow> False"
      using Cons.prems by (intro Cons.IH) simp_all
    show ?thesis
    proof (cases "ofold (check_duplicate U C sv pin st w) xs ?u")
      case (Ok u')
      with IH have "distinct (map (\<lambda>i. ti_key (E i)) xs)"
          "\<forall>j \<in> set xs. ti_key (E j) \<noteq> ti_key (E i) \<and> ti_key (E j) \<notin> fst ` set u"
        by (simp_all add: keys_hm_insert)
      with Ok new show ?thesis by (simp add: step image_iff) metis
    next
      case (Err x)
      then show ?thesis using IH i by (cases x) (auto simp: step get_hm_insert split: if_splits)
    qed (use IH in \<open>simp_all add: step\<close>)
  next
    case (Some a)
    then show ?thesis by (simp add: check_duplicate_def e)
  qed
qed simp

lemma check_duplicate_cases:
  assumes U: "url_extends U" and ok: "writable U C pv sv pin r" and v: "rs_version r \<ge> RV3"
  shows "case check_duplicate_pkgs_in_lockfile U C sv pin r of
      Ok _ \<Rightarrow> paths_unique (rs_iter r)
    | Err (PackageCollision a b) \<Rightarrow> a \<in> set (rs_iter r) \<and> b \<in> set (rs_iter r) \<and> a \<noteq> b \<and> path_pkg a \<and> path_pkg b \<and>
        pkg_name a = pkg_name b \<and> pkg_version a = pkg_version b
    | _ \<Rightarrow> False"
proof -
  let ?ids = "rs_iter r" and ?run = "ofold (check_duplicate U C sv pin (encode_state r) (rs_version r)) (rs_iter r) []"
  obtain E where E: "\<And>i. i \<in> set ?ids \<Longrightarrow> enc_id U C sv pin r i (E i)"
    using enc_id_exists [OF U ok v] by metis
  have key: "ti_key (E i) = ti_key (E j) \<longleftrightarrow>
      path_pkg i \<and> path_pkg j \<and> pkg_name i = pkg_name j \<and> pkg_version i = pkg_version j"
    if "i \<in> set ?ids" "j \<in> set ?ids" "i \<noteq> j" for i j
    using that E by (intro same_compact_id [OF U ok v]) auto
  have "\<forall>i \<in> set ?ids. encodable_package_id U C sv pin (encode_state r) (rs_version r) i = Ok (E i)"
    using E by (simp add: enc_id_def)
  note run = check_duplicate_fold [OF this writable_distinct [OF ok], of "[]"]
  show ?thesis
  proof (cases ?run)
    case (Ok u)
    with run have "distinct (map (\<lambda>i. ti_key (E i)) ?ids)" by simp
    then have inj: "inj_on (\<lambda>i. ti_key (E i)) (set ?ids)" by (simp add: distinct_map)
    have "paths_unique ?ids"
      unfolding paths_unique_def
    proof (intro ballI impI)
      fix i j assume ij: "i \<in> set ?ids" "j \<in> set ?ids" "path_pkg i" "path_pkg j" "pkg_name i = pkg_name j"
        "pkg_version i = pkg_version j"
      then show "i = j" using key [of i j] inj_onD [OF inj, of i j] by blast
    qed
    with Ok show ?thesis by (simp add: check_duplicate_pkgs_in_lockfile_def)
  next
    case (Err x)
    obtain a b where x: "x = PackageCollision a b" by (cases x)
    with run Err have "b \<in> set ?ids \<and> a \<in> set ?ids \<and> a \<noteq> b \<and> ti_key (E a) = ti_key (E b)" by simp
    with key [of a b] Err x show ?thesis by (simp add: check_duplicate_pkgs_in_lockfile_def)
  qed (use run in simp_all)
qed

text \<open>
  C11: The collision check is exact on every resolution whose sources and versions can be written
  and read back: it accepts if and only if no two of its path packages have the same name and
  version, which is when entries would be written that cannot be told apart; the packages it
  reports are such a pair, and it never panics.
\<close>

theorem check_duplicate_exact:
  assumes "url_extends U" and "writable U C pv sv pin r" and "rs_version r \<ge> RV3"
  shows "(check_duplicate_pkgs_in_lockfile U C sv pin r = Ok () \<longleftrightarrow> paths_unique (rs_iter r)) \<and>
    (check_duplicate_pkgs_in_lockfile U C sv pin r = Ok () \<or>
     (\<exists>a b. check_duplicate_pkgs_in_lockfile U C sv pin r = Err (PackageCollision a b) \<and>
        a \<in> set (rs_iter r) \<and> b \<in> set (rs_iter r) \<and> a \<noteq> b \<and> path_pkg a \<and> path_pkg b \<and>
        pkg_name a = pkg_name b \<and> pkg_version a = pkg_version b))"
proof (cases "check_duplicate_pkgs_in_lockfile U C sv pin r")
  case (Ok u)
  with check_duplicate_cases [OF assms] show ?thesis by simp
next
  case (Err x)
  obtain a b where x: "x = PackageCollision a b" by (cases x)
  with check_duplicate_cases [OF assms] Err have ab: "a \<in> set (rs_iter r) \<and> b \<in> set (rs_iter r) \<and> a \<noteq> b \<and>
      path_pkg a \<and> path_pkg b \<and> pkg_name a = pkg_name b \<and> pkg_version a = pkg_version b" by simp
  then have "\<not> paths_unique (rs_iter r)" by (auto simp: paths_unique_def)
  with ab Err x show ?thesis by simp
qed (use check_duplicate_cases [OF assms] in simp_all)

subsection \<open>The text of a compact id\<close>

lemma toml_source_new_str: "toml_source_new U t = Ok x \<Longrightarrow> ts_source_str x = t"
  by (auto simp: toml_source_new_def split: option.splits if_splits)

text \<open>
  A package id of the lock file is written as a text that is read back as the same id, provided
  that name and version contain no space and a source is only given together with a version, as it
  always is for the ids that are written.
\<close>

theorem toml_package_id_text:
  assumes "CHR '' '' \<notin> set (ti_name e)" and "pred_option (\<lambda>v. CHR '' '' \<notin> set v) (ti_version e)"
    and "ti_version e = None \<Longrightarrow> ti_source e = None"
    and "pred_option (\<lambda>t. \<exists>s. toml_source_new U s = Ok t) (ti_source e)"
  shows "ti_parse U (ti_text e) = Ok e"
proof (cases "ti_version e")
  case None
  with assms have "splitn3 (ti_text e) = (ti_name e, None, None)"
    by (simp add: ti_text_def opt_text_def splitn3_def split_once_None_iff [THEN iffD2])
  with None assms(3) show ?thesis by (simp add: ti_parse_def)
next
  case (Some v)
  have v: "CHR '' '' \<notin> set v" using assms(2) Some by simp
  show ?thesis
  proof (cases "ti_source e")
    case None
    have "split_once (CHR '' '') (ti_name e @ CHR '' '' # v) = Some (ti_name e, v)"
      using assms(1) by (simp add: split_once_Some_iff)
    moreover have "split_once (CHR '' '') v = None" using v by (simp add: split_once_None_iff)
    ultimately have "splitn3 (ti_text e) = (ti_name e, Some v, None)"
      using None Some by (simp add: ti_text_def opt_text_def splitn3_def)
    with None Some show ?thesis by (simp add: ti_parse_def)
  next
    case src: (Some t)
    let ?r = "''('' @ ts_source_str t @ '')''"
    have "split_once (CHR '' '') (ti_name e @ CHR '' '' # (v @ CHR '' '' # ?r)) = Some (ti_name e, v @ CHR '' '' # ?r)"
      using assms(1) by (simp add: split_once_Some_iff)
    moreover have "split_once (CHR '' '') (v @ CHR '' '' # ?r) = Some (v, ?r)"
      using v by (simp add: split_once_Some_iff)
    ultimately have split: "splitn3 (ti_text e) = (ti_name e, Some v, Some ?r)"
      using src Some by (simp add: ti_text_def opt_text_def splitn3_def)
    have strip: "strip_parens ?r = Some (ts_source_str t)"
      using strip_prefix_append [of "''(''" "ts_source_str t @ '')''"] by (simp add: strip_parens_def)
    have "toml_source_new U (ts_source_str t) = Ok t"
      using assms(4) src toml_source_new_str by fastforce
    with split strip src Some show ?thesis by (simp add: ti_parse_def map_err_def)
  qed
qed

subsection \<open>The round trip\<close>

lemma unused_fold:
  assumes U: "url_extends U" and "\<forall>i \<in> set us. pkg_lockable U pv sv path_deps pin (rs_version r) i"
  shows "\<exists>ps. omap (unused_entry U sv pin r) us = Ok ps \<and>
    (\<forall>acc. ofold (read_unused U C pv path_deps) ps acc = Ok (acc @ us))"
  using assms(2)
proof (induction us)
  case (Cons i us)
  then obtain ps where ps: "omap (unused_entry U sv pin r) us = Ok ps"
      "\<And>acc. ofold (read_unused U C pv path_deps) ps acc = Ok (acc @ us)" by auto
  have i: "pkg_lockable U pv sv path_deps pin (rs_version r) i" using Cons.prems by simp
  obtain src where src: "encodable_source_id U sv (rs_version r) (pin i) = Ok src"
    using encodable_source [OF U] i by (metis pkg_lockable_def)
  let ?p = "\<lparr>td_name = pkg_name i, td_version = sv (pkg_version i), td_source = src,
      td_checksum = node_checksum r i, td_dependencies = None, td_replace = None\<rparr>"
  obtain s where s: "package_source U C pv path_deps ?p = Ok (Some s)" "source_for pin i s"
    using package_source_for [OF U i, of ?p C] src by auto
  then have "pkg_try_new pv (td_name ?p) (td_version ?p) (source_key s) = Ok i"
    using i by (simp add: pkg_try_new_def pkg_lockable_def source_for_def)
  then have "read_unused U C pv path_deps ?p acc = Ok (acc @ [i])" for acc
    using s(1) by (simp add: read_unused_def map_err_def)
  moreover have "unused_entry U sv pin r i = Ok ?p" using src by (simp add: unused_entry_def)
  ultimately show ?case using ps by (intro exI [of _ "?p # ps"]) simp
qed simp

lemma live_sources:
  "list_all2 (live_for U C sv pin r) xs ls \<Longrightarrow> i \<in> set xs \<Longrightarrow>
   \<exists>s. map_of (map (\<lambda>p. (lp_id p, lp_source p)) ls) i = Some s \<and> source_for pin i s"
  by (induction rule: list_all2_induct) (auto simp: live_for_def)

lemma checksums_fold:
  "map_of (fold (add_checksum r) xs cs) i =
     (if i \<in> set xs \<and> node_checksum r i \<noteq> None then Some (node_checksum r i) else map_of cs i)"
  by (induction xs arbitrary: cs) (auto simp: add_checksum_def get_hm_insert split: option.splits)

text \<open>The graph that is read: the edges of replaced packages and the labels are not in the file.\<close>

definition read_graph :: "('p, 'b, 's) resolve \<Rightarrow> (('p, 'b, 's) package_id, ('p, 'b, 's) dependency list) graph" where
  "read_graph r = map (\<lambda>(i, es). (i, if rs_replacement r i = None then map (\<lambda>(d, _). (d, [])) es else []))
     (rs_graph r)"

lemma map_of_map_entries: "map_of (map (\<lambda>(i, x). (i, f i x)) g) k = map_option (f k) (map_of g k)"
  by (induction g) auto

lemma map_of_read_graph: "map_of (read_graph r) i =
    map_option (\<lambda>es. if rs_replacement r i = None then map (\<lambda>(d, _). (d, [])) es else []) (map_of (rs_graph r) i)"
  unfolding read_graph_def by (rule map_of_map_entries)

lemma map_of_unlabelled: "map_of (map (\<lambda>(d, _). (d, [])) es) c = map_option (\<lambda>_. []) (map_of es c)"
  by (induction es) auto

lemma om_wf_unlabelled: "om_wf (map (\<lambda>(d, _). (d, [])) es) = om_wf es"
  by (simp add: om_wf_def comp_def case_prod_beta)

lemma read_graph_props:
  assumes "graph_wf (rs_graph r)"
  shows "graph_wf (read_graph r) \<and> set (graph_iter (read_graph r)) = set (rs_iter r) \<and>
    graph_edge (read_graph r) n c = (if (n, c) \<in> kept_edges r (set (rs_iter r)) then Some [] else None)"
proof -
  have fsts: "map fst (read_graph r) = map fst (rs_graph r)" by (simp add: read_graph_def comp_def case_prod_beta)
  have "\<forall>(n, m) \<in> set (read_graph r). om_wf m"
    using assms by (auto simp: read_graph_def graph_wf_def om_wf_unlabelled)
  then have "graph_wf (read_graph r)"
    using assms fsts by (simp add: graph_wf_def om_wf_def)
  moreover have "set (graph_iter (read_graph r)) = set (rs_iter r)"
    unfolding rs_iter_def graph_iter_def fsts ..
  moreover have "graph_edge (read_graph r) n c = (if (n, c) \<in> kept_edges r (set (rs_iter r)) then Some [] else None)"
  proof (cases "map_of (rs_graph r) n")
    case None
    then have "n \<notin> set (rs_iter r)" by (simp add: rs_iter_def graph_iter_def map_of_eq_None_iff)
    with None show ?thesis by (simp add: graph_edge_def map_of_read_graph kept_edges_def)
  next
    case (Some es)
    then have "n \<in> set (rs_iter r)" using succs_contains by (auto simp: rs_iter_def graph_contains_def simp flip: graph_contains_iff)
    moreover have "c \<in> dep_targets r n \<longleftrightarrow> map_of es c \<noteq> None"
      using Some by (simp add: dep_targets_def succs_edge_iff graph_edge_def)
    ultimately show ?thesis using Some
      by (cases "map_of es c") (auto simp: graph_edge_def map_of_read_graph kept_edges_def map_of_unlabelled)
  qed
  ultimately show ?thesis by simp
qed

lemma read_version_number:
  assumes "v \<ge> RV3" and "v = RV5 \<Longrightarrow> nightly \<and> bump"
  shows "read_version nightly bump (version_number v) = Ok v"
  using assms by (cases v) (simp_all add: read_version_def less_eq_resolve_version_def)

text \<open>
  C3: Writing a resolution to a lock file and reading it back loses nothing the file is meant to
  keep. A resolution that passed the collision check is written without a panic, in each format
  with a version number, and reading gives the same packages, the same edges (without labels, and
  none for replaced packages), the same replacements, the same known checksums, metadata, unused
  patches and format version; every package has an equal source, a git source its revision.
\<close>

theorem lockfile_round_trip:
  assumes U: "url_extends U" and ok: "lockable U C pv sv path_deps pin r" and v: "rs_version r \<ge> RV3"
    and bump: "rs_version r = RV5 \<Longrightarrow> nightly \<and> next_lockfile_bump"
    and dup: "check_duplicate_pkgs_in_lockfile U C sv pin r = Ok ()"
  shows "\<exists>l r' pins. lock_encode U C sv pin r = Ok l \<and>
    into_resolve U C pv sv path_deps nightly next_lockfile_bump original l = Ok (r', pins) \<and>
    rs_graph r' = read_graph r \<and> (\<forall>i. rs_replacement r' i = rs_replacement r i) \<and>
    (\<forall>i c. map_of (rs_checksums r') i = Some c \<longleftrightarrow>
       i \<in> set (rs_iter r) \<and> c \<noteq> None \<and> map_of (rs_checksums r) i = Some c) \<and>
    rs_metadata r' = rs_metadata r \<and> rs_unused_patches r' = rs_unused_patches r \<and> rs_version r' = rs_version r \<and>
    (\<forall>i \<in> set (rs_iter r). \<exists>s. map_of pins i = Some s \<and> source_for pin i s)"
proof -
  let ?xs = "sort (rs_iter r)"
  have paths: "paths_unique (rs_iter r)" using check_duplicate_cases [OF U lockable_writable [OF ok] v] dup by simp
  have xs: "distinct ?xs" "set ?xs = set (rs_iter r)" using lockable_distinct [OF ok] by simp_all
  have ge: "rs_version r \<noteq> RV1" "RV2 \<le> rs_version r" using v by (auto simp: less_eq_resolve_version_def)
  have "\<forall>i \<in> set ?xs. \<exists>p. encodable_resolve_node U C sv pin (encode_state r) r i = Ok p \<and> entry_for U C sv pin r i p"
    using node_entry [OF U ok v] by simp
  from omap_Ok [OF this] obtain ps where ps: "omap (encodable_resolve_node U C sv pin (encode_state r) r) ?xs = Ok ps"
      and "list_all2 (\<lambda>i p. encodable_resolve_node U C sv pin (encode_state r) r i = Ok p \<and> entry_for U C sv pin r i p) ?xs ps"
    by blast
  then have pall: "list_all2 (entry_for U C sv pin r) ?xs ps" by (simp add: list_all2_conv_all_nth)
  have "\<forall>i \<in> set (rs_unused_patches r). pkg_lockable U pv sv path_deps pin (rs_version r) i"
    using ok by (simp add: lockable_def)
  from unused_fold [OF U this, of C] obtain us where us: "omap (unused_entry U sv pin r) (rs_unused_patches r) = Ok us"
      "ofold (read_unused U C pv path_deps) us [] = Ok (rs_unused_patches r)" by auto
  let ?l = "\<lparr>tl_version = version_number (rs_version r), tl_package = Some ps, tl_root = None,
      tl_metadata = (if rs_metadata r = [] then None else Some (rs_metadata r)), tl_unused = us\<rparr>"
  have enc: "lock_encode U C sv pin r = Ok ?l" using ps us ge by (simp add: lock_encode_def Let_def)
  let ?st = "\<lparr>ls_version = rs_version r, ls_checksums = [], ls_all = [], ls_live = []\<rparr> :: ('b, 'c, 'a) live_state"
  obtain ls st where st: "ofold (live_package U C pv path_deps) ps ?st = Ok st" "ls_version st = rs_version r"
      "ls_checksums st = fold (add_checksum r) ?xs []" "ls_live st = ls" "list_all2 (live_for U C sv pin r) ?xs ls"
    using live_fold [OF U ok paths pall xs(1), of ?st] v by auto
  have ids: "map lp_id ls = ?xs"
    using st(5) by (induction rule: list_all2_induct) (simp_all add: live_for_def)
  let ?m = "fold (table_insert sv) ?xs []"
  have finds: "finds U C sv pin r ?m (rs_version r)"
    using lookup_written [OF U ok v _ paths xs _ v] by (simp add: finds_def enc_id_def)
  let ?g0 = "fold graph_add ?xs graph_new :: ('b, 'c, 'a) lock_graph"
  have none: "bare ?g0 \<and> edge_set ?g0 = {} \<and> set (graph_iter ?g0) = set ?xs" by (rule bare_nodes)
  obtain g where g: "ofold (link_package U C ?m) ls (fold graph_add ?xs graph_new, rs_version r) = Ok (g, rs_version r)"
      "bare g" "edge_set g = kept_edges r (set (rs_iter r))" "set (graph_iter g) = set (rs_iter r)"
    using link_packages [OF ok finds st(5), of ?g0] none by auto
  obtain reps where reps: "ofold (read_replace U C ?m) ls ([], rs_version r) = Ok (reps, rs_version r)"
      "\<And>i. map_of reps i = (if i \<in> set (rs_iter r) \<and> rs_replacement r i \<noteq> None then rs_replacement r i else None)"
    using read_replaces [OF ok finds st(5), of "[]"] by auto
  have nometa: "filter is_checksum_key (rs_metadata r) = []" using ok by (simp add: lockable_def filter_empty_conv)
  let ?r = "resolve_new g reps [] (fold (add_checksum r) ?xs []) (rs_metadata r) (rs_unused_patches r) (rs_version r) []"
  have dec: "into_resolve U C pv sv path_deps nightly next_lockfile_bump original ?l =
      Ok (?r, map (\<lambda>p. (lp_id p, lp_source p)) ls)"
    using st g(1) reps(1) us(2) nometa ge
    by (simp add: into_resolve_def read_version_number [OF v bump] lock_packages_def ids Let_def)
  show ?thesis
  proof (intro exI conjI, rule enc, rule dec)
    show "rs_graph ?r = read_graph r"
    proof -
      have wf: "graph_wf (rs_graph r)" using ok by (simp add: lockable_def)
      have "g = read_graph r"
        using read_graph_props [OF wf] g bare_edge [OF g(2)] by (intro graph_ext) (auto simp: bare_def)
      then show ?thesis by (simp add: resolve_new_def)
    qed
    show "\<forall>i. rs_replacement ?r i = rs_replacement r i"
    proof
      fix i
      have "rs_replacement r i = None" if "i \<notin> set (rs_iter r)"
        using ok that by (cases "rs_replacement r i") (auto simp: lockable_def)
      moreover have "rs_replacement ?r i = map_of reps i" by (simp add: rs_replacement_def resolve_new_def)
      ultimately show "rs_replacement ?r i = rs_replacement r i" using reps(2) [of i] by auto
    qed
    show "\<forall>i c. map_of (rs_checksums ?r) i = Some c \<longleftrightarrow>
       i \<in> set (rs_iter r) \<and> c \<noteq> None \<and> map_of (rs_checksums r) i = Some c"
      using ge by (auto simp: resolve_new_def checksums_fold node_checksum_def bind_eq_Some_conv)
    show "\<forall>i \<in> set (rs_iter r). \<exists>s. map_of (map (\<lambda>p. (lp_id p, lp_source p)) ls) i = Some s \<and> source_for pin i s"
      using live_sources [OF st(5)] xs(2) by simp
  qed (simp_all add: resolve_new_def)
qed

subsection \<open>An example\<close>

text \<open>A workspace package that depends on a package from a git repository.\<close>

definition example_version :: "(nat, nat) version" where
  "example_version = Version 1 0 0 None None"

definition example_show :: "(nat, nat) version \<Rightarrow> string" where
  "example_show v = (if v = example_version then ''1.0.0'' else ''0'')"

definition example_parse :: "string \<Rightarrow> (nat, nat) version option" where
  "example_parse t = (if t = ''1.0.0'' then Some example_version else None)"

definition root_source :: "(nat, nat, split_url) source" where
  "root_source = \<lparr>si_url = (''file:///w'', None, None), si_canonical_url = (''file:///w'', None, None),
     si_kind = PathKind, si_precise = None, si_registry_key = None\<rparr>"

definition example_root :: "(nat, nat, split_url) lock_pkg" where
  "example_root = PackageId ''app'' example_version (source_key root_source)"

definition example_dep :: "(nat, nat, split_url) lock_pkg" where
  "example_dep = PackageId ''dep'' example_version (source_key repo_source)"

definition example_pin :: "(nat, nat, split_url) lock_pkg \<Rightarrow> (nat, nat, split_url) source" where
  "example_pin i = (if i = example_dep then repo_source else root_source)"

definition example_resolve :: "(nat, nat, split_url) lock_resolve" where
  "example_resolve = resolve_new [(example_root, [(example_dep, [])]), (example_dep, [])] [] []
     [(example_dep, None)] [] [] RV4 []"

lemma example_less: "example_root < example_dep"
  by (simp add: example_root_def example_dep_def less_package_id_def pkg_key_def less_char_def)

lemma example_iter [simp]: "rs_iter example_resolve = [example_root, example_dep]"
  by (simp add: example_resolve_def resolve_new_def rs_iter_def graph_iter_def)

lemma root_source_readable: "source_readable split_urls True root_source"
  by (simp add: source_readable_def source_wf_def root_source_def url_known_def split_urls_def split_print_def
      split_parse_def cut_def opt_text_def canonical_url_def strip_slash_def fold_github_def chop_git_def ends_with_def)

lemma example_lockable:
  "lockable split_urls [] example_parse example_show [(''app'', [(example_version, root_source)])] example_pin example_resolve"
proof -
  have ne: "example_root \<noteq> example_dep" using example_less by auto
  have v: "rs_version example_resolve = RV4" by (simp add: example_resolve_def resolve_new_def)
  have "pkg_lockable split_urls example_parse example_show [(''app'', [(example_version, root_source)])] example_pin RV4 example_root"
    using root_source_readable ne
    by (simp add: pkg_lockable_def example_pin_def) (simp add: example_root_def example_parse_def example_show_def)
  moreover have "\<not> source_is_path repo_source" by (simp add: source_is_path_def repo_source_def)
  then have "pkg_lockable split_urls example_parse example_show [(''app'', [(example_version, root_source)])] example_pin RV4 example_dep"
    using repo_source_readable
    by (simp add: pkg_lockable_def example_pin_def) (simp add: example_dep_def example_parse_def example_show_def)
  moreover have "graph_wf (rs_graph example_resolve) \<and> graph_closed (rs_graph example_resolve)"
    using example_less
    by (simp add: example_resolve_def resolve_new_def graph_wf_def om_wf_Cons graph_closed_def graph_iter_def
        graph_succs_def graph_edges_def)
  ultimately show ?thesis
    by (simp add: lockable_def v) (simp add: example_resolve_def resolve_new_def rs_replacement_def)
qed

lemma example_no_duplicate: "check_duplicate_pkgs_in_lockfile split_urls [] example_show example_pin example_resolve = Ok ()"
proof -
  have "rs_version example_resolve \<ge> RV3" by (simp add: example_resolve_def resolve_new_def less_eq_resolve_version_def)
  from check_duplicate_cases [OF split_urls_extend lockable_writable [OF example_lockable] this] show ?thesis
    by (cases "check_duplicate_pkgs_in_lockfile split_urls [] example_show example_pin example_resolve")
      (auto simp: example_root_def example_dep_def split: collision.splits)
qed

text \<open>
  The same workspace with a second path package \<open>app\<close> of the same version: the check rejects it
  and names both.
\<close>

definition other_source :: "(nat, nat, split_url) source" where
  "other_source = root_source\<lparr>si_url := (''file:///x'', None, None), si_canonical_url := (''file:///x'', None, None)\<rparr>"

definition example_twin :: "(nat, nat, split_url) lock_pkg" where
  "example_twin = PackageId ''app'' example_version (source_key other_source)"

definition twin_pin :: "(nat, nat, split_url) lock_pkg \<Rightarrow> (nat, nat, split_url) source" where
  "twin_pin i = (if i = example_twin then other_source else root_source)"

definition twin_resolve :: "(nat, nat, split_url) lock_resolve" where
  "twin_resolve = resolve_new [(example_root, [(example_twin, [])]), (example_twin, [])] [] [] [] [] [] RV4 []"

lemma twin_less: "example_root < example_twin"
  by (simp add: example_root_def example_twin_def less_package_id_def pkg_key_def source_key_def other_source_def
      root_source_def less_char_def)

lemma twin_iter [simp]: "rs_iter twin_resolve = [example_root, example_twin]"
  by (simp add: twin_resolve_def resolve_new_def rs_iter_def graph_iter_def)

lemma twin_writable: "writable split_urls [] example_parse example_show twin_pin twin_resolve"
proof -
  have ne: "example_root \<noteq> example_twin" using twin_less by auto
  have v: "rs_version twin_resolve = RV4" by (simp add: twin_resolve_def resolve_new_def)
  have "source_readable split_urls True other_source"
    by (simp add: source_readable_def source_wf_def other_source_def root_source_def url_known_def split_urls_def
        split_print_def split_parse_def cut_def opt_text_def canonical_url_def strip_slash_def fold_github_def
        chop_git_def ends_with_def)
  moreover have "graph_wf (rs_graph twin_resolve)"
    using twin_less by (simp add: twin_resolve_def resolve_new_def graph_wf_def om_wf_Cons)
  ultimately show ?thesis
    using root_source_readable ne
    by (simp add: writable_def v twin_pin_def)
      (simp add: example_root_def example_twin_def example_parse_def example_show_def)
qed

theorem check_duplicate_exact_witness:
  "\<exists>a b. check_duplicate_pkgs_in_lockfile split_urls [] example_show twin_pin twin_resolve = Err (PackageCollision a b) \<and>
     {a, b} = {example_root, example_twin}"
proof -
  have v: "rs_version twin_resolve \<ge> RV3" by (simp add: twin_resolve_def resolve_new_def less_eq_resolve_version_def)
  have ne: "example_root \<noteq> example_twin" using twin_less by auto
  have "path_pkg example_root" "path_pkg example_twin" "pkg_name example_root = pkg_name example_twin"
    "pkg_version example_root = pkg_version example_twin"
    by (simp_all add: path_pkg_def example_root_def example_twin_def source_key_def other_source_def root_source_def)
  then have "\<not> paths_unique (rs_iter twin_resolve)" using ne by (auto simp: paths_unique_def)
  with check_duplicate_exact [OF split_urls_extend twin_writable v] show ?thesis by auto
qed

theorem lockfile_round_trip_witness:
  "\<exists>l r' pins s. lock_encode split_urls [] example_show example_pin example_resolve = Ok l \<and>
    into_resolve split_urls [] example_parse example_show [(''app'', [(example_version, root_source)])] False False [] l =
      Ok (r', pins) \<and>
    rs_graph r' = [(example_root, [(example_dep, [])]), (example_dep, [])] \<and>
    map_of pins example_dep = Some s \<and> si_precise s = Some (GitUrlFragment ''ab12'')"
proof -
  have v: "rs_version example_resolve \<ge> RV3" and v4: "rs_version example_resolve \<noteq> RV5"
    by (simp_all add: example_resolve_def resolve_new_def less_eq_resolve_version_def)
  have pin: "si_precise s = Some (GitUrlFragment ''ab12'')" if "source_for example_pin example_dep s" for s
    using that by (simp add: source_for_def example_pin_def path_pkg_def example_dep_def source_key_def repo_source_def read_precise_def)
  have graph: "read_graph example_resolve = [(example_root, [(example_dep, [])]), (example_dep, [])]"
    by (simp add: read_graph_def example_resolve_def resolve_new_def rs_replacement_def)
  obtain l r' pins where rt: "lock_encode split_urls [] example_show example_pin example_resolve = Ok l"
      "into_resolve split_urls [] example_parse example_show [(''app'', [(example_version, root_source)])] False False [] l =
        Ok (r', pins)" "rs_graph r' = read_graph example_resolve"
      and src: "\<forall>i \<in> set (rs_iter example_resolve). \<exists>s. map_of pins i = Some s \<and> source_for example_pin i s"
    using lockfile_round_trip [OF split_urls_extend example_lockable v _ example_no_duplicate, of False False "[]"] v4
    by blast
  from src obtain s where "map_of pins example_dep = Some s" "source_for example_pin example_dep s" by auto
  with rt graph pin show ?thesis by (intro exI [of _ l] exI [of _ r'] exI [of _ pins] exI [of _ s]) simp
qed

definition dep_toml_source :: "split_url toml_source_id" where
  "dep_toml_source = \<lparr>ts_source_str = ''registry+x:y'', ts_kind = RegistryKind, ts_url = (''x:y'', None, None)\<rparr>"

definition dep_toml :: "split_url toml_package_id" where
  "dep_toml = \<lparr>ti_name = ''dep'', ti_version = Some ''1.0.0'', ti_source = Some dep_toml_source\<rparr>"

theorem toml_package_id_text_witness:
  "ti_text dep_toml = ''dep 1.0.0 (registry+x:y)'' \<and> ti_parse split_urls ''dep 1.0.0 (registry+x:y)'' = Ok dep_toml"
proof -
  have printed: "ti_text dep_toml = ''dep 1.0.0 (registry+x:y)''"
    by (simp add: ti_text_def opt_text_def dep_toml_def dep_toml_source_def)
  have "toml_source_new split_urls ''registry+x:y'' = Ok dep_toml_source"
    by (simp add: toml_source_new_def split_urls_def split_parse_def cut_def dep_toml_source_def)
  then have "ti_parse split_urls (ti_text dep_toml) = Ok dep_toml"
    by (intro toml_package_id_text) (auto simp: dep_toml_def)
  with printed show ?thesis by simp
qed

end
