(* ===== verification/Features.thy ===== *)
theory Features
  imports Resolve
begin

section \<open>The feature resolver (\<open>resolver/features.rs\<close>)\<close>

text \<open>
  After the packages are chosen, the feature resolver decides which features and optional
  dependencies of each package are built, separately for build dependencies, proc macros and
  artifact targets. The five mutually recursive methods are definitions over the recursive call, with a bound on its depth; \<open>FeaturesExact\<close> shows which bound is enough.

  \<open>fenv\<close> holds what the resolver reads: the resolution, the requested targets, the options, and as
  parameters what it asks of its surroundings: whether a package has proc macro targets, what
  \<open>rustc\<close> prints for a target (\<open>fe_info\<close>, the short name and the cfg values) and whether
  \<open>rustc\<close> can be asked about a target (\<open>fe_merge\<close>). The answers about proc macro targets
  (\<open>fe_any_proc_macro\<close>, \<open>fe_proc_macro_lib\<close>) are total: \<open>has_any_proc_macro\<close> and
  \<open>has_proc_macro_lib\<close> look the package up in the package set and panic (\<open>expect\<close>) when it has not
  been downloaded, which is left out. A \<open>BTreeSet\<close> of features is a set.
\<close>

datatype compile_kind = KindHost | KindTarget compile_target

record feature_opts =
  fo_decouple_host_deps :: bool
  fo_decouple_dev_deps :: bool
  fo_ignore_inactive_targets :: bool
  fo_compare :: bool

definition feature_opts_default :: feature_opts where
  "feature_opts_default = \<lparr>fo_decouple_host_deps = False, fo_decouple_dev_deps = False,
     fo_ignore_inactive_targets = False, fo_compare = False\<rparr>"

datatype features_for = NormalOrDev | HostDep | ArtifactDep compile_target

definition from_for_host :: "bool \<Rightarrow> features_for" where
  "from_for_host for_host = (if for_host then HostDep else NormalOrDev)"

definition from_for_host_or_artifact_target :: "bool \<Rightarrow> compile_target option \<Rightarrow> features_for" where
  "from_for_host_or_artifact_target for_host artifact_target =
     (case artifact_target of Some t \<Rightarrow> ArtifactDep t | None \<Rightarrow> if for_host then HostDep else NormalOrDev)"

definition apply_opts :: "feature_opts \<Rightarrow> features_for \<Rightarrow> features_for" where
  "apply_opts opts fk = (if fo_decouple_host_deps opts then fk else NormalOrDev)"

text \<open>
  The errors: an unknown \<open>-Zfeatures\<close> flag, a target \<open>rustc\<close> cannot be asked about, and a
  command line feature with \<open>dep:\<close> or with more than one slash.
\<close>

datatype features_error =
  UnsupportedFlag string | TargetInfo compile_target | DepSyntax feature_value | ManySlashes feature_value

definition enable_opt :: "string \<Rightarrow> feature_opts \<Rightarrow> (features_error, feature_opts) outcome" where
  "enable_opt opt opts =
     (if opt = ''build_dep'' \<or> opt = ''host_dep'' then Ok (opts\<lparr>fo_decouple_host_deps := True\<rparr>)
      else if opt = ''dev_dep'' then Ok (opts\<lparr>fo_decouple_dev_deps := True\<rparr>)
      else if opt = ''itarget'' then Ok (opts\<lparr>fo_ignore_inactive_targets := True\<rparr>)
      else if opt = ''all'' then
        Ok (opts\<lparr>fo_decouple_host_deps := True, fo_decouple_dev_deps := True, fo_ignore_inactive_targets := True\<rparr>)
      else if opt = ''compare'' then Ok (opts\<lparr>fo_compare := True\<rparr>)
      else if opt = ''ws'' then Panic
      else Err (UnsupportedFlag opt))"

definition feature_opts_new ::
  "string list option \<Rightarrow> resolve_behavior \<Rightarrow> bool \<Rightarrow> bool \<Rightarrow> (features_error, feature_opts) outcome" where
  "feature_opts_new unstable behavior has_dev_units force_all_targets =
     obind (case unstable of None \<Rightarrow> Ok feature_opts_default | Some fs \<Rightarrow> ofold enable_opt fs feature_opts_default) (\<lambda>opts.
     obind (case behavior of V1 \<Rightarrow> Ok opts | _ \<Rightarrow> enable_opt ''all'' opts) (\<lambda>opts.
       let opts = (if has_dev_units then opts\<lparr>fo_decouple_dev_deps := False\<rparr> else opts);
           opts = (if force_all_targets then opts\<lparr>fo_ignore_inactive_targets := False\<rparr> else opts)
       in Ok opts))"

definition new_behavior :: "resolve_behavior \<Rightarrow> bool \<Rightarrow> feature_opts" where
  "new_behavior behavior has_dev_units =
     (case behavior of
        V1 \<Rightarrow> feature_opts_default
      | _ \<Rightarrow> \<lparr>fo_decouple_host_deps = True, fo_decouple_dev_deps = \<not> has_dev_units,
             fo_ignore_inactive_targets = True, fo_compare = False\<rparr>)"

subsection \<open>Features from the command line\<close>

record cli_features =
  cli_list :: "feature_value list"
  cli_all_features :: bool
  cli_uses_default_features :: bool

fun split_by :: "(char \<Rightarrow> bool) \<Rightarrow> string \<Rightarrow> string list" where
  "split_by P [] = [[]]"
| "split_by P (c # s) =
     (if P c then [] # split_by P s
      else case split_by P s of [] \<Rightarrow> [[c]] | w # ws \<Rightarrow> (c # w) # ws)"

definition split_whitespace :: "string \<Rightarrow> string list" where
  "split_whitespace s = filter (\<lambda>w. w \<noteq> []) (split_by is_whitespace s)"

text \<open>The derived order of \<open>FeatureValue\<close>, in which a \<open>BTreeSet\<close> is walked.\<close>

fun fv_key :: "feature_value \<Rightarrow> nat \<times> string \<times> string \<times> bool" where
  "fv_key (Feature f) = (0, f, [], False)"
| "fv_key (Dep d) = (1, d, [], False)"
| "fv_key (DepFeature d f w) = (2, d, f, w)"

definition split_features :: "string list \<Rightarrow> feature_value list" where
  "split_features features =
     sort_key fv_key (remdups (map fv_new (filter (\<lambda>s. s \<noteq> [])
       (concat (map (split_by (\<lambda>c. c = CHR '','')) (concat (map split_whitespace features)))))))"

definition check_cli_feature :: "feature_value \<Rightarrow> unit \<Rightarrow> (features_error, unit) outcome" where
  "check_cli_feature fv u =
     (case fv of
        Feature _ \<Rightarrow> Ok ()
      | Dep _ \<Rightarrow> Err (DepSyntax fv)
      | DepFeature _ dep_feature _ \<Rightarrow> if CHR ''/'' \<in> set dep_feature then Err (ManySlashes fv) else Ok ())"

definition from_command_line :: "string list \<Rightarrow> bool \<Rightarrow> bool \<Rightarrow> (features_error, cli_features) outcome" where
  "from_command_line features all_features uses_default_features =
     (let fs = split_features features in
      obind (ofold check_cli_feature fs ()) (\<lambda>_.
        Ok \<lparr>cli_list = fs, cli_all_features = all_features, cli_uses_default_features = uses_default_features\<rparr>))"

definition cli_new_all :: "bool \<Rightarrow> cli_features" where
  "cli_new_all all_features = \<lparr>cli_list = [], cli_all_features = all_features, cli_uses_default_features = True\<rparr>"

subsection \<open>The environment and the dependencies of a package\<close>

record ('p, 'b, 's) fenv =
  fe_resolve :: "('p, 'b, 's) resolve"
  fe_opts :: feature_opts
  fe_requested :: "compile_kind list"
  fe_host :: compile_target
  fe_info :: "compile_kind \<Rightarrow> string \<times> cfg list"
  fe_merge :: "compile_target \<Rightarrow> bool"
  fe_any_proc_macro :: "('p, 'b, 's) package_id \<Rightarrow> bool"
  fe_proc_macro_lib :: "('p, 'b, 's) package_id \<Rightarrow> bool"

definition track_for_host :: "('p, 'b, 's) fenv \<Rightarrow> bool" where
  "track_for_host E \<longleftrightarrow> fo_decouple_host_deps (fe_opts E) \<or> fo_ignore_inactive_targets (fe_opts E)"

definition dep_platform_activated :: "('p, 'b, 's) fenv \<Rightarrow> ('p, 'b, 's) dependency \<Rightarrow> compile_kind \<Rightarrow> bool" where
  "dep_platform_activated E dep kind =
     (case dep_platform dep of
        None \<Rightarrow> True
      | Some platform \<Rightarrow> (case fe_info E kind of (name, cfg) \<Rightarrow> platform_matches platform name cfg))"

definition platform_activated :: "('p, 'b, 's) fenv \<Rightarrow> ('p, 'b, 's) dependency \<Rightarrow> features_for \<Rightarrow> bool" where
  "platform_activated E dep fk =
     (if is_build dep then dep_platform_activated E dep KindHost
      else case fk of
        HostDep \<Rightarrow> dep_platform_activated E dep KindHost
      | NormalOrDev \<Rightarrow> list_ex (dep_platform_activated E dep) (fe_requested E)
      | ArtifactDep t \<Rightarrow> dep_platform_activated E dep (KindTarget t))"

definition dep_wanted :: "('p, 'b, 's) fenv \<Rightarrow> features_for \<Rightarrow> ('p, 'b, 's) dependency \<Rightarrow> bool" where
  "dep_wanted E fk dep \<longleftrightarrow>
     \<not> (dep_platform dep \<noteq> None \<and> fo_ignore_inactive_targets (fe_opts E) \<and> \<not> platform_activated E dep fk) \<and>
     \<not> (fo_decouple_dev_deps (fe_opts E) \<and> dep_kind dep = Development)"

definition activate_target :: "('p, 'b, 's) fenv \<Rightarrow> compile_target \<Rightarrow> (features_error, features_for) outcome" where
  "activate_target E t = (if fe_merge E t then Ok (ArtifactDep t) else Err (TargetInfo t))"

definition artifact_features_for ::
  "('p, 'b, 's) fenv \<Rightarrow> ('p, 'b, 's) dependency \<Rightarrow> features_for \<Rightarrow> (features_error, features_for list) outcome" where
  "artifact_features_for E dep lib_fk =
     (case dep_artifact dep of
        None \<Rightarrow> Ok [lib_fk]
      | Some artifact \<Rightarrow>
          obind (case art_target artifact of
                   None \<Rightarrow> Ok []
                 | Some (Force t) \<Rightarrow> obind (activate_target E t) (\<lambda>fk. Ok [fk])
                 | Some BuildDependencyAssumeTarget \<Rightarrow>
                     omap (\<lambda>kind. activate_target E (case kind of KindHost \<Rightarrow> fe_host E | KindTarget t \<Rightarrow> t))
                       (fe_requested E))
            (\<lambda>res. Ok (if art_is_lib artifact \<or> art_target artifact = None then res @ [lib_fk] else res)))"

definition lib_features_for ::
  "('p, 'b, 's) fenv \<Rightarrow> features_for \<Rightarrow> ('p, 'b, 's) package_id \<Rightarrow> ('p, 'b, 's) dependency \<Rightarrow> features_for" where
  "lib_features_for E fk dep_id dep =
     (if fk \<noteq> HostDep \<and> track_for_host E \<and> (is_build dep \<or> fe_proc_macro_lib E dep_id) then HostDep else fk)"

type_synonym ('p, 'b, 's) feature_dep = "('p, 'b, 's) package_id \<times> ('p, 'b, 's) dependency \<times> features_for"

definition feature_deps ::
  "('p, 'b, 's) fenv \<Rightarrow> ('p, 'b, 's) package_id \<Rightarrow> features_for \<Rightarrow>
   (features_error, ('p, 'b, 's) feature_dep list) outcome" where
  "feature_deps E pkg_id fk =
     obind (omap (\<lambda>(dep_id, deps).
         obind (omap (\<lambda>dep. obind (artifact_features_for E dep (lib_features_for E fk dep_id dep))
                             (\<lambda>fks. Ok (map (\<lambda>dep_fk. (dep_id, dep, dep_fk)) fks)))
                  (filter (dep_wanted E fk) deps))
           (\<lambda>xs. Ok (concat xs)))
       (rs_deps (fe_resolve E) pkg_id))
     (\<lambda>xs. Ok (concat xs))"

subsection \<open>Activation\<close>

type_synonym ('p, 'b, 's) features_key = "('p, 'b, 's) package_id \<times> features_for"
type_synonym ('p, 'b, 's) activate_map = "(('p, 'b, 's) features_key \<times> string set) list"

definition am_get :: "('k \<times> string set) list \<Rightarrow> 'k \<Rightarrow> string set" where
  "am_get m k = unwrap_or {} (map_of m k)"

record ('p, 'b, 's) features_state =
  fs_features :: "('p, 'b, 's) activate_map"
  fs_dependencies :: "('p, 'b, 's) activate_map"
  fs_processed :: "('p, 'b, 's) features_key set"
  fs_deferred :: "((('p, 'b, 's) package_id \<times> features_for \<times> string) \<times> string list) list"

definition fs_new :: "('p, 'b, 's) features_state" where
  "fs_new = \<lparr>fs_features = [], fs_dependencies = [], fs_processed = {}, fs_deferred = []\<rparr>"

definition feature_table :: "('p, 'b, 's) fenv \<Rightarrow> ('p, 'b, 's) package_id \<Rightarrow> (features_error, feature_map) outcome" where
  "feature_table E pkg_id =
     (case map_of (rs_summaries (fe_resolve E)) pkg_id of None \<Rightarrow> Panic | Some s \<Rightarrow> Ok (sum_features s))"

definition fvs_from_dependency ::
  "('p, 'b, 's) fenv \<Rightarrow> ('p, 'b, 's) package_id \<Rightarrow> ('p, 'b, 's) dependency \<Rightarrow>
   (features_error, feature_value list) outcome" where
  "fvs_from_dependency E dep_id dep =
     obind (feature_table E dep_id) (\<lambda>fm.
       Ok (map fv_new (dep_features dep) @
           (if dep_default_features dep \<and> map_of fm ''default'' \<noteq> None then [Feature ''default''] else [])))"

definition fvs_from_requested ::
  "('p, 'b, 's) fenv \<Rightarrow> ('p, 'b, 's) package_id \<Rightarrow> cli_features \<Rightarrow> (features_error, feature_value list) outcome" where
  "fvs_from_requested E pkg_id cli =
     obind (feature_table E pkg_id) (\<lambda>fm.
       Ok (cli_list cli @
           (if cli_uses_default_features cli \<and> map_of fm ''default'' \<noteq> None then [Feature ''default''] else []) @
           (if cli_all_features cli then map (\<lambda>(k, _). Feature k) fm else [])))"

definition touch_features :: "('p, 'b, 's) features_key \<Rightarrow> ('p, 'b, 's) features_state \<Rightarrow> ('p, 'b, 's) features_state" where
  "touch_features k st = st\<lparr>fs_features := hm_insert k (am_get (fs_features st) k) (fs_features st)\<rparr>"

definition add_feature :: "('p, 'b, 's) features_key \<Rightarrow> string \<Rightarrow> ('p, 'b, 's) features_state \<Rightarrow> ('p, 'b, 's) features_state" where
  "add_feature k f st = st\<lparr>fs_features := hm_insert k (insert f (am_get (fs_features st) k)) (fs_features st)\<rparr>"

definition add_dependency :: "('p, 'b, 's) features_key \<Rightarrow> string \<Rightarrow> ('p, 'b, 's) features_state \<Rightarrow> ('p, 'b, 's) features_state" where
  "add_dependency k d st =
     st\<lparr>fs_dependencies := hm_insert k (insert d (am_get (fs_dependencies st) k)) (fs_dependencies st)\<rparr>"

definition deferred_for ::
  "('p, 'b, 's) features_state \<Rightarrow> ('p, 'b, 's) package_id \<times> features_for \<times> string \<Rightarrow> string list" where
  "deferred_for st k = unwrap_or [] (map_of (fs_deferred st) k)"

definition defer_feature ::
  "('p, 'b, 's) package_id \<times> features_for \<times> string \<Rightarrow> string \<Rightarrow> ('p, 'b, 's) features_state \<Rightarrow> ('p, 'b, 's) features_state" where
  "defer_feature k f st =
     st\<lparr>fs_deferred := hm_insert k (List.insert f (deferred_for st k)) (fs_deferred st)\<rparr>"

definition take_deferred ::
  "('p, 'b, 's) package_id \<times> features_for \<times> string \<Rightarrow> ('p, 'b, 's) features_state \<Rightarrow> ('p, 'b, 's) features_state" where
  "take_deferred k st = st\<lparr>fs_deferred := hm_remove k (fs_deferred st)\<rparr>"

text \<open>
  The five methods call one another. Each is a definition that makes its calls through
  \<open>go\<close>, given the call it makes; \<open>activate\<close> ties the knot, with a bound on the depth of the
  calls.
\<close>

datatype ('p, 'b, 's) activation =
    ActPkg "('p, 'b, 's) package_id" features_for "feature_value list"
  | ActFv "('p, 'b, 's) package_id" features_for feature_value
  | ActRec "('p, 'b, 's) package_id" features_for string
  | ActDependency "('p, 'b, 's) package_id" features_for string
  | ActDepFeature "('p, 'b, 's) package_id" features_for string string bool

type_synonym ('p, 'b, 's) activator =
  "('p, 'b, 's) activation \<Rightarrow> ('p, 'b, 's) features_state \<Rightarrow> (features_error, ('p, 'b, 's) features_state) outcome"

definition activate_pkg ::
  "('p, 'b, 's) activator \<Rightarrow> ('p, 'b, 's) fenv \<Rightarrow> ('p, 'b, 's) package_id \<Rightarrow> features_for \<Rightarrow> feature_value list \<Rightarrow>
   ('p, 'b, 's) features_state \<Rightarrow> (features_error, ('p, 'b, 's) features_state) outcome" where
  "activate_pkg go E pkg_id fk fvs st =
     obind (ofold (\<lambda>fv. go (ActFv pkg_id fk fv)) fvs (touch_features (pkg_id, apply_opts (fe_opts E) fk) st)) (\<lambda>st.
       if (pkg_id, fk) \<in> fs_processed st then Ok st
       else
         obind (feature_deps E pkg_id fk) (\<lambda>ds.
           ofold (\<lambda>(dep_pkg_id, dep, dep_fk) st.
               if dep_optional dep then Ok st
               else obind (fvs_from_dependency E dep_pkg_id dep) (\<lambda>fvs. go (ActPkg dep_pkg_id dep_fk fvs) st))
             ds (st\<lparr>fs_processed := insert (pkg_id, fk) (fs_processed st)\<rparr>)))"

definition activate_fv ::
  "('p, 'b, 's) activator \<Rightarrow> ('p, 'b, 's) package_id \<Rightarrow> features_for \<Rightarrow> feature_value \<Rightarrow>
   ('p, 'b, 's) features_state \<Rightarrow> (features_error, ('p, 'b, 's) features_state) outcome" where
  "activate_fv go pkg_id fk fv st =
     (case fv of
        Feature f \<Rightarrow> go (ActRec pkg_id fk f) st
      | Dep dname \<Rightarrow> go (ActDependency pkg_id fk dname) st
      | DepFeature dname dep_feature weak \<Rightarrow> go (ActDepFeature pkg_id fk dname dep_feature weak) st)"

definition activate_rec ::
  "('p, 'b, 's) activator \<Rightarrow> ('p, 'b, 's) fenv \<Rightarrow> ('p, 'b, 's) package_id \<Rightarrow> features_for \<Rightarrow> string \<Rightarrow>
   ('p, 'b, 's) features_state \<Rightarrow> (features_error, ('p, 'b, 's) features_state) outcome" where
  "activate_rec go E pkg_id fk feature_to_enable st =
     (let k = (pkg_id, apply_opts (fe_opts E) fk) in
      if feature_to_enable \<in> am_get (fs_features st) k then Ok st
      else
        let st = add_feature k feature_to_enable st in
        obind (feature_table E pkg_id) (\<lambda>fm.
          case map_of fm feature_to_enable of
            None \<Rightarrow> Ok st
          | Some fvs \<Rightarrow> ofold (\<lambda>fv. go (ActFv pkg_id fk fv)) fvs st))"

definition activate_dependency ::
  "('p, 'b, 's) activator \<Rightarrow> ('p, 'b, 's) fenv \<Rightarrow> ('p, 'b, 's) package_id \<Rightarrow> features_for \<Rightarrow> string \<Rightarrow>
   ('p, 'b, 's) features_state \<Rightarrow> (features_error, ('p, 'b, 's) features_state) outcome" where
  "activate_dependency go E pkg_id fk dname st =
     (let to_enable = deferred_for st (pkg_id, fk, dname);
          st = take_deferred (pkg_id, fk, dname) (add_dependency (pkg_id, apply_opts (fe_opts E) fk) dname st)
      in obind (feature_deps E pkg_id fk) (\<lambda>ds.
           ofold (\<lambda>(dep_pkg_id, dep, dep_fk) st.
               if name_in_toml dep \<noteq> dname then Ok st
               else
                 obind (ofold (\<lambda>dep_feature. go (ActFv dep_pkg_id dep_fk (fv_new dep_feature))) to_enable st) (\<lambda>st.
                 obind (fvs_from_dependency E dep_pkg_id dep) (\<lambda>fvs. go (ActPkg dep_pkg_id dep_fk fvs) st)))
             ds st))"

definition activate_dep_feature ::
  "('p, 'b, 's) activator \<Rightarrow> ('p, 'b, 's) fenv \<Rightarrow> ('p, 'b, 's) package_id \<Rightarrow> features_for \<Rightarrow>
   string \<Rightarrow> string \<Rightarrow> bool \<Rightarrow>
   ('p, 'b, 's) features_state \<Rightarrow> (features_error, ('p, 'b, 's) features_state) outcome" where
  "activate_dep_feature go E pkg_id fk dname dep_feature weak st =
     obind (feature_deps E pkg_id fk) (\<lambda>ds.
       ofold (\<lambda>(dep_pkg_id, dep, dep_fk) st.
           if name_in_toml dep \<noteq> dname then Ok st
           else if dep_optional dep \<and> weak \<and>
                   dname \<notin> am_get (fs_dependencies st) (pkg_id, apply_opts (fe_opts E) fk)
           then Ok (defer_feature (pkg_id, fk, dname) dep_feature st)
           else
             obind (if dep_optional dep then
                      obind (go (ActFv pkg_id fk (Dep dname)) st) (\<lambda>st.
                        if \<not> weak then
                          obind (feature_table E pkg_id) (\<lambda>fm.
                            if map_of fm dname \<noteq> None then go (ActRec pkg_id fk dname) st else Ok st)
                        else Ok st)
                    else Ok st)
               (\<lambda>st. go (ActFv dep_pkg_id dep_fk (fv_new dep_feature)) st))
         ds st)"

primrec activate :: "nat \<Rightarrow> ('p, 'b, 's) fenv \<Rightarrow> ('p, 'b, 's) activator" where
  "activate 0 E c st = OutOfFuel"
| "activate (Suc n) E c st =
     (case c of
        ActPkg pkg_id fk fvs \<Rightarrow> activate_pkg (activate n E) E pkg_id fk fvs st
      | ActFv pkg_id fk fv \<Rightarrow> activate_fv (activate n E) pkg_id fk fv st
      | ActRec pkg_id fk f \<Rightarrow> activate_rec (activate n E) E pkg_id fk f st
      | ActDependency pkg_id fk dname \<Rightarrow> activate_dependency (activate n E) E pkg_id fk dname st
      | ActDepFeature pkg_id fk dname dep_feature weak \<Rightarrow>
          activate_dep_feature (activate n E) E pkg_id fk dname dep_feature weak st)"

definition activate_member ::
  "nat \<Rightarrow> ('p, 'b, 's) fenv \<Rightarrow> ('p, 'b, 's) package_id \<times> cli_features \<Rightarrow> ('p, 'b, 's) features_state \<Rightarrow>
   (features_error, ('p, 'b, 's) features_state) outcome" where
  "activate_member n E m st =
     (case m of (member, cli) \<Rightarrow>
        obind (fvs_from_requested E member cli) (\<lambda>fvs.
          if track_for_host E \<and> fe_any_proc_macro E member
          then obind (activate n E (ActPkg member NormalOrDev fvs) st) (activate n E (ActPkg member HostDep fvs))
          else activate n E (ActPkg member NormalOrDev fvs) st))"

definition do_resolve ::
  "nat \<Rightarrow> ('p, 'b, 's) fenv \<Rightarrow> (('p, 'b, 's) package_id \<times> cli_features) list \<Rightarrow>
   (features_error, ('p, 'b, 's) features_state) outcome" where
  "do_resolve n E member_features = ofold (activate_member n E) member_features fs_new"

subsection \<open>The result\<close>

record ('p, 'b, 's) resolved_features =
  rf_features :: "('p, 'b, 's) activate_map"
  rf_dependencies :: "('p, 'b, 's) activate_map"
  rf_opts :: feature_opts

text \<open>\<open>compare\<close>: the check against the features of the dependency resolver, a test option.\<close>

definition feature_mismatch :: "('p, 'b, 's) fenv \<Rightarrow> ('p, 'b, 's) activate_map \<Rightarrow> bool" where
  "feature_mismatch E m =
     list_ex (\<lambda>((pkg_id, _), fs). rs_features_of (fe_resolve E) pkg_id \<noteq> sorted_list_of_set fs) m"

definition feature_resolve ::
  "nat \<Rightarrow> ('p, 'b, 's) fenv \<Rightarrow> (('p, 'b, 's) package_id \<times> cli_features) list \<Rightarrow>
   (features_error, ('p, 'b, 's) resolved_features) outcome" where
  "feature_resolve n E member_features =
     obind (do_resolve n E member_features) (\<lambda>st.
       if fo_compare (fe_opts E) \<and> feature_mismatch E (fs_features st) then Panic
       else Ok \<lparr>rf_features = fs_features st, rf_dependencies = fs_dependencies st, rf_opts = fe_opts E\<rparr>)"

definition activated_features_unverified ::
  "('p, 'b, 's) resolved_features \<Rightarrow> ('p, 'b, 's) package_id \<Rightarrow> features_for \<Rightarrow> string list option" where
  "activated_features_unverified r pkg_id fk =
     map_option sorted_list_of_set (map_of (rf_features r) (pkg_id, apply_opts (rf_opts r) fk))"

definition activated_features ::
  "('p, 'b, 's) resolved_features \<Rightarrow> ('p, 'b, 's) package_id \<Rightarrow> features_for \<Rightarrow> (unit, string list) outcome" where
  "activated_features r pkg_id fk =
     (case activated_features_unverified r pkg_id fk of Some res \<Rightarrow> Ok res | None \<Rightarrow> Panic)"

definition is_dep_activated ::
  "('p, 'b, 's) resolved_features \<Rightarrow> ('p, 'b, 's) package_id \<Rightarrow> features_for \<Rightarrow> string \<Rightarrow> bool" where
  "is_dep_activated r pkg_id fk dname =
     (case map_of (rf_dependencies r) (pkg_id, apply_opts (rf_opts r) fk) of
        None \<Rightarrow> False | Some deps \<Rightarrow> dname \<in> deps)"

text \<open>
  \<open>compare_legacy\<close> (for \<open>cargo fix --edition\<close>): the features that the new behaviour drops. It
  panics when the new behaviour has a feature the old one does not have.
\<close>

definition legacy_features ::
  "('p, 'b, 's) resolved_features \<Rightarrow> ('p, 'b, 's) features_key \<Rightarrow> string set" where
  "legacy_features legacy k =
     (case map_of (rf_features legacy) k of
        Some feats \<Rightarrow> feats
      | None \<Rightarrow> unwrap_or {} (map_of (rf_features legacy) (fst k, NormalOrDev)))"

definition compare_legacy ::
  "('p, 'b, 's) resolved_features \<Rightarrow> ('p, 'b, 's) resolved_features \<Rightarrow>
   (features_error, (('p, 'b, 's) features_key \<times> string set) list) outcome" where
  "compare_legacy r legacy =
     obind (omap (\<lambda>(k, new_features).
         let old_features = legacy_features legacy k in
         if \<not> new_features \<subseteq> old_features then Panic
         else Ok (if old_features - new_features = {} then [] else [(k, old_features - new_features)]))
       (rf_features r))
     (\<lambda>xs. Ok (concat xs))"

end
