(* ===== verification/FeaturesSpec.thy ===== *)
theory FeaturesSpec
  imports Features
begin

section \<open>What the feature resolver should activate\<close>

text \<open>
  The specification: the least sets of packages, features and optional dependencies that are
  closed under the rules of the manifest (\<open>wanted_pkg\<close>, \<open>wanted_fv\<close>, \<open>wanted_edge\<close>), in
  which a weak feature \<open>dep?/feat\<close> counts only when something else enables \<open>dep\<close>. Then what the
  manifest parser has checked of the inputs (\<open>features_checked\<close>), what follows from it, and that
  only finitely many packages and features are wanted. \<open>FeaturesExact\<close> shows that the feature
  resolver computes these sets.
\<close>

subsection \<open>The specification\<close>

definition dep_edge ::
  "('p, 'b, 's) fenv \<Rightarrow> ('p, 'b, 's) package_id \<Rightarrow> features_for \<Rightarrow>
   ('p, 'b, 's) package_id \<Rightarrow> ('p, 'b, 's) dependency \<Rightarrow> features_for \<Rightarrow> bool" where
  "dep_edge E p fk dp dep dfk \<longleftrightarrow> (\<exists>ds. feature_deps E p fk = Ok ds \<and> (dp, dep, dfk) \<in> set ds)"

definition table_has :: "('p, 'b, 's) fenv \<Rightarrow> ('p, 'b, 's) package_id \<Rightarrow> string \<Rightarrow> feature_value list \<Rightarrow> bool" where
  "table_has E p f fvs \<longleftrightarrow> (\<exists>fm. feature_table E p = Ok fm \<and> map_of fm f = Some fvs)"

definition dep_fv :: "('p, 'b, 's) fenv \<Rightarrow> ('p, 'b, 's) package_id \<Rightarrow> ('p, 'b, 's) dependency \<Rightarrow> feature_value \<Rightarrow> bool" where
  "dep_fv E dp dep fv \<longleftrightarrow> (\<exists>fvs. fvs_from_dependency E dp dep = Ok fvs \<and> fv \<in> set fvs)"

definition member_kinds :: "('p, 'b, 's) fenv \<Rightarrow> ('p, 'b, 's) package_id \<Rightarrow> features_for list" where
  "member_kinds E m = (if track_for_host E \<and> fe_any_proc_macro E m then [NormalOrDev, HostDep] else [NormalOrDev])"

inductive wanted_pkg ::
    "('p, 'b, 's) fenv \<Rightarrow> (('p, 'b, 's) package_id \<times> cli_features) list \<Rightarrow>
     ('p, 'b, 's) package_id \<Rightarrow> features_for \<Rightarrow> bool"
  and wanted_fv ::
    "('p, 'b, 's) fenv \<Rightarrow> (('p, 'b, 's) package_id \<times> cli_features) list \<Rightarrow>
     ('p, 'b, 's) package_id \<Rightarrow> features_for \<Rightarrow> feature_value \<Rightarrow> bool"
  and wanted_edge ::
    "('p, 'b, 's) fenv \<Rightarrow> (('p, 'b, 's) package_id \<times> cli_features) list \<Rightarrow>
     ('p, 'b, 's) package_id \<Rightarrow> ('p, 'b, 's) dependency \<Rightarrow> features_for \<Rightarrow> bool"
  for E :: "('p, 'b, 's) fenv" and ms :: "(('p, 'b, 's) package_id \<times> cli_features) list"
where
  member_pkg: "(m, cli) \<in> set ms \<Longrightarrow> fk \<in> set (member_kinds E m) \<Longrightarrow> wanted_pkg E ms m fk"
| member_fv: "(m, cli) \<in> set ms \<Longrightarrow> fk \<in> set (member_kinds E m) \<Longrightarrow>
    fvs_from_requested E m cli = Ok fvs \<Longrightarrow> fv \<in> set fvs \<Longrightarrow> wanted_fv E ms m fk fv"
| required_edge: "wanted_pkg E ms p fk \<Longrightarrow> dep_edge E p fk dp dep dfk \<Longrightarrow> \<not> dep_optional dep \<Longrightarrow>
    wanted_edge E ms dp dep dfk"
| enabled_edge: "wanted_fv E ms p fk (Dep (name_in_toml dep)) \<Longrightarrow> dep_edge E p fk dp dep dfk \<Longrightarrow>
    wanted_edge E ms dp dep dfk"
| edge_pkg: "wanted_edge E ms dp dep dfk \<Longrightarrow> wanted_pkg E ms dp dfk"
| edge_fv: "wanted_edge E ms dp dep dfk \<Longrightarrow> dep_fv E dp dep fv \<Longrightarrow> wanted_fv E ms dp dfk fv"
| feature_fv: "wanted_fv E ms p fk (Feature f) \<Longrightarrow> table_has E p f fvs \<Longrightarrow> fv \<in> set fvs \<Longrightarrow> wanted_fv E ms p fk fv"
| strong_dep: "wanted_fv E ms p fk (DepFeature d f False) \<Longrightarrow> dep_edge E p fk dp dep dfk \<Longrightarrow>
    name_in_toml dep = d \<Longrightarrow> dep_optional dep \<Longrightarrow> wanted_fv E ms p fk (Dep d)"
| strong_feature: "wanted_fv E ms p fk (DepFeature d f False) \<Longrightarrow> dep_edge E p fk dp dep dfk \<Longrightarrow>
    name_in_toml dep = d \<Longrightarrow> dep_optional dep \<Longrightarrow> table_has E p d fvs \<Longrightarrow> wanted_fv E ms p fk (Feature d)"
| dep_feature_fv: "wanted_fv E ms p fk (DepFeature d f w) \<Longrightarrow> dep_edge E p fk dp dep dfk \<Longrightarrow>
    name_in_toml dep = d \<Longrightarrow> \<not> dep_optional dep \<or> \<not> w \<or> wanted_fv E ms p fk (Dep d) \<Longrightarrow>
    wanted_fv E ms dp dfk (fv_new f)"

text \<open>
  What the manifest parser has checked, and that every package of the resolution has a summary.
  A feature name is plain when it is not itself a \<open>dep:\<close> or a slash value. Without separate
  host features the keys collapse to one, which is exact only when no dependency is for a target
  of its own.
\<close>

definition plain :: "string \<Rightarrow> bool" where
  "plain f \<longleftrightarrow> fv_new f = Feature f"

fun plain_fv :: "feature_value \<Rightarrow> bool" where
  "plain_fv (DepFeature d f w) = plain f"
| "plain_fv _ = True"

definition edge_checked :: "('p, 'b, 's) fenv \<Rightarrow> ('p, 'b, 's) package_id \<times> ('p, 'b, 's) dependency list \<Rightarrow> bool" where
  "edge_checked E e =
     (map_of (rs_summaries (fe_resolve E)) (unwrap_or (fst e) (rs_replacement (fe_resolve E) (fst e))) \<noteq> None \<and>
      list_all (\<lambda>dep. list_all plain (dep_features dep)) (snd e))"

definition no_artifact_targets :: "('p, 'b, 's) fenv \<Rightarrow> bool" where
  "no_artifact_targets E =
     list_all (\<lambda>(_, es). list_all (\<lambda>(_, deps).
       list_all (\<lambda>dep. case dep_artifact dep of None \<Rightarrow> True | Some a \<Rightarrow> art_target a = None) deps) es)
       (rs_graph (fe_resolve E))"

definition features_checked :: "('p, 'b, 's) fenv \<Rightarrow> (('p, 'b, 's) package_id \<times> cli_features) list \<Rightarrow> bool" where
  "features_checked E ms \<longleftrightarrow>
     list_all (\<lambda>(_, es). list_all (edge_checked E) es) (rs_graph (fe_resolve E)) \<and>
     list_all (\<lambda>(_, s). list_all (\<lambda>(_, fvs). list_all plain_fv fvs) (sum_features s)) (rs_summaries (fe_resolve E)) \<and>
     list_all (\<lambda>(m, cli). map_of (rs_summaries (fe_resolve E)) m \<noteq> None \<and> list_all plain_fv (cli_list cli)) ms \<and>
     (fo_decouple_host_deps (fe_opts E) \<or> \<not> track_for_host E \<and> no_artifact_targets E)"

lemmas wanted_intros = wanted_pkg_wanted_fv_wanted_edge.intros

subsection \<open>The dependencies of a package\<close>

definition merge_error :: "('p, 'b, 's) fenv \<Rightarrow> features_error \<Rightarrow> bool" where
  "merge_error E e \<longleftrightarrow> (\<exists>t. e = TargetInfo t \<and> \<not> fe_merge E t)"

lemma owp_omap:
  "(\<And>x. x \<in> set xs \<Longrightarrow> owp p (f x) (P x) E) \<Longrightarrow> owp p (omap f xs) (list_all2 P xs) E"
proof (induction xs)
  case (Cons x xs)
  have "owp p (omap f xs) (list_all2 P xs) E" by (rule Cons.IH) (simp add: Cons.prems)
  moreover have "owp p (f x) (P x) E" by (simp add: Cons.prems)
  ultimately show ?case by (cases "f x"; cases "omap f xs") simp_all
qed simp

lemma list_all2_source: "list_all2 P xs ys \<Longrightarrow> y \<in> set ys \<Longrightarrow> \<exists>x \<in> set xs. P x y"
  by (induction rule: list_all2_induct) auto

definition dep_kinds ::
  "('p, 'b, 's) fenv \<Rightarrow> features_for \<Rightarrow> ('p, 'b, 's) package_id \<Rightarrow> ('p, 'b, 's) dependency \<Rightarrow> features_for set" where
  "dep_kinds E fk dp dep = {lib_features_for E fk dp dep} \<union>
     (case dep_artifact dep of None \<Rightarrow> {}
      | Some a \<Rightarrow> (case art_target a of None \<Rightarrow> {} | Some (Force t) \<Rightarrow> {ArtifactDep t}
          | Some BuildDependencyAssumeTarget \<Rightarrow>
              (\<lambda>kind. ArtifactDep (case kind of KindHost \<Rightarrow> fe_host E | KindTarget t \<Rightarrow> t)) ` set (fe_requested E)))"

lemma activate_target_owp: "owp False (activate_target E t) (\<lambda>fk. fk = ArtifactDep t) (merge_error E)"
  by (simp add: activate_target_def merge_error_def)

lemma artifact_kinds:
  "owp False (artifact_features_for E dep (lib_features_for E fk dp dep)) (\<lambda>fks. set fks \<subseteq> dep_kinds E fk dp dep) (merge_error E)"
proof (cases "dep_artifact dep")
  case None
  then show ?thesis by (simp add: artifact_features_for_def dep_kinds_def)
next
  case (Some a)
  have all: "owp False (omap (\<lambda>kind. activate_target E (case kind of KindHost \<Rightarrow> fe_host E | KindTarget t \<Rightarrow> t)) ks)
     (\<lambda>fks. set fks \<subseteq> (\<lambda>kind. ArtifactDep (case kind of KindHost \<Rightarrow> fe_host E | KindTarget t \<Rightarrow> t)) ` set ks) (merge_error E)" for ks
    by (rule owp_mono, rule owp_omap, rule activate_target_owp) (auto dest!: list_all2_source)
  show ?thesis
  proof (cases "art_target a")
    case None
    then show ?thesis using Some by (auto simp: artifact_features_for_def dep_kinds_def)
  next
    case T: (Some t)
    show ?thesis
    proof (cases t)
      case (Force x)
      then show ?thesis using Some T
        by (auto simp: artifact_features_for_def dep_kinds_def activate_target_def merge_error_def)
    next
      case BuildDependencyAssumeTarget
      have "owp False (omap (\<lambda>kind. activate_target E (case kind of KindHost \<Rightarrow> fe_host E | KindTarget t \<Rightarrow> t)) (fe_requested E))
        (\<lambda>res. set (if art_is_lib a \<or> art_target a = None then res @ [lib_features_for E fk dp dep] else res) \<subseteq> dep_kinds E fk dp dep)
        (merge_error E)"
        by (rule owp_mono [OF all]) (use Some T BuildDependencyAssumeTarget in \<open>auto simp: dep_kinds_def\<close>)
      then show ?thesis using Some T BuildDependencyAssumeTarget
        by (cases "omap (\<lambda>kind. activate_target E (case kind of KindHost \<Rightarrow> fe_host E | KindTarget t \<Rightarrow> t)) (fe_requested E)")
          (simp_all add: artifact_features_for_def)
    qed
  qed
qed

text \<open>The dependencies that \<open>feature_deps\<close> draws from: the ones of the edges of the graph.\<close>

definition graph_deps :: "('p, 'b, 's) fenv \<Rightarrow> (('p, 'b, 's) package_id \<times> ('p, 'b, 's) dependency) set" where
  "graph_deps E = {(unwrap_or d (rs_replacement (fe_resolve E) d), dep) | d dep.
     \<exists>p es deps. (p, es) \<in> set (rs_graph (fe_resolve E)) \<and> (d, deps) \<in> set es \<and> dep \<in> set deps}"

lemma rs_deps_graph:
  assumes "(dp, deps) \<in> set (rs_deps (fe_resolve E) p)" and "dep \<in> set deps"
  shows "(dp, dep) \<in> graph_deps E"
proof -
  from assms(1) obtain d where d: "dp = unwrap_or d (rs_replacement (fe_resolve E) d)"
      "(d, deps) \<in> set (graph_edges (rs_graph (fe_resolve E)) p)"
    by (auto simp: rs_deps_def deps_not_replaced_def)
  then obtain es where "(p, es) \<in> set (rs_graph (fe_resolve E))" "(d, deps) \<in> set es"
    by (auto simp: graph_edges_def split: option.splits dest!: sym [of "Some _"] map_of_SomeD)
  then show ?thesis using d(1) assms(2) unfolding graph_deps_def by blast
qed

lemma feature_deps_merge:
  "owp False (feature_deps E p fk) (\<lambda>ds. \<forall>(dp, dep, dfk) \<in> set ds. (dp, dep) \<in> graph_deps E \<and> dfk \<in> dep_kinds E fk dp dep)
     (merge_error E)"
proof -
  let ?dep = "\<lambda>dp dep. obind (artifact_features_for E dep (lib_features_for E fk dp dep)) (\<lambda>fks. Ok (map (\<lambda>dep_fk. (dp, dep, dep_fk)) fks))"
  let ?good = "\<lambda>(dp, dep, dfk). (dp, dep) \<in> graph_deps E \<and> dfk \<in> dep_kinds E fk dp dep"
  let ?deps = "\<lambda>(dp, deps). obind (omap (?dep dp) (filter (dep_wanted E fk) deps)) (\<lambda>xs. Ok (concat xs))"
  have one: "owp False (?dep dp dep) (\<lambda>xs. \<forall>x \<in> set xs. ?good x) (merge_error E)" if "(dp, dep) \<in> graph_deps E" for dp dep
    by (rule owp_bind, rule owp_mono [OF artifact_kinds]) (use that in auto)
  have many: "owp False (?deps e) (\<lambda>xs. \<forall>x \<in> set xs. ?good x) (merge_error E)"
    if "e \<in> set (rs_deps (fe_resolve E) p)" for e
  proof -
    obtain dp deps where e: "e = (dp, deps)" by fastforce
    have "owp False (omap (?dep dp) (filter (dep_wanted E fk) deps)) (\<lambda>xss. \<forall>x \<in> set (concat xss). ?good x) (merge_error E)"
      by (rule owp_mono, rule owp_omap, rule one) (use that e in \<open>auto intro: rs_deps_graph dest!: list_all2_source\<close>)
    then show ?thesis unfolding e prod.case by (rule owp_bind [OF owp_mono]) simp_all
  qed
  have "owp False (omap ?deps (rs_deps (fe_resolve E) p)) (\<lambda>xss. \<forall>x \<in> set (concat xss). ?good x) (merge_error E)"
    by (rule owp_mono, rule owp_omap, erule many) (auto dest!: list_all2_source)
  then show ?thesis unfolding feature_deps_def by (rule owp_bind [OF owp_mono]) simp_all
qed

lemma omap_all_Ok: "\<forall>x \<in> set xs. f x = Ok (g x) \<Longrightarrow> omap f xs = Ok (map g xs)"
  by (induction xs) auto

lemma feature_deps_plain:
  assumes "no_artifact_targets E"
  shows "feature_deps E p fk =
    Ok (concat (map (\<lambda>(dp, deps). map (\<lambda>dep. (dp, dep, lib_features_for E fk dp dep)) (filter (dep_wanted E fk) deps))
      (rs_deps (fe_resolve E) p)))"
proof -
  have art: "artifact_features_for E dep x = Ok [x]" if "(dp, deps) \<in> set (rs_deps (fe_resolve E) p)" "dep \<in> set deps" for dp deps dep x
  proof -
    have "case dep_artifact dep of None \<Rightarrow> True | Some a \<Rightarrow> art_target a = None"
      using rs_deps_graph [OF that] assms unfolding graph_deps_def no_artifact_targets_def list_all_iff by fastforce
    then show ?thesis by (auto simp: artifact_features_for_def split: option.splits)
  qed
  have one: "omap (\<lambda>dep. obind (artifact_features_for E dep (lib_features_for E fk dp dep))
        (\<lambda>fks. Ok (map (\<lambda>dep_fk. (dp, dep, dep_fk)) fks))) (filter (dep_wanted E fk) deps) =
      Ok (map (\<lambda>dep. [(dp, dep, lib_features_for E fk dp dep)]) (filter (dep_wanted E fk) deps))"
    if "(dp, deps) \<in> set (rs_deps (fe_resolve E) p)" for dp deps
    by (rule omap_all_Ok) (simp add: art [OF that])
  have flat: "concat (map (\<lambda>x. [g x]) xs) = map g xs" for g and xs by (induction xs) simp_all
  have "omap (\<lambda>(dep_id, deps). obind (omap (\<lambda>dep. obind (artifact_features_for E dep (lib_features_for E fk dep_id dep))
        (\<lambda>fks. Ok (map (\<lambda>dep_fk. (dep_id, dep, dep_fk)) fks))) (filter (dep_wanted E fk) deps)) (\<lambda>xs. Ok (concat xs)))
      (rs_deps (fe_resolve E) p) =
    Ok (map (\<lambda>(dp, deps). map (\<lambda>dep. (dp, dep, lib_features_for E fk dp dep)) (filter (dep_wanted E fk) deps)) (rs_deps (fe_resolve E) p))"
    by (rule omap_all_Ok) (auto simp: one flat)
  then show ?thesis by (simp add: feature_deps_def)
qed

text \<open>The only error: \<open>rustc\<close> cannot be asked about the target of some artifact dependency.\<close>

definition target_error :: "('p, 'b, 's) fenv \<Rightarrow> features_error \<Rightarrow> bool" where
  "target_error E e \<longleftrightarrow> merge_error E e \<and> \<not> no_artifact_targets E"

lemma feature_deps_owp:
  "owp False (feature_deps E p fk) (\<lambda>ds. \<forall>(dp, dep, dfk) \<in> set ds. (dp, dep) \<in> graph_deps E \<and> dfk \<in> dep_kinds E fk dp dep)
     (target_error E)"
  by (rule owp_mono [OF feature_deps_merge]) (auto simp: target_error_def feature_deps_plain)

lemma dep_edge_graph:
  assumes "dep_edge E p fk dp dep dfk"
  shows "(dp, dep) \<in> graph_deps E" "dfk \<in> dep_kinds E fk dp dep"
  using feature_deps_owp [of E p fk] assms by (auto simp: dep_edge_def)

lemma finite_graph_deps: "finite (graph_deps E)"
proof -
  have "graph_deps E \<subseteq> (\<Union>(p, es) \<in> set (rs_graph (fe_resolve E)). \<Union>(d, deps) \<in> set es.
      Pair (unwrap_or d (rs_replacement (fe_resolve E) d)) ` set deps)"
    unfolding graph_deps_def by fastforce
  then show ?thesis by (rule finite_subset) auto
qed

subsection \<open>Consequences of the checks\<close>

lemma edge_table:
  assumes "features_checked E ms" and "dep_edge E p fk dp dep dfk"
  obtains fm where "feature_table E dp = Ok fm"
proof -
  from dep_edge_graph(1) [OF assms(2)] obtain d q es deps
    where g: "dp = unwrap_or d (rs_replacement (fe_resolve E) d)" "(q, es) \<in> set (rs_graph (fe_resolve E))"
      "(d, deps) \<in> set es"
    unfolding graph_deps_def by blast
  then have "edge_checked E (d, deps)"
    using assms(1) by (auto simp: features_checked_def list_all_iff)
  then obtain s where "map_of (rs_summaries (fe_resolve E)) dp = Some s"
    by (auto simp: edge_checked_def g(1))
  then show thesis using that by (simp add: feature_table_def)
qed

lemma edge_features_plain:
  assumes "features_checked E ms" and "(dp, dep) \<in> graph_deps E" and "f \<in> set (dep_features dep)"
  shows "plain f"
proof -
  from assms(2) obtain d q es deps
    where g: "(q, es) \<in> set (rs_graph (fe_resolve E))" "(d, deps) \<in> set es" "dep \<in> set deps"
    unfolding graph_deps_def by blast
  then have "edge_checked E (d, deps)"
    using assms(1) by (auto simp: features_checked_def list_all_iff)
  then show ?thesis using g(3) assms(3) by (auto simp: edge_checked_def list_all_iff)
qed

lemma dep_fv_plain:
  assumes "features_checked E ms" and "(dp, dep) \<in> graph_deps E" and "dep_fv E dp dep fv"
  obtains f where "fv = Feature f"
proof -
  from assms(3) have "fv \<in> fv_new ` set (dep_features dep) \<or> fv = Feature ''default''"
    by (auto simp: dep_fv_def fvs_from_dependency_def split: if_splits)
  then show thesis using that edge_features_plain [OF assms(1,2)] by (auto simp: plain_def)
qed

lemma table_plain: "features_checked E ms \<Longrightarrow> table_has E p f fvs \<Longrightarrow> fv \<in> set fvs \<Longrightarrow> plain_fv fv"
  by (fastforce simp: features_checked_def table_has_def feature_table_def list_all_iff
      split: option.splits dest!: map_of_SomeD)

lemma requested_plain:
  assumes "features_checked E ms" "(m, cli) \<in> set ms" "fvs_from_requested E m cli = Ok fvs" "fv \<in> set fvs"
  shows "plain_fv fv"
  using assms by (fastforce simp: features_checked_def fvs_from_requested_def list_all_iff split: if_splits)

lemma edge_kept:
  assumes "features_checked E ms" "dep_edge E p fk dp dep dfk" "apply_opts (fe_opts E) fk = fk"
  shows "apply_opts (fe_opts E) dfk = dfk"
proof (cases "fo_decouple_host_deps (fe_opts E)")
  case True
  then show ?thesis by (simp add: apply_opts_def)
next
  case False
  with assms(1) have nt: "\<not> track_for_host E" "no_artifact_targets E" by (auto simp: features_checked_def)
  from assms(3) False have fk: "fk = NormalOrDev" by (simp add: apply_opts_def)
  from dep_edge_graph(1) [OF assms(2)] nt(2)
  have "case dep_artifact dep of None \<Rightarrow> True | Some a \<Rightarrow> art_target a = None"
    unfolding graph_deps_def no_artifact_targets_def list_all_iff by fastforce
  with dep_edge_graph(2) [OF assms(2)] nt(1) have "dfk = fk"
    by (auto simp: dep_kinds_def lib_features_for_def split: option.splits)
  then show ?thesis using assms(3) by simp
qed

lemma wanted_facts:
  assumes "features_checked E ms"
  shows "wanted_pkg E ms p fk \<Longrightarrow> (\<exists>fm. feature_table E p = Ok fm) \<and> apply_opts (fe_opts E) fk = fk"
    and "wanted_fv E ms p fk fv \<Longrightarrow> plain_fv fv \<and> wanted_pkg E ms p fk \<and> apply_opts (fe_opts E) fk = fk"
    and "wanted_edge E ms dp dep dfk \<Longrightarrow>
      wanted_pkg E ms dp dfk \<and> apply_opts (fe_opts E) dfk = dfk \<and> (\<exists>fm. feature_table E dp = Ok fm) \<and>
      (dp, dep) \<in> graph_deps E"
proof (induction rule: wanted_pkg_wanted_fv_wanted_edge.inducts)
  case (member_pkg m cli fk)
  then show ?case using assms
    by (fastforce simp: features_checked_def list_all_iff feature_table_def member_kinds_def apply_opts_def split: if_splits)
next
  case (member_fv m cli fk fvs fv)
  then show ?case using requested_plain [OF assms member_fv(1,3,4)] assms
    by (auto simp: features_checked_def member_kinds_def apply_opts_def split: if_splits intro: wanted_pkg_wanted_fv_wanted_edge.member_pkg)
next
  case (required_edge p fk dp dep dfk)
  then have e: "dep_edge E p fk dp dep dfk" and w: "wanted_edge E ms dp dep dfk"
    by (blast intro: wanted_pkg_wanted_fv_wanted_edge.required_edge)+
  show ?case
    using edge_kept [OF assms e] required_edge dep_edge_graph(1) [OF e] edge_table [OF assms e]
      wanted_pkg_wanted_fv_wanted_edge.edge_pkg [OF w] by metis
next
  case (enabled_edge p fk dep dp dfk)
  then have e: "dep_edge E p fk dp dep dfk" and w: "wanted_edge E ms dp dep dfk"
    by (blast intro: wanted_pkg_wanted_fv_wanted_edge.enabled_edge)+
  show ?case
    using edge_kept [OF assms e] enabled_edge dep_edge_graph(1) [OF e] edge_table [OF assms e]
      wanted_pkg_wanted_fv_wanted_edge.edge_pkg [OF w] by metis
next
  case (edge_fv dp dep dfk fv)
  then show ?case using dep_fv_plain [OF assms] by (metis plain_fv.simps(2))
next
  case (feature_fv p fk f fvs fv)
  then show ?case using table_plain [OF assms] by blast
next
  case (dep_feature_fv p fk d f w dp dep dfk)
  have "wanted_edge E ms dp dep dfk"
  proof (cases "dep_optional dep")
    case False
    then show ?thesis
      using dep_feature_fv by (blast intro: wanted_pkg_wanted_fv_wanted_edge.required_edge)
  next
    case True
    have "wanted_fv E ms p fk (Dep d)"
      using True dep_feature_fv by (cases w) (auto intro: wanted_pkg_wanted_fv_wanted_edge.strong_dep)
    then show ?thesis
      using dep_feature_fv by (blast intro: wanted_pkg_wanted_fv_wanted_edge.enabled_edge)
  qed
  then have "wanted_pkg E ms dp dfk" by (rule wanted_pkg_wanted_fv_wanted_edge.edge_pkg)
  moreover have "apply_opts (fe_opts E) dfk = dfk" using edge_kept [OF assms] dep_feature_fv by blast
  moreover have "plain_fv (fv_new f)" using dep_feature_fv by (simp add: plain_def)
  ultimately show ?case by simp
qed auto

subsection \<open>Only finitely many packages and features are wanted\<close>

definition named_kinds :: "('p, 'b, 's) fenv \<Rightarrow> features_for set" where
  "named_kinds E = {NormalOrDev, HostDep} \<union> (\<Union>(dp, dep) \<in> graph_deps E. dep_kinds E HostDep dp dep)"

definition named_fvs :: "('p, 'b, 's) fenv \<Rightarrow> (('p, 'b, 's) package_id \<times> cli_features) list \<Rightarrow> feature_value set" where
  "named_fvs E ms =
     (\<Union>(m, cli) \<in> set ms. {fv. \<exists>fvs. fvs_from_requested E m cli = Ok fvs \<and> fv \<in> set fvs}) \<union>
     (\<Union>(_, s) \<in> set (rs_summaries (fe_resolve E)). \<Union>(_, fvs) \<in> set (sum_features s). set fvs) \<union>
     (\<Union>(dp, dep) \<in> graph_deps E. {fv. dep_fv E dp dep fv})"

definition derived_fvs :: "feature_value \<Rightarrow> feature_value set" where
  "derived_fvs fv = (case fv of DepFeature d f w \<Rightarrow> {Dep d, Feature d, fv_new f} | _ \<Rightarrow> {})"

lemma finite_named_kinds: "finite (named_kinds E)"
proof -
  have "finite (dep_kinds E fk dp dep)" for fk dp dep
    by (auto simp: dep_kinds_def split: option.splits artifact_target.splits)
  then show ?thesis by (auto simp: named_kinds_def finite_graph_deps)
qed

lemma finite_named_fvs: "finite (named_fvs E ms)"
proof -
  have "finite {fv. \<exists>fvs. r = Ok fvs \<and> fv \<in> set fvs}" for r :: "(features_error, feature_value list) outcome"
    by (cases r) simp_all
  then show ?thesis unfolding named_fvs_def dep_fv_def by (auto simp: finite_graph_deps)
qed

lemma edge_named_kind:
  assumes "dep_edge E p fk dp dep dfk" "fk \<in> named_kinds E"
  shows "dfk \<in> named_kinds E"
proof -
  have "dep_kinds E fk dp dep \<subseteq> {fk, HostDep} \<union> dep_kinds E HostDep dp dep"
    by (auto simp: dep_kinds_def lib_features_for_def split: option.splits)
  then show ?thesis
    using dep_edge_graph [OF assms(1)] assms(2) unfolding named_kinds_def by blast
qed

lemma wanted_kind:
  assumes "features_checked E ms"
  shows "wanted_pkg E ms p fk \<Longrightarrow> fk \<in> named_kinds E \<and> p \<in> fst ` set ms \<union> fst ` graph_deps E"
    and "wanted_fv E ms p fk fv \<Longrightarrow> fk \<in> named_kinds E"
    and "wanted_edge E ms dp dep dfk \<Longrightarrow> dfk \<in> named_kinds E \<and> dp \<in> fst ` graph_deps E"
proof (induction rule: wanted_pkg_wanted_fv_wanted_edge.inducts)
  case (member_pkg m cli fk)
  then show ?case by (force simp: member_kinds_def named_kinds_def split: if_splits)
next
  case (member_fv m cli fk fvs fv)
  then show ?case by (auto simp: member_kinds_def named_kinds_def split: if_splits)
next
  case (required_edge p fk dp dep dfk)
  then show ?case using edge_named_kind dep_edge_graph(1) by (metis fst_conv image_eqI)
next
  case (enabled_edge p fk dep dp dfk)
  then show ?case using edge_named_kind dep_edge_graph(1) by (metis fst_conv image_eqI)
next
  case (dep_feature_fv p fk d f w dp dep dfk)
  then show ?case using edge_named_kind by metis
qed auto

lemma wanted_fv_named:
  assumes "features_checked E ms"
  shows "wanted_pkg E ms p fk \<Longrightarrow> True"
    and "wanted_fv E ms p fk fv \<Longrightarrow>
      fv \<in> named_fvs E ms \<union> (\<Union>fv' \<in> named_fvs E ms. derived_fvs fv') \<and>
      (\<forall>d f w. fv = DepFeature d f w \<longrightarrow> fv \<in> named_fvs E ms)"
    and "wanted_edge E ms dp dep dfk \<Longrightarrow> (dp, dep) \<in> graph_deps E"
proof (induction rule: wanted_pkg_wanted_fv_wanted_edge.inducts)
  case (member_fv m cli fk fvs fv)
  then have "fv \<in> named_fvs E ms" unfolding named_fvs_def by blast
  then show ?case by blast
next
  case (edge_fv dp dep dfk fv)
  then have "fv \<in> named_fvs E ms" unfolding named_fvs_def by blast
  then show ?case by blast
next
  case (feature_fv p fk f fvs fv)
  then have "fv \<in> named_fvs E ms"
    unfolding named_fvs_def table_has_def feature_table_def
    by (force split: option.splits dest!: sym [of "Some _"] map_of_SomeD)
  then show ?case by blast
next
  case (dep_feature_fv p fk d f w dp dep dfk)
  then have "plain f" using wanted_facts(2) [OF assms] by (metis plain_fv.simps(1))
  then have "fv_new f = Feature f" by (simp add: plain_def)
  moreover have "fv_new f \<in> derived_fvs (DepFeature d f w)" by (simp add: derived_fvs_def)
  ultimately show ?case using dep_feature_fv by (metis UN_I UnI2 feature_value.distinct(4))
next
  case (strong_dep p fk d f dp dep dfk)
  moreover have "Dep d \<in> derived_fvs (DepFeature d f False)" by (simp add: derived_fvs_def)
  ultimately show ?case by blast
next
  case (strong_feature p fk d f dp dep dfk fvs)
  moreover have "Feature d \<in> derived_fvs (DepFeature d f False)" by (simp add: derived_fvs_def)
  ultimately show ?case by blast
qed (auto dest: dep_edge_graph(1))

lemma finite_derived: "finite (derived_fvs fv)"
  by (cases fv) (simp_all add: derived_fvs_def)

lemma finite_wanted:
  assumes "features_checked E ms"
  shows "finite {(p, fk). wanted_pkg E ms p fk}" and "finite {(p, fk, fv). wanted_fv E ms p fk fv}"
proof -
  let ?K = "(fst ` set ms \<union> fst ` graph_deps E) \<times> named_kinds E"
  let ?V = "named_fvs E ms \<union> (\<Union>fv' \<in> named_fvs E ms. derived_fvs fv')"
  have fin: "finite (fst ` set ms \<union> fst ` graph_deps E)" "finite (named_kinds E)" "finite ?V"
    using finite_derived by (simp_all add: finite_graph_deps finite_named_kinds finite_named_fvs)
  have "{(p, fk). wanted_pkg E ms p fk} \<subseteq> ?K" using wanted_kind(1) [OF assms] by auto
  then show "finite {(p, fk). wanted_pkg E ms p fk}"
    by (rule finite_subset) (intro finite_cartesian_product fin)
  have "{(p, fk, fv). wanted_fv E ms p fk fv} \<subseteq> (fst ` set ms \<union> fst ` graph_deps E) \<times> named_kinds E \<times> ?V"
    using wanted_kind(1) [OF assms] wanted_facts(2) [OF assms] wanted_fv_named(2) [OF assms] by fast
  then show "finite {(p, fk, fv). wanted_fv E ms p fk fv}"
    by (rule finite_subset) (intro finite_cartesian_product fin)
qed

end
