(* ===== verification/FeaturesExact.thy ===== *)
theory FeaturesExact
  imports FeaturesSpec
begin

section \<open>The feature resolver computes exactly what is wanted\<close>

text \<open>
  The five methods recurse into packages whose own activation is still under way, so no state
  in the middle is closed under the rules. What every call guarantees is \<open>progress\<close>: the maps only
  grow, a deferred weak feature stays deferred until its dependency is active and then is enabled,
  and whatever the call added has its consequences in the state the call ends with. One induction
  on the depth proves it for the five methods together, with the number of wanted features and
  packages still missing as the measure that pays for the depth.
\<close>

subsection \<open>States\<close>

abbreviation feats :: "('p, 'b, 's) features_state \<Rightarrow> ('p, 'b, 's) package_id \<Rightarrow> features_for \<Rightarrow> string set" where
  "feats st p fk \<equiv> am_get (fs_features st) (p, fk)"

abbreviation deps_on :: "('p, 'b, 's) features_state \<Rightarrow> ('p, 'b, 's) package_id \<Rightarrow> features_for \<Rightarrow> string set" where
  "deps_on st p fk \<equiv> am_get (fs_dependencies st) (p, fk)"

lemma am_get_insert: "am_get (hm_insert k v m) k' = (if k' = k then v else am_get m k')"
  by (simp add: am_get_def get_hm_insert unwrap_or_def)

lemma touch_simps [simp]:
  "feats (touch_features k st) p fk = feats st p fk" "fs_dependencies (touch_features k st) = fs_dependencies st"
  "fs_processed (touch_features k st) = fs_processed st" "deferred_for (touch_features k st) = deferred_for st"
  "dom (map_of (fs_features (touch_features k st))) = insert k (dom (map_of (fs_features st)))"
  by (simp_all add: touch_features_def am_get_insert deferred_for_def fun_eq_iff get_hm_insert)

lemma add_feature_simps [simp]:
  "feats (add_feature k f st) p fk = (if (p, fk) = k then insert f (feats st p fk) else feats st p fk)"
  "fs_dependencies (add_feature k f st) = fs_dependencies st"
  "fs_processed (add_feature k f st) = fs_processed st" "deferred_for (add_feature k f st) = deferred_for st"
  "dom (map_of (fs_features (add_feature k f st))) = insert k (dom (map_of (fs_features st)))"
  by (simp_all add: add_feature_def am_get_insert deferred_for_def fun_eq_iff get_hm_insert)

lemma add_dependency_simps [simp]:
  "deps_on (add_dependency k d st) p fk = (if (p, fk) = k then insert d (deps_on st p fk) else deps_on st p fk)"
  "fs_features (add_dependency k d st) = fs_features st"
  "fs_processed (add_dependency k d st) = fs_processed st" "deferred_for (add_dependency k d st) = deferred_for st"
  by (simp_all add: add_dependency_def am_get_insert deferred_for_def fun_eq_iff)

lemma defer_simps [simp]:
  "fs_features (defer_feature k f st) = fs_features st" "fs_dependencies (defer_feature k f st) = fs_dependencies st"
  "fs_processed (defer_feature k f st) = fs_processed st"
  "deferred_for (defer_feature k f st) k' = (if k' = k then List.insert f (deferred_for st k) else deferred_for st k')"
  by (simp_all add: defer_feature_def deferred_for_def get_hm_insert unwrap_or_def)

lemma take_deferred_simps [simp]:
  "fs_features (take_deferred k st) = fs_features st" "fs_dependencies (take_deferred k st) = fs_dependencies st"
  "fs_processed (take_deferred k st) = fs_processed st"
  "deferred_for (take_deferred k st) k' = (if k' = k then [] else deferred_for st k')"
  by (simp_all add: take_deferred_def deferred_for_def get_hm_remove unwrap_or_def)

lemma processed_simps [simp]:
  "deferred_for (st\<lparr>fs_processed := P\<rparr>) = deferred_for st"
  by (simp add: deferred_for_def fun_eq_iff)

lemma features_wf:
  "hm_wf (fs_features st) \<Longrightarrow> hm_wf (fs_features (touch_features k st))"
  "hm_wf (fs_features st) \<Longrightarrow> hm_wf (fs_features (add_feature k f st))"
  by (simp_all add: touch_features_def add_feature_def hm_wf_insert)

subsection \<open>What a state already has\<close>

definition dep_feature_done ::
  "('p, 'b, 's) fenv \<Rightarrow> ('p, 'b, 's) features_state \<Rightarrow> ('p, 'b, 's) package_id \<Rightarrow> features_for \<Rightarrow> string \<Rightarrow> string \<Rightarrow> bool \<Rightarrow>
   ('p, 'b, 's) package_id \<Rightarrow> ('p, 'b, 's) dependency \<Rightarrow> features_for \<Rightarrow> bool" where
  "dep_feature_done E st p fk d f w dp dep dfk \<longleftrightarrow>
     dep_optional dep \<and> w \<and> f \<in> set (deferred_for st (p, fk, d)) \<or>
     (dep_optional dep \<longrightarrow> d \<in> deps_on st p fk \<and> (\<not> w \<longrightarrow> (\<exists>fvs. table_has E p d fvs) \<longrightarrow> d \<in> feats st p fk)) \<and>
     f \<in> feats st dp dfk"

fun has_fv :: "('p, 'b, 's) fenv \<Rightarrow> ('p, 'b, 's) features_state \<Rightarrow> ('p, 'b, 's) package_id \<Rightarrow> features_for \<Rightarrow> feature_value \<Rightarrow> bool" where
  "has_fv E st p fk (Feature f) \<longleftrightarrow> f \<in> feats st p fk"
| "has_fv E st p fk (Dep d) \<longleftrightarrow> d \<in> deps_on st p fk"
| "has_fv E st p fk (DepFeature d f w) \<longleftrightarrow>
     (\<forall>dp dep dfk. dep_edge E p fk dp dep dfk \<longrightarrow> name_in_toml dep = d \<longrightarrow> dep_feature_done E st p fk d f w dp dep dfk)"

definition edge_done ::
  "('p, 'b, 's) fenv \<Rightarrow> ('p, 'b, 's) features_state \<Rightarrow> ('p, 'b, 's) package_id \<Rightarrow> ('p, 'b, 's) dependency \<Rightarrow> features_for \<Rightarrow> bool" where
  "edge_done E st dp dep dfk \<longleftrightarrow> (dp, dfk) \<in> fs_processed st \<and> (\<forall>fv. dep_fv E dp dep fv \<longrightarrow> has_fv E st dp dfk fv)"

definition feature_closed :: "('p, 'b, 's) fenv \<Rightarrow> ('p, 'b, 's) features_state \<Rightarrow> ('p, 'b, 's) package_id \<Rightarrow> features_for \<Rightarrow> string \<Rightarrow> bool" where
  "feature_closed E st p fk f \<longleftrightarrow> (\<forall>fvs. table_has E p f fvs \<longrightarrow> (\<forall>fv \<in> set fvs. has_fv E st p fk fv))"

definition dep_closed :: "('p, 'b, 's) fenv \<Rightarrow> ('p, 'b, 's) features_state \<Rightarrow> ('p, 'b, 's) package_id \<Rightarrow> features_for \<Rightarrow> string \<Rightarrow> bool" where
  "dep_closed E st p fk d \<longleftrightarrow>
     (\<forall>dp dep dfk. dep_edge E p fk dp dep dfk \<longrightarrow> name_in_toml dep = d \<longrightarrow> edge_done E st dp dep dfk)"

definition pkg_closed :: "('p, 'b, 's) fenv \<Rightarrow> ('p, 'b, 's) features_state \<Rightarrow> ('p, 'b, 's) package_id \<Rightarrow> features_for \<Rightarrow> bool" where
  "pkg_closed E st p fk \<longleftrightarrow>
     (\<forall>dp dep dfk. dep_edge E p fk dp dep dfk \<longrightarrow> \<not> dep_optional dep \<longrightarrow> edge_done E st dp dep dfk)"

definition grows :: "('p, 'b, 's) fenv \<Rightarrow> ('p, 'b, 's) features_state \<Rightarrow> ('p, 'b, 's) features_state \<Rightarrow> bool" where
  "grows E st st' \<longleftrightarrow>
     (\<forall>p fk. feats st p fk \<subseteq> feats st' p fk) \<and> (\<forall>p fk. deps_on st p fk \<subseteq> deps_on st' p fk) \<and>
     fs_processed st \<subseteq> fs_processed st' \<and> dom (map_of (fs_features st)) \<subseteq> dom (map_of (fs_features st')) \<and>
     (\<forall>p fk d f. f \<in> set (deferred_for st (p, fk, d)) \<longrightarrow>
        f \<in> set (deferred_for st' (p, fk, d)) \<or>
        d \<in> deps_on st' p fk \<and>
        (\<forall>dp dep dfk. dep_edge E p fk dp dep dfk \<longrightarrow> name_in_toml dep = d \<longrightarrow> f \<in> feats st' dp dfk))"

definition progress :: "('p, 'b, 's) fenv \<Rightarrow> ('p, 'b, 's) features_state \<Rightarrow> ('p, 'b, 's) features_state \<Rightarrow> bool" where
  "progress E st st' \<longleftrightarrow> grows E st st' \<and>
     (\<forall>p fk f. f \<in> feats st' p fk \<longrightarrow> f \<notin> feats st p fk \<longrightarrow> feature_closed E st' p fk f) \<and>
     (\<forall>p fk d. d \<in> deps_on st' p fk \<longrightarrow> d \<notin> deps_on st p fk \<longrightarrow> dep_closed E st' p fk d) \<and>
     (\<forall>p fk. (p, fk) \<in> fs_processed st' \<longrightarrow> (p, fk) \<notin> fs_processed st \<longrightarrow> pkg_closed E st' p fk)"

lemma grows_feats: "grows E st st' \<Longrightarrow> f \<in> feats st p fk \<Longrightarrow> f \<in> feats st' p fk"
  and grows_enabled: "grows E st st' \<Longrightarrow> d \<in> deps_on st p fk \<Longrightarrow> d \<in> deps_on st' p fk"
  and grows_processed: "grows E st st' \<Longrightarrow> k \<in> fs_processed st \<Longrightarrow> k \<in> fs_processed st'"
  and grows_dom: "grows E st st' \<Longrightarrow> k \<in> dom (map_of (fs_features st)) \<Longrightarrow> k \<in> dom (map_of (fs_features st'))"
  unfolding grows_def by blast+

lemma grows_deferred:
  "grows E st st' \<Longrightarrow> f \<in> set (deferred_for st (p, fk, d)) \<Longrightarrow>
   f \<in> set (deferred_for st' (p, fk, d)) \<or>
   d \<in> deps_on st' p fk \<and> (\<forall>dp dep dfk. dep_edge E p fk dp dep dfk \<longrightarrow> name_in_toml dep = d \<longrightarrow> f \<in> feats st' dp dfk)"
  unfolding grows_def by blast

lemma dep_feature_done_grows:
  assumes "grows E st st'" "dep_edge E p fk dp dep dfk" "name_in_toml dep = d" "dep_feature_done E st p fk d f w dp dep dfk"
  shows "dep_feature_done E st' p fk d f w dp dep dfk"
proof -
  from assms(4) consider "dep_optional dep" "w" "f \<in> set (deferred_for st (p, fk, d))"
    | "dep_optional dep \<longrightarrow> d \<in> deps_on st p fk \<and> (\<not> w \<longrightarrow> (\<exists>fvs. table_has E p d fvs) \<longrightarrow> d \<in> feats st p fk)"
      "f \<in> feats st dp dfk"
    by (auto simp: dep_feature_done_def)
  then show ?thesis
  proof cases
    case 1
    then show ?thesis using grows_deferred [OF assms(1) 1(3)] assms(2,3) by (auto simp: dep_feature_done_def)
  next
    case 2
    then show ?thesis unfolding dep_feature_done_def
      using grows_feats [OF assms(1)] grows_enabled [OF assms(1)] by blast
  qed
qed

lemma has_fv_grows: "grows E st st' \<Longrightarrow> has_fv E st p fk fv \<Longrightarrow> has_fv E st' p fk fv"
  by (cases fv) (auto intro: grows_feats grows_enabled dep_feature_done_grows)

lemma edge_done_grows: "grows E st st' \<Longrightarrow> edge_done E st dp dep dfk \<Longrightarrow> edge_done E st' dp dep dfk"
  by (auto simp: edge_done_def intro: grows_processed has_fv_grows)

lemma closed_grows:
  assumes "grows E st st'"
  shows "feature_closed E st p fk f \<Longrightarrow> feature_closed E st' p fk f"
    "dep_closed E st p fk d \<Longrightarrow> dep_closed E st' p fk d" "pkg_closed E st p fk \<Longrightarrow> pkg_closed E st' p fk"
  unfolding feature_closed_def dep_closed_def pkg_closed_def
  using has_fv_grows [OF assms] edge_done_grows [OF assms] by blast+

lemma grows_refl: "grows E st st"
  by (simp add: grows_def)

lemma grows_trans:
  assumes "grows E a b" "grows E b c"
  shows "grows E a c"
proof -
  have "f \<in> set (deferred_for c (p, fk, d)) \<or>
     d \<in> deps_on c p fk \<and> (\<forall>dp dep dfk. dep_edge E p fk dp dep dfk \<longrightarrow> name_in_toml dep = d \<longrightarrow> f \<in> feats c dp dfk)"
    if f: "f \<in> set (deferred_for a (p, fk, d))" for p fk d f
    using grows_deferred [OF assms(1) f] grows_deferred [OF assms(2)] grows_feats [OF assms(2)] grows_enabled [OF assms(2)]
    by blast
  moreover have "feats a p fk \<subseteq> feats c p fk" "deps_on a p fk \<subseteq> deps_on c p fk" for p fk
    using grows_feats [OF assms(1)] grows_feats [OF assms(2)] grows_enabled [OF assms(1)] grows_enabled [OF assms(2)]
    by blast+
  moreover have "fs_processed a \<subseteq> fs_processed c" "dom (map_of (fs_features a)) \<subseteq> dom (map_of (fs_features c))"
    using grows_processed [OF assms(1)] grows_processed [OF assms(2)] grows_dom [OF assms(1)] grows_dom [OF assms(2)]
    by blast+
  ultimately show ?thesis unfolding grows_def by blast
qed

lemma progress_grows: "progress E st st' \<Longrightarrow> grows E st st'"
  by (simp add: progress_def)

lemma progress_refl: "progress E st st"
  by (simp add: progress_def grows_refl)

lemma progress_trans:
  assumes "progress E a b" "progress E b c"
  shows "progress E a c"
proof -
  have g: "grows E a b" "grows E b c" using assms by (simp_all add: progress_def)
  show ?thesis unfolding progress_def
  proof (intro conjI allI impI)
    show "grows E a c" by (rule grows_trans [OF g])
    show "feature_closed E c p fk f" if "f \<in> feats c p fk" "f \<notin> feats a p fk" for p fk f
      using assms that closed_grows(1) [OF g(2), of p fk f] unfolding progress_def by blast
    show "dep_closed E c p fk d" if "d \<in> deps_on c p fk" "d \<notin> deps_on a p fk" for p fk d
      using assms that closed_grows(2) [OF g(2), of p fk d] unfolding progress_def by blast
    show "pkg_closed E c p fk" if "(p, fk) \<in> fs_processed c" "(p, fk) \<notin> fs_processed a" for p fk
      using assms that closed_grows(3) [OF g(2), of p fk] unfolding progress_def by blast
  qed
qed

subsection \<open>The invariant, the measure and what a call promises\<close>

definition only_wanted ::
  "('p, 'b, 's) fenv \<Rightarrow> (('p, 'b, 's) package_id \<times> cli_features) list \<Rightarrow> ('p, 'b, 's) features_state \<Rightarrow> bool" where
  "only_wanted E ms st \<longleftrightarrow>
     hm_wf (fs_features st) \<and>
     (\<forall>p fk f. f \<in> feats st p fk \<longrightarrow> wanted_fv E ms p fk (Feature f)) \<and>
     (\<forall>p fk d. d \<in> deps_on st p fk \<longrightarrow> wanted_fv E ms p fk (Dep d)) \<and>
     (\<forall>p fk. (p, fk) \<in> fs_processed st \<longrightarrow> (p, fk) \<in> dom (map_of (fs_features st))) \<and>
     (\<forall>p fk. (p, fk) \<in> dom (map_of (fs_features st)) \<longrightarrow> wanted_pkg E ms p fk) \<and>
     (\<forall>p fk d f. f \<in> set (deferred_for st (p, fk, d)) \<longrightarrow>
        wanted_fv E ms p fk (DepFeature d f True) \<and> d \<notin> deps_on st p fk)"

definition missing ::
  "('p, 'b, 's) fenv \<Rightarrow> (('p, 'b, 's) package_id \<times> cli_features) list \<Rightarrow> ('p, 'b, 's) features_state \<Rightarrow> nat" where
  "missing E ms st =
     card {(p, fk, f). wanted_fv E ms p fk (Feature f) \<and> f \<notin> feats st p fk} +
     card {(p, fk). wanted_pkg E ms p fk \<and> (p, fk) \<notin> fs_processed st}"

fun call_asked :: "('p, 'b, 's) fenv \<Rightarrow> (('p, 'b, 's) package_id \<times> cli_features) list \<Rightarrow> ('p, 'b, 's) activation \<Rightarrow> bool" where
  "call_asked E ms (ActPkg p fk fvs) \<longleftrightarrow> wanted_pkg E ms p fk \<and> (\<forall>fv \<in> set fvs. wanted_fv E ms p fk fv)"
| "call_asked E ms (ActFv p fk fv) \<longleftrightarrow> wanted_fv E ms p fk fv"
| "call_asked E ms (ActRec p fk f) \<longleftrightarrow> wanted_fv E ms p fk (Feature f)"
| "call_asked E ms (ActDependency p fk d) \<longleftrightarrow> wanted_fv E ms p fk (Dep d)"
| "call_asked E ms (ActDepFeature p fk d f w) \<longleftrightarrow> wanted_fv E ms p fk (DepFeature d f w)"

fun call_answered :: "('p, 'b, 's) fenv \<Rightarrow> ('p, 'b, 's) activation \<Rightarrow> ('p, 'b, 's) features_state \<Rightarrow> bool" where
  "call_answered E (ActPkg p fk fvs) st \<longleftrightarrow> (p, fk) \<in> fs_processed st \<and> (\<forall>fv \<in> set fvs. has_fv E st p fk fv)"
| "call_answered E (ActFv p fk fv) st \<longleftrightarrow> has_fv E st p fk fv"
| "call_answered E (ActRec p fk f) st \<longleftrightarrow> f \<in> feats st p fk"
| "call_answered E (ActDependency p fk d) st \<longleftrightarrow> d \<in> deps_on st p fk"
| "call_answered E (ActDepFeature p fk d f w) st \<longleftrightarrow> has_fv E st p fk (DepFeature d f w)"

text \<open>
  How much depth a call needs beyond the measure. A call for a plain feature needs the least: it
  stops at once unless the feature is new, and then the measure drops.
\<close>

fun is_feature :: "feature_value \<Rightarrow> bool" where
  "is_feature (Feature f) = True"
| "is_feature _ = False"

fun rank :: "('p, 'b, 's) activation \<Rightarrow> nat" where
  "rank (ActRec p fk f) = 1"
| "rank (ActFv p fk fv) = (case fv of Feature f \<Rightarrow> 2 | Dep d \<Rightarrow> 5 | DepFeature d f w \<Rightarrow> 7)"
| "rank (ActPkg p fk fvs) = (if list_all is_feature fvs then 3 else 8)"
| "rank (ActDependency p fk d) = 4"
| "rank (ActDepFeature p fk d f w) = 6"

lemma rank_pos: "rank c \<noteq> 0"
  by (cases c) (auto split: feature_value.splits)

definition call_ok ::
  "('p, 'b, 's) fenv \<Rightarrow> (('p, 'b, 's) package_id \<times> cli_features) list \<Rightarrow> ('p, 'b, 's) activation \<Rightarrow>
   ('p, 'b, 's) features_state \<Rightarrow> (features_error, ('p, 'b, 's) features_state) outcome \<Rightarrow> bool" where
  "call_ok E ms c st r \<longleftrightarrow> owp False r (\<lambda>st'. progress E st st' \<and> only_wanted E ms st' \<and> call_answered E c st') (target_error E)"

definition calls_ok ::
  "('p, 'b, 's) fenv \<Rightarrow> (('p, 'b, 's) package_id \<times> cli_features) list \<Rightarrow> nat \<Rightarrow> ('p, 'b, 's) activator \<Rightarrow> bool" where
  "calls_ok E ms n go \<longleftrightarrow>
     (\<forall>c st. call_asked E ms c \<longrightarrow> only_wanted E ms st \<longrightarrow> 7 * missing E ms st + rank c \<le> n \<longrightarrow> call_ok E ms c st (go c st))"

lemma finite_wanted_features:
  assumes "features_checked E ms"
  shows "finite {(p, fk, f). wanted_fv E ms p fk (Feature f)}" (is "finite ?A")
proof (rule finite_imageD)
  have "(\<lambda>(p, fk, f). (p, fk, Feature f)) ` ?A \<subseteq> {(p, fk, fv). wanted_fv E ms p fk fv}" by auto
  then show "finite ((\<lambda>(p, fk, f). (p, fk, Feature f)) ` ?A)"
    by (rule finite_subset) (rule finite_wanted(2) [OF assms])
  show "inj_on (\<lambda>(p, fk, f). (p, fk, Feature f)) ?A" by (auto simp: inj_on_def)
qed

lemma missing_grows:
  assumes "features_checked E ms" "grows E st st'"
  shows "missing E ms st' \<le> missing E ms st"
proof -
  have f: "finite {(p, fk, f). wanted_fv E ms p fk (Feature f) \<and> f \<notin> feats st p fk}"
    by (rule finite_subset [OF _ finite_wanted_features [OF assms(1)]]) auto
  have "finite {(p, fk). wanted_pkg E ms p fk \<and> (p, fk) \<notin> fs_processed st}"
    by (rule finite_subset [OF _ finite_wanted(1) [OF assms(1)]]) auto
  with f show ?thesis unfolding missing_def
    by (intro add_mono card_mono) (auto intro: grows_feats [OF assms(2)] grows_processed [OF assms(2)])
qed

subsection \<open>Loops over calls that make progress\<close>

locale growing_state =
  fixes le :: "'s \<Rightarrow> 's \<Rightarrow> bool" and inv :: "'s \<Rightarrow> bool"
  assumes le_refl: "le s s" and le_trans: "le s t \<Longrightarrow> le t u \<Longrightarrow> le s u"
begin

lemma loop:
  assumes "inv s"
    and "\<And>x t. x \<in> set xs \<Longrightarrow> le s t \<Longrightarrow> inv t \<Longrightarrow> owp q (f x t) (\<lambda>t'. le t t' \<and> inv t' \<and> D x t') Er"
    and "\<And>x t t'. x \<in> set xs \<Longrightarrow> le t t' \<Longrightarrow> D x t \<Longrightarrow> D x t'"
  shows "owp q (ofold f xs s) (\<lambda>t. le s t \<and> inv t \<and> (\<forall>x \<in> set xs. D x t)) Er"
  using assms
proof (induction xs arbitrary: s)
  case Nil
  then show ?case by (simp add: le_refl)
next
  case (Cons x xs)
  have "owp q (f x s) (\<lambda>t. owp q (ofold f xs t) (\<lambda>u. le s u \<and> inv u \<and> (\<forall>y \<in> set (x # xs). D y u)) Er) Er"
  proof (rule owp_mono [OF Cons.prems(2)])
    fix t assume t: "le s t \<and> inv t \<and> D x t"
    have "owp q (ofold f xs t) (\<lambda>u. le t u \<and> inv u \<and> (\<forall>y \<in> set xs. D y u)) Er"
      by (rule Cons.IH) (use t Cons.prems le_trans in \<open>auto\<close>)
    then show "owp q (ofold f xs t) (\<lambda>u. le s u \<and> inv u \<and> (\<forall>y \<in> set (x # xs). D y u)) Er"
      by (rule owp_mono) (use t Cons.prems(3) le_trans in \<open>auto\<close>)
  qed (use Cons.prems in \<open>auto simp: le_refl\<close>)
  then show ?case by (simp add: owp_bind)
qed

lemma after:
  assumes "owp q r (\<lambda>t. le s t \<and> inv t \<and> A t) Er"
    and "\<And>t. le s t \<Longrightarrow> inv t \<Longrightarrow> A t \<Longrightarrow> owp q (f t) (\<lambda>u. le t u \<and> inv u \<and> B u) Er"
  shows "owp q (obind r f) (\<lambda>u. le s u \<and> inv u \<and> B u) Er"
proof (rule owp_bind, rule owp_mono [OF assms(1)])
  fix t assume t: "le s t \<and> inv t \<and> A t"
  then have "owp q (f t) (\<lambda>u. le t u \<and> inv u \<and> B u) Er" using assms(2) by blast
  then show "owp q (f t) (\<lambda>u. le s u \<and> inv u \<and> B u) Er"
    by (rule owp_mono) (use t le_trans in blast)+
qed

end

interpretation fl: growing_state "progress E" "only_wanted E ms" for E ms
  by unfold_locales (rule progress_refl, rule progress_trans)

lemma call:
  assumes "calls_ok E ms n go" "call_asked E ms c" "only_wanted E ms st" "7 * missing E ms st + rank c \<le> n"
  shows "owp False (go c st) (\<lambda>st'. progress E st st' \<and> only_wanted E ms st' \<and> call_answered E c st') (target_error E)"
  using assms by (auto simp: calls_ok_def call_ok_def)

lemma missing_progress: "features_checked E ms \<Longrightarrow> progress E s t \<Longrightarrow> missing E ms t \<le> missing E ms s"
  by (rule missing_grows) (simp_all add: progress_grows)

lemma loop_fvs:
  assumes chk: "features_checked E ms" and go: "calls_ok E ms n go" and st: "only_wanted E ms st"
    and fvs: "\<forall>fv \<in> set fvs. wanted_fv E ms p fk fv \<and> rank (ActFv p fk fv) \<le> r" and n: "7 * missing E ms st + r \<le> n"
  shows "owp False (ofold (\<lambda>fv. go (ActFv p fk fv)) fvs st)
    (\<lambda>t. progress E st t \<and> only_wanted E ms t \<and> (\<forall>fv \<in> set fvs. has_fv E t p fk fv)) (target_error E)"
proof (rule fl.loop [OF st])
  fix fv t assume *: "fv \<in> set fvs" "progress E st t" "only_wanted E ms t"
  have "7 * missing E ms t + rank (ActFv p fk fv) \<le> n"
    using missing_progress [OF chk *(2)] bspec [OF fvs *(1)] n by linarith
  then show "owp False (go (ActFv p fk fv) t) (\<lambda>t'. progress E t t' \<and> only_wanted E ms t' \<and> has_fv E t' p fk fv) (target_error E)"
    using call [OF go, of "ActFv p fk fv" t] fvs * by (simp del: rank.simps)
next
  show "has_fv E t' p fk fv" if "progress E t t'" "has_fv E t p fk fv" for fv t t'
    using that by (blast intro: has_fv_grows progress_grows)
qed

lemma enter_edge:
  assumes chk: "features_checked E ms" and go: "calls_ok E ms n go" and st: "only_wanted E ms st"
    and w: "wanted_edge E ms dp dep dfk" and n: "7 * missing E ms st + 3 \<le> n"
  shows "owp False (obind (fvs_from_dependency E dp dep) (\<lambda>fvs. go (ActPkg dp dfk fvs) st))
    (\<lambda>t. progress E st t \<and> only_wanted E ms t \<and> edge_done E t dp dep dfk) (target_error E)"
proof -
  from wanted_facts(3) [OF chk w] obtain fm where "feature_table E dp = Ok fm" and g: "(dp, dep) \<in> graph_deps E" by blast
  then obtain fvs where fvs: "fvs_from_dependency E dp dep = Ok fvs" by (simp add: fvs_from_dependency_def)
  then have iff: "dep_fv E dp dep fv \<longleftrightarrow> fv \<in> set fvs" for fv by (simp add: dep_fv_def)
  then have "is_feature fv" if "fv \<in> set fvs" for fv
    using that by (metis dep_fv_plain [OF chk g] is_feature.simps(1))
  then have "rank (ActPkg dp dfk fvs) = 3" by (simp add: list_all_iff)
  moreover have "call_asked E ms (ActPkg dp dfk fvs)" using w iff by (auto intro: wanted_intros)
  ultimately have "owp False (go (ActPkg dp dfk fvs) st)
      (\<lambda>t. progress E st t \<and> only_wanted E ms t \<and> call_answered E (ActPkg dp dfk fvs) t) (target_error E)"
    using call [OF go _ st, of "ActPkg dp dfk fvs"] n by simp
  then show ?thesis using fvs by (simp add: edge_done_def iff Ball_def)
qed

text \<open>A state that a method itself has stepped to: what that step added is closed at the end.\<close>

lemma progress_late:
  assumes "progress E st1 t" and "grows E st t"
    and "\<And>p fk f. f \<in> feats st1 p fk \<Longrightarrow> f \<notin> feats st p fk \<Longrightarrow> feature_closed E t p fk f"
    and "\<And>p fk d. d \<in> deps_on st1 p fk \<Longrightarrow> d \<notin> deps_on st p fk \<Longrightarrow> dep_closed E t p fk d"
    and "\<And>p fk. (p, fk) \<in> fs_processed st1 \<Longrightarrow> (p, fk) \<notin> fs_processed st \<Longrightarrow> pkg_closed E t p fk"
  shows "progress E st t"
  unfolding progress_def using assms unfolding progress_def by blast

subsection \<open>The five methods\<close>

lemma activate_fv_ok:
  assumes "calls_ok E ms n go" "call_asked E ms (ActFv p fk fv)" "only_wanted E ms st"
    "7 * missing E ms st + rank (ActFv p fk fv) \<le> Suc n"
  shows "call_ok E ms (ActFv p fk fv) st (activate_fv go p fk fv st)"
proof (cases fv)
  case (Feature f)
  then show ?thesis using call [OF assms(1), of "ActRec p fk f" st] assms by (simp add: call_ok_def activate_fv_def)
next
  case (Dep d)
  then show ?thesis using call [OF assms(1), of "ActDependency p fk d" st] assms by (simp add: call_ok_def activate_fv_def)
next
  case (DepFeature d f w)
  then show ?thesis using call [OF assms(1), of "ActDepFeature p fk d f w" st] assms by (simp add: call_ok_def activate_fv_def)
qed

lemma add_feature_grows: "grows E st (add_feature k f st)"
  by (auto simp: grows_def)

lemma add_feature_wanted:
  assumes "features_checked E ms" "only_wanted E ms st" "wanted_fv E ms p fk (Feature f)"
  shows "only_wanted E ms (add_feature (p, fk) f st)"
  using assms(2,3) wanted_facts(2) [OF assms(1,3)] features_wf(2) unfolding only_wanted_def by auto

lemma add_feature_missing:
  assumes "features_checked E ms" "wanted_fv E ms p fk (Feature f)" "f \<notin> feats st p fk"
  shows "missing E ms (add_feature (p, fk) f st) < missing E ms st"
proof -
  let ?A = "{(p, fk, f). wanted_fv E ms p fk (Feature f) \<and> f \<notin> feats st p fk}"
  let ?B = "{(q, fk', g). wanted_fv E ms q fk' (Feature g) \<and> g \<notin> feats (add_feature (p, fk) f st) q fk'}"
  have "finite ?A" by (rule finite_subset [OF _ finite_wanted_features [OF assms(1)]]) auto
  moreover have "?B \<subset> ?A"
  proof (rule psubsetI)
    show "?B \<subseteq> ?A" by (auto split: if_splits)
    have "(p, fk, f) \<in> ?A" "(p, fk, f) \<notin> ?B" using assms(2,3) by auto
    then show "?B \<noteq> ?A" by blast
  qed
  ultimately have "card ?B < card ?A" by (rule psubset_card_mono)
  then show ?thesis by (simp add: missing_def)
qed

lemma activate_rec_ok:
  assumes chk: "features_checked E ms" and go: "calls_ok E ms n go" and ask: "call_asked E ms (ActRec p fk f)"
    and st: "only_wanted E ms st" and n: "7 * missing E ms st + rank (ActRec p fk f) \<le> Suc n"
  shows "call_ok E ms (ActRec p fk f) st (activate_rec go E p fk f st)"
proof (cases "f \<in> feats st p fk")
  case True
  then show ?thesis using ask st wanted_facts(2) [OF chk, of p fk "Feature f"]
    by (simp add: call_ok_def activate_rec_def progress_refl Let_def)
next
  case False
  have w: "wanted_fv E ms p fk (Feature f)" using ask by simp
  have fk: "apply_opts (fe_opts E) fk = fk" using wanted_facts(2) [OF chk w] by simp
  from wanted_facts [OF chk] w obtain fm where fm: "feature_table E p = Ok fm" by blast
  let ?st = "add_feature (p, fk) f st"
  have late: "progress E st t" if "progress E ?st t" "feature_closed E t p fk f" for t
    by (rule progress_late [OF that(1)])
      (use that grows_trans [OF add_feature_grows progress_grows [OF that(1)]] in \<open>auto split: if_splits\<close>)
  show ?thesis
  proof (cases "map_of fm f")
    case None
    then have "feature_closed E ?st p fk f" by (simp add: feature_closed_def table_has_def fm)
    then show ?thesis
      using False fk fm None late [OF progress_refl] add_feature_wanted [OF chk st w]
      by (simp add: call_ok_def activate_rec_def Let_def)
  next
    case (Some fvs)
    then have tab: "table_has E p f fvs' \<longleftrightarrow> fvs' = fvs" for fvs' by (auto simp: table_has_def fm)
    have "owp False (ofold (\<lambda>fv. go (ActFv p fk fv)) fvs ?st)
       (\<lambda>t. progress E ?st t \<and> only_wanted E ms t \<and> (\<forall>fv \<in> set fvs. has_fv E t p fk fv)) (target_error E)"
    proof (rule loop_fvs [where r = 7, OF chk go add_feature_wanted [OF chk st w]])
      show "\<forall>fv \<in> set fvs. wanted_fv E ms p fk fv \<and> rank (ActFv p fk fv) \<le> 7"
        using w tab by (auto intro: wanted_intros split: feature_value.splits)
      show "7 * missing E ms ?st + 7 \<le> n" using add_feature_missing [OF chk w False] n by simp
    qed
    then have "owp False (ofold (\<lambda>fv. go (ActFv p fk fv)) fvs ?st)
       (\<lambda>t. progress E st t \<and> only_wanted E ms t \<and> f \<in> feats t p fk) (target_error E)"
    proof (rule owp_mono)
      fix t assume t: "progress E ?st t \<and> only_wanted E ms t \<and> (\<forall>fv \<in> set fvs. has_fv E t p fk fv)"
      then have "feature_closed E t p fk f" by (simp add: feature_closed_def tab)
      moreover have "f \<in> feats t p fk" by (rule grows_feats [of E ?st]) (use t in \<open>simp_all add: progress_grows\<close>)
      ultimately show "progress E st t \<and> only_wanted E ms t \<and> f \<in> feats t p fk" using t late by blast
    qed
    then show ?thesis using False fk fm Some by (simp add: call_ok_def activate_rec_def Let_def)
  qed
qed

lemma feature_deps_bind:
  assumes "\<And>ds. feature_deps E p fk = Ok ds \<Longrightarrow> owp False (f ds) Q (target_error E)"
  shows "owp False (obind (feature_deps E p fk) f) Q (target_error E)"
  using feature_deps_owp [of E p fk] assms by (cases "feature_deps E p fk") simp_all

text \<open>One dependency of the loop in \<open>activate_dependency\<close>: its deferred features, then the package.\<close>

lemma dependency_step:
  assumes chk: "features_checked E ms" and go: "calls_ok E ms n go" and w: "wanted_fv E ms p fk (Dep d)"
    and e: "dep_edge E p fk dp dep dfk" and d: "name_in_toml dep = d"
    and late: "\<forall>f \<in> set fs. wanted_fv E ms p fk (DepFeature d f True)"
    and t: "only_wanted E ms t" and n: "7 * missing E ms t + 3 \<le> n"
  shows "owp False (obind (ofold (\<lambda>f. go (ActFv dp dfk (fv_new f))) fs t) (\<lambda>st.
       obind (fvs_from_dependency E dp dep) (\<lambda>fvs. go (ActPkg dp dfk fvs) st)))
     (\<lambda>t'. progress E t t' \<and> only_wanted E ms t' \<and> edge_done E t' dp dep dfk \<and> (\<forall>f \<in> set fs. f \<in> feats t' dp dfk))
     (target_error E)"
proof (rule fl.after)
  show "owp False (ofold (\<lambda>f. go (ActFv dp dfk (fv_new f))) fs t)
      (\<lambda>t'. progress E t t' \<and> only_wanted E ms t' \<and> (\<forall>f \<in> set fs. f \<in> feats t' dp dfk)) (target_error E)"
  proof (rule fl.loop [OF t])
    fix f u assume f: "f \<in> set fs" "progress E t u" "only_wanted E ms u"
    have "call_asked E ms (ActFv dp dfk (fv_new f))"
      using w late f(1) e d by (auto intro: wanted_intros)
    moreover have "fv_new f = Feature f"
      using wanted_facts(2) [OF chk] late f(1) by (fastforce simp: plain_def)
    ultimately show "owp False (go (ActFv dp dfk (fv_new f)) u)
        (\<lambda>t'. progress E u t' \<and> only_wanted E ms t' \<and> f \<in> feats t' dp dfk) (target_error E)"
      using call [OF go _ f(3), of "ActFv dp dfk (fv_new f)"] missing_progress [OF chk f(2)] n by simp
  qed (blast intro: grows_feats progress_grows)
next
  fix u assume u: "progress E t u" "only_wanted E ms u" "\<forall>f \<in> set fs. f \<in> feats u dp dfk"
  have we: "wanted_edge E ms dp dep dfk" using w e d by (auto intro: wanted_intros)
  show "owp False (obind (fvs_from_dependency E dp dep) (\<lambda>fvs. go (ActPkg dp dfk fvs) u))
      (\<lambda>t'. progress E u t' \<and> only_wanted E ms t' \<and> edge_done E t' dp dep dfk \<and> (\<forall>f \<in> set fs. f \<in> feats t' dp dfk))
      (target_error E)"
    by (rule owp_mono [OF enter_edge [OF chk go u(2) we]])
      (use missing_progress [OF chk u(1)] n u(3) in \<open>auto intro: grows_feats progress_grows\<close>)
qed

text \<open>After the loop the dependency is closed and its deferred features are all enabled.\<close>

lemma dependency_progress:
  assumes t: "progress E (take_deferred (p, fk, d) (add_dependency (p, fk) d st)) t" (is "progress E ?st1 t")
    and edges: "\<And>dp dep dfk. dep_edge E p fk dp dep dfk \<Longrightarrow> name_in_toml dep = d \<Longrightarrow>
      edge_done E t dp dep dfk \<and> (\<forall>f \<in> set (deferred_for st (p, fk, d)). f \<in> feats t dp dfk)"
  shows "progress E st t" "d \<in> deps_on t p fk"
proof -
  have g: "grows E ?st1 t" using t by (rule progress_grows)
  show d: "d \<in> deps_on t p fk" by (rule grows_enabled [OF g]) simp
  have "grows E st t" unfolding grows_def
  proof (intro conjI allI impI subsetI)
    fix p' fk' d' f assume f: "f \<in> set (deferred_for st (p', fk', d'))"
    show "f \<in> set (deferred_for t (p', fk', d')) \<or> d' \<in> deps_on t p' fk' \<and>
      (\<forall>dp dep dfk. dep_edge E p' fk' dp dep dfk \<longrightarrow> name_in_toml dep = d' \<longrightarrow> f \<in> feats t dp dfk)"
    proof (cases "(p', fk', d') = (p, fk, d)")
      case True
      then show ?thesis using f d edges by auto
    next
      case False
      then have "f \<in> set (deferred_for ?st1 (p', fk', d'))" using f by auto
      then show ?thesis by (rule grows_deferred [OF g])
    qed
  next
    show "d' \<in> deps_on t p' fk'" if "d' \<in> deps_on st p' fk'" for p' fk' d'
      by (rule grows_enabled [OF g]) (use that in auto)
  qed (use grows_feats [OF g] grows_processed [OF g] grows_dom [OF g] in \<open>auto simp del: domIff\<close>)
  then show "progress E st t"
    by (rule progress_late [OF t]) (use edges in \<open>auto simp: dep_closed_def split: if_splits\<close>)
qed

lemma activate_dependency_ok:
  assumes chk: "features_checked E ms" and go: "calls_ok E ms n go" and ask: "call_asked E ms (ActDependency p fk d)"
    and st: "only_wanted E ms st" and n: "7 * missing E ms st + rank (ActDependency p fk d) \<le> Suc n"
  shows "call_ok E ms (ActDependency p fk d) st (activate_dependency go E p fk d st)"
proof -
  have w: "wanted_fv E ms p fk (Dep d)" using ask by simp
  have fk: "apply_opts (fe_opts E) fk = fk" using wanted_facts(2) [OF chk w] by simp
  define fs where "fs = deferred_for st (p, fk, d)"
  define st1 where "st1 = take_deferred (p, fk, d) (add_dependency (p, fk) d st)"
  have st1: "only_wanted E ms st1" and late: "\<forall>f \<in> set fs. wanted_fv E ms p fk (DepFeature d f True)"
    using st w unfolding only_wanted_def st1_def fs_def by auto
  have m1: "missing E ms st1 = missing E ms st" by (simp add: missing_def st1_def)
  let ?D = "\<lambda>(dp, dep, dfk) t. name_in_toml dep = d \<longrightarrow> edge_done E t dp dep dfk \<and> (\<forall>f \<in> set fs. f \<in> feats t dp dfk)"
  let ?body = "\<lambda>(dp, dep, dfk) st. if name_in_toml dep \<noteq> d then Ok st
     else obind (ofold (\<lambda>f. go (ActFv dp dfk (fv_new f))) fs st) (\<lambda>st.
       obind (fvs_from_dependency E dp dep) (\<lambda>fvs. go (ActPkg dp dfk fvs) st))"
  have "owp False (obind (feature_deps E p fk) (\<lambda>ds. ofold ?body ds st1))
      (\<lambda>t. progress E st t \<and> only_wanted E ms t \<and> d \<in> deps_on t p fk) (target_error E)"
  proof (rule feature_deps_bind)
    fix ds assume ds: "feature_deps E p fk = Ok ds"
    have "owp False (ofold ?body ds st1) (\<lambda>t. progress E st1 t \<and> only_wanted E ms t \<and> (\<forall>x \<in> set ds. ?D x t)) (target_error E)"
    proof (rule fl.loop [OF st1])
      fix x t assume x: "x \<in> set ds" "progress E st1 t" "only_wanted E ms t"
      obtain dp dep dfk where xe: "x = (dp, dep, dfk)" by (cases x)
      have e: "dep_edge E p fk dp dep dfk" using ds x xe by (auto simp: dep_edge_def)
      have "7 * missing E ms t + 3 \<le> n" using missing_progress [OF chk x(2)] m1 n by simp
      then show "owp False (?body x t) (\<lambda>t'. progress E t t' \<and> only_wanted E ms t' \<and> ?D x t') (target_error E)"
        using dependency_step [OF chk go w e _ late x(3)] x(3) xe by (simp add: progress_refl)
    qed (auto intro: grows_feats edge_done_grows progress_grows)
    then show "owp False (ofold ?body ds st1) (\<lambda>t. progress E st t \<and> only_wanted E ms t \<and> d \<in> deps_on t p fk) (target_error E)"
    proof (rule owp_mono)
      fix t assume t: "progress E st1 t \<and> only_wanted E ms t \<and> (\<forall>x \<in> set ds. ?D x t)"
      then have "edge_done E t dp dep dfk \<and> (\<forall>f \<in> set (deferred_for st (p, fk, d)). f \<in> feats t dp dfk)"
        if "dep_edge E p fk dp dep dfk" "name_in_toml dep = d" for dp dep dfk
        using that ds by (auto simp: dep_edge_def fs_def)
      then show "progress E st t \<and> only_wanted E ms t \<and> d \<in> deps_on t p fk"
        using dependency_progress [of E p fk d st t] t by (simp add: st1_def)
    qed
  qed
  then show ?thesis
    unfolding fs_def st1_def by (simp add: call_ok_def activate_dependency_def fk Let_def)
qed

text \<open>One dependency of the loop in \<open>activate_dep_feature\<close>, when the feature is not deferred.\<close>

lemma dep_feature_step:
  assumes chk: "features_checked E ms" and go: "calls_ok E ms n go" and ask: "wanted_fv E ms p fk (DepFeature d f w)"
    and e: "dep_edge E p fk dp dep dfk" and d: "name_in_toml dep = d"
    and on: "dep_optional dep \<Longrightarrow> w \<Longrightarrow> wanted_fv E ms p fk (Dep d)"
    and t: "only_wanted E ms t" and n: "7 * missing E ms t + 5 \<le> n"
  shows "owp False
     (obind (if dep_optional dep then
               obind (go (ActFv p fk (Dep d)) t) (\<lambda>st.
                 if \<not> w then obind (feature_table E p) (\<lambda>fm. if map_of fm d \<noteq> None then go (ActRec p fk d) st else Ok st)
                 else Ok st)
             else Ok t)
       (\<lambda>st. go (ActFv dp dfk (fv_new f)) st))
     (\<lambda>t'. progress E t t' \<and> only_wanted E ms t' \<and> dep_feature_done E t' p fk d f w dp dep dfk) (target_error E)"
proof -
  let ?A = "\<lambda>u. dep_optional dep \<longrightarrow> d \<in> deps_on u p fk \<and> (\<not> w \<longrightarrow> (\<exists>fvs. table_has E p d fvs) \<longrightarrow> d \<in> feats u p fk)"
  have dep: "wanted_fv E ms p fk (Dep d)" if "dep_optional dep"
    using that on strong_dep [OF _ e d that] ask by (cases w) auto
  from wanted_facts [OF chk] ask obtain fm where fm: "feature_table E p = Ok fm" by blast
  have f: "fv_new f = Feature f" using wanted_facts(2) [OF chk ask] by (simp add: plain_def)
  have own: "owp False (if \<not> w then obind (feature_table E p) (\<lambda>fm. if map_of fm d \<noteq> None then go (ActRec p fk d) u else Ok u) else Ok u)
      (\<lambda>u'. progress E u u' \<and> only_wanted E ms u' \<and> ?A u') (target_error E)"
    if o: "dep_optional dep" and u: "progress E t u" "only_wanted E ms u" "d \<in> deps_on u p fk" for u
  proof (cases "\<not> w \<and> map_of fm d \<noteq> None")
    case True
    then have "call_asked E ms (ActRec p fk d)"
      using strong_feature [OF _ e d o] ask fm by (auto simp: table_has_def)
    then have "owp False (go (ActRec p fk d) u) (\<lambda>u'. progress E u u' \<and> only_wanted E ms u' \<and> d \<in> feats u' p fk) (target_error E)"
      using call [OF go _ u(2), of "ActRec p fk d"] missing_progress [OF chk u(1)] n by simp
    then have "owp False (go (ActRec p fk d) u) (\<lambda>u'. progress E u u' \<and> only_wanted E ms u' \<and> ?A u') (target_error E)"
      by (rule owp_mono) (use u(3) in \<open>auto intro: grows_enabled progress_grows\<close>)
    then show ?thesis using True fm by simp
  next
    case False
    then show ?thesis using u fm by (auto simp: progress_refl table_has_def)
  qed
  have "owp False (if dep_optional dep then
        obind (go (ActFv p fk (Dep d)) t) (\<lambda>st.
          if \<not> w then obind (feature_table E p) (\<lambda>fm. if map_of fm d \<noteq> None then go (ActRec p fk d) st else Ok st) else Ok st)
        else Ok t) (\<lambda>u. progress E t u \<and> only_wanted E ms u \<and> ?A u) (target_error E)"
  proof (cases "dep_optional dep")
    case True
    have "owp False (go (ActFv p fk (Dep d)) t) (\<lambda>u. progress E t u \<and> only_wanted E ms u \<and> d \<in> deps_on u p fk) (target_error E)"
      using call [OF go _ t, of "ActFv p fk (Dep d)"] dep [OF True] n by simp
    then show ?thesis unfolding if_P [OF True] by (rule fl.after) (rule own [OF True])
  qed (use t progress_refl in simp)
  then show ?thesis
  proof (rule fl.after)
    fix u assume u: "progress E t u" "only_wanted E ms u" "?A u"
    have "call_asked E ms (ActFv dp dfk (fv_new f))"
      using dep_feature_fv [OF ask e d] dep by auto
    then have "owp False (go (ActFv dp dfk (fv_new f)) u)
        (\<lambda>t'. progress E u t' \<and> only_wanted E ms t' \<and> f \<in> feats t' dp dfk) (target_error E)"
      using call [OF go _ u(2), of "ActFv dp dfk (fv_new f)"] missing_progress [OF chk u(1)] n f by simp
    then show "owp False (go (ActFv dp dfk (fv_new f)) u)
        (\<lambda>t'. progress E u t' \<and> only_wanted E ms t' \<and> dep_feature_done E t' p fk d f w dp dep dfk) (target_error E)"
      unfolding dep_feature_done_def
      by (rule owp_mono) (use u(3) in \<open>auto intro: grows_enabled grows_feats progress_grows\<close>)
  qed
qed

lemma defer_step:
  assumes "only_wanted E ms t" "wanted_fv E ms p fk (DepFeature d f True)" "d \<notin> deps_on t p fk"
  shows "progress E t (defer_feature (p, fk, d) f t)" "only_wanted E ms (defer_feature (p, fk, d) f t)"
proof -
  show "progress E t (defer_feature (p, fk, d) f t)" by (auto simp: progress_def grows_def)
  show "only_wanted E ms (defer_feature (p, fk, d) f t)"
    using assms unfolding only_wanted_def by auto
qed

lemma activate_dep_feature_ok:
  assumes chk: "features_checked E ms" and go: "calls_ok E ms n go" and ask: "call_asked E ms (ActDepFeature p fk d f w)"
    and st: "only_wanted E ms st" and n: "7 * missing E ms st + rank (ActDepFeature p fk d f w) \<le> Suc n"
  shows "call_ok E ms (ActDepFeature p fk d f w) st (activate_dep_feature go E p fk d f w st)"
proof -
  have w: "wanted_fv E ms p fk (DepFeature d f w)" using ask by simp
  have fk: "apply_opts (fe_opts E) fk = fk" using wanted_facts(2) [OF chk w] by simp
  let ?D = "\<lambda>(dp, dep, dfk) t. name_in_toml dep = d \<longrightarrow> dep_feature_done E t p fk d f w dp dep dfk"
  have "owp False (activate_dep_feature go E p fk d f w st)
      (\<lambda>t. progress E st t \<and> only_wanted E ms t \<and> has_fv E t p fk (DepFeature d f w)) (target_error E)"
    unfolding activate_dep_feature_def
  proof (rule feature_deps_bind, rule owp_mono, rule fl.loop [where D = ?D, OF st])
    fix ds x t assume ds: "feature_deps E p fk = Ok ds" and x: "x \<in> set ds" "progress E st t" "only_wanted E ms t"
    obtain dp dep dfk where xe: "x = (dp, dep, dfk)" by (cases x)
    have e: "dep_edge E p fk dp dep dfk" using ds x xe by (auto simp: dep_edge_def)
    have nt: "7 * missing E ms t + 5 \<le> n" using missing_progress [OF chk x(2)] n by simp
    consider "name_in_toml dep \<noteq> d" | "name_in_toml dep = d" "dep_optional dep \<and> w \<and> d \<notin> deps_on t p fk"
      | "name_in_toml dep = d" "\<not> (dep_optional dep \<and> w \<and> d \<notin> deps_on t p fk)" by blast
    then show "owp False ((\<lambda>(dep_pkg_id, dep, dep_fk) st.
           if name_in_toml dep \<noteq> d then Ok st
           else if dep_optional dep \<and> w \<and> d \<notin> am_get (fs_dependencies st) (p, apply_opts (fe_opts E) fk)
           then Ok (defer_feature (p, fk, d) f st)
           else
             obind (if dep_optional dep then
                      obind (go (ActFv p fk (Dep d)) st) (\<lambda>st.
                        if \<not> w then
                          obind (feature_table E p) (\<lambda>fm.
                            if map_of fm d \<noteq> None then go (ActRec p fk d) st else Ok st)
                        else Ok st)
                    else Ok st)
               (\<lambda>st. go (ActFv dep_pkg_id dep_fk (fv_new f)) st)) x t)
         (\<lambda>t'. progress E t t' \<and> only_wanted E ms t' \<and> ?D x t') (target_error E)"
    proof cases
      case 1
      then show ?thesis using x xe by (simp add: progress_refl)
    next
      case 2
      then show ?thesis using defer_step [OF x(3), of p fk d f] w xe fk by (simp add: dep_feature_done_def)
    next
      case 3
      then have on: "dep_optional dep \<Longrightarrow> w \<Longrightarrow> wanted_fv E ms p fk (Dep d)"
        using x(3) by (auto simp: only_wanted_def)
      show ?thesis unfolding xe prod.case fk if_not_P [OF 3(2)]
        using 3(1) dep_feature_step [OF chk go w e 3(1) on x(3) nt] by simp
    qed
  next
    show "?D x t'" if "x \<in> set ds" "progress E t t'" "?D x t" "feature_deps E p fk = Ok ds" for ds x t t'
      using that dep_feature_done_grows [OF progress_grows [OF that(2)]] by (auto simp: dep_edge_def)
  qed (auto simp: dep_edge_def)
  then show ?thesis by (simp add: call_ok_def)
qed

lemma process_missing:
  assumes "features_checked E ms" "wanted_pkg E ms p fk" "(p, fk) \<notin> fs_processed st"
  shows "missing E ms (st\<lparr>fs_processed := insert (p, fk) (fs_processed st)\<rparr>) < missing E ms st"
proof -
  let ?A = "{(p, fk). wanted_pkg E ms p fk \<and> (p, fk) \<notin> fs_processed st}"
  let ?B = "{(q, fk'). wanted_pkg E ms q fk' \<and> (q, fk') \<notin> insert (p, fk) (fs_processed st)}"
  have "finite ?A" by (rule finite_subset [OF _ finite_wanted(1) [OF assms(1)]]) auto
  moreover have "?B \<subset> ?A"
  proof (rule psubsetI)
    show "?B \<subseteq> ?A" by auto
    have "(p, fk) \<in> ?A" "(p, fk) \<notin> ?B" using assms(2,3) by auto
    then show "?B \<noteq> ?A" by blast
  qed
  ultimately have "card ?B < card ?A" by (rule psubset_card_mono)
  then show ?thesis by (simp add: missing_def)
qed

text \<open>The second half of \<open>activate_pkg\<close>: the dependencies that are not optional, once.\<close>

lemma process_deps:
  assumes chk: "features_checked E ms" and go: "calls_ok E ms n go" and w: "wanted_pkg E ms p fk"
    and t: "only_wanted E ms t" and dm: "(p, fk) \<in> dom (map_of (fs_features t))" and n: "7 * missing E ms t \<le> n"
  shows "owp False
     (if (p, fk) \<in> fs_processed t then Ok t
      else obind (feature_deps E p fk) (\<lambda>ds.
        ofold (\<lambda>(dp, dep, dfk) st. if dep_optional dep then Ok st
                 else obind (fvs_from_dependency E dp dep) (\<lambda>fvs. go (ActPkg dp dfk fvs) st))
          ds (t\<lparr>fs_processed := insert (p, fk) (fs_processed t)\<rparr>)))
     (\<lambda>u. progress E t u \<and> only_wanted E ms u \<and> (p, fk) \<in> fs_processed u) (target_error E)"
proof (cases "(p, fk) \<in> fs_processed t")
  case True
  then show ?thesis using t by (simp add: progress_refl)
next
  case False
  define t1 where "t1 = t\<lparr>fs_processed := insert (p, fk) (fs_processed t)\<rparr>"
  let ?D = "\<lambda>(dp, dep, dfk) u. \<not> dep_optional dep \<longrightarrow> edge_done E u dp dep dfk"
  let ?body = "\<lambda>(dp, dep, dfk) st. if dep_optional dep then Ok st
                 else obind (fvs_from_dependency E dp dep) (\<lambda>fvs. go (ActPkg dp dfk fvs) st)"
  have t1: "only_wanted E ms t1" using t w dm unfolding only_wanted_def t1_def by simp
  have m1: "7 * missing E ms t1 + 3 \<le> n" using process_missing [OF chk w False] n by (simp add: t1_def)
  have g1: "grows E t t1" by (auto simp: grows_def t1_def)
  have "owp False (obind (feature_deps E p fk) (\<lambda>ds. ofold ?body ds t1))
      (\<lambda>u. progress E t u \<and> only_wanted E ms u \<and> (p, fk) \<in> fs_processed u) (target_error E)"
  proof (rule feature_deps_bind)
    fix ds assume ds: "feature_deps E p fk = Ok ds"
    have "owp False (ofold ?body ds t1) (\<lambda>u. progress E t1 u \<and> only_wanted E ms u \<and> (\<forall>x \<in> set ds. ?D x u)) (target_error E)"
    proof (rule fl.loop [OF t1])
      fix x u assume x: "x \<in> set ds" "progress E t1 u" "only_wanted E ms u"
      obtain dp dep dfk where xe: "x = (dp, dep, dfk)" by (cases x)
      have e: "dep_edge E p fk dp dep dfk" using ds x xe by (auto simp: dep_edge_def)
      show "owp False (?body x u) (\<lambda>u'. progress E u u' \<and> only_wanted E ms u' \<and> ?D x u') (target_error E)"
        using enter_edge [OF chk go x(3) required_edge [OF w e]] missing_progress [OF chk x(2)] m1 x(3) xe
        by (simp add: progress_refl)
    qed (auto intro: edge_done_grows progress_grows)
    then show "owp False (ofold ?body ds t1) (\<lambda>u. progress E t u \<and> only_wanted E ms u \<and> (p, fk) \<in> fs_processed u) (target_error E)"
    proof (rule owp_mono)
      fix u assume u: "progress E t1 u \<and> only_wanted E ms u \<and> (\<forall>x \<in> set ds. ?D x u)"
      then have cl: "pkg_closed E u p fk" using ds by (auto simp: pkg_closed_def dep_edge_def)
      have g: "grows E t1 u" using u by (simp add: progress_grows)
      have "progress E t u"
        by (rule progress_late [of E t1]) (use u cl grows_trans [OF g1 g] in \<open>auto simp: t1_def\<close>)
      moreover have "(p, fk) \<in> fs_processed u" by (rule grows_processed [OF g]) (simp add: t1_def)
      ultimately show "progress E t u \<and> only_wanted E ms u \<and> (p, fk) \<in> fs_processed u" using u by blast
    qed
  qed
  then show ?thesis unfolding t1_def using False by simp
qed

lemma activate_pkg_ok:
  assumes chk: "features_checked E ms" and go: "calls_ok E ms n go" and ask: "call_asked E ms (ActPkg p fk fvs)"
    and st: "only_wanted E ms st" and n: "7 * missing E ms st + rank (ActPkg p fk fvs) \<le> Suc n"
  shows "call_ok E ms (ActPkg p fk fvs) st (activate_pkg go E p fk fvs st)"
proof -
  have w: "wanted_pkg E ms p fk" and fvs: "\<forall>fv \<in> set fvs. wanted_fv E ms p fk fv" using ask by simp_all
  have fk: "apply_opts (fe_opts E) fk = fk" using wanted_facts(1) [OF chk w] by simp
  let ?st = "touch_features (p, fk) st"
  define r where "r = (if list_all is_feature fvs then 2 else 7 :: nat)"
  have st1: "only_wanted E ms ?st" using st w features_wf(1) unfolding only_wanted_def by auto
  have p1: "progress E st ?st" by (auto simp: progress_def grows_def)
  have m1: "missing E ms ?st = missing E ms st" by (simp add: missing_def)
  have "owp False (ofold (\<lambda>fv. go (ActFv p fk fv)) fvs ?st)
     (\<lambda>t. progress E ?st t \<and> only_wanted E ms t \<and> (\<forall>fv \<in> set fvs. has_fv E t p fk fv)) (target_error E)"
  proof (rule loop_fvs [where r = r, OF chk go st1])
    have "rank (ActFv p fk fv) \<le> r" if "fv \<in> set fvs" for fv
      by (cases fv; use that in \<open>force simp: r_def list_all_iff\<close>)
    then show "\<forall>fv \<in> set fvs. wanted_fv E ms p fk fv \<and> rank (ActFv p fk fv) \<le> r" using fvs by blast
    show "7 * missing E ms ?st + r \<le> n" using n m1 by (simp add: r_def split: if_splits)
  qed
  then have "owp False (activate_pkg go E p fk fvs st)
     (\<lambda>u. progress E ?st u \<and> only_wanted E ms u \<and> (p, fk) \<in> fs_processed u \<and> (\<forall>fv \<in> set fvs. has_fv E u p fk fv))
     (target_error E)"
    unfolding activate_pkg_def fk
  proof (rule fl.after)
    fix t assume t: "progress E ?st t" "only_wanted E ms t" "\<forall>fv \<in> set fvs. has_fv E t p fk fv"
    have "(p, fk) \<in> dom (map_of (fs_features t))"
      by (rule grows_dom [OF progress_grows [OF t(1)]]) (simp del: domIff)
    moreover have "7 * missing E ms t \<le> n"
      using missing_progress [OF chk t(1)] m1 n by (simp split: if_splits)
    ultimately show "owp False
       (if (p, fk) \<in> fs_processed t then Ok t
        else obind (feature_deps E p fk) (\<lambda>ds.
          ofold (\<lambda>(dp, dep, dfk) st. if dep_optional dep then Ok st
                   else obind (fvs_from_dependency E dp dep) (\<lambda>fvs. go (ActPkg dp dfk fvs) st))
            ds (t\<lparr>fs_processed := insert (p, fk) (fs_processed t)\<rparr>)))
       (\<lambda>u. progress E t u \<and> only_wanted E ms u \<and> (p, fk) \<in> fs_processed u \<and> (\<forall>fv \<in> set fvs. has_fv E u p fk fv)) (target_error E)"
      by (intro owp_mono [OF process_deps [OF chk go w t(2)]])
        (use t(3) in \<open>auto intro: has_fv_grows progress_grows\<close>)
  qed
  then show ?thesis unfolding call_ok_def call_answered.simps
    by (rule owp_mono) (use p1 progress_trans in blast)+
qed

lemma activate_ok:
  assumes chk: "features_checked E ms"
  shows "calls_ok E ms n (activate n E)"
proof (induction n)
  case 0
  show ?case by (simp add: calls_ok_def rank_pos)
next
  case (Suc n)
  show ?case unfolding calls_ok_def
  proof (intro allI impI)
    fix c st assume *: "call_asked E ms c" "only_wanted E ms st" "7 * missing E ms st + rank c \<le> Suc n"
    show "call_ok E ms c st (activate (Suc n) E c st)"
    proof (cases c)
      case ActPkg
      then show ?thesis using activate_pkg_ok [OF chk Suc.IH] * by simp
    next
      case ActFv
      then show ?thesis using activate_fv_ok [OF Suc.IH] * by simp
    next
      case ActRec
      then show ?thesis using activate_rec_ok [OF chk Suc.IH] * by simp
    next
      case ActDependency
      then show ?thesis using activate_dependency_ok [OF chk Suc.IH] * by simp
    next
      case ActDepFeature
      then show ?thesis using activate_dep_feature_ok [OF chk Suc.IH] * by simp
    qed
  qed
qed

end
