(* ===== verification/FeatureResults.thy ===== *)
theory FeatureResults
  imports FeaturesExact
begin

section \<open>The result of the feature resolver\<close>

text \<open>
  The run over the workspace members, from the empty state: it ends with exactly the wanted
  packages, features and dependencies. Then the comparison with the result of the old behaviour,
  in which host and target share their features and no dependency is left out.
\<close>

subsection \<open>The whole run\<close>

definition enough_fuel :: "('p, 'b, 's) fenv \<Rightarrow> (('p, 'b, 's) package_id \<times> cli_features) list \<Rightarrow> nat" where
  "enough_fuel E ms = 7 * missing E ms fs_new + 8"

lemma fs_new_simps [simp]:
  "am_get [] k' = {}" "fs_dependencies fs_new = []" "fs_processed fs_new = {}" "deferred_for fs_new k = []"
  "fs_features fs_new = []"
  by (simp_all add: fs_new_def am_get_def deferred_for_def unwrap_or_def)

definition member_done ::
  "('p, 'b, 's) fenv \<Rightarrow> ('p, 'b, 's) package_id \<times> cli_features \<Rightarrow> ('p, 'b, 's) features_state \<Rightarrow> bool" where
  "member_done E m st \<longleftrightarrow>
     (\<forall>fk \<in> set (member_kinds E (fst m)). (fst m, fk) \<in> fs_processed st \<and>
        (\<forall>fvs. fvs_from_requested E (fst m) (snd m) = Ok fvs \<longrightarrow> (\<forall>fv \<in> set fvs. has_fv E st (fst m) fk fv)))"

lemma member_done_grows: "grows E st st' \<Longrightarrow> member_done E m st \<Longrightarrow> member_done E m st'"
  unfolding member_done_def using has_fv_grows grows_processed by blast

lemma activate_member_ok:
  assumes chk: "features_checked E ms" and m: "m \<in> set ms" and st: "only_wanted E ms st"
    and n: "7 * missing E ms st + 8 \<le> n"
  shows "owp False (activate_member n E m st) (\<lambda>t. progress E st t \<and> only_wanted E ms t \<and> member_done E m t) (target_error E)"
proof -
  obtain p cli where mp: "m = (p, cli)" by (cases m)
  have "map_of (rs_summaries (fe_resolve E)) p \<noteq> None"
    using chk m mp by (auto simp: features_checked_def list_all_iff)
  then obtain fvs where fvs: "fvs_from_requested E p cli = Ok fvs"
    by (auto simp: fvs_from_requested_def feature_table_def)
  have run: "owp False (activate n E (ActPkg p fk fvs) t)
      (\<lambda>u. progress E t u \<and> only_wanted E ms u \<and> (p, fk) \<in> fs_processed u \<and> (\<forall>fv \<in> set fvs. has_fv E u p fk fv)) (target_error E)"
    if "fk \<in> set (member_kinds E p)" "progress E st t" "only_wanted E ms t" for fk t
  proof -
    have "call_asked E ms (ActPkg p fk fvs)" using m mp fvs that(1) by (auto intro: wanted_intros)
    moreover have "7 * missing E ms t + rank (ActPkg p fk fvs) \<le> n" using missing_progress [OF chk that(2)] n by simp
    ultimately show ?thesis using call [OF activate_ok [OF chk] _ that(3), of "ActPkg p fk fvs" n] by simp
  qed
  show ?thesis
  proof (cases "track_for_host E \<and> fe_any_proc_macro E p")
    case True
    have "owp False (obind (activate n E (ActPkg p NormalOrDev fvs) st) (activate n E (ActPkg p HostDep fvs)))
        (\<lambda>t. progress E st t \<and> only_wanted E ms t \<and> member_done E m t) (target_error E)"
    proof (rule fl.after [OF run])
      fix t assume t: "progress E st t" "only_wanted E ms t"
        "(p, NormalOrDev) \<in> fs_processed t \<and> (\<forall>fv \<in> set fvs. has_fv E t p NormalOrDev fv)"
      show "owp False (activate n E (ActPkg p HostDep fvs) t) (\<lambda>u. progress E t u \<and> only_wanted E ms u \<and> member_done E m u) (target_error E)"
        by (rule owp_mono [OF run [of HostDep t]])
          (use True t mp fvs in \<open>auto simp: member_done_def member_kinds_def intro: has_fv_grows grows_processed progress_grows\<close>)
    qed (use True st progress_refl in \<open>auto simp: member_kinds_def\<close>)
    then show ?thesis using True mp fvs by (simp add: activate_member_def)
  next
    case False
    then have k: "member_kinds E p = [NormalOrDev]" by (auto simp: member_kinds_def)
    then have "owp False (activate n E (ActPkg p NormalOrDev fvs) st)
        (\<lambda>t. progress E st t \<and> only_wanted E ms t \<and> member_done E m t) (target_error E)"
      using run [of NormalOrDev st] st mp fvs by (simp add: member_done_def progress_refl)
    then show ?thesis using False mp fvs by (auto simp: activate_member_def)
  qed
qed

lemma do_resolve_ok:
  assumes chk: "features_checked E ms" and n: "enough_fuel E ms \<le> n"
  shows "owp False (do_resolve n E ms)
    (\<lambda>t. progress E fs_new t \<and> only_wanted E ms t \<and> (\<forall>m \<in> set ms. member_done E m t)) (target_error E)"
  unfolding do_resolve_def
proof (rule fl.loop)
  show "only_wanted E ms fs_new" by (simp add: only_wanted_def hm_wf_def)
  fix m t assume m: "m \<in> set ms" "progress E fs_new t" "only_wanted E ms t"
  show "owp False (activate_member n E m t) (\<lambda>t'. progress E t t' \<and> only_wanted E ms t' \<and> member_done E m t') (target_error E)"
    by (rule activate_member_ok [OF chk m(1,3)]) (use missing_progress [OF chk m(2)] n in \<open>simp add: enough_fuel_def\<close>)
qed (blast intro: member_done_grows progress_grows)

text \<open>A state in which everything is closed has all that is wanted.\<close>

lemma all_wanted:
  assumes chk: "features_checked E ms" and pr: "progress E fs_new st" and iv: "only_wanted E ms st"
    and ms: "\<forall>m \<in> set ms. member_done E m st"
  shows "wanted_pkg E ms p fk \<Longrightarrow> (p, fk) \<in> fs_processed st"
    and "wanted_fv E ms p fk fv \<Longrightarrow> has_fv E st p fk fv"
    and "wanted_edge E ms dp dep dfk \<Longrightarrow> edge_done E st dp dep dfk"
proof (induction rule: wanted_pkg_wanted_fv_wanted_edge.inducts)
  case (member_pkg m cli fk)
  then show ?case using ms by (force simp: member_done_def)
next
  case (member_fv m cli fk fvs fv)
  then show ?case using ms by (force simp: member_done_def)
next
  case (required_edge p fk dp dep dfk)
  then show ?case using pr by (simp add: progress_def pkg_closed_def)
next
  case (enabled_edge p fk dep dp dfk)
  then show ?case using pr by (simp add: progress_def dep_closed_def)
next
  case (feature_fv p fk f fvs fv)
  then show ?case using pr by (simp add: progress_def feature_closed_def)
next
  case (strong_dep p fk d f dp dep dfk)
  then have "dep_feature_done E st p fk d f False dp dep dfk" by simp
  then show ?case using strong_dep by (simp add: dep_feature_done_def)
next
  case (strong_feature p fk d f dp dep dfk fvs)
  then have "dep_feature_done E st p fk d f False dp dep dfk" by simp
  then show ?case using strong_feature by (auto simp: dep_feature_done_def)
next
  case (dep_feature_fv p fk d f w dp dep dfk)
  then have dn: "dep_feature_done E st p fk d f w dp dep dfk" and w: "wanted_fv E ms p fk (DepFeature d f w)" by simp_all
  have "fv_new f = Feature f" using wanted_facts(2) [OF chk w] by (simp add: plain_def)
  moreover have "\<not> (dep_optional dep \<and> w \<and> f \<in> set (deferred_for st (p, fk, d)))"
    using dep_feature_fv iv by (auto simp: only_wanted_def)
  ultimately show ?case using dn by (auto simp: dep_feature_done_def)
qed (auto simp: edge_done_def)

lemma run_exact:
  assumes chk: "features_checked E ms" and n: "enough_fuel E ms \<le> n"
  shows "owp False (do_resolve n E ms)
    (\<lambda>st. hm_wf (fs_features st) \<and> (\<forall>p fk. (p, fk) \<in> dom (map_of (fs_features st)) \<longleftrightarrow> wanted_pkg E ms p fk) \<and>
      (\<forall>p fk f. f \<in> feats st p fk \<longleftrightarrow> wanted_fv E ms p fk (Feature f)) \<and>
      (\<forall>p fk d. d \<in> deps_on st p fk \<longleftrightarrow> wanted_fv E ms p fk (Dep d))) (target_error E)"
proof (rule owp_mono [OF do_resolve_ok [OF assms]])
  fix st assume "progress E fs_new st \<and> only_wanted E ms st \<and> (\<forall>m \<in> set ms. member_done E m st)"
  then have st: "progress E fs_new st" "only_wanted E ms st" "\<forall>m \<in> set ms. member_done E m st" by simp_all
  note all = all_wanted [OF chk st]
  have "(p, fk) \<in> dom (map_of (fs_features st)) \<longleftrightarrow> wanted_pkg E ms p fk" for p fk
    using st(2) all(1) [of p fk] unfolding only_wanted_def by blast
  moreover have "f \<in> feats st p fk \<longleftrightarrow> wanted_fv E ms p fk (Feature f)" for p fk f
    using st(2) all(2) [of p fk "Feature f"] unfolding only_wanted_def by auto
  moreover have "d \<in> deps_on st p fk \<longleftrightarrow> wanted_fv E ms p fk (Dep d)" for p fk d
    using st(2) all(2) [of p fk "Dep d"] unfolding only_wanted_def by auto
  moreover have "hm_wf (fs_features st)" using st(2) by (simp add: only_wanted_def)
  ultimately show "hm_wf (fs_features st) \<and> (\<forall>p fk. (p, fk) \<in> dom (map_of (fs_features st)) \<longleftrightarrow> wanted_pkg E ms p fk) \<and>
      (\<forall>p fk f. f \<in> feats st p fk \<longleftrightarrow> wanted_fv E ms p fk (Feature f)) \<and>
      (\<forall>p fk d. d \<in> deps_on st p fk \<longleftrightarrow> wanted_fv E ms p fk (Dep d))" by blast
qed

definition exactly_wanted ::
  "('p, 'b, 's) fenv \<Rightarrow> (('p, 'b, 's) package_id \<times> cli_features) list \<Rightarrow> ('p, 'b, 's) resolved_features \<Rightarrow> bool" where
  "exactly_wanted E ms r \<longleftrightarrow>
     hm_wf (rf_features r) \<and>
     (\<forall>p fk. map_of (rf_features r) (p, fk) =
        (if wanted_pkg E ms p fk then Some {f. wanted_fv E ms p fk (Feature f)} else None)) \<and>
     (\<forall>p fk d. d \<in> am_get (rf_dependencies r) (p, fk) \<longleftrightarrow> wanted_fv E ms p fk (Dep d)) \<and>
     rf_opts r = fe_opts E"

lemma feature_resolve_run:
  assumes chk: "features_checked E ms" and n: "enough_fuel E ms \<le> n" and cmp: "\<not> fo_compare (fe_opts E)"
  shows "owp False (feature_resolve n E ms) (exactly_wanted E ms) (target_error E)"
  unfolding feature_resolve_def
proof (rule owp_bind, rule owp_mono [OF run_exact [OF chk n]])
  fix st assume st: "hm_wf (fs_features st) \<and> (\<forall>p fk. (p, fk) \<in> dom (map_of (fs_features st)) \<longleftrightarrow> wanted_pkg E ms p fk) \<and>
      (\<forall>p fk f. f \<in> feats st p fk \<longleftrightarrow> wanted_fv E ms p fk (Feature f)) \<and>
      (\<forall>p fk d. d \<in> deps_on st p fk \<longleftrightarrow> wanted_fv E ms p fk (Dep d))"
  have "map_of (fs_features st) (p, fk) = (if wanted_pkg E ms p fk then Some {f. wanted_fv E ms p fk (Feature f)} else None)" for p fk
  proof (cases "map_of (fs_features st) (p, fk)")
    case None
    then show ?thesis using st by (metis domIff)
  next
    case (Some fs)
    then have "feats st p fk = fs" by (simp add: am_get_def unwrap_or_def)
    then have "fs = {f. wanted_fv E ms p fk (Feature f)}" using st by blast
    then show ?thesis using Some st by (metis domI)
  qed
  then show "owp False (if fo_compare (fe_opts E) \<and> feature_mismatch E (fs_features st) then Panic
       else Ok \<lparr>rf_features = fs_features st, rf_dependencies = fs_dependencies st, rf_opts = fe_opts E\<rparr>)
     (exactly_wanted E ms) (target_error E)"
    using cmp st by (simp add: exactly_wanted_def)
qed simp

subsection \<open>The new behaviour never adds features\<close>

definition legacy_env :: "('p, 'b, 's) fenv \<Rightarrow> ('p, 'b, 's) fenv" where
  "legacy_env E = E\<lparr>fe_opts := new_behavior V1 False\<rparr>"

lemma legacy_simps [simp]:
  "fe_resolve (legacy_env E) = fe_resolve E" "fe_opts (legacy_env E) = feature_opts_default"
  "\<not> track_for_host (legacy_env E)" "dep_wanted (legacy_env E) fk dep"
  "lib_features_for (legacy_env E) fk dp dep = fk" "no_artifact_targets (legacy_env E) = no_artifact_targets E"
  by (simp_all add: legacy_env_def new_behavior_def feature_opts_default_def track_for_host_def dep_wanted_def
      lib_features_for_def no_artifact_targets_def)

lemma legacy_edge:
  assumes "no_artifact_targets E" "dep_edge E p fk dp dep dfk"
  shows "dep_edge (legacy_env E) p NormalOrDev dp dep NormalOrDev"
  using assms by (fastforce simp: dep_edge_def feature_deps_plain)

lemma legacy_tables:
  "table_has (legacy_env E) = table_has E" "dep_fv (legacy_env E) = dep_fv E" "fvs_from_requested (legacy_env E) = fvs_from_requested E"
  "member_kinds (legacy_env E) m = [NormalOrDev]"
  by (simp_all add: fun_eq_iff table_has_def dep_fv_def feature_table_def fvs_from_dependency_def fvs_from_requested_def member_kinds_def)

lemma legacy_wanted:
  assumes "no_artifact_targets E"
  shows "wanted_pkg E ms p fk \<Longrightarrow> wanted_pkg (legacy_env E) ms p NormalOrDev"
    and "wanted_fv E ms p fk fv \<Longrightarrow> wanted_fv (legacy_env E) ms p NormalOrDev fv"
    and "wanted_edge E ms dp dep dfk \<Longrightarrow> wanted_edge (legacy_env E) ms dp dep NormalOrDev"
proof (induction rule: wanted_pkg_wanted_fv_wanted_edge.inducts)
  case (member_pkg m cli fk)
  then show ?case by (intro wanted_intros(1)) (auto simp: legacy_tables)
next
  case (member_fv m cli fk fvs fv)
  then show ?case by (intro wanted_intros(2)) (auto simp: legacy_tables)
next
  case (required_edge p fk dp dep dfk)
  then show ?case by (blast intro: wanted_intros(3) legacy_edge [OF assms])
next
  case (enabled_edge p fk dep dp dfk)
  then show ?case by (blast intro: wanted_intros(4) legacy_edge [OF assms])
next
  case (edge_pkg dp dep dfk)
  then show ?case by (blast intro: wanted_intros(5))
next
  case (edge_fv dp dep dfk fv)
  then show ?case by (auto intro: wanted_intros(6) simp: legacy_tables)
next
  case (feature_fv p fk f fvs fv)
  then show ?case by (auto intro: wanted_intros(7) simp: legacy_tables)
next
  case (strong_dep p fk d f dp dep dfk)
  then show ?case by (blast intro: wanted_intros(8) legacy_edge [OF assms])
next
  case (strong_feature p fk d f dp dep dfk fvs)
  then show ?case by (metis wanted_intros(9) legacy_edge [OF assms] legacy_tables(1))
next
  case (dep_feature_fv p fk d f w dp dep dfk)
  then show ?case by (metis wanted_intros(10) legacy_edge [OF assms])
qed

lemma legacy_checked:
  assumes "features_checked E ms" "no_artifact_targets E"
  shows "features_checked (legacy_env E) ms"
proof -
  have "edge_checked (legacy_env E) = edge_checked E" by (simp add: fun_eq_iff edge_checked_def)
  then show ?thesis using assms by (simp add: features_checked_def)
qed

lemma legacy_lookup:
  assumes chk: "features_checked E ms" and na: "no_artifact_targets E"
    and ex: "exactly_wanted (legacy_env E) ms legacy" and w: "wanted_pkg E ms p fk"
  shows "legacy_features legacy (p, fk) = {f. wanted_fv (legacy_env E) ms p NormalOrDev (Feature f)}"
proof -
  have "fk' = NormalOrDev" if "wanted_pkg (legacy_env E) ms p fk'" for fk'
    using wanted_facts(1) [OF legacy_checked [OF chk na] that] by (simp add: apply_opts_def feature_opts_default_def)
  moreover have "wanted_pkg (legacy_env E) ms p NormalOrDev" by (rule legacy_wanted(1) [OF na w])
  ultimately show ?thesis using ex by (auto simp: legacy_features_def exactly_wanted_def unwrap_or_def)
qed

lemma compare_legacy_Ok:
  assumes chk: "features_checked E ms" and na: "no_artifact_targets E"
    and r: "exactly_wanted E ms r" and l: "exactly_wanted (legacy_env E) ms legacy"
  shows "\<exists>diff. compare_legacy r legacy = Ok diff \<and>
    (\<forall>p fk lost. ((p, fk), lost) \<in> set diff \<longleftrightarrow> wanted_pkg E ms p fk \<and> lost \<noteq> {} \<and>
       lost = {f. wanted_fv (legacy_env E) ms p NormalOrDev (Feature f) \<and> \<not> wanted_fv E ms p fk (Feature f)})"
proof -
  let ?g = "\<lambda>(k, new). if legacy_features legacy k - new = {} then [] else [(k, legacy_features legacy k - new)]"
  have entry: "((p, fk), fs) \<in> set (rf_features r) \<longleftrightarrow> wanted_pkg E ms p fk \<and> fs = {f. wanted_fv E ms p fk (Feature f)}" for p fk fs
    using r unfolding exactly_wanted_def hm_wf_def by (auto simp: map_of_eq_Some_iff [symmetric])
  have old: "legacy_features legacy (p, fk) = {f. wanted_fv (legacy_env E) ms p NormalOrDev (Feature f)}"
    if "wanted_pkg E ms p fk" for p fk by (rule legacy_lookup [OF chk na l that])
  have "compare_legacy r legacy = Ok (concat (map ?g (rf_features r)))"
    unfolding compare_legacy_def
    by (subst omap_all_Ok [where g = ?g]) (auto simp: entry old Let_def dest: legacy_wanted(2) [OF na])
  moreover have "((p, fk), lost) \<in> set (concat (map ?g (rf_features r))) \<longleftrightarrow> wanted_pkg E ms p fk \<and> lost \<noteq> {} \<and>
       lost = {f. wanted_fv (legacy_env E) ms p NormalOrDev (Feature f) \<and> \<not> wanted_fv E ms p fk (Feature f)}" (is "_ \<longleftrightarrow> ?R") for p fk lost
  proof -
    have "((p, fk), lost) \<in> set (concat (map ?g (rf_features r))) \<longleftrightarrow>
        (\<exists>fs. ((p, fk), fs) \<in> set (rf_features r) \<and> lost \<noteq> {} \<and> lost = legacy_features legacy (p, fk) - fs)"
      by (fastforce split: if_splits)
    also have "\<dots> \<longleftrightarrow> wanted_pkg E ms p fk \<and> lost \<noteq> {} \<and>
        lost = legacy_features legacy (p, fk) - {f. wanted_fv E ms p fk (Feature f)}"
      unfolding entry by blast
    also have "\<dots> \<longleftrightarrow> ?R" using old [of p fk] by (auto simp: set_diff_eq)
    finally show ?thesis .
  qed
  ultimately show ?thesis by blast
qed

subsection \<open>The theorems\<close>

text \<open>
  C2: the feature resolver ends, never panics, and activates exactly what the manifests ask for:
  for every package and kind, the features and optional dependencies that follow from the
  members' requested features, where a weak feature \<open>dep?/feat\<close> takes effect exactly when
  \<open>dep\<close> is enabled by something else, before or after. The only error is a target of an artifact
  dependency that \<open>rustc\<close> cannot be asked about.
\<close>

theorem feature_resolve_exact:
  assumes "features_checked E ms" and "\<not> fo_compare (fe_opts E)"
  shows "\<exists>n0. \<forall>n \<ge> n0.
    (\<exists>t. feature_resolve n E ms = Err (TargetInfo t) \<and> \<not> fe_merge E t \<and> \<not> no_artifact_targets E) \<or>
    (\<exists>r. feature_resolve n E ms = Ok r \<and>
       (\<forall>p fk. activated_features_unverified r p fk =
          (if wanted_pkg E ms p (apply_opts (fe_opts E) fk)
           then Some (sorted_list_of_set {f. wanted_fv E ms p (apply_opts (fe_opts E) fk) (Feature f)}) else None)) \<and>
       (\<forall>p fk d. is_dep_activated r p fk d \<longleftrightarrow> wanted_fv E ms p (apply_opts (fe_opts E) fk) (Dep d)))"
proof (intro exI [of _ "enough_fuel E ms"] allI impI)
  fix n assume "enough_fuel E ms \<le> n"
  from feature_resolve_run [OF assms(1) this assms(2)]
  consider t where "feature_resolve n E ms = Err (TargetInfo t)" "\<not> fe_merge E t" "\<not> no_artifact_targets E"
    | r where "feature_resolve n E ms = Ok r" "exactly_wanted E ms r"
    by (cases "feature_resolve n E ms") (auto simp: target_error_def merge_error_def)
  then show "(\<exists>t. feature_resolve n E ms = Err (TargetInfo t) \<and> \<not> fe_merge E t \<and> \<not> no_artifact_targets E) \<or>
    (\<exists>r. feature_resolve n E ms = Ok r \<and>
       (\<forall>p fk. activated_features_unverified r p fk =
          (if wanted_pkg E ms p (apply_opts (fe_opts E) fk)
           then Some (sorted_list_of_set {f. wanted_fv E ms p (apply_opts (fe_opts E) fk) (Feature f)}) else None)) \<and>
       (\<forall>p fk d. is_dep_activated r p fk d \<longleftrightarrow> wanted_fv E ms p (apply_opts (fe_opts E) fk) (Dep d)))"
  proof cases
    case (2 r)
    have "is_dep_activated r p fk d \<longleftrightarrow> d \<in> am_get (rf_dependencies r) (p, apply_opts (rf_opts r) fk)" for p fk d
      by (simp add: is_dep_activated_def am_get_def unwrap_or_def split: option.splits)
    then show ?thesis using 2 by (simp add: exactly_wanted_def activated_features_unverified_def)
  qed blast
qed

definition weak_tls :: "(nat, nat, nat) dependency" where
  "weak_tls = tls_dep\<lparr>dep_default_features := False, dep_features := []\<rparr>"

definition weak_summary :: "string \<Rightarrow> feature_map \<Rightarrow> (nat, nat, nat) summary" where
  "weak_summary n fm = \<lparr>sum_package_id = PackageId n (Version 1 0 0 None None) 0, sum_dependencies = [],
     sum_features = fm, sum_checksum = None, sum_links = None, sum_rust_version = None, sum_pubtime = None\<rparr>"

definition weak_pkg :: "string \<Rightarrow> (nat, nat, nat) package_id" where
  "weak_pkg n = PackageId n (Version 1 0 0 None None) 0"

definition weak_env :: "(nat, nat, nat) fenv" where
  "weak_env = \<lparr>fe_resolve = resolve_new [(weak_pkg ''app'', [(weak_pkg ''tls'', [weak_tls])]), (weak_pkg ''tls'', [])] [] [] [] [] [] RV4
       [(weak_pkg ''app'', weak_summary ''app'' [(''default'', [DepFeature ''tls'' ''std'' True, Dep ''tls''])]),
        (weak_pkg ''tls'', weak_summary ''tls'' [(''std'', [])])],
     fe_opts = new_behavior V2 False, fe_requested = [KindHost], fe_host = Tuple ''host'',
     fe_info = (\<lambda>_. (''host'', [])), fe_merge = (\<lambda>_. True), fe_any_proc_macro = (\<lambda>_. False), fe_proc_macro_lib = (\<lambda>_. False)\<rparr>"

definition weak_members :: "((nat, nat, nat) package_id \<times> cli_features) list" where
  "weak_members = [(weak_pkg ''app'', cli_new_all False)]"

lemma weak_checked:
  "features_checked weak_env weak_members" "no_artifact_targets weak_env" "\<not> fo_compare (fe_opts weak_env)"
  by code_simp+

lemma weak_run:
  "(case feature_resolve 20 weak_env weak_members of
      Ok r \<Rightarrow> activated_features_unverified r (weak_pkg ''tls'') NormalOrDev = Some [''std''] | _ \<Rightarrow> False)"
  by code_simp

lemma weak_wanted:
  "wanted_fv weak_env weak_members (weak_pkg ''app'') NormalOrDev (Dep ''tls'')"
  "wanted_fv weak_env weak_members (weak_pkg ''tls'') NormalOrDev (Feature ''std'')"
proof -
  have req: "fvs_from_requested weak_env (weak_pkg ''app'') (cli_new_all False) = Ok [Feature ''default'']"
    and tab: "feature_table weak_env (weak_pkg ''app'') = Ok [(''default'', [DepFeature ''tls'' ''std'' True, Dep ''tls''])]"
    and deps: "feature_deps weak_env (weak_pkg ''app'') NormalOrDev = Ok [(weak_pkg ''tls'', weak_tls, NormalOrDev)]"
    and std: "fv_new ''std'' = Feature ''std''" "name_in_toml weak_tls = ''tls''"
    by code_simp+
  have "(weak_pkg ''app'', cli_new_all False) \<in> set weak_members" by (simp add: weak_members_def)
  moreover have "NormalOrDev \<in> set (member_kinds weak_env (weak_pkg ''app''))" by (simp add: member_kinds_def)
  ultimately have "wanted_fv weak_env weak_members (weak_pkg ''app'') NormalOrDev (Feature ''default'')"
    by (rule member_fv [OF _ _ req]) simp
  moreover have t: "table_has weak_env (weak_pkg ''app'') ''default'' [DepFeature ''tls'' ''std'' True, Dep ''tls'']"
    by (simp add: table_has_def tab)
  ultimately have w: "wanted_fv weak_env weak_members (weak_pkg ''app'') NormalOrDev (DepFeature ''tls'' ''std'' True)"
    and d: "wanted_fv weak_env weak_members (weak_pkg ''app'') NormalOrDev (Dep ''tls'')"
    by (auto intro: feature_fv [OF _ t])
  show "wanted_fv weak_env weak_members (weak_pkg ''app'') NormalOrDev (Dep ''tls'')" by (rule d)
  have "dep_edge weak_env (weak_pkg ''app'') NormalOrDev (weak_pkg ''tls'') weak_tls NormalOrDev" by (simp add: dep_edge_def deps)
  then show "wanted_fv weak_env weak_members (weak_pkg ''tls'') NormalOrDev (Feature ''std'')"
    using dep_feature_fv [OF w _ std(2)] d unfolding std(1) by blast
qed

theorem feature_resolve_exact_witness:
  "\<exists>n r. feature_resolve n weak_env weak_members = Ok r \<and>
     is_dep_activated r (weak_pkg ''app'') NormalOrDev ''tls'' \<and>
     activated_features_unverified r (weak_pkg ''tls'') NormalOrDev =
       Some (sorted_list_of_set {f. wanted_fv weak_env weak_members (weak_pkg ''tls'') NormalOrDev (Feature f)})"
proof -
  have k: "apply_opts (fe_opts weak_env) NormalOrDev = NormalOrDev" by code_simp
  have "wanted_pkg weak_env weak_members (weak_pkg ''tls'') NormalOrDev"
    using wanted_facts(2) [OF weak_checked(1) weak_wanted(2)] by simp
  then show ?thesis
    using feature_resolve_exact [OF weak_checked(1,3)] weak_checked(2) weak_wanted(1) k by (metis order_refl)
qed

text \<open>
  C4: \<open>cargo fix --edition\<close> compares the features of the new behaviour with the ones of resolver
  1. Where no artifact dependency has a target of its own, the assertion in \<open>compare_legacy\<close> that
  the new behaviour never adds a feature always holds, and the comparison lists exactly the
  features that every activated package loses.
\<close>

theorem compare_legacy_exact:
  assumes "features_checked E ms" and "no_artifact_targets E" and "\<not> fo_compare (fe_opts E)"
  shows "\<exists>n0. \<forall>n \<ge> n0. \<exists>r legacy diff.
    feature_resolve n E ms = Ok r \<and> feature_resolve n (legacy_env E) ms = Ok legacy \<and>
    compare_legacy r legacy = Ok diff \<and>
    (\<forall>p fk lost. ((p, fk), lost) \<in> set diff \<longleftrightarrow> wanted_pkg E ms p fk \<and> lost \<noteq> {} \<and>
       lost = {f. wanted_fv (legacy_env E) ms p NormalOrDev (Feature f) \<and> \<not> wanted_fv E ms p fk (Feature f)})"
proof (intro exI [of _ "max (enough_fuel E ms) (enough_fuel (legacy_env E) ms)"] allI impI)
  fix n assume n: "max (enough_fuel E ms) (enough_fuel (legacy_env E) ms) \<le> n"
  have "owp False (feature_resolve n E ms) (exactly_wanted E ms) (target_error E)"
    by (rule feature_resolve_run [OF assms(1) _ assms(3)]) (use n in simp)
  then obtain r where r: "feature_resolve n E ms = Ok r" "exactly_wanted E ms r"
    using assms(2) by (cases "feature_resolve n E ms") (auto simp: target_error_def)
  have "owp False (feature_resolve n (legacy_env E) ms) (exactly_wanted (legacy_env E) ms) (target_error (legacy_env E))"
    by (rule feature_resolve_run [OF legacy_checked [OF assms(1,2)]]) (use n in \<open>simp_all add: feature_opts_default_def\<close>)
  then obtain legacy where l: "feature_resolve n (legacy_env E) ms = Ok legacy" "exactly_wanted (legacy_env E) ms legacy"
    using assms(2) by (cases "feature_resolve n (legacy_env E) ms") (auto simp: target_error_def)
  from compare_legacy_Ok [OF assms(1,2) r(2) l(2)] r(1) l(1)
  show "\<exists>r legacy diff. feature_resolve n E ms = Ok r \<and> feature_resolve n (legacy_env E) ms = Ok legacy \<and>
    compare_legacy r legacy = Ok diff \<and>
    (\<forall>p fk lost. ((p, fk), lost) \<in> set diff \<longleftrightarrow> wanted_pkg E ms p fk \<and> lost \<noteq> {} \<and>
       lost = {f. wanted_fv (legacy_env E) ms p NormalOrDev (Feature f) \<and> \<not> wanted_fv E ms p fk (Feature f)})"
    by blast
qed

theorem compare_legacy_exact_witness:
  "\<exists>n r legacy diff. feature_resolve n weak_env weak_members = Ok r \<and>
     feature_resolve n (legacy_env weak_env) weak_members = Ok legacy \<and> compare_legacy r legacy = Ok diff"
  using compare_legacy_exact [OF weak_checked] by blast

end
