(* ===== verification/UnicodeText.thy ===== *)
theory UnicodeText
  imports Prelude
begin

section \<open>Strings as code points\<close>

text \<open>
  A string is the list of its code points; offsets into it are byte offsets of its UTF-8 form, as
  in Rust. A split at an offset that is past the end or inside a character fails.
\<close>

type_synonym utext = "nat list"
type_synonym span = "nat \<times> nat"

definition utf8_len :: "nat \<Rightarrow> nat" where
  "utf8_len c = (if c < 128 then 1 else if c < 2048 then 2 else if c < 65536 then 3 else 4)"

definition bytes :: "utext \<Rightarrow> nat" where
  "bytes s = sum_list (map utf8_len s)"

fun split_at :: "nat \<Rightarrow> utext \<Rightarrow> (utext \<times> utext) option" where
  "split_at 0 s = Some ([], s)"
| "split_at (Suc n) [] = None"
| "split_at (Suc n) (c # s) =
     (if utf8_len c \<le> Suc n then map_option (\<lambda>(a, b). (c # a, b)) (split_at (Suc n - utf8_len c) s) else None)"

definition next_slice :: "nat \<Rightarrow> utext \<Rightarrow> ('e, utext \<times> utext) outcome" where
  "next_slice n s = (case split_at n s of None \<Rightarrow> Panic | Some p \<Rightarrow> Ok p)"

definition str_slice :: "utext \<Rightarrow> span \<Rightarrow> ('e, utext) outcome" where
  "str_slice s sp =
     (if fst sp \<le> snd sp then
        obind (next_slice (fst sp) s) (\<lambda>(_, rest). obind (next_slice (snd sp - fst sp) rest) (\<lambda>(x, _). Ok x))
      else Panic)"

text \<open>\<open>char::is_whitespace\<close>, and trimming.\<close>

definition is_std_ws :: "nat \<Rightarrow> bool" where
  "is_std_ws c \<longleftrightarrow> 9 \<le> c \<and> c \<le> 13 \<or> c = 32 \<or> c = 133 \<or> c = 160 \<or> c = 5760 \<or> 8192 \<le> c \<and> c \<le> 8202 \<or>
     c = 8232 \<or> c = 8233 \<or> c = 8239 \<or> c = 8287 \<or> c = 12288"

definition trim_end_with :: "(nat \<Rightarrow> bool) \<Rightarrow> utext \<Rightarrow> utext" where
  "trim_end_with P s = rev (dropWhile P (rev s))"

definition trim_with :: "(nat \<Rightarrow> bool) \<Rightarrow> utext \<Rightarrow> utext" where
  "trim_with P s = trim_end_with P (dropWhile P s)"

subsection \<open>Offsets\<close>

lemma utf8_len_pos [simp]: "0 < utf8_len c"
  by (simp add: utf8_len_def)

lemma bytes_simps [simp]:
  "bytes [] = 0" "bytes (c # s) = utf8_len c + bytes s" "bytes (a @ b) = bytes a + bytes b"
  by (simp_all add: bytes_def)

lemma utf8_len_ascii [simp]: "c < 128 \<Longrightarrow> utf8_len c = 1"
  by (simp add: utf8_len_def)

lemma bytes_dashes [simp]: "bytes (replicate n 45) = n"
  by (simp add: bytes_def sum_list_replicate utf8_len_def)

lemma bytes_eq_0 [simp]: "bytes s = 0 \<longleftrightarrow> s = []"
  by (cases s) (simp_all add: utf8_len_def)

lemma split_at_append [simp]: "split_at (bytes a) (a @ b) = Some (a, b)"
proof (induction a)
  case (Cons c a)
  obtain m where m: "utf8_len c + bytes a = Suc m" using utf8_len_pos [of c] gr0_implies_Suc by fastforce
  then have "Suc m - utf8_len c = bytes a" "utf8_len c \<le> Suc m" by simp_all
  then show ?case using Cons by (simp add: m)
qed simp

lemma next_slice_append [simp]: "next_slice (bytes a) (a @ b) = Ok (a, b)"
  by (simp add: next_slice_def)

lemma next_slice_self [simp]: "next_slice (bytes a) a = Ok (a, [])"
  using next_slice_append [of a "[]"] by simp

end
