(* ===== verification/Frontmatter.thy ===== *)
theory Frontmatter
  imports UnicodeText "HOL-Library.Sublist"
begin

section \<open>Scripts with an embedded manifest (\<open>util/frontmatter.rs\<close>)\<close>

text \<open>
  A single-file package has its manifest between two fences of dashes at the top of the file.
  \<open>ScriptSource::parse\<close> finds the parts, \<open>expand_manifest\<close> makes them a TOML document.

  \<open>next_slice\<close> of the \<open>winnow\<close> crate splits the input at a byte offset and panics, as its
  documentation says, if the offset is past the end or inside a character; a slice of a string
  does the same. The position of a parser is the input that is left.

  The main theorem: the parser accepts exactly the files that have the form of a script, with
  exactly the spans of its parts. A second theorem shows inputs on which it panics.
\<close>

fun find_slice :: "utext \<Rightarrow> utext \<Rightarrow> span option" where
  "find_slice pat [] = (if pat = [] then Some (0, 0) else None)"
| "find_slice pat (c # s) =
     (if prefix pat (c # s) then Some (0, bytes pat)
      else map_option (\<lambda>(i, j). (i + utf8_len c, j + utf8_len c)) (find_slice pat s))"

definition token_start :: "utext \<Rightarrow> utext \<Rightarrow> nat" where
  "token_start raw input = bytes raw - bytes input"

subsection \<open>White space\<close>

text \<open>\<open>Pattern_White_Space\<close> of the source; \<open>str::trim_start\<close> uses \<open>White_Space\<close>, \<open>is_std_ws\<close>.\<close>

definition is_pattern_ws :: "nat \<Rightarrow> bool" where
  "is_pattern_ws c \<longleftrightarrow> c \<in> set [10, 11, 12, 13, 133, 8232, 8233, 8206, 8207, 9, 32]"

definition is_horizontal_ws :: "nat \<Rightarrow> bool" where
  "is_horizontal_ws c \<longleftrightarrow> c = 9 \<or> c = 32"

definition strip_shebang :: "utext \<Rightarrow> nat option" where
  "strip_shebang input =
     (if prefix [35, 33] input \<and> \<not> prefix [91] (dropWhile is_std_ws (drop 2 input))
      then Some (case find_slice [10] input of Some (i, _) \<Rightarrow> i + 1 | None \<Rightarrow> bytes input)
      else None)"

definition strip_ws_lines :: "utext \<Rightarrow> nat option" where
  "strip_ws_lines input =
     (let ws = takeWhile is_pattern_ws input in
      if ws = [] then None
      else if 10 \<in> set ws then Some (bytes (trim_end_with (\<lambda>c. c \<noteq> 10) ws)) else None)"

definition strip_newline :: "utext \<Rightarrow> utext" where
  "strip_newline s =
     (if suffix [13, 10] s then butlast (butlast s) else if suffix [10] s then butlast s else s)"

subsection \<open>The parser\<close>

record script_source =
  ss_raw :: utext
  ss_shebang :: "span option"
  ss_open :: "span option"
  ss_info :: "span option"
  ss_frontmatter :: "span option"
  ss_close :: "span option"
  ss_content :: span

datatype frontmatter_message =
    TooFewDashes nat | TooManyDashes nat | Unclosed utext | FewerDashes nat | MoreDashes nat
  | CharsAfterClose | OnlyOneFrontmatter | InfoAttributes utext | InfoUnsupported utext

record frontmatter_error =
  fe_message :: frontmatter_message
  fe_primary :: span
  fe_visible :: "span list"

definition fm_error :: "frontmatter_message \<Rightarrow> span \<Rightarrow> span list \<Rightarrow> frontmatter_error" where
  "fm_error m sp vis = \<lparr>fe_message = m, fe_primary = sp, fe_visible = vis\<rparr>"

definition fence_length :: "utext \<Rightarrow> nat" where
  "fence_length input = bytes (takeWhile (\<lambda>c. c = 45) input)"

definition skip_ws_lines :: "utext \<Rightarrow> ('e, utext) outcome" where
  "skip_ws_lines input =
     (case strip_ws_lines input of
        None \<Rightarrow> Ok input
      | Some n \<Rightarrow> obind (next_slice n input) (\<lambda>(_, rest). Ok rest))"

text \<open>The shebang line, if there is one.\<close>

definition parse_shebang :: "utext \<Rightarrow> ('e, script_source \<times> utext) outcome" where
  "parse_shebang raw =
     (let source = \<lparr>ss_raw = raw, ss_shebang = None, ss_open = None, ss_info = None, ss_frontmatter = None,
            ss_close = None, ss_content = (0, bytes raw)\<rparr> in
      case strip_shebang raw of
        None \<Rightarrow> Ok (source, raw)
      | Some n \<Rightarrow>
          obind (next_slice n raw) (\<lambda>(_, input).
            Ok (source\<lparr>ss_shebang := Some (0, token_start raw input), ss_content := (token_start raw input, bytes raw)\<rparr>,
                input)))"

text \<open>The closing fence was not found: look for a shorter one.\<close>

fun find_shorter :: "nat list \<Rightarrow> utext \<Rightarrow> nat \<Rightarrow> span \<Rightarrow> utext \<Rightarrow> utext \<Rightarrow> (frontmatter_error, 'a) outcome" where
  "find_shorter [] fence n open_span raw input =
     Err (fm_error (Unclosed fence) (bytes raw, bytes raw) [open_span])"
| "find_shorter (len # lens) fence n open_span raw input =
     (case find_slice (take len (10 # fence)) input of
        None \<Rightarrow> find_shorter lens fence n open_span raw input
      | Some (i, _) \<Rightarrow>
          obind (next_slice (i + 1) input) (\<lambda>(_, input).
          obind (next_slice len input) (\<lambda>(_, rest).
            Err (fm_error (FewerDashes (n - len)) (token_start raw input, token_start raw rest) [open_span]))))"

text \<open>The info string after the opening fence; \<open>start\<close> is where the slice begins.\<close>

definition info_span :: "nat \<Rightarrow> utext \<Rightarrow> span option" where
  "info_span start info =
     (let info = (if suffix [13] info then butlast info else info);
          trimmed = trim_with is_horizontal_ws info;
          info_start = start + bytes (takeWhile is_horizontal_ws info)
      in if trimmed = [] then None else Some (info_start, info_start + bytes trimmed))"

text \<open>What follows the closing fence.\<close>

definition parse_after :: "nat \<Rightarrow> span \<Rightarrow> span \<Rightarrow> utext \<Rightarrow> utext \<Rightarrow> script_source \<Rightarrow> (frontmatter_error, script_source) outcome" where
  "parse_after n open_span close_span raw input source =
     obind (next_slice (case find_slice [10] input of Some (_, j) \<Rightarrow> j | None \<Rightarrow> bytes input) input) (\<lambda>(after, input).
     let content_start = token_start raw input;
         extra = length (takeWhile (\<lambda>c. c = 45) after);
         line = strip_newline after;
         left = trim_with is_horizontal_ws line;
         after_start = snd close_span + bytes (takeWhile is_horizontal_ws line)
     in if 0 < extra then
          Err (fm_error (MoreDashes extra) (snd close_span, snd close_span + extra) [open_span])
        else if left \<noteq> [] then
          Err (fm_error CharsAfterClose (after_start, after_start + bytes left) [open_span])
        else
          let source = source\<lparr>ss_content := (content_start, bytes raw)\<rparr> in
          obind (skip_ws_lines input) (\<lambda>input.
            if 0 < fence_length input then
              Err (fm_error OnlyOneFrontmatter (token_start raw input, token_start raw input + fence_length input)
                [open_span, close_span])
            else Ok source))"

text \<open>The closing fence; the input starts with the newline after the info string.\<close>

definition parse_close :: "nat \<Rightarrow> utext \<Rightarrow> span \<Rightarrow> utext \<Rightarrow> utext \<Rightarrow> script_source \<Rightarrow> (frontmatter_error, script_source) outcome" where
  "parse_close n fence open_span raw input source =
     (case find_slice (10 # fence) input of
        None \<Rightarrow> find_shorter (rev [2..<bytes (10 # fence) - 1]) fence n open_span raw input
      | Some (i, _) \<Rightarrow>
          let frontmatter_start = token_start raw input + 1 in
          obind (next_slice (i + 1) input) (\<lambda>(_, input).
          let source = source\<lparr>ss_frontmatter := Some (frontmatter_start, token_start raw input)\<rparr>;
              close_start = token_start raw input in
          obind (next_slice n input) (\<lambda>(_, input).
          let close_span = (close_start, token_start raw input) in
          parse_after n open_span close_span raw input (source\<lparr>ss_close := Some close_span\<rparr>))))"

definition script_parse :: "utext \<Rightarrow> (frontmatter_error, script_source) outcome" where
  "script_parse raw =
     obind (parse_shebang raw) (\<lambda>(source, input).
     obind (skip_ws_lines input) (\<lambda>input.
     let n = fence_length input; open_start = token_start raw input in
     obind (next_slice n input) (\<lambda>(fence, input).
     let open_span = (open_start, token_start raw input) in
     if n = 0 then Ok source
     else if n \<le> 2 then Err (fm_error (TooFewDashes n) (bytes raw, bytes raw) [open_span])
     else if 255 < n then Err (fm_error (TooManyDashes n) open_span [])
     else
       let source = source\<lparr>ss_open := Some open_span\<rparr> in
       case find_slice [10] input of
         None \<Rightarrow> Err (fm_error (Unclosed fence) (bytes raw, bytes raw) [open_span])
       | Some (i, _) \<Rightarrow>
           let info_at = token_start raw input in
           obind (next_slice i input) (\<lambda>(info, input).
             parse_close n fence open_span raw input (source\<lparr>ss_info := info_span info_at info\<rparr>)))))"

subsection \<open>The parts and the manifest\<close>

definition ss_part :: "script_source \<Rightarrow> span option \<Rightarrow> ('e, utext option) outcome" where
  "ss_part s sp = (case sp of None \<Rightarrow> Ok None | Some sp \<Rightarrow> obind (str_slice (ss_raw s) sp) (\<lambda>x. Ok (Some x)))"

definition script_content :: "script_source \<Rightarrow> ('e, utext) outcome" where
  "script_content s = str_slice (ss_raw s) (ss_content s)"

definition cargo_text :: utext where
  "cargo_text = [99, 97, 114, 103, 111]"

definition str_insert :: "utext \<Rightarrow> nat \<Rightarrow> nat \<Rightarrow> ('e, utext) outcome" where
  "str_insert s i c = obind (next_slice i s) (\<lambda>(a, b). Ok (a @ c # b))"

definition expand_manifest :: "utext \<Rightarrow> (frontmatter_error, utext) outcome" where
  "expand_manifest content =
     obind (script_parse content) (\<lambda>source.
     case ss_frontmatter source of
       Some sp \<Rightarrow>
         obind (ss_part source (ss_info source)) (\<lambda>info.
         obind (case info of
                  None \<Rightarrow> Ok ()
                | Some other \<Rightarrow>
                    if other = cargo_text then Ok ()
                    else
                      (case (ss_info source, ss_close source) of
                         (Some info_at, Some close_at) \<Rightarrow>
                           Err (fm_error (if prefix (cargo_text @ [44]) other then InfoAttributes (drop 6 other)
                                  else InfoUnsupported other) info_at [close_at])
                       | _ \<Rightarrow> Panic)) (\<lambda>_.
         obind (str_slice content (0, snd sp)) (\<lambda>frontmatter.
           case ss_open source of
             Some open_span \<Rightarrow> str_insert frontmatter (fst open_span) 35
           | None \<Rightarrow> Panic)))
     | None \<Rightarrow> str_slice content (case ss_shebang source of Some sp \<Rightarrow> sp | None \<Rightarrow> (0, 0)))"

subsection \<open>Offsets and splits\<close>

lemma token_start_append [simp]: "token_start (a @ b) b = bytes a"
  by (simp add: token_start_def)

lemma find_slice_sound:
  "find_slice pat s = Some (i, j) \<Longrightarrow>
   \<exists>a b. s = a @ pat @ b \<and> i = bytes a \<and> j = bytes a + bytes pat \<and> (\<forall>a' b'. s = a' @ pat @ b' \<longrightarrow> length a \<le> length a')"
proof (induction s arbitrary: i j)
  case Nil
  then show ?case by (auto split: if_splits)
next
  case (Cons c s)
  show ?case
  proof (cases "prefix pat (c # s)")
    case True
    then obtain b where "c # s = pat @ b" by (auto simp: prefix_def)
    moreover have "i = 0" "j = bytes pat" using True Cons.prems by simp_all
    ultimately show ?thesis by (intro exI [of _ "[]"] exI [of _ b]) simp
  next
    case False
    then obtain i' j' where f: "find_slice pat s = Some (i', j')" "i = i' + utf8_len c" "j = j' + utf8_len c"
      using Cons.prems by auto
    from Cons.IH [OF f(1)] obtain a b where ab: "s = a @ pat @ b" "i' = bytes a" "j' = bytes a + bytes pat"
      "\<forall>a' b'. s = a' @ pat @ b' \<longrightarrow> length a \<le> length a'" by blast
    have "length (c # a) \<le> length a'" if "c # s = a' @ pat @ b'" for a' b'
      using that False ab(4) by (cases a') (auto simp: prefix_def)
    then show ?thesis using ab f by (intro exI [of _ "c # a"] exI [of _ b]) auto
  qed
qed

lemma find_slice_complete: "find_slice pat s = None \<Longrightarrow> s \<noteq> a @ pat @ b"
proof (induction s arbitrary: a)
  case Nil
  then show ?case by (auto split: if_splits)
next
  case (Cons c s)
  then have "\<not> prefix pat (c # s)" "find_slice pat s = None" by (auto split: if_splits)
  then show ?case using Cons.IH by (cases a) (auto simp: prefix_def)
qed

text \<open>The first occurrence of a pattern determines the result.\<close>

lemma find_slice_first:
  assumes "\<And>a' b'. a @ pat @ b = a' @ pat @ b' \<Longrightarrow> length a \<le> length a'"
  shows "find_slice pat (a @ pat @ b) = Some (bytes a, bytes a + bytes pat)"
proof (cases "find_slice pat (a @ pat @ b)")
  case None
  from find_slice_complete [OF this, of a b] show ?thesis by simp
next
  case (Some p)
  obtain i j where p: "p = (i, j)" by (cases p)
  from find_slice_sound [OF Some [unfolded p]] obtain a' b' where ab: "a @ pat @ b = a' @ pat @ b'" "i = bytes a'"
    "j = bytes a' + bytes pat" "\<forall>a'' b''. a @ pat @ b = a'' @ pat @ b'' \<longrightarrow> length a' \<le> length a''" by blast
  have "length a' = length a" using assms [OF ab(1)] ab(4) [rule_format, of a b] by simp
  then have "a' = a" using ab(1) by simp
  then show ?thesis using Some p ab by simp
qed

lemma find_newline:
  "find_slice [10] s = (if 10 \<in> set s then Some (bytes (takeWhile (\<lambda>c. c \<noteq> 10) s), bytes (takeWhile (\<lambda>c. c \<noteq> 10) s) + 1) else None)"
  by (induction s) auto

subsection \<open>The form of a script\<close>

definition first_line :: "utext \<Rightarrow> utext" where
  "first_line s = takeWhile (\<lambda>c. c \<noteq> 10) s @ (if 10 \<in> set s then [10] else [])"

definition shebang_line :: "utext \<Rightarrow> utext" where
  "shebang_line raw =
     (if prefix [35, 33] raw \<and> \<not> prefix [91] (dropWhile is_std_ws (drop 2 raw)) then first_line raw else [])"

definition blank_lines :: "utext \<Rightarrow> utext" where
  "blank_lines s = trim_end_with (\<lambda>c. c \<noteq> 10) (takeWhile is_pattern_ws s)"

text \<open>No line of the text starts with the fence.\<close>

definition fence_free :: "nat \<Rightarrow> utext \<Rightarrow> bool" where
  "fence_free n body \<longleftrightarrow> (\<forall>a b. 10 # body = a @ 10 # b \<longrightarrow> \<not> prefix (replicate n 45) b)"

record script_parts =
  sp_shebang :: utext
  sp_blank :: utext
  sp_dashes :: nat
  sp_info :: utext
  sp_body :: utext
  sp_tail :: utext
  sp_content :: utext

abbreviation sp_fence :: "script_parts \<Rightarrow> utext" where
  "sp_fence P \<equiv> replicate (sp_dashes P) 45"

definition sp_text :: "script_parts \<Rightarrow> utext" where
  "sp_text P = sp_shebang P @ sp_blank P @ sp_fence P @ sp_info P @ [10] @ sp_body P @ sp_fence P @ sp_tail P @ sp_content P"

definition is_script :: "script_parts \<Rightarrow> bool" where
  "is_script P \<longleftrightarrow>
     sp_shebang P = shebang_line (sp_text P) \<and>
     sp_blank P = blank_lines (drop (length (sp_shebang P)) (sp_text P)) \<and>
     3 \<le> sp_dashes P \<and> sp_dashes P \<le> 255 \<and>
     10 \<notin> set (sp_info P) \<and> \<not> prefix [45] (sp_info P) \<and>
     (sp_body P = [] \<or> last (sp_body P) = 10) \<and> fence_free (sp_dashes P) (sp_body P) \<and>
     sp_tail P = first_line (sp_tail P @ sp_content P) \<and> list_all is_horizontal_ws (strip_newline (sp_tail P)) \<and>
     \<not> prefix [45] (drop (length (blank_lines (sp_content P))) (sp_content P))"

definition sp_spans :: "script_parts \<Rightarrow> script_source" where
  "sp_spans P =
     (let raw = sp_text P;
          before = bytes (sp_shebang P @ sp_blank P);
          info_at = before + sp_dashes P;
          body_at = info_at + bytes (sp_info P) + 1;
          close_at = body_at + bytes (sp_body P);
          after_at = close_at + sp_dashes P + bytes (sp_tail P)
      in \<lparr>ss_raw = raw, ss_shebang = (if sp_shebang P = [] then None else Some (0, bytes (sp_shebang P))),
          ss_open = Some (before, info_at), ss_info = info_span info_at (sp_info P),
          ss_frontmatter = Some (body_at, close_at), ss_close = Some (close_at, close_at + sp_dashes P),
          ss_content = (after_at, bytes raw)\<rparr>)"

definition no_frontmatter :: "utext \<Rightarrow> bool" where
  "no_frontmatter raw \<longleftrightarrow>
     (let rest = drop (length (shebang_line raw)) raw in \<not> prefix [45] (drop (length (blank_lines rest)) rest))"

definition plain_source :: "utext \<Rightarrow> script_source" where
  "plain_source raw =
     \<lparr>ss_raw = raw, ss_shebang = (if shebang_line raw = [] then None else Some (0, bytes (shebang_line raw))),
      ss_open = None, ss_info = None, ss_frontmatter = None, ss_close = None,
      ss_content = (bytes (shebang_line raw), bytes raw)\<rparr>"

subsection \<open>The steps of the parser\<close>

lemma no_newline: "10 \<notin> set s \<Longrightarrow> takeWhile (\<lambda>c. c \<noteq> 10) s = s"
  by (induction s) auto

lemma first_line_prefix: "\<exists>r. s = first_line s @ r \<and> (10 \<notin> set s \<longrightarrow> r = [])"
proof (cases "10 \<in> set s")
  case True
  then have "dropWhile (\<lambda>c. c \<noteq> 10) s \<noteq> []" by (auto simp: dropWhile_eq_Nil_conv)
  then obtain c r where r: "dropWhile (\<lambda>c. c \<noteq> 10) s = c # r" by (cases "dropWhile (\<lambda>c. c \<noteq> 10) s") auto
  then have "c = 10" using hd_dropWhile [of "\<lambda>c. c \<noteq> 10" s] by simp
  then have "s = first_line s @ r"
    using r takeWhile_dropWhile_id [of "\<lambda>c. c \<noteq> 10" s] True by (simp add: first_line_def)
  then show ?thesis using True by blast
next
  case False
  then show ?thesis by (simp add: first_line_def no_newline)
qed

lemma drop_first_line [simp]: "first_line s @ drop (length (first_line s)) s = s"
  using first_line_prefix [of s] by (metis append_eq_conv_conj)

lemma shebang_prefix [simp]: "shebang_line s @ drop (length (shebang_line s)) s = s"
  by (simp add: shebang_line_def)

lemma blank_prefix [simp]: "blank_lines s @ drop (length (blank_lines s)) s = s"
proof -
  have "xs = trim_end_with P xs @ rev (takeWhile P (rev xs))" for P and xs :: utext
    by (simp add: trim_end_with_def flip: rev_append)
  then obtain t where "takeWhile is_pattern_ws s = blank_lines s @ t" unfolding blank_lines_def by blast
  then have "s = blank_lines s @ t @ dropWhile is_pattern_ws s"
    by (metis append_assoc takeWhile_dropWhile_id)
  then show ?thesis by (metis append_eq_conv_conj)
qed

lemma blank_slice [simp]: "next_slice (bytes (blank_lines s)) s = Ok (blank_lines s, drop (length (blank_lines s)) s)"
  by (metis blank_prefix next_slice_append)

lemma first_line_slice [simp]: "next_slice (bytes (first_line s)) s = Ok (first_line s, drop (length (first_line s)) s)"
  by (metis drop_first_line next_slice_append)

lemma parse_shebang_eq:
  "parse_shebang raw = Ok (plain_source raw, drop (length (shebang_line raw)) raw)"
proof (cases "prefix [35, 33] raw \<and> \<not> prefix [91] (dropWhile is_std_ws (drop 2 raw))")
  case False
  then show ?thesis by (auto simp: parse_shebang_def strip_shebang_def shebang_line_def plain_source_def Let_def)
next
  case True
  then have ne: "raw \<noteq> []" by auto
  then have "first_line raw \<noteq> []" by (cases raw) (auto simp: first_line_def)
  moreover have "strip_shebang raw = Some (bytes (first_line raw))"
  proof (cases "10 \<in> set raw")
    case False
    then show ?thesis using True by (simp add: strip_shebang_def find_newline first_line_def no_newline)
  qed (use True in \<open>simp add: strip_shebang_def find_newline first_line_def\<close>)
  moreover have "token_start raw (drop (length (first_line raw)) raw) = bytes (first_line raw)"
    using token_start_append [of "first_line raw" "drop (length (first_line raw)) raw"] by simp
  ultimately show ?thesis using True by (simp add: parse_shebang_def shebang_line_def plain_source_def del: obind_Ok_iff)
qed

lemma skip_ws_lines_eq: "skip_ws_lines s = Ok (drop (length (blank_lines s)) s)"
proof (cases "10 \<in> set (takeWhile is_pattern_ws s)")
  case True
  then have "strip_ws_lines s = Some (bytes (blank_lines s))" by (auto simp: strip_ws_lines_def Let_def blank_lines_def)
  then show ?thesis by (simp add: skip_ws_lines_def del: obind_Ok_iff)
next
  case False
  then have "dropWhile (\<lambda>c. c \<noteq> 10) (rev (takeWhile is_pattern_ws s)) = []"
    by (auto simp: dropWhile_eq_Nil_conv)
  then have "blank_lines s = []" by (simp add: blank_lines_def trim_end_with_def)
  then show ?thesis using False by (simp add: skip_ws_lines_def strip_ws_lines_def Let_def)
qed

lemma fence_split:
  obtains n r where "s = replicate n 45 @ r" "\<not> prefix [45] r" "fence_length s = n" "next_slice (fence_length s) s = Ok (replicate n 45, r)"
proof -
  define n where "n = length (takeWhile (\<lambda>c. c = 45) s)"
  have t: "takeWhile (\<lambda>c. c = 45) s = replicate n 45"
    by (rule replicate_eqI) (auto simp: n_def dest: set_takeWhileD)
  have s: "s = replicate n 45 @ dropWhile (\<lambda>c. c = 45) s" using takeWhile_dropWhile_id [of "\<lambda>c. c = 45" s] t by simp
  have "\<not> prefix [45] (dropWhile (\<lambda>c. c = 45) s)"
    by (auto simp: prefix_def dropWhile_eq_Cons_conv)
  moreover have "fence_length s = n" by (simp add: fence_length_def t)
  moreover from this s have "next_slice (fence_length s) s = Ok (replicate n 45, dropWhile (\<lambda>c. c = 45) s)"
    by (metis bytes_dashes next_slice_append)
  ultimately show thesis using that s by blast
qed

lemma fence_length_0: "0 < fence_length s \<longleftrightarrow> prefix [45] s"
  by (cases s) (auto simp: fence_length_def prefix_def)

text \<open>The closing fence that is found is the first one, so the body has no line that starts with it.\<close>

lemma prefix_replicate_end:
  assumes "prefix (replicate n 45) (b @ r)" "b \<noteq> []" "last b = 10"
  shows "prefix (replicate n (45 :: nat)) b"
proof -
  obtain c where b: "b = c @ [10]" using assms(2,3) by (metis append_butlast_last_id)
  have "length c \<ge> n"
  proof (rule ccontr)
    assume "\<not> n \<le> length c"
    moreover from assms(1) b obtain zs where "c @ 10 # r = replicate n 45 @ zs" by (auto simp: prefix_def)
    then have "(c @ 10 # r) ! length c = (replicate n 45 @ zs) ! length c" by simp
    ultimately show False by (simp add: nth_append)
  qed
  then show ?thesis using assms(1) by (simp add: b) (metis append_prefixD length_append length_replicate
      prefix_length_prefix prefixI trans_le_add1)
qed

lemma fence_first:
  assumes ff: "fence_free n body" and nl: "10 # body = a @ [10]"
    and eq: "a @ 10 # replicate n 45 @ r = a' @ 10 # replicate n 45 @ b'"
  shows "length a \<le> length a'"
proof (rule ccontr)
  assume "\<not> length a \<le> length a'"
  then obtain us where us: "a = a' @ us" "us \<noteq> []" "us @ 10 # replicate n 45 @ r = 10 # replicate n 45 @ b'"
    using eq by (auto simp: append_eq_append_conv2)
  then obtain c where c: "a = a' @ 10 # c" by (cases us) auto
  then have "replicate n 45 @ b' = (c @ [10]) @ replicate n 45 @ r" using eq by simp
  then have "prefix (replicate n 45) ((c @ [10]) @ replicate n 45 @ r)" by (metis prefixI)
  then have "prefix (replicate n 45) (c @ [10])" by (rule prefix_replicate_end) simp_all
  moreover have "10 # body = a' @ 10 # (c @ [10])" using nl c by simp
  ultimately show False using ff unfolding fence_free_def by blast
qed

lemma first_fence_free:
  assumes nl: "10 # body = a @ [10]" and first: "\<And>a' b'. a @ 10 # replicate n 45 @ r = a' @ 10 # replicate n 45 @ b' \<Longrightarrow> length a \<le> length a'"
    and n: "0 < n"
  shows "fence_free n body"
  unfolding fence_free_def
proof (intro allI impI notI)
  fix a' b assume b: "10 # body = a' @ 10 # b" and p: "prefix (replicate n 45) b"
  then obtain b' where b': "b = replicate n 45 @ b'" by (auto simp: prefix_def)
  have "a @ 10 # replicate n 45 @ r = a' @ 10 # replicate n 45 @ (b' @ replicate n 45 @ r)"
    using nl b b' by (metis append.assoc append_Cons append_Nil)
  then have "length a \<le> length a'" by (rule first)
  moreover have "length a' + length b = length a" using nl b by (metis add_Suc_right length_append length_append_singleton list.size(4) nat.inject add.right_neutral One_nat_def)
  ultimately show False using b' n by simp
qed

lemma find_shorter_not_Ok: "find_shorter lens fence n sp raw input \<noteq> Ok x"
  by (induction lens) (auto split: option.splits)

lemma first_line_end:
  "(case find_slice [10] s of Some (_, j) \<Rightarrow> j | None \<Rightarrow> bytes s) = bytes (first_line s)"
  by (simp add: find_newline first_line_def no_newline)

lemma trim_with_Nil: "trim_with P s = [] \<longleftrightarrow> list_all P s"
proof -
  have "trim_with P s = [] \<longleftrightarrow> (\<forall>x \<in> set (dropWhile P s). P x)"
    by (simp add: trim_with_def trim_end_with_def dropWhile_eq_Nil_conv)
  also have "\<dots> \<longleftrightarrow> (\<forall>x \<in> set s. P x)"
    by (metis UnE dropWhile_eq_Nil_conv empty_iff empty_set set_append set_takeWhileD takeWhile_dropWhile_id set_dropWhileD)
  finally show ?thesis by (simp add: list_all_iff)
qed

lemma tail_no_dash: "list_all is_horizontal_ws (strip_newline t) \<Longrightarrow> takeWhile (\<lambda>c. c = 45) t = []"
proof (cases t)
  case (Cons c u)
  assume *: "list_all is_horizontal_ws (strip_newline t)"
  show ?thesis
  proof (rule ccontr)
    assume "takeWhile (\<lambda>c. c = 45) t \<noteq> []"
    then have c: "c = 45" using Cons by (auto split: if_splits)
    have "\<exists>v. strip_newline t = 45 # v"
      using Cons c by (cases u rule: rev_cases; cases "butlast u" rule: rev_cases)
        (auto simp: strip_newline_def suffix_def Cons_eq_append_conv append_eq_Cons_conv butlast_append)
    then show False using * by (auto simp: is_horizontal_ws_def)
  qed
qed simp

lemma parse_after_Ok:
  assumes "raw = pre @ input" and "snd csp = bytes pre"
  shows "parse_after n osp csp raw input source = Ok s \<longleftrightarrow>
    list_all is_horizontal_ws (strip_newline (first_line input)) \<and>
    \<not> prefix [45] (drop (length (blank_lines (drop (length (first_line input)) input))) (drop (length (first_line input)) input)) \<and>
    s = source\<lparr>ss_content := (bytes pre + bytes (first_line input), bytes raw)\<rparr>"
proof -
  have "raw = (pre @ first_line input) @ drop (length (first_line input)) input" using assms(1) by simp
  then have start: "token_start raw (drop (length (first_line input)) input) = bytes pre + bytes (first_line input)"
    by (metis bytes_simps(3) token_start_append)
  show ?thesis
    unfolding parse_after_def first_line_end first_line_slice obind.simps prod.case Let_def start skip_ws_lines_eq trim_with_Nil
    using tail_no_dash [of "first_line input"] by (auto simp: fence_length_0)
qed

lemma body_newline: "(10 :: nat) # body = a @ [10] \<Longrightarrow> body = [] \<or> last body = 10"
  by (cases a) auto

lemma parse_close_Ok:
  assumes raw: "raw = pre @ 10 # x" and n: "0 < n"
  shows "parse_close n (replicate n 45) osp raw (10 # x) source = Ok s \<longleftrightarrow>
    (\<exists>body tail content. x = body @ replicate n 45 @ tail @ content \<and>
       (body = [] \<or> last body = 10) \<and> fence_free n body \<and>
       tail = first_line (tail @ content) \<and> list_all is_horizontal_ws (strip_newline tail) \<and>
       \<not> prefix [45] (drop (length (blank_lines content)) content) \<and>
       s = source\<lparr>ss_frontmatter := Some (bytes pre + 1, bytes pre + 1 + bytes body),
              ss_close := Some (bytes pre + 1 + bytes body, bytes pre + 1 + bytes body + n),
              ss_content := (bytes pre + 1 + bytes body + n + bytes tail, bytes raw)\<rparr>)"
    (is "?L \<longleftrightarrow> (\<exists>body tail content. ?R body tail content)")
proof -
  let ?f = "replicate n (45 :: nat)"
  have found: "parse_close n ?f osp raw (10 # x) source = Ok s \<longleftrightarrow>
      list_all is_horizontal_ws (strip_newline (first_line y)) \<and>
      \<not> prefix [45] (drop (length (blank_lines (drop (length (first_line y)) y))) (drop (length (first_line y)) y)) \<and>
      s = source\<lparr>ss_frontmatter := Some (bytes pre + 1, bytes pre + 1 + bytes body),
              ss_close := Some (bytes pre + 1 + bytes body, bytes pre + 1 + bytes body + n),
              ss_content := (bytes pre + 1 + bytes body + n + bytes (first_line y), bytes raw)\<rparr>"
    if fs: "find_slice (10 # ?f) (10 # x) = Some (bytes a, j)" and a: "10 # body = a @ [10]" and x: "x = body @ ?f @ y" for a j body y
  proof -
    have len: "bytes a + 1 = bytes (10 # body)" by (simp add: a)
    have s1: "next_slice (bytes a + 1) (10 # x) = Ok (10 # body, ?f @ y)"
      unfolding len x using next_slice_append [of "10 # body" "?f @ y"] by simp
    have s2: "next_slice n (?f @ y) = Ok (?f, y)" by (metis bytes_dashes next_slice_append)
    have r: "raw = (pre @ 10 # body) @ ?f @ y" "raw = (pre @ 10 # body @ ?f) @ y" by (simp_all add: raw x)
    have t: "token_start raw (?f @ y) = bytes pre + 1 + bytes body" "token_start raw y = bytes pre + 1 + bytes body + n"
      using token_start_append [of "pre @ 10 # body" "?f @ y"] token_start_append [of "pre @ 10 # body @ ?f" y]
      unfolding r(1) by simp_all
    have t0: "token_start raw (10 # x) = bytes pre" unfolding raw by simp
    show ?thesis
      unfolding parse_close_def fs option.case prod.case Let_def t0 s1 obind.simps s2 t
      using parse_after_Ok [OF r(2), of "(bytes pre + 1 + bytes body, bytes pre + 1 + bytes body + n)"]
      by (simp add: ac_simps)
  qed
  show ?thesis
  proof
    assume L: ?L
    then obtain i j where fs: "find_slice (10 # ?f) (10 # x) = Some (i, j)"
      by (auto simp: parse_close_def find_shorter_not_Ok split: option.splits)
    from find_slice_sound [OF this] obtain a y where a: "10 # x = a @ (10 # ?f) @ y" "i = bytes a"
      "\<And>a' b'. 10 # x = a' @ (10 # ?f) @ b' \<Longrightarrow> length a \<le> length a'" by blast
    obtain body where body: "10 # body = a @ [10]" using a(1) by (cases a) auto
    then have x: "x = body @ ?f @ y" using a(1) by (metis append.assoc append_Cons append_Nil list.inject)
    have "fence_free n body" by (rule first_fence_free [OF body _ n]) (use a in auto)
    then have "?R body (first_line y) (drop (length (first_line y)) y)"
      using found [OF fs [unfolded a(2)] body x] L body_newline [OF body] x by simp
    then show "\<exists>body tail content. ?R body tail content" by blast
  next
    assume "\<exists>body tail content. ?R body tail content"
    then obtain body tail content where R: "?R body tail content" by blast
    define a where "a = (if body = [] then [] else 10 # butlast body)"
    have body: "10 # body = a @ [10]" using R by (auto simp: a_def) (metis append_butlast_last_id)
    let ?y = "tail @ content"
    have x: "10 # x = a @ (10 # ?f) @ ?y" using R body by (metis append.assoc append_Cons append_Nil)
    have "find_slice (10 # ?f) (10 # x) = Some (bytes a, bytes a + bytes (10 # ?f))"
      unfolding x by (rule find_slice_first) (use fence_first [OF _ body] R in auto)
    moreover have "drop (length (first_line ?y)) ?y = content" "first_line ?y = tail"
      using R by (metis append_eq_conv_conj, simp)
    ultimately show ?L using found [OF _ body, of _ ?y] R by auto
  qed
qed

lemma takeWhile_info: "10 \<notin> set info \<Longrightarrow> takeWhile (\<lambda>c. c \<noteq> 10) (info @ 10 # x) = info"
  by (induction info) auto

text \<open>From the opening fence on, where \<open>before\<close> is the shebang and the blank lines.\<close>

lemma parse_open_Ok:
  assumes raw: "raw = before @ replicate n 45 @ r" and r: "\<not> prefix [45] r" and n: "3 \<le> n" "n \<le> 255"
  shows "(case find_slice [10] r of
       None \<Rightarrow> Err e
     | Some (i, _) \<Rightarrow>
         obind (next_slice i r) (\<lambda>(info, input).
           parse_close n (replicate n 45) osp raw input (source\<lparr>ss_info := info_span (token_start raw r) info\<rparr>))) = Ok s \<longleftrightarrow>
    (\<exists>info x. r = info @ 10 # x \<and> 10 \<notin> set info \<and> \<not> prefix [45] info \<and>
      parse_close n (replicate n 45) osp raw (10 # x) (source\<lparr>ss_info := info_span (bytes before + n) info\<rparr>) = Ok s)"
    (is "?L \<longleftrightarrow> ?R")
proof -
  have t: "token_start raw r = bytes before + n"
    using token_start_append [of "before @ replicate n 45" r] by (simp add: raw)
  have info: "\<not> prefix [45] info" if "r = info @ 10 # x" for info x
    using that r by (auto simp: prefix_def)
  show ?thesis
  proof
    assume L: ?L
    then have nl: "10 \<in> set r" by (auto simp: find_newline split: if_splits)
    let ?i = "takeWhile (\<lambda>c. c \<noteq> 10) r"
    obtain x where x: "r = ?i @ 10 # x"
      using nl first_line_prefix [of r] by (auto simp: first_line_def)
    have "next_slice (bytes ?i) r = (Ok (?i, 10 # x) :: (frontmatter_error, _) outcome)" by (subst x) (rule next_slice_append)
    moreover have "10 \<notin> set ?i" by (auto dest: set_takeWhileD)
    ultimately have "r = ?i @ 10 # x \<and> 10 \<notin> set ?i \<and> \<not> prefix [45] ?i \<and>
      parse_close n (replicate n 45) osp raw (10 # x) (source\<lparr>ss_info := info_span (bytes before + n) ?i\<rparr>) = Ok s"
      using L nl x info [OF x] by (simp add: find_newline t del: obind_Ok_iff)
    then show ?R by blast
  next
    assume ?R
    then obtain info x where x: "r = info @ 10 # x" "10 \<notin> set info"
      "parse_close n (replicate n 45) osp raw (10 # x) (source\<lparr>ss_info := info_span (bytes before + n) info\<rparr>) = Ok s" by blast
    have "find_slice [10] r = Some (bytes info, bytes info + 1)" using x(1,2) by (simp add: find_newline takeWhile_info)
    moreover have "next_slice (bytes info) r = (Ok (info, 10 # x) :: (frontmatter_error, _) outcome)" by (simp add: x(1))
    ultimately show ?L using x(3) by (simp add: t del: obind_Ok_iff)
  qed
qed

lemma script_parse_cases:
  obtains n r where
    "drop (length (shebang_line raw @ blank_lines (drop (length (shebang_line raw)) raw))) raw = replicate n 45 @ r"
    "\<not> prefix [45] r"
    "raw = (shebang_line raw @ blank_lines (drop (length (shebang_line raw)) raw)) @ replicate n 45 @ r"
    "script_parse raw =
       (let before = shebang_line raw @ blank_lines (drop (length (shebang_line raw)) raw);
            osp = (bytes before, bytes before + n) in
        if n = 0 then Ok (plain_source raw)
        else if n \<le> 2 then Err (fm_error (TooFewDashes n) (bytes raw, bytes raw) [osp])
        else if 255 < n then Err (fm_error (TooManyDashes n) osp [])
        else
          case find_slice [10] r of
            None \<Rightarrow> Err (fm_error (Unclosed (replicate n 45)) (bytes raw, bytes raw) [osp])
          | Some (i, _) \<Rightarrow>
              obind (next_slice i r) (\<lambda>(info, input).
                parse_close n (replicate n 45) osp raw input
                  ((plain_source raw)\<lparr>ss_open := Some osp, ss_info := info_span (token_start raw r) info\<rparr>)))"
proof -
  let ?rest = "drop (length (shebang_line raw)) raw"
  let ?in = "drop (length (blank_lines ?rest)) ?rest"
  let ?before = "shebang_line raw @ blank_lines ?rest"
  obtain n r where s: "?in = replicate n 45 @ r" "\<not> prefix [45] r" "fence_length ?in = n"
      and ns: "next_slice (fence_length ?in) ?in = (Ok (replicate n 45, r) :: (frontmatter_error, _) outcome)"
    by (rule fence_split)
  have raw: "raw = ?before @ replicate n 45 @ r" by (metis append.assoc blank_prefix s(1) shebang_prefix)
  have t: "token_start raw ?in = bytes ?before" "token_start raw r = bytes ?before + n"
    using token_start_append [of ?before "replicate n 45 @ r"] token_start_append [of "?before @ replicate n 45" r] raw s(1)
    by (simp_all only: append.assoc bytes_simps bytes_dashes)
  have ns': "next_slice n ?in = (Ok (replicate n 45, r) :: (frontmatter_error, _) outcome)" using ns s(3) by simp
  have run: "script_parse raw =
       (let before = ?before; osp = (bytes before, bytes before + n) in
        if n = 0 then Ok (plain_source raw)
        else if n \<le> 2 then Err (fm_error (TooFewDashes n) (bytes raw, bytes raw) [osp])
        else if 255 < n then Err (fm_error (TooManyDashes n) osp [])
        else
          case find_slice [10] r of
            None \<Rightarrow> Err (fm_error (Unclosed (replicate n 45)) (bytes raw, bytes raw) [osp])
          | Some (i, _) \<Rightarrow>
              obind (next_slice i r) (\<lambda>(info, input).
                parse_close n (replicate n 45) osp raw input
                  ((plain_source raw)\<lparr>ss_open := Some osp, ss_info := info_span (token_start raw r) info\<rparr>)))"
    unfolding script_parse_def parse_shebang_eq skip_ws_lines_eq obind.simps prod.case s(3) Let_def t ns' by (rule refl)
  show thesis
    by (rule that [OF _ s(2) raw run]) (use s(1) in \<open>simp add: add.commute\<close>)
qed

lemma dashes_unique:
  assumes "replicate n (45 :: nat) @ r = replicate m 45 @ q" "\<not> prefix [45] r" "\<not> prefix [45] q"
  shows "n = m \<and> r = q"
  using assms
proof (induction n arbitrary: m)
  case 0
  then show ?case by (cases m) (auto simp: prefix_def)
next
  case (Suc n)
  then show ?case by (cases m) (auto simp: prefix_def)
qed

lemma is_script_parts:
  assumes "is_script P"
  shows "raw = sp_text P \<Longrightarrow> shebang_line raw @ blank_lines (drop (length (shebang_line raw)) raw) = sp_shebang P @ sp_blank P"
    and "\<not> prefix [45] (sp_info P @ 10 # x)"
  using assms by (auto simp: is_script_def prefix_def append_eq_Cons_conv)

lemma parts_of_run:
  assumes raw: "raw = (sh @ bl) @ replicate n 45 @ info @ 10 # x" and sh: "sh = shebang_line raw"
    and bl: "bl = blank_lines (drop (length sh) raw)" and n: "3 \<le> n" "n \<le> 255"
    and info: "10 \<notin> set info" "\<not> prefix [45] info"
  shows "parse_close n (replicate n 45) (bytes (sh @ bl), bytes (sh @ bl) + n) raw (10 # x)
      ((plain_source raw)\<lparr>ss_open := Some (bytes (sh @ bl), bytes (sh @ bl) + n), ss_info := info_span (bytes (sh @ bl) + n) info\<rparr>) = Ok s \<longleftrightarrow>
    (\<exists>body tail content. let P = \<lparr>sp_shebang = sh, sp_blank = bl, sp_dashes = n, sp_info = info, sp_body = body, sp_tail = tail, sp_content = content\<rparr>
      in sp_text P = raw \<and> is_script P \<and> s = sp_spans P)"
proof -
  have pre: "raw = ((sh @ bl) @ replicate n 45 @ info) @ 10 # x" by (simp add: raw)
  have "0 < n" using n by simp
  note close = parse_close_Ok [OF pre this]
  have whole: "sp_text \<lparr>sp_shebang = sh, sp_blank = bl, sp_dashes = n, sp_info = info, sp_body = body, sp_tail = tail, sp_content = content\<rparr> = raw
      \<longleftrightarrow> x = body @ replicate n 45 @ tail @ content" for body tail content
    by (auto simp: sp_text_def raw)
  show ?thesis unfolding close Let_def whole
  proof (intro ex_cong1)
    fix body tail content
    let ?P = "\<lparr>sp_shebang = sh, sp_blank = bl, sp_dashes = n, sp_info = info, sp_body = body, sp_tail = tail, sp_content = content\<rparr>"
    show "(x = body @ replicate n 45 @ tail @ content \<and>
       (body = [] \<or> last body = 10) \<and> fence_free n body \<and>
       tail = first_line (tail @ content) \<and> list_all is_horizontal_ws (strip_newline tail) \<and>
       \<not> prefix [45] (drop (length (blank_lines content)) content) \<and>
       s = (plain_source raw)\<lparr>ss_open := Some (bytes (sh @ bl), bytes (sh @ bl) + n), ss_info := info_span (bytes (sh @ bl) + n) info,
              ss_frontmatter := Some (bytes ((sh @ bl) @ replicate n 45 @ info) + 1, bytes ((sh @ bl) @ replicate n 45 @ info) + 1 + bytes body),
              ss_close := Some (bytes ((sh @ bl) @ replicate n 45 @ info) + 1 + bytes body, bytes ((sh @ bl) @ replicate n 45 @ info) + 1 + bytes body + n),
              ss_content := (bytes ((sh @ bl) @ replicate n 45 @ info) + 1 + bytes body + n + bytes tail, bytes raw)\<rparr>) \<longleftrightarrow>
      (x = body @ replicate n 45 @ tail @ content \<and> is_script ?P \<and> s = sp_spans ?P)"
    proof (cases "x = body @ replicate n 45 @ tail @ content")
      case True
      then have t: "sp_text ?P = raw" by (simp add: whole)
      have "is_script ?P \<longleftrightarrow> (body = [] \<or> last body = 10) \<and> fence_free n body \<and>
         tail = first_line (tail @ content) \<and> list_all is_horizontal_ws (strip_newline tail) \<and>
         \<not> prefix [45] (drop (length (blank_lines content)) content)"
        unfolding is_script_def t by (simp add: sh [symmetric] bl [symmetric] n info)
      moreover have "sp_spans ?P = (plain_source raw)\<lparr>ss_open := Some (bytes (sh @ bl), bytes (sh @ bl) + n), ss_info := info_span (bytes (sh @ bl) + n) info,
              ss_frontmatter := Some (bytes ((sh @ bl) @ replicate n 45 @ info) + 1, bytes ((sh @ bl) @ replicate n 45 @ info) + 1 + bytes body),
              ss_close := Some (bytes ((sh @ bl) @ replicate n 45 @ info) + 1 + bytes body, bytes ((sh @ bl) @ replicate n 45 @ info) + 1 + bytes body + n),
              ss_content := (bytes ((sh @ bl) @ replicate n 45 @ info) + 1 + bytes body + n + bytes tail, bytes raw)\<rparr>"
        unfolding sp_spans_def t Let_def by (simp add: plain_source_def sh [symmetric] ac_simps)
      ultimately show ?thesis using True by simp
    qed simp
  qed
qed

text \<open>The dashes and what follows them are determined by the file.\<close>

lemma script_dashes:
  assumes P: "is_script P" "sp_text P = raw"
    and raw: "raw = (shebang_line raw @ blank_lines (drop (length (shebang_line raw)) raw)) @ replicate n 45 @ r"
    and r: "\<not> prefix [45] r"
  shows "sp_dashes P = n \<and> r = sp_info P @ 10 # sp_body P @ sp_fence P @ sp_tail P @ sp_content P \<and> 3 \<le> n \<and> n \<le> 255"
proof -
  let ?before = "shebang_line raw @ blank_lines (drop (length (shebang_line raw)) raw)"
  have "?before @ replicate n 45 @ r = ?before @ sp_fence P @ sp_info P @ 10 # sp_body P @ sp_fence P @ sp_tail P @ sp_content P"
    using raw is_script_parts(1) [OF P(1) P(2) [symmetric]] P(2) by (simp add: sp_text_def)
  then show ?thesis
    using dashes_unique [OF _ r is_script_parts(2) [OF P(1)]] P(1) by (auto simp: is_script_def)
qed

lemma fence_run:
  assumes raw: "raw = (sh @ bl) @ replicate n 45 @ r" and sh: "sh = shebang_line raw" and bl: "bl = blank_lines (drop (length sh) raw)"
    and r: "\<not> prefix [45] r" and n: "3 \<le> n" "n \<le> 255"
  shows "(\<exists>info x. r = info @ 10 # x \<and> 10 \<notin> set info \<and> \<not> prefix [45] info \<and>
      parse_close n (replicate n 45) (bytes (sh @ bl), bytes (sh @ bl) + n) raw (10 # x)
        ((plain_source raw)\<lparr>ss_open := Some (bytes (sh @ bl), bytes (sh @ bl) + n),
           ss_info := info_span (bytes (sh @ bl) + n) info\<rparr>) = Ok s) \<longleftrightarrow>
    (\<exists>P. is_script P \<and> sp_text P = raw \<and> s = sp_spans P)" (is "?L \<longleftrightarrow> ?R")
proof
  assume ?L
  then obtain info x where ix: "r = info @ 10 # x" "10 \<notin> set info" "\<not> prefix [45] info"
    "parse_close n (replicate n 45) (bytes (sh @ bl), bytes (sh @ bl) + n) raw (10 # x)
      ((plain_source raw)\<lparr>ss_open := Some (bytes (sh @ bl), bytes (sh @ bl) + n),
         ss_info := info_span (bytes (sh @ bl) + n) info\<rparr>) = Ok s" by blast
  from parts_of_run [OF raw [unfolded ix(1)] sh bl n ix(2,3), of s] ix(4)
  show ?R unfolding Let_def by blast
next
  assume ?R
  then obtain P where P: "is_script P" "sp_text P = raw" "s = sp_spans P" by blast
  from script_dashes [OF P(1,2) raw [unfolded bl sh] r]
  have rn: "sp_dashes P = n" "r = sp_info P @ 10 # sp_body P @ sp_fence P @ sp_tail P @ sp_content P" by auto
  have i: "10 \<notin> set (sp_info P)" "\<not> prefix [45] (sp_info P)" using P(1) by (simp_all add: is_script_def)
  have "P = \<lparr>sp_shebang = sh, sp_blank = bl, sp_dashes = n, sp_info = sp_info P, sp_body = sp_body P,
      sp_tail = sp_tail P, sp_content = sp_content P\<rparr>"
    using P(1,2) rn(1) sh bl by (auto simp: is_script_def)
  then have "\<exists>body tail content. let P = \<lparr>sp_shebang = sh, sp_blank = bl, sp_dashes = n, sp_info = sp_info P, sp_body = body,
      sp_tail = tail, sp_content = content\<rparr> in sp_text P = raw \<and> is_script P \<and> s = sp_spans P"
    using P unfolding Let_def by metis
  from parts_of_run [OF raw [unfolded rn(2)] sh bl n i, of s, THEN iffD2, OF this] rn(2) i show ?L by blast
qed

lemma script_parse_whole:
  "script_parse raw = Ok s \<longleftrightarrow>
     no_frontmatter raw \<and> s = plain_source raw \<or>
     (\<exists>P. is_script P \<and> sp_text P = raw \<and> s = sp_spans P)"
proof -
  let ?sh = "shebang_line raw"
  let ?bl = "blank_lines (drop (length ?sh) raw)"
  let ?run = "\<lambda>n r. (let before = ?sh @ ?bl; osp = (bytes before, bytes before + n) in
        if n = 0 then Ok (plain_source raw)
        else if n \<le> 2 then Err (fm_error (TooFewDashes n) (bytes raw, bytes raw) [osp])
        else if 255 < n then Err (fm_error (TooManyDashes n) osp [])
        else
          case find_slice [10] r of
            None \<Rightarrow> Err (fm_error (Unclosed (replicate n 45)) (bytes raw, bytes raw) [osp])
          | Some (i, _) \<Rightarrow>
              obind (next_slice i r) (\<lambda>(info, input).
                parse_close n (replicate n 45) osp raw input
                  ((plain_source raw)\<lparr>ss_open := Some osp, ss_info := info_span (token_start raw r) info\<rparr>)))"
  obtain n r where d: "drop (length (?sh @ ?bl)) raw = replicate n 45 @ r" and r: "\<not> prefix [45] r"
    and raw: "raw = (?sh @ ?bl) @ replicate n 45 @ r" and run: "script_parse raw = ?run n r"
    by (rule script_parse_cases)
  have none: "no_frontmatter raw \<longleftrightarrow> n = 0"
    using d r by (cases n) (auto simp: no_frontmatter_def Let_def add.commute prefix_def)
  show ?thesis
  proof (cases "3 \<le> n \<and> n \<le> 255")
    case False
    have "\<not> (is_script P \<and> sp_text P = raw)" for P using script_dashes [of P raw n r] raw r False by blast
    then show ?thesis using False none run by (auto simp: Let_def)
  next
    case True
    then have n: "n \<noteq> 0" "\<not> n \<le> 2" "\<not> 255 < n" "3 \<le> n" "n \<le> 255" by auto
    have "script_parse raw = Ok s \<longleftrightarrow> (\<exists>P. is_script P \<and> sp_text P = raw \<and> s = sp_spans P)"
      unfolding run Let_def fence_run [OF raw refl refl r n(4,5), symmetric]
      using n(1-3) parse_open_Ok [OF raw r n(4,5)] by (simp del: obind_Ok_iff)
    then show ?thesis using none n(1) by simp
  qed
qed

text \<open>
  C7: the parser accepts a file exactly if it has no frontmatter or has the form of a script: an
  optional shebang line, blank lines, three to 255 dashes with an info string, a body no line of
  which starts with as many dashes, the same number of dashes alone on a line, and content without
  a second fence. The spans it returns are those of the parts, so they lie in the file and on
  character boundaries.
\<close>

theorem script_parse_exact:
  "script_parse raw = Ok s \<longleftrightarrow>
     no_frontmatter raw \<and> s = plain_source raw \<or>
     (\<exists>P. is_script P \<and> sp_text P = raw \<and> s = sp_spans P)"
  by (rule script_parse_whole)

subsection \<open>The parts as slices\<close>

lemma str_slice_mid: "str_slice (a @ b @ c) (bytes a, bytes a + bytes b) = Ok b"
  by (simp add: str_slice_def del: obind_Ok_iff)

lemma str_slice_at: "raw = a @ b @ c \<Longrightarrow> i = bytes a \<Longrightarrow> j = bytes a + bytes b \<Longrightarrow> str_slice raw (i, j) = Ok b"
  by (simp only: str_slice_mid)

definition info_text :: "utext \<Rightarrow> utext" where
  "info_text info = trim_with is_horizontal_ws (if suffix [13] info then butlast info else info)"

lemma trim_with_split: "\<exists>b. s = takeWhile P s @ trim_with P s @ b"
proof -
  have "dropWhile P s = trim_with P s @ rev (takeWhile P (rev (dropWhile P s)))"
    by (simp add: trim_with_def trim_end_with_def flip: rev_append)
  then show ?thesis by (metis takeWhile_dropWhile_id)
qed

lemma info_slice:
  assumes "raw = a @ info @ c"
  shows "info_span (bytes a) info = None \<longleftrightarrow> info_text info = []"
    and "info_span (bytes a) info = Some sp \<Longrightarrow> str_slice raw sp = Ok (info_text info)"
proof -
  define i where "i = (if suffix [13] info then butlast info else info)"
  define t where "t = takeWhile is_horizontal_ws i"
  define x where "x = info_text info"
  have "\<exists>d. info = i @ d" by (auto simp: suffix_def i_def)
  then obtain d where d: "info = i @ d" by blast
  obtain b where b: "i = t @ x @ b"
    using trim_with_split [of i is_horizontal_ws] by (auto simp: info_text_def t_def x_def i_def)
  show "info_span (bytes a) info = None \<longleftrightarrow> info_text info = []"
    by (simp add: info_span_def info_text_def Let_def)
  assume "info_span (bytes a) info = Some sp"
  then have sp: "sp = (bytes (a @ t), bytes (a @ t) + bytes x)"
    by (auto simp: info_span_def info_text_def Let_def t_def x_def i_def split: if_splits)
  have "raw = a @ (i @ d) @ c" by (simp only: assms flip: d)
  then have "raw = (a @ t) @ x @ (b @ d @ c)" by (simp add: b)
  then show "str_slice raw sp = Ok (info_text info)" unfolding sp x_def [symmetric] by (rule str_slice_at) simp_all
qed

definition part_text :: "utext \<Rightarrow> utext option" where
  "part_text x = (if x = [] then None else Some x)"

lemma script_slices:
  assumes "is_script P"
  shows "ss_part (sp_spans P) (ss_shebang (sp_spans P)) = (Ok (part_text (sp_shebang P)) :: (frontmatter_error, _) outcome)"
    "ss_part (sp_spans P) (ss_open (sp_spans P)) = (Ok (Some (sp_fence P)) :: (frontmatter_error, _) outcome)"
    "ss_part (sp_spans P) (ss_info (sp_spans P)) = (Ok (part_text (info_text (sp_info P))) :: (frontmatter_error, _) outcome)"
    "ss_part (sp_spans P) (ss_frontmatter (sp_spans P)) = (Ok (Some (sp_body P)) :: (frontmatter_error, _) outcome)"
    "ss_part (sp_spans P) (ss_close (sp_spans P)) = (Ok (Some (sp_fence P)) :: (frontmatter_error, _) outcome)"
    "script_content (sp_spans P) = (Ok (sp_content P) :: (frontmatter_error, _) outcome)"
proof -
  have raw: "ss_raw (sp_spans P) = sp_text P" by (simp add: sp_spans_def Let_def)
  have slice: "str_slice (sp_text P) (bytes a, bytes a + bytes b) = (Ok b :: (frontmatter_error, _) outcome)" if "sp_text P = a @ b @ c" for a b c
    unfolding that by (rule str_slice_mid)
  show "ss_part (sp_spans P) (ss_shebang (sp_spans P)) = (Ok (part_text (sp_shebang P)) :: (frontmatter_error, _) outcome)"
    using slice [of "[]" "sp_shebang P"] by (simp add: ss_part_def raw part_text_def sp_spans_def Let_def sp_text_def del: obind_Ok_iff)
  show "ss_part (sp_spans P) (ss_open (sp_spans P)) = (Ok (Some (sp_fence P)) :: (frontmatter_error, _) outcome)"
    using slice [of "sp_shebang P @ sp_blank P" "sp_fence P"]
    by (simp add: ss_part_def raw sp_spans_def Let_def sp_text_def ac_simps)
  show "ss_part (sp_spans P) (ss_frontmatter (sp_spans P)) = (Ok (Some (sp_body P)) :: (frontmatter_error, _) outcome)"
    using slice [of "sp_shebang P @ sp_blank P @ sp_fence P @ sp_info P @ [10]" "sp_body P"]
    by (simp add: ss_part_def raw sp_spans_def Let_def sp_text_def ac_simps)
  show "ss_part (sp_spans P) (ss_close (sp_spans P)) = (Ok (Some (sp_fence P)) :: (frontmatter_error, _) outcome)"
    using slice [of "sp_shebang P @ sp_blank P @ sp_fence P @ sp_info P @ [10] @ sp_body P" "sp_fence P"]
    by (simp add: ss_part_def raw sp_spans_def Let_def sp_text_def ac_simps)
  show "script_content (sp_spans P) = (Ok (sp_content P) :: (frontmatter_error, _) outcome)"
    using slice [of "sp_shebang P @ sp_blank P @ sp_fence P @ sp_info P @ [10] @ sp_body P @ sp_fence P @ sp_tail P" "sp_content P" "[]"]
    by (simp add: script_content_def raw) (simp add: sp_spans_def Let_def sp_text_def ac_simps)
  have i: "sp_text P = (sp_shebang P @ sp_blank P @ sp_fence P) @ sp_info P @ ([10] @ sp_body P @ sp_fence P @ sp_tail P @ sp_content P)"
    by (simp add: sp_text_def)
  have slice_info: "info_span (bytes (sp_shebang P @ sp_blank P @ sp_fence P)) (sp_info P) = Some sp \<Longrightarrow>
      str_slice (sp_text P) sp = (Ok (info_text (sp_info P)) :: (frontmatter_error, _) outcome)" for sp
    by (rule info_slice(2) [OF i])
  have at: "ss_info (sp_spans P) = info_span (bytes (sp_shebang P @ sp_blank P @ sp_fence P)) (sp_info P)"
    by (simp add: sp_spans_def Let_def ac_simps)
  show "ss_part (sp_spans P) (ss_info (sp_spans P)) = (Ok (part_text (info_text (sp_info P))) :: (frontmatter_error, _) outcome)"
    using info_slice(1) [OF i] slice_info unfolding at
    by (cases "info_span (bytes (sp_shebang P @ sp_blank P @ sp_fence P)) (sp_info P)")
      (simp_all add: ss_part_def raw part_text_def del: obind_Ok_iff)
qed

text \<open>
  C26: every accessor of a parsed script returns: no span is out of range, reversed or inside a
  character. The slices are the parts the file is made of, in this order.
\<close>

theorem script_spans_sliceable:
  assumes "script_parse raw = Ok s"
  shows "\<exists>sh content. ss_raw s = raw \<and>
    ss_part s (ss_shebang s) = (Ok (part_text sh) :: (frontmatter_error, _) outcome) \<and>
    script_content s = (Ok content :: (frontmatter_error, _) outcome) \<and>
    (if ss_open s = None then raw = sh @ content \<and> ss_info s = None \<and> ss_frontmatter s = None \<and> ss_close s = None
     else \<exists>blank fence info body tail.
       raw = sh @ blank @ fence @ info @ [10] @ body @ fence @ tail @ content \<and>
       ss_part s (ss_open s) = (Ok (Some fence) :: (frontmatter_error, _) outcome) \<and>
       ss_part s (ss_info s) = (Ok (part_text (info_text info)) :: (frontmatter_error, _) outcome) \<and>
       ss_part s (ss_frontmatter s) = (Ok (Some body) :: (frontmatter_error, _) outcome) \<and>
       ss_part s (ss_close s) = (Ok (Some fence) :: (frontmatter_error, _) outcome))"
  using assms unfolding script_parse_whole
proof
  assume "no_frontmatter raw \<and> s = plain_source raw"
  then have s: "s = plain_source raw" by simp
  let ?sh = "shebang_line raw" and ?c = "drop (length (shebang_line raw)) raw"
  have raw: "raw = [] @ ?sh @ ?c" "raw = ?sh @ ?c @ []" by simp_all
  have "str_slice raw (0, bytes ?sh) = (Ok ?sh :: (frontmatter_error, _) outcome)"
    by (rule str_slice_at [OF raw(1)]) simp_all
  moreover have "str_slice raw (bytes ?sh, bytes raw) = (Ok ?c :: (frontmatter_error, _) outcome)"
    by (rule str_slice_at [OF raw(2)]) (simp_all flip: bytes_simps(3))
  ultimately show ?thesis
    by (intro exI [of _ ?sh] exI [of _ ?c]) (simp add: s plain_source_def ss_part_def script_content_def part_text_def del: obind_Ok_iff)
next
  assume "\<exists>P. is_script P \<and> sp_text P = raw \<and> s = sp_spans P"
  then obtain P where P: "is_script P" "sp_text P = raw" "s = sp_spans P" by blast
  have "ss_open s \<noteq> None" "ss_raw s = raw" by (simp_all add: P(3) sp_spans_def Let_def P(2))
  moreover have "raw = sp_shebang P @ sp_blank P @ sp_fence P @ sp_info P @ [10] @ sp_body P @ sp_fence P @ sp_tail P @ sp_content P"
    using P(2) by (simp add: sp_text_def)
  ultimately show ?thesis
    using script_slices [OF P(1)] unfolding P(3) by (metis (no_types, lifting))
qed

definition demo :: script_parts where
  "demo = \<lparr>sp_shebang = [35, 33, 120, 10], sp_blank = [10], sp_dashes = 3, sp_info = 32 # cargo_text, sp_body = [91, 97, 93, 10],
     sp_tail = [32, 10], sp_content = [102, 110]\<rparr>"

lemma demo_script: "is_script demo"
proof -
  have "fence_free 3 [91, 97, 93, 10]"
    by (auto simp: fence_free_def Cons_eq_append_conv numeral_3_eq_3)
  then show ?thesis
    by (simp add: is_script_def demo_def sp_text_def shebang_line_def first_line_def blank_lines_def trim_end_with_def
        is_pattern_ws_def is_std_ws_def is_horizontal_ws_def strip_newline_def suffix_Cons cargo_text_def numeral_3_eq_3)
qed

theorem script_spans_sliceable_witness:
  "\<exists>content. script_content (sp_spans demo) = (Ok content :: (frontmatter_error, _) outcome) \<and> suffix content (sp_text demo)"
proof -
  have run: "script_parse (sp_text demo) = Ok (sp_spans demo)" using demo_script script_parse_whole by blast
  have op: "ss_open (sp_spans demo) \<noteq> None" by (simp add: sp_spans_def Let_def)
  from script_spans_sliceable [OF run] op obtain sh content blank fence info body tail
    where "script_content (sp_spans demo) = (Ok content :: (frontmatter_error, _) outcome)"
      "sp_text demo = sh @ blank @ fence @ info @ [10] @ body @ fence @ tail @ content"
    unfolding if_not_P [OF op] by blast
  then show ?thesis by (intro exI [of _ content]) (metis append.assoc suffixI)
qed

subsection \<open>The manifest\<close>

lemma expand_script:
  assumes P: "is_script P"
  shows "expand_manifest (sp_text P) =
      (let info = info_text (sp_info P); info_at = ss_info (sp_spans P); close_at = ss_close (sp_spans P) in
       if info = [] \<or> info = cargo_text
       then Ok (sp_shebang P @ sp_blank P @ 35 # sp_fence P @ sp_info P @ 10 # sp_body P)
       else Err (fm_error (if prefix (cargo_text @ [44]) info then InfoAttributes (drop 6 info) else InfoUnsupported info)
         (the info_at) [the close_at]))"
proof -
  let ?before = "sp_shebang P @ sp_blank P"
  let ?front = "?before @ sp_fence P @ sp_info P @ 10 # sp_body P"
  have run: "script_parse (sp_text P) = Ok (sp_spans P)" using P script_parse_whole by blast
  have raw: "sp_text P = [] @ ?front @ (sp_fence P @ sp_tail P @ sp_content P)" by (simp add: sp_text_def)
  have front: "str_slice (sp_text P) (0, bytes ?front) = (Ok ?front :: (frontmatter_error, _) outcome)"
    by (rule str_slice_at [OF raw]) simp_all
  have ins: "str_insert ?front (bytes ?before) 35 = (Ok (?before @ 35 # sp_fence P @ sp_info P @ 10 # sp_body P) :: (frontmatter_error, _) outcome)"
    unfolding str_insert_def next_slice_append by simp
  have spans: "ss_frontmatter (sp_spans P) = Some (bytes ?before + sp_dashes P + bytes (sp_info P) + 1, bytes ?front)"
      "ss_open (sp_spans P) = Some (bytes ?before, bytes ?before + sp_dashes P)" "ss_close (sp_spans P) \<noteq> None"
    by (simp_all add: sp_spans_def Let_def ac_simps)
  have "ss_info (sp_spans P) \<noteq> None" if "info_text (sp_info P) \<noteq> []"
    using script_slices(3) [OF P] that
    by (cases "ss_info (sp_spans P)") (simp_all add: ss_part_def part_text_def)
  then show ?thesis
    unfolding expand_manifest_def run obind.simps spans(1) option.case script_slices(3) [OF P] snd_conv front spans(2) fst_conv ins
    using spans(3) by (auto simp: part_text_def Let_def cargo_text_def front ins simp del: bytes_simps)
qed

lemma expand_plain: "no_frontmatter raw \<Longrightarrow> expand_manifest raw = Ok (shebang_line raw)"
proof -
  assume nf: "no_frontmatter raw"
  have run: "script_parse raw = Ok (plain_source raw)" using nf script_parse_whole by blast
  have sl: "str_slice raw (0, bytes (shebang_line raw)) = (Ok (shebang_line raw) :: (frontmatter_error, _) outcome)"
    by (rule str_slice_at [of raw "[]" "shebang_line raw" "drop (length (shebang_line raw)) raw"]) simp_all
  have "str_slice raw (0, 0) = (Ok [] :: (frontmatter_error, _) outcome)"
    by (rule str_slice_at [of raw "[]" "[]" raw]) simp_all
  with sl show ?thesis
    unfolding expand_manifest_def run obind.simps by (simp add: plain_source_def)
qed

text \<open>
  C27: of a script whose info string is empty or \<open>cargo\<close>, the manifest is the file up to the end of
  the frontmatter with a \<open>#\<close> before the opening fence, so that every line of the body keeps its
  line number and what precedes it is a comment or blank; any other info string is an error at its
  place. A file without frontmatter has its shebang line as the manifest.
\<close>

theorem expand_manifest_script:
  "(is_script P \<longrightarrow>
     expand_manifest (sp_text P) =
      (let info = info_text (sp_info P); info_at = ss_info (sp_spans P); close_at = ss_close (sp_spans P) in
       if info = [] \<or> info = cargo_text
       then Ok (sp_shebang P @ sp_blank P @ 35 # sp_fence P @ sp_info P @ 10 # sp_body P)
       else Err (fm_error (if prefix (cargo_text @ [44]) info then InfoAttributes (drop 6 info) else InfoUnsupported info)
         (the info_at) [the close_at]))) \<and>
   (no_frontmatter raw \<longrightarrow> expand_manifest raw = Ok (shebang_line raw))"
  using expand_script [of P] expand_plain [of raw] by simp

theorem expand_manifest_script_witness:
  "expand_manifest (sp_text demo) = Ok ([35, 33, 120, 10, 10, 35, 45, 45, 45, 32] @ cargo_text @ [10, 91, 97, 93, 10]) \<and>
   expand_manifest [102, 110] = Ok []"
proof -
  have "info_text (sp_info demo) = cargo_text"
    by (simp add: demo_def info_text_def trim_with_def trim_end_with_def is_horizontal_ws_def cargo_text_def suffix_Cons)
  then have 1: "expand_manifest (sp_text demo) = Ok ([35, 33, 120, 10, 10, 35, 45, 45, 45, 32] @ cargo_text @ [10, 91, 97, 93, 10])"
    using expand_manifest_script [of demo] demo_script by (simp add: demo_def Let_def numeral_3_eq_3)
  have sh: "shebang_line [102, 110] = []" by (simp add: shebang_line_def)
  then have "no_frontmatter [102, 110]" by (simp add: no_frontmatter_def blank_lines_def trim_end_with_def is_pattern_ws_def)
  then show ?thesis using expand_manifest_script [of _ "[102, 110]"] 1 sh by simp
qed

subsection \<open>A fence that is too short at the end of the file\<close>

text \<open>
  When the closing fence is missing, the parser looks for the longest shorter fence to name it in
  its error. It takes as many bytes as the pattern with the newline has, one more than the dashes
  of the pattern: at the end of the file they are not there and the slice panics.
\<close>

lemma find_slice_short:
  "find_slice (10 # replicate m 45) (10 # 10 # replicate k 45) = (if m = 0 then Some (0, 1) else if m \<le> k then Some (1, 2 + m) else None)"
proof -
  have no: "find_slice (10 # replicate m 45) (replicate k 45) = None" for k
    by (induction k) (simp_all add: prefix_def)
  have pre: "prefix (replicate m (45 :: nat)) (replicate k 45) \<longleftrightarrow> m \<le> k"
    by (metis length_replicate prefixI prefix_length_le le_Suc_ex replicate_add)
  show ?thesis using no [of k] pre by (cases m) (auto simp: prefix_def)
qed

lemma split_at_short: "k < n \<Longrightarrow> split_at n (replicate k 45) = None"
proof (induction k arbitrary: n)
  case 0
  then show ?case by (cases n) simp_all
next
  case (Suc k)
  then show ?case by (cases n) simp_all
qed

theorem short_fence_panics:
  assumes "3 \<le> n" "n \<le> 255"
  shows "script_parse (replicate n 45 @ [10, 10] @ replicate (n - 2) 45) = Panic"
proof -
  let ?raw = "replicate n 45 @ [10, 10] @ replicate (n - 2) 45 :: utext"
  let ?short = "replicate (n - 2) 45 :: utext"
  have n: "replicate n 45 = 45 # replicate (n - 1) 45" "prefix [45] ?raw" using assms(1)
    by (metis One_nat_def Suc_pred less_le_trans replicate_Suc zero_less_numeral, cases n) auto
  have sh: "shebang_line ?raw = []" unfolding n(1) by (simp add: shebang_line_def)
  have bl: "blank_lines ?raw = []" unfolding n(1) by (simp add: blank_lines_def trim_end_with_def is_pattern_ws_def)
  have len: "rev [2..<bytes (10 # replicate n 45) - 1] = (n - 1) # rev [2..<n - 1]"
    using assms(1) upt_Suc_append [of 2 "n - 1"] by simp
  have found: "find_slice (10 # replicate n 45) (10 # 10 # ?short) = None"
      "find_slice (take (n - 1) (10 # replicate n 45)) (10 # 10 # ?short) = Some (1, n)"
    using assms(1) find_slice_short [of n "n - 2"] find_slice_short [of "n - 2" "n - 2"]
    by (simp_all add: take_Cons' min_def numeral_2_eq_2)
  have cut: "next_slice (1 + 1) (10 # 10 # ?short) = (Ok ([10, 10], ?short) :: (frontmatter_error, _) outcome)"
      "next_slice (n - 1) ?short = (Panic :: (frontmatter_error, utext \<times> utext) outcome)"
    using next_slice_append [of "[10, 10]" ?short] assms(1) by (simp_all add: next_slice_def split_at_short)
  have close: "parse_close n (replicate n 45) osp ?raw (10 # 10 # ?short) src = Panic" for osp src
    unfolding parse_close_def found(1) option.case len find_shorter.simps found(2) prod.case cut obind.simps ..
  obtain k r where d: "drop (length (shebang_line ?raw @ blank_lines (drop (length (shebang_line ?raw)) ?raw))) ?raw = replicate k 45 @ r"
    and r: "\<not> prefix [45] r"
    and run: "script_parse ?raw =
       (let before = shebang_line ?raw @ blank_lines (drop (length (shebang_line ?raw)) ?raw);
            osp = (bytes before, bytes before + k) in
        if k = 0 then Ok (plain_source ?raw)
        else if k \<le> 2 then Err (fm_error (TooFewDashes k) (bytes ?raw, bytes ?raw) [osp])
        else if 255 < k then Err (fm_error (TooManyDashes k) osp [])
        else
          case find_slice [10] r of
            None \<Rightarrow> Err (fm_error (Unclosed (replicate k 45)) (bytes ?raw, bytes ?raw) [osp])
          | Some (i, _) \<Rightarrow>
              obind (next_slice i r) (\<lambda>(info, input).
                parse_close k (replicate k 45) osp ?raw input
                  ((plain_source ?raw)\<lparr>ss_open := Some osp, ss_info := info_span (token_start ?raw r) info\<rparr>)))"
    by (rule script_parse_cases [of ?raw])
  have "replicate n 45 @ [10, 10] @ replicate (n - 2) 45 = replicate k 45 @ r" using d by (simp only: sh list.size drop_0 bl append_Nil)
  from dashes_unique [OF this _ r] have k: "k = n" and re: "r = [10, 10] @ replicate (n - 2) 45" by (auto simp: prefix_def)
  show ?thesis unfolding run k re using assms close by (simp add: Let_def next_slice_def)
qed

end
