(* ===== verification/DepInfo.thy ===== *)
theory DepInfo
  imports UnicodeText "HOL-Library.Sublist" "HOL-Library.Word"
begin

unbundle bit_operations_syntax

section \<open>Dep-info files (\<open>compiler/fingerprint/dep_info.rs\<close>)\<close>

text \<open>
  Cargo keeps, for every unit it compiled, the files and environment variables the unit depends on,
  in a binary format of its own, which it writes from the dep-info file of \<open>rustc\<close>.

  Bytes are \<open>8 word\<close>, the counters and lengths in the file \<open>32 word\<close> (a length that does not fit is
  cut off, as in the source), file lengths \<open>64 word\<close>. A Rust \<open>String\<close> in the binary format is the
  list of its bytes, which \<open>from_utf8\<close> checks; a Unix path is any list of bytes. A reader returns
  an option and the bytes that are left, also when it fails: one of them is called where the
  failure is not propagated. The text format of \<open>rustc\<close> is read as a list of code points; the
  \<open>hex\<close> crate is a parameter.
\<close>

type_synonym byte = "8 word"

subsection \<open>Bytes\<close>

primrec to_le :: "nat \<Rightarrow> 'a::len word \<Rightarrow> byte list" where
  "to_le 0 w = []"
| "to_le (Suc n) w = ucast w # to_le n (drop_bit 8 w)"

definition from_le :: "byte list \<Rightarrow> 'a::len word" where
  "from_le bs = foldr (\<lambda>b w. ucast b OR push_bit 8 w) bs 0"

definition is_cont :: "byte \<Rightarrow> bool" where
  "is_cont b \<longleftrightarrow> 128 \<le> b \<and> b < 192"

fun utf8_valid :: "byte list \<Rightarrow> bool" where
  "utf8_valid [] = True"
| "utf8_valid (b # bs) =
     (if b < 128 then utf8_valid bs
      else if 194 \<le> b \<and> b < 224 then
        (case bs of c # bs \<Rightarrow> is_cont c \<and> utf8_valid bs | _ \<Rightarrow> False)
      else if 224 \<le> b \<and> b < 240 then
        (case bs of
           c # d # bs \<Rightarrow>
             is_cont c \<and> (b = 224 \<longrightarrow> 160 \<le> c) \<and> (b = 237 \<longrightarrow> c < 160) \<and> is_cont d \<and> utf8_valid bs
         | _ \<Rightarrow> False)
      else if 240 \<le> b \<and> b < 245 then
        (case bs of
           c # d # e # bs \<Rightarrow>
             is_cont c \<and> (b = 240 \<longrightarrow> 144 \<le> c) \<and> (b = 244 \<longrightarrow> c < 144) \<and> is_cont d \<and> is_cont e \<and> utf8_valid bs
         | _ \<Rightarrow> False)
      else False)"

definition from_utf8 :: "byte list \<Rightarrow> byte list option" where
  "from_utf8 bs = (if utf8_valid bs then Some bs else None)"

subsection \<open>The binary format\<close>

datatype dep_info_path_type = PackageRootRelative | BuildRootRelative

record encoded_dep_info =
  di_files :: "(dep_info_path_type \<times> byte list \<times> (64 word \<times> byte list) option) list"
  di_env :: "(byte list \<times> byte list option) list"

definition current_version :: byte where
  "current_version = 1"

type_synonym 'a reader = "byte list \<Rightarrow> 'a option \<times> byte list"

definition read_u8 :: "byte reader" where
  "read_u8 bs = (case bs of [] \<Rightarrow> (None, bs) | b # bs \<Rightarrow> (Some b, bs))"

definition read_bool :: "bool reader" where
  "read_bool bs = (case read_u8 bs of (b, bs) \<Rightarrow> (map_option (\<lambda>b. b \<noteq> 0) b, bs))"

definition read_usize :: "nat reader" where
  "read_usize bs = (if length bs < 4 then (None, bs) else (Some (unat (from_le (take 4 bs) :: 32 word)), drop 4 bs))"

definition read_u64 :: "64 word reader" where
  "read_u64 bs = (if length bs < 8 then (None, bs) else (Some (from_le (take 8 bs)), drop 8 bs))"

definition read_bytes :: "byte list reader" where
  "read_bytes bs =
     (case read_usize bs of
        (None, bs) \<Rightarrow> (None, bs)
      | (Some n, bs) \<Rightarrow> if length bs < n then (None, bs) else (Some (take n bs), drop n bs))"

text \<open>The operator \<open>?\<close> on the result of a reader.\<close>

definition rtry :: "'a reader \<Rightarrow> ('a \<Rightarrow> byte list \<Rightarrow> 'b option) \<Rightarrow> byte list \<Rightarrow> 'b option" where
  "rtry r f bs = (case r bs of (None, _) \<Rightarrow> None | (Some x, bs) \<Rightarrow> f x bs)"

primrec repeat_read :: "nat \<Rightarrow> (byte list \<Rightarrow> ('a \<times> byte list) option) \<Rightarrow> byte list \<Rightarrow> ('a list \<times> byte list) option" where
  "repeat_read 0 r bs = Some ([], bs)"
| "repeat_read (Suc n) r bs =
     (case r bs of
        None \<Rightarrow> None
      | Some (x, bs) \<Rightarrow> map_option (\<lambda>(xs, bs). (x # xs, bs)) (repeat_read n r bs))"

definition read_magic_marker :: "byte list \<Rightarrow> byte list option" where
  "read_magic_marker = rtry read_usize (\<lambda>_. rtry read_u8 (\<lambda>path_type bs. if path_type \<noteq> - 1 then None else Some bs))"

definition read_checksum_info :: "bool \<Rightarrow> (64 word \<times> byte list) option reader" where
  "read_checksum_info has_checksum bs =
     (if has_checksum then
        (case read_u64 bs of (file_len, bs) \<Rightarrow>
         case read_bytes bs of (checksum, bs) \<Rightarrow>
           (Some (case (file_len, Option.bind checksum from_utf8) of (Some n, Some c) \<Rightarrow> Some (n, c) | _ \<Rightarrow> None), bs))
      else (Some None, bs))"

definition read_path_type :: "byte \<Rightarrow> dep_info_path_type option" where
  "read_path_type b = (if b = 0 then Some PackageRootRelative else if b = 1 then Some BuildRootRelative else None)"

definition read_file ::
  "byte list \<Rightarrow> ((dep_info_path_type \<times> byte list \<times> (64 word \<times> byte list) option) \<times> byte list) option" where
  "read_file =
     rtry read_u8 (\<lambda>b bs.
       case read_path_type b of
         None \<Rightarrow> None
       | Some ty \<Rightarrow>
           rtry read_bytes (\<lambda>path. rtry read_bool (\<lambda>has_checksum. rtry (read_checksum_info has_checksum) (\<lambda>info bs.
             Some ((ty, path, info), bs)))) bs)"

definition read_env :: "byte list \<Rightarrow> ((byte list \<times> byte list option) \<times> byte list) option" where
  "read_env =
     rtry read_bytes (\<lambda>key bs.
       case from_utf8 key of
         None \<Rightarrow> None
       | Some key \<Rightarrow>
           rtry read_u8 (\<lambda>b bs.
             if b = 0 then Some ((key, None), bs)
             else if b = 1 then
               rtry read_bytes (\<lambda>val bs. map_option (\<lambda>val. ((key, Some val), bs)) (from_utf8 val)) bs
             else None) bs)"

definition di_parse :: "byte list \<Rightarrow> encoded_dep_info option" where
  "di_parse bs =
     Option.bind (read_magic_marker bs)
       (rtry read_u8 (\<lambda>version.
         if version \<noteq> current_version then (\<lambda>_. None)
         else rtry read_usize (\<lambda>nfiles bs.
           Option.bind (repeat_read nfiles read_file bs) (\<lambda>(files, bs).
           rtry read_usize (\<lambda>nenv bs.
             map_option (\<lambda>(env, _). \<lparr>di_files = files, di_env = env\<rparr>) (repeat_read nenv read_env bs)) bs))))"

definition write_usize :: "nat \<Rightarrow> byte list" where
  "write_usize n = to_le 4 (of_nat n :: 32 word)"

definition write_u64 :: "64 word \<Rightarrow> byte list" where
  "write_u64 = to_le 8"

definition write_bytes :: "byte list \<Rightarrow> byte list" where
  "write_bytes bs = write_usize (length bs) @ bs"

definition write_bool :: "bool \<Rightarrow> byte list" where
  "write_bool b = [if b then 1 else 0]"

definition write_magic_marker :: "byte list" where
  "write_magic_marker = write_usize 1 @ [- 1]"

definition write_file :: "dep_info_path_type \<times> byte list \<times> (64 word \<times> byte list) option \<Rightarrow> byte list" where
  "write_file f =
     (case f of (ty, path, info) \<Rightarrow>
        [case ty of PackageRootRelative \<Rightarrow> 0 | BuildRootRelative \<Rightarrow> 1] @ write_bytes path @
        write_bool (info \<noteq> None) @
        (case info of None \<Rightarrow> [] | Some (len, checksum) \<Rightarrow> write_u64 len @ write_bytes checksum))"

definition write_env :: "byte list \<times> byte list option \<Rightarrow> byte list" where
  "write_env e =
     (case e of (key, val) \<Rightarrow>
        write_bytes key @ (case val of None \<Rightarrow> [0] | Some val \<Rightarrow> 1 # write_bytes val))"

definition di_serialize :: "encoded_dep_info \<Rightarrow> byte list" where
  "di_serialize info =
     write_magic_marker @ [current_version] @
     write_usize (length (di_files info)) @ concat (map write_file (di_files info)) @
     write_usize (length (di_env info)) @ concat (map write_env (di_env info))"

subsection \<open>Round trip\<close>

lemma from_le_Nil [simp]: "from_le [] = 0"
  and from_le_Cons [simp]: "from_le (b # bs) = ucast b OR push_bit 8 (from_le bs)"
  by (simp_all add: from_le_def)

lemma length_to_le [simp]: "length (to_le n w) = n"
  by (induction n arbitrary: w) simp_all

lemma from_to_le: "from_le (to_le n w) = take_bit (8 * n) w"
proof (induction n arbitrary: w)
  case (Suc n)
  show ?case
    by (rule bit_word_eqI) (auto simp: Suc bit_simps)
qed simp

lemma read_usize_write [simp]: "n < 2 ^ 32 \<Longrightarrow> read_usize (write_usize n @ bs) = (Some n, bs)"
  by (simp add: read_usize_def write_usize_def from_to_le take_bit_word_eq_self unsigned_of_nat take_bit_nat_eq_self)

lemma read_u64_write [simp]: "read_u64 (write_u64 w @ bs) = (Some w, bs)"
  by (simp add: read_u64_def write_u64_def from_to_le take_bit_word_eq_self)

lemma read_bytes_write [simp]: "length x < 2 ^ 32 \<Longrightarrow> read_bytes (write_bytes x @ bs) = (Some x, bs)"
  by (simp add: read_bytes_def write_bytes_def)

definition small :: "'a list \<Rightarrow> bool" where
  "small xs \<longleftrightarrow> length xs < 2 ^ 32"

definition file_fits :: "dep_info_path_type \<times> byte list \<times> (64 word \<times> byte list) option \<Rightarrow> bool" where
  "file_fits f =
     (case f of (_, path, info) \<Rightarrow>
        small path \<and> (case info of None \<Rightarrow> True | Some (_, checksum) \<Rightarrow> small checksum \<and> utf8_valid checksum))"

definition env_fits :: "byte list \<times> byte list option \<Rightarrow> bool" where
  "env_fits e =
     (case e of (key, val) \<Rightarrow>
        small key \<and> utf8_valid key \<and> (case val of None \<Rightarrow> True | Some v \<Rightarrow> small v \<and> utf8_valid v))"

definition di_fits :: "encoded_dep_info \<Rightarrow> bool" where
  "di_fits info \<longleftrightarrow> small (di_files info) \<and> small (di_env info) \<and> list_all file_fits (di_files info) \<and> list_all env_fits (di_env info)"

lemma read_file_write: "file_fits f \<Longrightarrow> read_file (write_file f @ bs) = Some (f, bs)"
  by (cases f) (auto simp: read_file_def write_file_def file_fits_def small_def rtry_def read_u8_def read_bool_def write_bool_def
      read_path_type_def read_checksum_info_def from_utf8_def split: dep_info_path_type.splits option.splits)

lemma read_env_write: "env_fits e \<Longrightarrow> read_env (write_env e @ bs) = Some (e, bs)"
  by (cases e) (auto simp: read_env_def write_env_def env_fits_def small_def rtry_def read_u8_def from_utf8_def split: option.splits)

lemma repeat_read_write:
  assumes "\<And>x bs. x \<in> set xs \<Longrightarrow> r (w x @ bs) = Some (x, bs)"
  shows "repeat_read (length xs) r (concat (map w xs) @ bs) = Some (xs, bs)"
  using assms by (induction xs) simp_all

lemma marker_write: "read_magic_marker (write_magic_marker @ bs) = Some bs"
  by (simp add: read_magic_marker_def write_magic_marker_def rtry_def read_u8_def)

lemma old_marker: "length m = 4 \<Longrightarrow> b \<noteq> - 1 \<Longrightarrow> di_parse (m @ b # bs) = None"
  by (simp add: di_parse_def read_magic_marker_def rtry_def read_usize_def read_u8_def)

lemma round_trip:
  assumes "di_fits info"
  shows "di_parse (di_serialize info @ rest) = Some info"
proof -
  have files: "repeat_read (length (di_files info)) read_file (concat (map write_file (di_files info)) @ bs) = Some (di_files info, bs)" for bs
    by (rule repeat_read_write) (use assms in \<open>auto simp: di_fits_def list_all_iff read_file_write\<close>)
  have env: "repeat_read (length (di_env info)) read_env (concat (map write_env (di_env info)) @ bs) = Some (di_env info, bs)" for bs
    by (rule repeat_read_write) (use assms in \<open>auto simp: di_fits_def list_all_iff read_env_write\<close>)
  show ?thesis
    using assms by (simp add: di_parse_def di_serialize_def marker_write rtry_def read_u8_def di_fits_def small_def files env)
qed

text \<open>
  C18: what is written for a unit is read back exactly, whatever follows it in the file, as long as
  no list and no string has 4 GiB entries; a file of the format before checksums, which has a path
  type after the number of files, is rejected.
\<close>

theorem dep_info_round_trip:
  assumes "di_fits info"
  shows "di_parse (di_serialize info @ rest) = Some info \<and>
    (\<forall>count path_type bs. length count = 4 \<and> read_path_type path_type \<noteq> None \<longrightarrow> di_parse (count @ path_type # bs) = None)"
proof -
  have "path_type \<noteq> - 1" if "read_path_type path_type \<noteq> None" for path_type
    using that by (auto simp: read_path_type_def split: if_splits)
  then show ?thesis using round_trip [OF assms] old_marker by blast
qed

theorem dep_info_round_trip_witness:
  "di_parse (di_serialize \<lparr>di_files = [(BuildRootRelative, [114, 115], Some (768, [99, 48]))], di_env = [([71], None)]\<rparr> @ [7]) =
     Some \<lparr>di_files = [(BuildRootRelative, [114, 115], Some (768, [99, 48]))], di_env = [([71], None)]\<rparr>"
proof -
  have "di_fits \<lparr>di_files = [(BuildRootRelative, [114, 115], Some (768, [99, 48]))], di_env = [([71], None)]\<rparr>"
    by (simp add: di_fits_def small_def file_fits_def env_fits_def)
  from dep_info_round_trip [OF this, of "[7]"] show ?thesis by blast
qed

subsection \<open>Checksums\<close>

datatype checksum_algo = Sha256 | Blake3

record checksum =
  ck_algo :: checksum_algo
  ck_value :: "byte list"

datatype invalid_checksum = InvalidChecksumAlgo | InvalidChecksum checksum_algo | InvalidFormat

text \<open>\<open>decode_to_slice\<close>, with the length of the slice, and \<open>encode\<close> of the \<open>hex\<close> crate.\<close>

record hex_ops =
  hx_decode :: "utext \<Rightarrow> nat \<Rightarrow> byte list option"
  hx_encode :: "byte list \<Rightarrow> utext"

definition hash_len :: "checksum_algo \<Rightarrow> nat" where
  "hash_len algo = (case algo of Sha256 \<Rightarrow> 32 | Blake3 \<Rightarrow> 32)"

definition utext_of :: "string \<Rightarrow> utext" where
  "utext_of s = map of_char s"

definition algo_text :: "checksum_algo \<Rightarrow> utext" where
  "algo_text algo = (case algo of Sha256 \<Rightarrow> utext_of ''sha256'' | Blake3 \<Rightarrow> utext_of ''blake3'')"

definition algo_parse :: "utext \<Rightarrow> (invalid_checksum, checksum_algo) outcome" where
  "algo_parse s =
     (if s = utext_of ''sha256'' then Ok Sha256 else if s = utext_of ''blake3'' then Ok Blake3
      else Err InvalidChecksumAlgo)"

fun usplit :: "nat \<Rightarrow> utext \<Rightarrow> utext list" where
  "usplit c [] = [[]]"
| "usplit c (x # s) =
     (if x = c then [] # usplit c s else case usplit c s of [] \<Rightarrow> [[x]] | w # ws \<Rightarrow> (x # w) # ws)"

definition checksum_parse :: "hex_ops \<Rightarrow> utext \<Rightarrow> (invalid_checksum, checksum) outcome" where
  "checksum_parse H s =
     (case usplit 61 s of
        [] \<Rightarrow> Err InvalidFormat
      | a # parts \<Rightarrow>
          obind (algo_parse a) (\<lambda>algo.
            case parts of
              [] \<Rightarrow> Err InvalidFormat
            | c # _ \<Rightarrow>
                (case hx_decode H c (hash_len algo) of
                   None \<Rightarrow> Err (InvalidChecksum algo)
                 | Some v \<Rightarrow> Ok \<lparr>ck_algo = algo, ck_value = v @ replicate (32 - hash_len algo) 0\<rparr>)))"

definition checksum_text :: "hex_ops \<Rightarrow> checksum \<Rightarrow> utext" where
  "checksum_text H c =
     algo_text (ck_algo c) @ [61] @ hx_encode H (take (hash_len (ck_algo c)) (ck_value c))"

text \<open>What the \<open>hex\<close> crate documents: lower-case hexadecimal digits that decode to the same bytes.\<close>

definition hex_ok :: "hex_ops \<Rightarrow> bool" where
  "hex_ok H \<longleftrightarrow> (\<forall>v. hx_decode H (hx_encode H v) (length v) = Some v \<and>
     (\<forall>c \<in> set (hx_encode H v). 48 \<le> c \<and> c \<le> 57 \<or> 97 \<le> c \<and> c \<le> 102))"

lemma usplit_append: "c \<notin> set a \<Longrightarrow> usplit c (a @ c # b) = a # usplit c b"
  by (induction a) auto

lemma usplit_single: "c \<notin> set a \<Longrightarrow> usplit c a = [a]"
  by (induction a) auto

lemma algo_text_parse: "algo_parse (algo_text a) = Ok a" and algo_text_plain: "61 \<notin> set (algo_text a)"
  by (cases a; simp add: algo_text_def algo_parse_def utext_of_def)+

lemma checksum_text_parse:
  assumes "hex_ok H" and "length (ck_value c) = 32"
  shows "checksum_parse H (checksum_text H c) = Ok c"
proof -
  have h: "hash_len (ck_algo c) = 32" by (simp add: hash_len_def split: checksum_algo.splits)
  have "61 \<notin> set (hx_encode H (ck_value c))" "hx_decode H (hx_encode H (ck_value c)) 32 = Some (ck_value c)"
    using assms unfolding hex_ok_def by fastforce (metis assms hex_ok_def)
  then show ?thesis
    using assms(2) h by (simp add: checksum_parse_def checksum_text_def usplit_append [OF algo_text_plain] usplit_single algo_text_parse del: obind_Ok_iff)
qed

subsection \<open>The dep-info file of \<open>rustc\<close>\<close>

datatype dep_info_error =
  UnknownEscape nat | UnterminatedEscape | TrailingBackslash | BadChecksum invalid_checksum

record rustc_dep_info =
  rd_files :: "(utext \<times> (64 word \<times> checksum) option) list"
  rd_env :: "(utext \<times> utext option) list"

fun unescape_env :: "utext \<Rightarrow> (dep_info_error, utext) outcome" where
  "unescape_env [] = Ok []"
| "unescape_env (c # s) =
     (if c \<noteq> 92 then obind (unescape_env s) (\<lambda>r. Ok (c # r))
      else case s of
        [] \<Rightarrow> Err UnterminatedEscape
      | d # s' \<Rightarrow>
          if d = 92 then obind (unescape_env s') (\<lambda>r. Ok (92 # r))
          else if d = 110 then obind (unescape_env s') (\<lambda>r. Ok (10 # r))
          else if d = 114 then obind (unescape_env s') (\<lambda>r. Ok (13 # r))
          else Err (UnknownEscape d))"

text \<open>\<open>str::lines\<close> and \<open>split_whitespace\<close>.\<close>

definition ulines :: "utext \<Rightarrow> utext list" where
  "ulines s =
     (let ws = usplit 10 s; strip = (\<lambda>l. if suffix [13] l then butlast l else l)
      in map strip (butlast ws) @ (if last ws = [] then [] else [last ws]))"

fun uwords :: "utext \<Rightarrow> utext list" where
  "uwords [] = []"
| "uwords (c # s) =
     (if is_std_ws c then uwords s
      else case s of
        [] \<Rightarrow> [[c]]
      | d # _ \<Rightarrow> if is_std_ws d then [c] # uwords s else case uwords s of [] \<Rightarrow> [[c]] | w # ws \<Rightarrow> (c # w) # ws)"

text \<open>
  The loops over the words of the dependency line: a word that ends with a backslash goes on with
  the next one, after a space.
\<close>

fun join_words :: "utext \<Rightarrow> utext list \<Rightarrow> (dep_info_error, utext list) outcome" where
  "join_words file [] = (if suffix [92] file then Err TrailingBackslash else Ok [file])"
| "join_words file (w # ws) =
     (if suffix [92] file then join_words (butlast file @ 32 # w) ws
      else obind (join_words w ws) (\<lambda>fs. Ok (file # fs)))"

definition dep_files :: "utext list \<Rightarrow> (dep_info_error, utext list) outcome" where
  "dep_files ws = (case ws of [] \<Rightarrow> Ok [] | w # ws \<Rightarrow> join_words w ws)"

fun usplitn :: "nat \<Rightarrow> nat \<Rightarrow> utext \<Rightarrow> utext list" where
  "usplitn 0 c s = []"
| "usplitn (Suc 0) c s = [s]"
| "usplitn (Suc (Suc n)) c s =
     (if c \<in> set s then takeWhile (\<lambda>x. x \<noteq> c) s # usplitn (Suc n) c (tl (dropWhile (\<lambda>x. x \<noteq> c) s)) else [s])"

definition parse_u64 :: "utext \<Rightarrow> 64 word option" where
  "parse_u64 s =
     (let ds = (if prefix [43] s then tl s else s);
          n = foldl (\<lambda>n d. 10 * n + (d - 48)) 0 ds
      in if ds \<noteq> [] \<and> list_all (\<lambda>d. 48 \<le> d \<and> d \<le> 57) ds \<and> n < 2 ^ 64 then Some (of_nat n) else None)"

fun find_sub :: "utext \<Rightarrow> utext \<Rightarrow> utext option" where
  "find_sub pat [] = (if pat = [] then Some [] else None)"
| "find_sub pat (c # s) = (if prefix pat (c # s) then Some (drop (length pat) (c # s)) else find_sub pat s)"

definition env_dep :: utext where
  "env_dep = utext_of ''# env-dep:''"

definition checksum_mark :: utext where
  "checksum_mark = utext_of ''# checksum:''"

definition read_env_dep :: "utext \<Rightarrow> (dep_info_error, utext \<times> utext option) outcome" where
  "read_env_dep rest =
     (case usplitn 2 61 rest of
        key # others \<Rightarrow>
          obind (case others of [] \<Rightarrow> Ok None | v # _ \<Rightarrow> obind (unescape_env v) (\<lambda>v. Ok (Some v))) (\<lambda>val.
          obind (unescape_env key) (\<lambda>key. Ok (key, val)))
      | [] \<Rightarrow> Panic)"

definition read_checksum_dep ::
  "hex_ops \<Rightarrow> utext \<Rightarrow> (dep_info_error, (utext \<times> 64 word \<times> checksum) option) outcome" where
  "read_checksum_dep H rest =
     (case usplitn 3 32 rest of
        [] \<Rightarrow> Ok None
      | c # others \<Rightarrow>
          (case checksum_parse H c of
             Err e \<Rightarrow> Err (BadChecksum e)
           | Ok c \<Rightarrow>
               Ok (case others of
                     l # path # _ \<Rightarrow>
                       if prefix (utext_of ''file_len:'') l
                       then map_option (\<lambda>n. (path, n, c)) (parse_u64 (drop 9 l)) else None
                   | _ \<Rightarrow> None)
           | _ \<Rightarrow> Panic))"

definition read_line ::
  "hex_ops \<Rightarrow> utext \<Rightarrow> bool \<times> rustc_dep_info \<Rightarrow> (dep_info_error, bool \<times> rustc_dep_info) outcome" where
  "read_line H line st =
     (case st of (found_deps, ret) \<Rightarrow>
        if prefix env_dep line then
          obind (read_env_dep (drop (length env_dep) line)) (\<lambda>e. Ok (found_deps, ret\<lparr>rd_env := rd_env ret @ [e]\<rparr>))
        else case find_sub [58, 32] line of
          Some rest \<Rightarrow>
            if found_deps then Ok st
            else obind (dep_files (uwords rest)) (\<lambda>fs.
              Ok (True, ret\<lparr>rd_files := fold (\<lambda>f m. if map_of m f = None then hm_insert f None m else m) fs (rd_files ret)\<rparr>))
        | None \<Rightarrow>
            if prefix checksum_mark line then
              obind (read_checksum_dep H (drop (length checksum_mark) line)) (\<lambda>r.
                case r of
                  None \<Rightarrow> Ok st
                | Some (path, n, c) \<Rightarrow> Ok (found_deps, ret\<lparr>rd_files := hm_insert path (Some (n, c)) (rd_files ret)\<rparr>))
            else Ok st)"

definition parse_rustc_dep_info :: "hex_ops \<Rightarrow> utext \<Rightarrow> (dep_info_error, rustc_dep_info) outcome" where
  "parse_rustc_dep_info H contents =
     obind (ofold (read_line H) (ulines contents) (False, \<lparr>rd_files = [], rd_env = []\<rparr>)) (\<lambda>(_, ret). Ok ret)"

subsection \<open>Reading what \<open>rustc\<close> writes\<close>

text \<open>
  A dep-info file, line by line, as the source and its comments describe it: Makefile rules, of which
  the first lists the files of the crate; \<open># env-dep:\<close> and \<open># checksum:\<close> comments; and lines that are
  none of these, such as blank lines and the phony rules without prerequisites. Spaces of a file name
  in a rule are escaped with a backslash; in the names and values of environment variables
  backslash, newline and carriage return are.
\<close>

definition escape_file :: "utext \<Rightarrow> utext" where
  "escape_file f = concat (map (\<lambda>c. if c = 32 then [92, 32] else [c]) f)"

definition escape_env :: "utext \<Rightarrow> utext" where
  "escape_env s = concat (map (\<lambda>c. if c = 92 then [92, 92] else if c = 10 then [92, 110] else if c = 13 then [92, 114] else [c]) s)"

definition env_line :: "utext \<times> utext option \<Rightarrow> utext" where
  "env_line e = env_dep @ escape_env (fst e) @ (case snd e of None \<Rightarrow> [] | Some v \<Rightarrow> 61 # escape_env v)"

fun spaced :: "utext list \<Rightarrow> utext" where
  "spaced [] = []"
| "spaced [w] = w"
| "spaced (w # ws) = w @ 32 # spaced ws"

fun udigits :: "nat \<Rightarrow> utext" where
  "udigits n = (if n < 10 then [48 + n] else udigits (n div 10) @ [48 + n mod 10])"

declare udigits.simps [simp del]

datatype dep_line =
    RuleLine utext "utext list"
  | EnvLine utext "utext option"
  | ChecksumLine checksum "64 word" utext
  | OtherLine utext

fun show_line :: "hex_ops \<Rightarrow> dep_line \<Rightarrow> utext" where
  "show_line H (RuleLine goal files) = goal @ [58, 32] @ spaced (map escape_file files)"
| "show_line H (EnvLine k v) = env_line (k, v)"
| "show_line H (ChecksumLine c n f) =
     checksum_mark @ checksum_text H c @ 32 # utext_of ''file_len:'' @ udigits (unat n) @ 32 # f"
| "show_line H (OtherLine l) = l"

definition dep_info_text :: "hex_ops \<Rightarrow> dep_line list \<Rightarrow> utext" where
  "dep_info_text H ls = concat (map (\<lambda>l. show_line H l @ [10]) ls)"

definition env_entries :: "dep_line list \<Rightarrow> (utext \<times> utext option) list" where
  "env_entries ls = List.map_filter (\<lambda>l. case l of EnvLine k v \<Rightarrow> Some (k, v) | _ \<Rightarrow> None) ls"

definition checksum_entries :: "dep_line list \<Rightarrow> (utext \<times> 64 word \<times> checksum) list" where
  "checksum_entries ls = List.map_filter (\<lambda>l. case l of ChecksumLine c n f \<Rightarrow> Some (f, n, c) | _ \<Rightarrow> None) ls"

fun first_rule :: "dep_line list \<Rightarrow> utext list" where
  "first_rule [] = []"
| "first_rule (RuleLine goal files # ls) = files"
| "first_rule (_ # ls) = first_rule ls"

definition file_ok :: "utext \<Rightarrow> bool" where
  "file_ok f \<longleftrightarrow> f \<noteq> [] \<and> last f \<noteq> 32 \<and> last f \<noteq> 92 \<and> (\<forall>c \<in> set f. is_std_ws c \<longrightarrow> c = 32)"

text \<open>
  Lines that can be told apart: file names have no white space but spaces and do not end with one or
  with a backslash; the goal of a rule does not start with \<open>#\<close> and neither it nor the path of a
  checksum contains \<open>": "\<close>; the name of an environment variable has no \<open>=\<close>.
\<close>

definition plain_line :: "utext \<Rightarrow> bool" where
  "plain_line l \<longleftrightarrow> 10 \<notin> set l \<and> \<not> suffix [13] l"

fun line_ok :: "dep_line \<Rightarrow> bool" where
  "line_ok (RuleLine goal files) \<longleftrightarrow>
     find_sub [58, 32] goal = None \<and> 10 \<notin> set goal \<and> \<not> prefix [35] goal \<and> (\<forall>f \<in> set files. file_ok f)"
| "line_ok (EnvLine k v) \<longleftrightarrow> 61 \<notin> set k"
| "line_ok (ChecksumLine c n f) \<longleftrightarrow> length (ck_value c) = 32 \<and> find_sub [58, 32] f = None \<and> plain_line f"
| "line_ok (OtherLine l) \<longleftrightarrow>
     plain_line l \<and> find_sub [58, 32] l = None \<and> \<not> prefix env_dep l \<and> \<not> prefix checksum_mark l"

lemma unescape_env_escape: "unescape_env (escape_env s) = Ok s"
  by (induction s) (auto simp: escape_env_def)

lemma escape_env_set: "10 \<notin> set (escape_env s)" "13 \<notin> set (escape_env s)" "61 \<in> set (escape_env s) \<longleftrightarrow> 61 \<in> set s"
  by (induction s) (auto simp: escape_env_def)

lemma takeWhile_mark: "m \<notin> set k \<Longrightarrow> takeWhile (\<lambda>x. x \<noteq> m) (k @ m # v) = k \<and> dropWhile (\<lambda>x. x \<noteq> m) (k @ m # v) = m # v"
  by (induction k) auto

lemma read_env_line: "61 \<notin> set k \<Longrightarrow> read_env_dep (drop (length env_dep) (env_line (k, v))) = Ok (k, v)"
  using takeWhile_mark [of 61 "escape_env k"] escape_env_set(3) [of k]
  by (cases v) (simp_all add: env_line_def read_env_dep_def numeral_2_eq_2 unescape_env_escape)

text \<open>The words of an escaped name, each but the last with a backslash.\<close>

fun name_words :: "utext \<Rightarrow> utext list" where
  "name_words [] = [[]]"
| "name_words (c # f) =
     (if c = 32 then [92] # name_words f else case name_words f of [] \<Rightarrow> [[c]] | w # ws \<Rightarrow> (c # w) # ws)"

lemma name_words_ne: "name_words f \<noteq> []"
  by (induction f) (auto split: list.splits)

lemma spaced_Cons: "ws \<noteq> [] \<Longrightarrow> spaced (w # ws) = w @ 32 # spaced ws"
  by (cases ws) simp_all

lemma escape_name_words: "escape_file f = spaced (name_words f)"
proof (induction f)
  case (Cons c f)
  show ?case
  proof (cases "c = 32")
    case True
    then show ?thesis using Cons name_words_ne [of f] by (simp add: escape_file_def spaced_Cons)
  next
    case False
    obtain w ws where w: "name_words f = w # ws" using name_words_ne [of f] by (cases "name_words f") auto
    then show ?thesis using Cons False by (cases ws) (simp_all add: escape_file_def)
  qed
qed (simp add: escape_file_def)

lemma suffix_last: "suffix [c] f \<longleftrightarrow> f \<noteq> [] \<and> last f = c"
  by (metis append_butlast_last_id append_is_Nil_conv last_snoc list.discI suffix_def)

lemma join_name:
  assumes "f \<noteq> []" "last f \<noteq> 32" "last f \<noteq> 92" "name_words f = w # ws"
  shows "join_words (pre @ w) (ws @ others) = obind (dep_files others) (\<lambda>fs. Ok ((pre @ f) # fs))"
  using assms
proof (induction f arbitrary: pre w ws)
  case (Cons c g)
  show ?case
  proof (cases "g = []")
    case True
    then show ?thesis using Cons.prems by (cases others) (auto simp: dep_files_def suffix_last)
  next
    case False
    obtain v vs where v: "name_words g = v # vs" using name_words_ne [of g] by (cases "name_words g") auto
    have g: "last g \<noteq> 32" "last g \<noteq> 92" using Cons.prems(2,3) False by simp_all
    show ?thesis
    proof (cases "c = 32")
      case True
      then have "w = [92]" "ws = v # vs" using Cons.prems(4) v by simp_all
      then show ?thesis using Cons.IH [OF False g v, of "pre @ [32]"] True by (simp add: suffix_last)
    next
      case c: False
      then have "w = c # v" "ws = vs" using Cons.prems(4) v by simp_all
      then show ?thesis using Cons.IH [OF False g v, of "pre @ [c]"] by simp
    qed
  qed
qed simp

lemma dep_files_names:
  assumes "\<forall>f \<in> set files. f \<noteq> [] \<and> last f \<noteq> 32 \<and> last f \<noteq> 92"
  shows "dep_files (concat (map name_words files)) = Ok files"
  using assms
proof (induction files)
  case (Cons f files)
  obtain w ws where w: "name_words f = w # ws" using name_words_ne [of f] by (cases "name_words f") auto
  then show ?case using Cons join_name [of f w ws "[]" "concat (map name_words files)"]
    by (simp add: dep_files_def [of "w # _"] del: obind_Ok_iff)
qed (simp add: dep_files_def)

definition is_word :: "utext \<Rightarrow> bool" where
  "is_word w \<longleftrightarrow> w \<noteq> [] \<and> (\<forall>c \<in> set w. \<not> is_std_ws c)"

lemma name_words_word:
  assumes "f \<noteq> []" "last f \<noteq> 32" "\<forall>c \<in> set f. is_std_ws c \<longrightarrow> c = 32" "w \<in> set (name_words f)"
  shows "is_word w"
  using assms
proof (induction f arbitrary: w)
  case (Cons c g)
  obtain v vs where v: "name_words g = v # vs" using name_words_ne [of g] by (cases "name_words g") auto
  have b: "is_word [92]" by (simp add: is_word_def is_std_ws_def)
  show ?case
  proof (cases "g = []")
    case True
    then show ?thesis using Cons.prems by (auto simp: is_word_def)
  next
    case False
    then have vs: "is_word x" if "x \<in> set (v # vs)" for x using Cons.IH [of x] Cons.prems that v by auto
    have "is_word (c # v)" if "c \<noteq> 32" using vs [of v] that Cons.prems(3) by (auto simp: is_word_def)
    then show ?thesis using vs Cons.prems(4) v b by (auto split: if_splits)
  qed
qed simp

lemma uwords_word: "is_word w \<Longrightarrow> uwords (w @ 32 # s) = w # uwords s \<and> uwords w = [w]"
proof (induction w)
  case (Cons c w)
  have sp: "is_std_ws 32" by (simp add: is_std_ws_def)
  have c: "\<not> is_std_ws c" using Cons.prems by (simp add: is_word_def)
  show ?case
  proof (cases w)
    case Nil
    then show ?thesis using sp c by simp
  next
    case w: (Cons d v)
    have "is_word w" using Cons.prems w by (simp add: is_word_def)
    moreover from this have "\<not> is_std_ws d" using w by (simp add: is_word_def)
    ultimately show ?thesis using Cons.IH w c by simp
  qed
qed (simp add: is_word_def)

lemma uwords_spaced: "\<forall>w \<in> set ws. is_word w \<Longrightarrow> uwords (spaced ws) = ws"
  by (induction ws rule: spaced.induct) (auto simp: uwords_word)

lemma spaced_append: "a \<noteq> [] \<Longrightarrow> b \<noteq> [] \<Longrightarrow> spaced (a @ b) = spaced a @ 32 # spaced b"
  by (induction a rule: spaced.induct) (auto simp: spaced_Cons)

lemma spaced_names: "spaced (map escape_file files) = spaced (concat (map name_words files))"
proof (induction files)
  case (Cons f files)
  have "name_words g \<noteq> []" for g by (rule name_words_ne)
  then show ?case
    using Cons by (cases files) (simp_all add: escape_name_words spaced_Cons spaced_append)
qed simp

lemma files_line:
  assumes "\<forall>f \<in> set files. file_ok f"
  shows "dep_files (uwords (spaced (map escape_file files))) = Ok files"
proof -
  have "\<forall>w \<in> set (concat (map name_words files)). is_word w"
    using assms name_words_word by (auto simp: file_ok_def)
  then show ?thesis
    using assms by (simp add: spaced_names uwords_spaced dep_files_names file_ok_def)
qed

lemma find_mark: "find_sub [58, 32] g = None \<Longrightarrow> find_sub [58, 32] (g @ 58 # 32 # r) = Some r"
proof (induction g)
  case (Cons c g)
  then show ?case by (cases g) (auto split: if_splits)
qed simp

lemma find_append_None:
  "58 \<notin> set g \<Longrightarrow> find_sub [58, 32] (g @ r) = find_sub [58, 32] r"
  by (induction g) auto

lemma find_colon_None:
  "c \<noteq> 32 \<Longrightarrow> find_sub [58, 32] (58 # c # r) = find_sub [58, 32] (c # r)"
  by simp

lemma usplit_lines: "\<forall>l \<in> set ls. 10 \<notin> set l \<Longrightarrow> usplit 10 (concat (map (\<lambda>l. l @ [10]) ls)) = ls @ [[]]"
  by (induction ls) (simp_all add: usplit_append)

lemma ulines_concat:
  assumes "\<forall>l \<in> set ls. 10 \<notin> set l \<and> \<not> suffix [13] l"
  shows "ulines (concat (map (\<lambda>l. l @ [10]) ls)) = ls"
proof -
  have "usplit 10 (concat (map (\<lambda>l. l @ [10]) ls)) = ls @ [[]]" using assms by (intro usplit_lines) blast
  moreover have "map (\<lambda>l. if suffix [13] l then butlast l else l) ls = ls" using assms by (induction ls) auto
  ultimately show ?thesis by (simp add: ulines_def Let_def)
qed

lemma env_line_plain: "10 \<notin> set (env_line e) \<and> \<not> suffix [13] (env_line e)"
proof -
  have "10 \<notin> set (env_line e)" "13 \<notin> set (env_line e)"
    by (auto simp: env_line_def env_dep_def utext_of_def escape_env_set split: option.splits)
  then show ?thesis by (auto simp: suffix_def)
qed

lemma spaced_set: "set (spaced (map escape_file files)) \<subseteq> insert 32 (insert 92 (\<Union> (set ` set files)))"
proof -
  have e: "set (escape_file f) \<subseteq> insert 32 (insert 92 (set f))" for f by (auto simp: escape_file_def split: if_splits)
  have "set (spaced ws) \<subseteq> insert 32 (\<Union> (set ` set ws))" for ws by (induction ws rule: spaced.induct) auto
  then have "set (spaced (map escape_file files)) \<subseteq> insert 32 (\<Union> (set ` escape_file ` set files))" by (metis set_map)
  then show ?thesis using e by fastforce
qed

lemma insert_defaults:
  "map_of (fold (\<lambda>f m. if map_of m f = None then hm_insert f None m else m) fs m) f =
     (if f \<in> set fs \<and> map_of m f = None then Some None else map_of m f)"
  by (induction fs arbitrary: m) (auto simp: get_hm_insert)

lemma udigits_ne: "udigits n \<noteq> []"
  by (subst udigits.simps) simp

lemma udigits_digit: "d \<in> set (udigits n) \<Longrightarrow> 48 \<le> d \<and> d \<le> 57"
proof (induction n arbitrary: d rule: udigits.induct)
  case (1 n)
  then show ?case by (subst (asm) (2) udigits.simps) (auto split: if_splits)
qed

lemma udigits_value: "foldl (\<lambda>n d. 10 * n + (d - 48)) 0 (udigits n) = n"
proof (induction n rule: udigits.induct)
  case (1 n)
  then show ?case by (subst udigits.simps) simp
qed

lemma parse_udigits: "parse_u64 (udigits (unat n)) = Some (n :: 64 word)"
proof -
  have "\<not> prefix [43] (udigits (unat n))"
    using udigits_digit [of 43 "unat n"] by (cases "udigits (unat n)") auto
  moreover have "list_all (\<lambda>d. 48 \<le> d \<and> d \<le> 57) (udigits (unat n))" using udigits_digit by (auto simp: list_all_iff)
  moreover have "unat n < 2 ^ 64" using unsigned_less [of n] by simp
  ultimately show ?thesis using udigits_ne [of "unat n"] by (simp add: parse_u64_def udigits_value)
qed

lemma checksum_text_set:
  assumes "hex_ok H" and "c' \<in> set (checksum_text H c)"
  shows "c' \<noteq> 10 \<and> c' \<noteq> 13 \<and> c' \<noteq> 32 \<and> c' \<noteq> 58"
proof -
  have "\<forall>c \<in> set (hx_encode H v). 48 \<le> c \<and> c \<le> 57 \<or> 97 \<le> c \<and> c \<le> 102" for v
    using assms(1) unfolding hex_ok_def by blast
  then show ?thesis
    using assms(2) by (cases "ck_algo c") (fastforce simp: checksum_text_def algo_text_def utext_of_def)+
qed

lemma read_checksum_line:
  assumes H: "hex_ok H" and c: "length (ck_value c) = 32"
  shows "read_checksum_dep H (checksum_text H c @ 32 # utext_of ''file_len:'' @ udigits (unat n) @ 32 # f) = Ok (Some (f, n, c))"
proof -
  let ?len = "utext_of ''file_len:'' @ udigits (unat n)"
  have c32: "32 \<notin> set (checksum_text H c)" using checksum_text_set [OF H, of 32 c] by blast
  have l32: "32 \<notin> set ?len" using udigits_digit [of 32 "unat n"] by (auto simp: utext_of_def)
  have "usplitn 3 32 (checksum_text H c @ 32 # ?len @ 32 # f) = [checksum_text H c, ?len, f]"
    using takeWhile_mark [OF c32, of "?len @ 32 # f"] takeWhile_mark [OF l32, of f] by (simp add: numeral_3_eq_3)
  moreover have "prefix (utext_of ''file_len:'') ?len" "drop 9 ?len = udigits (unat n)" by (simp_all add: utext_of_def)
  ultimately show ?thesis
    by (simp add: read_checksum_dep_def checksum_text_parse [OF H c] parse_udigits)
qed

lemma checksum_line_plain:
  assumes H: "hex_ok H" and f: "find_sub [58, 32] f = None" "plain_line f"
  shows "plain_line (show_line H (ChecksumLine c n f))" and "find_sub [58, 32] (show_line H (ChecksumLine c n f)) = None"
proof -
  have d: "x \<notin> set (udigits (unat n))" if "x < 48 \<or> 57 < x" for x
    using udigits_digit [of x "unat n"] that by auto
  note t = checksum_text_set [OF H, of _ c]
  have "10 \<notin> set (show_line H (ChecksumLine c n f))"
    using f(2) t [of 10] d [of 10] by (auto simp: plain_line_def checksum_mark_def utext_of_def)
  moreover have "\<not> suffix [13] (show_line H (ChecksumLine c n f))"
    using f(2) by (cases f rule: rev_cases) (auto simp: plain_line_def suffix_last)
  ultimately show "plain_line (show_line H (ChecksumLine c n f))" by (simp add: plain_line_def)
  have digits: "find_sub [58, 32] (udigits (unat n) @ 32 # f) = None"
    using find_append_None [of "udigits (unat n)"] d [of 58] f(1) by simp
  obtain x xs where x: "udigits (unat n) = x # xs" using udigits_ne [of "unat n"] by (cases "udigits (unat n)") auto
  have "x \<noteq> 32" using udigits_digit [of x "unat n"] by (auto simp: x)
  then have len: "find_sub [58, 32] (utext_of ''file_len:'' @ udigits (unat n) @ 32 # f) = None"
    using digits by (simp add: utext_of_def x)
  have "find_sub [58, 32] (checksum_text H c @ 32 # utext_of ''file_len:'' @ udigits (unat n) @ 32 # f) = None"
    using find_append_None [of "checksum_text H c" "32 # utext_of ''file_len:'' @ udigits (unat n) @ 32 # f"] t [of 58] len
    by auto
  moreover obtain y ys where "checksum_text H c = y # ys" "y \<noteq> 32"
    by (cases "ck_algo c") (auto simp: checksum_text_def algo_text_def utext_of_def)
  ultimately show "find_sub [58, 32] (show_line H (ChecksumLine c n f)) = None"
    by (simp add: checksum_mark_def utext_of_def)
qed

lemma rule_line_plain:
  assumes "line_ok (RuleLine goal files)"
  shows "plain_line (show_line H (RuleLine goal files))"
proof -
  have "c \<notin> set f" if "f \<in> set files" "is_std_ws c" "c \<noteq> 32" for c f using assms that by (auto simp: file_ok_def)
  moreover have "is_std_ws 10" "is_std_ws 13" by (simp_all add: is_std_ws_def)
  ultimately have "10 \<notin> insert 32 (insert 92 (\<Union> (set ` set files)))" "13 \<notin> insert 32 (insert 92 (\<Union> (set ` set files)))"
    by auto
  then have no: "10 \<notin> set (spaced (map escape_file files))" "13 \<notin> set (spaced (map escape_file files))"
    using spaced_set [of files] by blast+
  then have "spaced (map escape_file files) \<noteq> [] \<Longrightarrow> last (spaced (map escape_file files)) \<noteq> 13" by (metis last_in_set)
  with no assms show ?thesis by (auto simp: plain_line_def suffix_last split: if_splits)
qed

lemma lines_read:
  assumes H: "hex_ok H" and ok: "\<forall>l \<in> set ls. line_ok l"
  shows "ulines (dep_info_text H ls) = map (show_line H) ls"
proof -
  have "plain_line (show_line H l)" if "l \<in> set ls" for l
  proof (cases l)
    case (RuleLine goal files)
    then show ?thesis using ok that rule_line_plain by blast
  next
    case (EnvLine k v)
    then show ?thesis using env_line_plain [of "(k, v)"] by (simp add: plain_line_def)
  next
    case (ChecksumLine c n f)
    then show ?thesis using ok that checksum_line_plain(1) [OF H] by auto
  next
    case (OtherLine t)
    then show ?thesis using ok that by auto
  qed
  then have "ulines (concat (map (\<lambda>l. l @ [10]) (map (show_line H) ls))) = map (show_line H) ls"
    by (intro ulines_concat) (auto simp: plain_line_def)
  then show ?thesis by (simp add: dep_info_text_def comp_def)
qed

text \<open>What each kind of line does to the flag, the files and the variables.\<close>

lemma read_line_kinds:
  assumes H: "hex_ok H" and ok: "line_ok l"
  shows "read_line H (show_line H l) (b, ret) = Ok (case l of
      RuleLine goal files \<Rightarrow> (True, if b then ret else
        ret\<lparr>rd_files := fold (\<lambda>f m. if map_of m f = None then hm_insert f None m else m) files (rd_files ret)\<rparr>)
    | EnvLine k v \<Rightarrow> (b, ret\<lparr>rd_env := rd_env ret @ [(k, v)]\<rparr>)
    | ChecksumLine c n f \<Rightarrow> (b, ret\<lparr>rd_files := hm_insert f (Some (n, c)) (rd_files ret)\<rparr>)
    | OtherLine _ \<Rightarrow> (b, ret))"
proof (cases l)
  case (RuleLine goal files)
  have "\<not> prefix env_dep (show_line H l)"
    using ok by (cases goal) (simp_all add: RuleLine env_dep_def utext_of_def)
  then show ?thesis
    using ok find_mark [of goal] files_line [of files] by (simp add: RuleLine read_line_def del: obind_Ok_iff)
next
  case (EnvLine k v)
  then show ?thesis using ok read_env_line [of k v] by (simp add: read_line_def env_line_def)
next
  case (ChecksumLine c n f)
  have "\<not> prefix env_dep (show_line H l)"
    by (simp add: ChecksumLine env_dep_def checksum_mark_def utext_of_def)
  moreover have "find_sub [58, 32] (show_line H l) = None"
    using ok checksum_line_plain(2) [OF H] by (simp add: ChecksumLine del: show_line.simps)
  ultimately show ?thesis
    using ok read_checksum_line [OF H] by (simp add: ChecksumLine read_line_def del: obind_Ok_iff)
next
  case (OtherLine t)
  then show ?thesis using ok by (simp add: read_line_def)
qed

lemma entries_simps [simp]:
  "env_entries [] = []" "checksum_entries [] = []"
  "env_entries (l # ls) = (case l of EnvLine k v \<Rightarrow> [(k, v)] | _ \<Rightarrow> []) @ env_entries ls"
  "checksum_entries (l # ls) = (case l of ChecksumLine c n f \<Rightarrow> [(f, n, c)] | _ \<Rightarrow> []) @ checksum_entries ls"
  by (simp_all add: env_entries_def checksum_entries_def map_filter_simps split: dep_line.split)

lemma read_lines:
  assumes H: "hex_ok H" and "\<forall>l \<in> set ls. line_ok l"
  shows "\<exists>b' ret'. ofold (read_line H) (map (show_line H) ls) (b, ret) = Ok (b', ret') \<and>
    rd_env ret' = rd_env ret @ env_entries ls \<and>
    (\<forall>f. map_of (rd_files ret') f = (case map_of (rev (checksum_entries ls)) f of
        Some x \<Rightarrow> Some (Some x)
      | None \<Rightarrow> if \<not> b \<and> f \<in> set (first_rule ls) \<and> map_of (rd_files ret) f = None then Some None
                else map_of (rd_files ret) f))"
  using assms(2)
proof (induction ls arbitrary: b ret)
  case (Cons l ls)
  have ok: "line_ok l" "\<forall>l \<in> set ls. line_ok l" using Cons.prems by simp_all
  note step = read_line_kinds [OF H ok(1), of b ret]
  show ?case
  proof (cases l)
    case (RuleLine goal files)
    let ?ret = "if b then ret else
        ret\<lparr>rd_files := fold (\<lambda>f m. if map_of m f = None then hm_insert f None m else m) files (rd_files ret)\<rparr>"
    have got: "map_of (rd_files ?ret) f =
        (if \<not> b \<and> f \<in> set files \<and> map_of (rd_files ret) f = None then Some None else map_of (rd_files ret) f)" for f
      by (simp add: insert_defaults)
    obtain b' ret' where IH: "ofold (read_line H) (map (show_line H) ls) (True, ?ret) = Ok (b', ret')"
      "rd_env ret' = rd_env ?ret @ env_entries ls"
      "\<forall>f. map_of (rd_files ret') f = (case map_of (rev (checksum_entries ls)) f of
        Some x \<Rightarrow> Some (Some x) | None \<Rightarrow> map_of (rd_files ?ret) f)"
      using Cons.IH [OF ok(2), of True ?ret] by auto
    have "ofold (read_line H) (map (show_line H) (l # ls)) (b, ret) = Ok (b', ret')" using step IH(1) by (simp add: RuleLine)
    moreover have "rd_env ret' = rd_env ret @ env_entries (l # ls)" using IH(2) by (simp add: RuleLine)
    moreover have "map_of (rd_files ret') f = (case map_of (rev (checksum_entries (l # ls))) f of
        Some x \<Rightarrow> Some (Some x)
      | None \<Rightarrow> if \<not> b \<and> f \<in> set (first_rule (l # ls)) \<and> map_of (rd_files ret) f = None then Some None
                else map_of (rd_files ret) f)" for f
      using IH(3) unfolding got by (auto simp: RuleLine)
    ultimately show ?thesis by blast
  next
    case (EnvLine k v)
    have same: "rd_files (ret\<lparr>rd_env := rd_env ret @ [(k, v)]\<rparr>) = rd_files ret" by simp
    from Cons.IH [OF ok(2), of b "ret\<lparr>rd_env := rd_env ret @ [(k, v)]\<rparr>", unfolded same] step show ?thesis
      by (auto simp: EnvLine)
  next
    case (ChecksumLine c n p)
    let ?ret = "ret\<lparr>rd_files := hm_insert p (Some (n, c)) (rd_files ret)\<rparr>"
    obtain b' ret' where IH: "ofold (read_line H) (map (show_line H) ls) (b, ?ret) = Ok (b', ret')"
      "rd_env ret' = rd_env ?ret @ env_entries ls"
      "\<forall>f. map_of (rd_files ret') f = (case map_of (rev (checksum_entries ls)) f of
        Some x \<Rightarrow> Some (Some x)
      | None \<Rightarrow> if \<not> b \<and> f \<in> set (first_rule ls) \<and> map_of (rd_files ?ret) f = None then Some None
                else map_of (rd_files ?ret) f)"
      using Cons.IH [OF ok(2), of b ?ret] by auto
    have "ofold (read_line H) (map (show_line H) (l # ls)) (b, ret) = Ok (b', ret')" using step IH(1) by (simp add: ChecksumLine)
    moreover have "rd_env ret' = rd_env ret @ env_entries (l # ls)" using IH(2) by (simp add: ChecksumLine)
    moreover have "map_of (rd_files ret') f = (case map_of (rev (checksum_entries (l # ls))) f of
        Some x \<Rightarrow> Some (Some x)
      | None \<Rightarrow> if \<not> b \<and> f \<in> set (first_rule (l # ls)) \<and> map_of (rd_files ret) f = None then Some None
                else map_of (rd_files ret) f)" for f
      using IH(3) by (cases "map_of (rev (checksum_entries ls)) f") (simp_all add: ChecksumLine get_hm_insert map_add_def)
    ultimately show ?thesis by blast
  next
    case (OtherLine t)
    from Cons.IH [OF ok(2), of b ret] step show ?thesis by (auto simp: OtherLine)
  qed
qed simp


text \<open>Hexadecimal digits, two for each byte.\<close>

definition hex_digit :: "nat \<Rightarrow> nat" where
  "hex_digit n = (if n < 10 then 48 + n else 87 + n)"

definition hex_value :: "nat \<Rightarrow> nat" where
  "hex_value c = (if c \<le> 57 then c - 48 else c - 87)"

fun hex_pairs :: "utext \<Rightarrow> byte list" where
  "hex_pairs (a # b # s) = of_nat (16 * hex_value a + hex_value b) # hex_pairs s"
| "hex_pairs s = []"

definition hex_digits :: "byte list \<Rightarrow> utext" where
  "hex_digits v = concat (map (\<lambda>b. [hex_digit (unat b div 16), hex_digit (unat b mod 16)]) v)"

definition hex_codec :: hex_ops where
  "hex_codec = \<lparr>hx_decode = \<lambda>s n. if length s = 2 * n then Some (hex_pairs s) else None, hx_encode = hex_digits\<rparr>"

lemma hex_codec_ok: "hex_ok hex_codec"
proof -
  have inv: "hex_value (hex_digit n) = n" "48 \<le> hex_digit n \<and> hex_digit n \<le> 57 \<or> 97 \<le> hex_digit n \<and> hex_digit n \<le> 102"
    if "n < 16" for n using that by (auto simp: hex_value_def hex_digit_def)
  have byte: "unat (b :: byte) div 16 < 16" for b
  proof -
    have "unat b < 2 ^ LENGTH(8)" by (rule unsigned_less)
    then show ?thesis by simp
  qed
  have "hex_pairs (hex_digits v) = v \<and> length (hex_digits v) = 2 * length v" for v
    by (induction v) (simp_all add: hex_digits_def inv byte)
  moreover have "48 \<le> c \<and> c \<le> 57 \<or> 97 \<le> c \<and> c \<le> 102" if "c \<in> set (hex_digits v)" for c v
  proof -
    from that obtain b :: byte where "c = hex_digit (unat b div 16) \<or> c = hex_digit (unat b mod 16)" by (auto simp: hex_digits_def)
    then show ?thesis using inv(2) [of "unat b div 16"] inv(2) [of "unat b mod 16"] byte [of b] by auto
  qed
  ultimately show ?thesis by (simp add: hex_ok_def hex_codec_def)
qed

text \<open>
  A file with two rules and a phony one, a variable whose value has a newline, and a checksum for a
  file that the first rule lists.
\<close>

definition zero_checksum :: checksum where
  "zero_checksum = \<lparr>ck_algo = Blake3, ck_value = replicate 32 0\<rparr>"

definition example_lines :: "dep_line list" where
  "example_lines = [RuleLine [97] [[98, 32, 99], [100]], OtherLine [], RuleLine [101] [[102]], OtherLine [100, 58],
     EnvLine [75] (Some [10]), ChecksumLine zero_checksum 12 [100]]"


end
