(* ===== verification/Spec2Isabelle.thy ===== *)
theory Spec2Isabelle
  imports Prelude DepGraph GraphPaths DepQueue Cfg Versions Names Package Summary ConflictCache DepCache ResolverContext VersionPrefs Resolver ResolverSound Lto Rustfix EditDistance WorkQueue TimeSpan Resolve SourceIds Lockfile LockRoundTrip FeatureResults Frontmatter UnicodeText DepInfo
begin

text \<open>
  A verification development for Cargo, the package manager of Rust.

  \<^bold>\<open>The program.\<close> Cargo turns the manifest of a package into a build. The manifest gives
  \<^emph>\<open>summaries\<close> (a package id, dependencies with version requirements, a feature table). The
  \<^emph>\<open>resolver\<close> chooses one package for every dependency, asking a registry for candidates,
  ordering them by the \<^emph>\<open>version preferences\<close>, computing which features and optional
  dependencies are required, and backtracking over conflicts that it remembers in the
  \<^emph>\<open>conflict cache\<close>. The result is a \<^emph>\<open>dependency graph\<close>. The build then works through a
  \<^emph>\<open>dependency queue\<close> of units whose compiler settings, among them the LTO setting, follow from
  their place in the unit graph. Around this core stand small components: target selection by
  \<^emph>\<open>cfg expressions\<close>, time spans and the ages of the cache cleaner, spelling suggestions, the
  queue between worker threads, and \<^emph>\<open>rustfix\<close>, which applies the compiler's suggestions.

  \<^bold>\<open>Conventions.\<close> A Rust function is a HOL function with the same guards in the same order.
  Fallible code returns \<open>outcome\<close>: \<open>Ok\<close>, \<open>Err\<close> with a constructor for each error, \<open>Panic\<close> for
  a failed assertion, \<open>unwrap\<close>, \<open>expect\<close> or index, and \<open>OutOfFuel\<close> where the model bounds a
  recursion. Methods that change \<open>self\<close> return the new state. Ordered maps are key-sorted
  association lists, hash maps association lists with distinct keys in an arbitrary order. Code
  outside the repository (the \<open>semver\<close>, \<open>url\<close> and \<open>jiff\<close> crates, Unicode tables) is an argument
  of the definitions that use it. Texts of error messages, tracing and progress output are left out.

  \<^bold>\<open>Theories.\<close>

  \<^item> \<open>Prelude\<close>: outcomes with the total-correctness predicate \<open>owp\<close> and its loop rule, the map
    interface \<open>finite_map\<close> with its two interpretations, reachability, strings.
  \<^item> \<open>DepGraph\<close>, \<open>GraphPaths\<close> (\<open>util/graph.rs\<close>): every operation of \<open>Graph\<close>. \<open>sort\<close> is
    topological and panics exactly on a child that is no node, \<open>is_path_from_to\<close> decides
    reachability when all children are nodes, \<open>path_to_bottom\<close> and \<open>path_to_top\<close> end with a
    shortest path.
  \<^item> \<open>DepQueue\<close> (\<open>util/dependency_queue.rs\<close>): the build queue and its runs. Nodes come out after
    their dependencies, an acyclic build never gets stuck, and priorities are those documented,
    exact at the 64 bits of a \<open>usize\<close> with and without overflow checks.
  \<^item> \<open>Cfg\<close> (\<open>crates/cargo-platform\<close>): lexer, parser, printer and evaluation of cfg expressions;
    printing and parsing are inverse.
  \<^item> \<open>Versions\<close> (\<open>util/semver_ext.rs\<close>, \<open>semver_eval_ext.rs\<close>, partial versions, Rust versions,
    \<open>SemverCompatibility\<close>): pre-release matching is membership in an interval while the components
    of the requirement are below \<open>u64::MAX\<close>; \<open>caret_overflow\<close> shows what happens there.
  \<^item> \<open>Names\<close> (restricted and reserved names), \<open>Package\<close> (package ids, dependencies, artifacts),
    \<open>Summary\<close> (feature values and the validation of a feature table, which adds an implicit
    feature for exactly the optional dependencies that need one).
  \<^item> \<open>ConflictCache\<close> (\<open>resolver/conflict_cache.rs\<close>): the trie finds exactly the stored conflicts
    that are active, and the one that allows the furthest jump back.
  \<^item> \<open>DepCache\<close> (\<open>resolver/dep_cache.rs\<close>): feature requirements; the result is the closure of the
    requested features.
  \<^item> \<open>VersionPrefs\<close> (\<open>resolver/version_prefs.rs\<close>, the registry queries of \<open>dep_cache.rs\<close>): the order
    of the candidates, stated by preference, supported Rust versions and version.
  \<^item> \<open>ResolverContext\<close> (\<open>resolver/context.rs\<close>, \<open>types.rs\<close>), \<open>Resolver\<close> (\<open>resolver/mod.rs\<close>): the
    resolver as a state machine whose steps are the rounds of \<open>activate_deps_loop\<close>;
    \<open>ResolverSound\<close>: its invariants and that every resolution it returns is valid, replacements
    by \<open>[replace]\<close> included. \<open>registry_ok\<close> states what the registry promises: one summary for each
    package id among its answers, a replacement that is not replaced itself and whose
    slot of the activations no other package claims.
  \<^item> \<open>Resolve\<close> (\<open>resolver/resolve.rs\<close>, \<open>check_cycles\<close>): the resolved graph; the cycle check accepts
    exactly the acyclic resolutions and describes a cycle without a panic in \<open>describe_path\<close>,
    merging a lock file never changes a checksum.
  \<^item> \<open>SourceIds\<close> (\<open>workspace/source_id.rs\<close>, \<open>core/source_kind.rs\<close>, \<open>util/canonical_url.rs\<close>): source ids,
    their interning and their text, which reads back as an equal id.
  \<^item> \<open>Lockfile\<close> (\<open>resolver/encode.rs\<close>, \<open>cargo-util-schemas/lockfile.rs\<close>), \<open>LockRoundTrip\<close>: encoding
    and decoding of \<open>Cargo.lock\<close>. A compact package id is looked up as the package it was written
    for, a written lock file reads back as the same resolution, and the collision check accepts
    exactly the resolutions without two path packages of one name and version.
  \<^item> \<open>Features\<close> (\<open>resolver/features.rs\<close>), \<open>FeaturesSpec\<close>, \<open>FeaturesExact\<close>, \<open>FeatureResults\<close>: the feature
    resolver, what the manifests ask for as an inductive definition, and that the resolver ends
    with exactly that; the new behaviour never adds a feature to the old one.
  \<^item> \<open>Frontmatter\<close> (\<open>util/frontmatter.rs\<close>, \<open>workspace/parser/embedded.rs\<close>): manifests embedded in scripts.
    The parser accepts exactly the files of the documented form and returns the spans of their
    parts; on one kind of malformed file it panics.
  \<^item> \<open>UnicodeText\<close>, \<open>DepInfo\<close> (\<open>compiler/fingerprint/dep_info.rs\<close>): strings as code points; the binary
    dep-info format is read back as it was written, and a dep-info file of \<open>rustc\<close>, any sequence of
    rules, environment variables, checksums and other lines, is read with its escapes undone.
  \<^item> \<open>Lto\<close> (\<open>compiler/lto.rs\<close>): the LTO settings are the least assignment that meets all
    requirements, and the walk that computes them ends. The interface \<open>ranked_join\<close> states what
    the settings of one unit have to satisfy.
  \<^item> \<open>Rustfix\<close> (\<open>crates/rustfix\<close>), \<open>EditDistance\<close> (\<open>util/edit_distance.rs\<close>), \<open>WorkQueue\<close>
    (\<open>util/queue.rs\<close>, threads as a step relation), \<open>TimeSpan\<close> (\<open>util/time_span.rs\<close> and the
    options of \<open>workspace/gc.rs\<close>).

  \<^bold>\<open>Bounds.\<close> Recursions of the source that do not follow the structure of their argument have a
  depth or step bound in the model, and each has a lemma that the callers pass enough: the number
  of nodes plus one for \<open>sort_visit\<close>, the size of the graph for the path searches, the length of the input
  for the cfg parser, the size of the feature table plus one for features, three times the number
  of units plus one for the LTO walk, the number of packages plus two for the
  cycle check, seven times the wanted features and packages plus eight for the feature resolver. \<open>resolver_run\<close> is different: the number of rounds of
  the resolver is its argument, and the theorems speak about every number of rounds below \<open>2 ^ 32\<close>,
  the range of the insertion times.

  \<^bold>\<open>Integers.\<close> Widths are kept where a program value can reach them. \<open>uadd w checks\<close> adds at
  \<open>w\<close> bits, where \<open>checks\<close> tells a build that panics on overflow (and runs debug assertions) from one
  that wraps: the bounds of a version requirement (\<open>u64\<close>), the insertion time of pending
  dependencies (\<open>u32\<close>) and the costs of the build queue (\<open>usize\<close>) are added so. The product of a time span is
  64 bits wide and can wrap, and the bytes, 32-bit lengths and 64-bit sizes of a dep-info file are
  words, where a longer length is cut off. Other lengths, ages and counters that are bounded by memory are naturals.

  \<^bold>\<open>Not modelled.\<close> The command line and the operations behind it, loading and validating TOML
  manifests and configuration files, network, git and file system access of the sources, rustc
  command lines, fingerprints beyond their dep-info files and the job server, the cache database, credential providers and
  the test support crates: they are input and output around the components above, or data types
  for serde without logic. The feature resolver asks its package set which packages have proc macro
  targets; the answers are total parameters of the model, so the \<open>expect\<close> that the packages have been
  downloaded is not modelled. Of the resolver, the wait for pending registry answers is not modelled:
  the registry is a function whose answers are ready.
\<close>

end
